(* ===== verification/Snmp_Prelude.thy ===== *)
theory Snmp_Prelude
  imports Main "HOL-Library.Word"
begin

unbundle bit_operations_syntax

text \<open>
  Shared vocabulary of the development: the C integer types of the build this
  library models, errors as values, byte memory with checked reads, the
  write log of an encoder, and the lemmas on words and lists the components
  share.

  The configured build (\<^verbatim>\<open>include/net-snmp/net-snmp-config.h\<close>) has
  \<^verbatim>\<open>SIZEOF_LONG 4\<close>, so \<^verbatim>\<open>long\<close>, \<^verbatim>\<open>u_long\<close>,
  \<^verbatim>\<open>size_t\<close>, \<^verbatim>\<open>int\<close> and \<^verbatim>\<open>oid\<close> are 32-bit words; a signed value is
  the same word read with \<^const>\<open>sint\<close>. The \<^verbatim>\<open>CHECK_OVERFLOW\<close> macros of
  \<^verbatim>\<open>asn1.c\<close> are empty in this configuration.
\<close>

type_synonym u8 = "8 word"
type_synonym u32 = "32 word"
type_synonym u64 = "64 word"
type_synonym oid = "u32 list"

named_theorems byte_simps \<open>equations that evaluate reads of a memory holding known bytes\<close>
named_theorems bind_simps \<open>equations and inversions for the error bind\<close>

section \<open>Errors as values\<close>

definition ebind :: "'e + 'a \<Rightarrow> ('a \<Rightarrow> 'e + 'b) \<Rightarrow> 'e + 'b" where
  "ebind x f = (case x of Inl e \<Rightarrow> Inl e | Inr v \<Rightarrow> f v)"

lemma ebind_Inl [simp, bind_simps]: "ebind (Inl e) f = Inl e"
  and ebind_Inr [simp, bind_simps]: "ebind (Inr v) f = f v"
  by (simp_all add: ebind_def)

lemma ebind_eq_Inr [bind_simps]: "ebind x f = Inr w \<longleftrightarrow> (\<exists>v. x = Inr v \<and> f v = Inr w)"
  by (cases x) simp_all

lemma ebind_eq_Inl [bind_simps]:
  "ebind x f = Inl e \<longleftrightarrow> x = Inl e \<or> (\<exists>v. x = Inr v \<and> f v = Inl e)"
  by (cases x) simp_all

lemma ebind_assoc: "ebind (ebind x f) g = ebind x (\<lambda>v. ebind (f v) g)"
  by (cases x) simp_all

section \<open>Encoders as write logs\<close>

text \<open>
  A forward encoder stores bytes at increasing addresses from \<^verbatim>\<open>data\<close> on.
  Its model returns the bytes it stored, in order, and its outcome; the bytes
  are returned on failure too, so that a statement about the memory an encoder
  touches covers its error paths.
\<close>

definition wbind :: "u8 list \<times> ('e + 'a) \<Rightarrow> ('a \<Rightarrow> u8 list \<times> ('e + 'b)) \<Rightarrow> u8 list \<times> ('e + 'b)" where
  "wbind x f = (case x of (w, Inl e) \<Rightarrow> (w, Inl e)
                        | (w, Inr v) \<Rightarrow> (w @ fst (f v), snd (f v)))"

lemma wbind_Inl [simp, bind_simps]: "wbind (w, Inl e) f = (w, Inl e)"
  and wbind_Inr [simp, bind_simps]: "wbind (w, Inr v) f = (w @ fst (f v), snd (f v))"
  by (simp_all add: wbind_def)

lemma wbind_eq_Inr [bind_simps]:
  "wbind x f = (w, Inr r) \<longleftrightarrow>
     (\<exists>w1 v w2. x = (w1, Inr v) \<and> f v = (w2, Inr r) \<and> w = w1 @ w2)"
  by (auto simp: wbind_def prod_eq_iff split: prod.splits sum.splits)

section \<open>Words\<close>

lemma unat_le_mono_word: "(a::'a::len word) \<le> b \<Longrightarrow> unat a \<le> unat b"
  by (simp add: word_le_nat_alt)

lemma unat_sub_le: "(b::'a::len word) \<le> a \<Longrightarrow> unat (a - b) = unat a - unat b"
  by (simp add: unat_sub)

lemma unat_u8_bound: "unat (b :: u8) < 256"
proof -
  have "unat b < 2 ^ LENGTH(8)" by (rule unsigned_less)
  then show ?thesis by simp
qed

lemma unat_u32_bound: "unat (x :: u32) < 4294967296"
proof -
  have "unat x < 2 ^ LENGTH(32)" by (rule unsigned_less)
  then show ?thesis by simp
qed

lemma unat_ucast_u8_u32 [simp]: "unat (ucast (b :: u8) :: u32) = unat b"
  using unat_u8_bound[of b] by (simp add: unsigned_ucast_eq take_bit_nat_eq_self_iff)

lemma take_bit_u32_eq_self_iff: "n < 32 \<Longrightarrow> take_bit n (x :: u32) = x \<longleftrightarrow> x < 2 ^ n"
proof -
  assume "n < 32"
  then have "(2 :: nat) ^ n < 2 ^ 32" by (intro power_strict_increasing) simp_all
  then have e: "unat (2 ^ n :: u32) = 2 ^ n"
    using unat_of_nat[of "2 ^ n", where 'a = 32] by simp
  have "take_bit n x = x \<longleftrightarrow> take_bit n (unat x) = unat x"
    by (metis unsigned_take_bit_eq unsigned_word_eqI)
  also have "\<dots> \<longleftrightarrow> unat x < 2 ^ n" by (simp add: take_bit_nat_eq_self_iff)
  also have "\<dots> \<longleftrightarrow> x < 2 ^ n" by (simp add: word_less_nat_alt e)
  finally show ?thesis .
qed

text \<open>The bit patterns of the masks the sources use.\<close>

lemma and_0xFF [simp]: "(x :: u32) AND 0xFF = take_bit 8 x"
  by (simp add: take_bit_eq_mask mask_eq_exp_minus_1)

lemma and_0xFFFF [simp]: "(x :: u32) AND 0xFFFF = take_bit 16 x"
  by (simp add: take_bit_eq_mask mask_eq_exp_minus_1)

lemma and_0x7F [simp]: "(x :: u32) AND 0x7F = take_bit 7 x"
  by (simp add: take_bit_eq_mask mask_eq_exp_minus_1)

lemma ucast_take_bit_8 [simp]: "ucast (take_bit 8 (x :: u32)) = (ucast x :: u8)"
  by (rule bit_word_eqI) (auto simp: bit_simps)

lemma ucast_u8_u32: "(ucast (ucast (x :: u32) :: u8) :: u32) = take_bit 8 x"
  by (rule bit_word_eqI) (auto simp: bit_simps)

lemma mask_0xFF000000: "(0xFF000000 :: u32) = push_bit 24 (mask 8)"
  by (simp add: mask_eq_exp_minus_1)

lemma mask_0xFF800000: "(0xFF800000 :: u32) = push_bit 23 (mask 9)"
  by (simp add: mask_eq_exp_minus_1)

lemma mask_0x00FFFFFF: "(0x00FFFFFF :: u32) = mask 24"
  by (simp add: mask_eq_exp_minus_1)

lemma bit_0x80_u8 [simp]: "(b :: u8) AND 0x80 = 0 \<longleftrightarrow> \<not> bit b 7"
  using and_exp_eq_0_iff_not_bit[of b 7] by simp

lemma word_bit_eqI:
  "(\<And>n. n < LENGTH('a) \<Longrightarrow> bit (a::'a::len word) n = bit b n) \<Longrightarrow> a = b"
  by (rule bit_word_eqI) simp

lemma sint_neg_iff_bit: "sint (x :: u32) < 0 \<longleftrightarrow> bit x 31"
  by (simp add: sint_uint signed_take_bit_negative_iff bit_uint_iff)

lemma u32_small_nonneg: "unat (x :: u32) < 2 ^ 31 \<longleftrightarrow> \<not> sint x < 0"
proof -
  have "unat x < 2 ^ 31 \<longleftrightarrow> take_bit 31 x = x"
    by (simp add: take_bit_u32_eq_self_iff word_less_nat_alt)
  also have "\<dots> \<longleftrightarrow> \<not> bit x 31"
  proof
    show "\<not> bit x 31" if "take_bit 31 x = x"
      using that by (metis bit_take_bit_iff less_irrefl)
    show "take_bit 31 x = x" if "\<not> bit x 31"
    proof (rule word_bit_eqI)
      fix n assume "n < LENGTH(32)"
      with that show "bit (take_bit 31 x) n = bit x n"
        by (cases "n = 31") (auto simp: bit_simps)
    qed
  qed
  finally show ?thesis by (simp add: sint_neg_iff_bit)
qed

lemma bit31_iff: "bit (x :: u32) 31 \<longleftrightarrow> 2 ^ 31 \<le> unat x"
  using u32_small_nonneg[of x] by (auto simp: sint_neg_iff_bit)

lemma u32_of_nat_le: "n \<le> k \<Longrightarrow> k < 2 ^ 32 \<Longrightarrow> (of_nat n :: u32) \<le> of_nat k"
  by (simp add: word_le_nat_alt unat_of_nat)

lemma u32_of_nat_not_less: "n \<le> k \<Longrightarrow> k < 2 ^ 32 \<Longrightarrow> \<not> (of_nat k :: u32) < of_nat n"
  by (simp add: word_less_nat_alt unat_of_nat)

lemma u32_unat_of_nat: "n < 2 ^ 32 \<Longrightarrow> unat (of_nat n :: u32) = n"
  by (simp add: unat_of_nat)

lemma unat_drop_bit_less: "0 < k \<Longrightarrow> x \<noteq> 0 \<Longrightarrow> unat (drop_bit k (x :: u32)) < unat x"
proof -
  assume "0 < k" "x \<noteq> 0"
  then have "1 < (2 :: nat) ^ k" "0 < unat x" by (simp_all add: unat_gt_0 one_less_power del: One_nat_def)
  then have "unat x div 2 ^ k < unat x" by (intro div_less_dividend)
  moreover have "unat (drop_bit k x) = drop_bit k (unat x)" by (rule unat_drop_bit_eq)
  ultimately show ?thesis by (simp only: drop_bit_eq_div)
qed

lemma and_0x80_u8: "(b :: u8) AND 0x80 = (if bit b 7 then 0x80 else 0)"
  using and_exp_eq_0_iff_not_bit[of b 7]
proof (cases "bit b 7")
  case True
  have "b AND 2 ^ 7 = 2 ^ 7"
  proof (rule word_bit_eqI)
    fix n show "bit (b AND 2 ^ 7) n = bit (2 ^ 7 :: u8) n"
      using True unfolding bit_and_iff bit_exp_iff by auto
  qed
  with True show ?thesis by simp
qed simp

section \<open>Comparing memory\<close>

text \<open>
  \<^verbatim>\<open>memcmp\<close> of the C library, on two areas of the same length. Its sign is that of the first pair of different
  bytes, read as unsigned numbers.
\<close>

fun memcmp :: "u8 list \<Rightarrow> u8 list \<Rightarrow> int" where
  "memcmp (a # as) (b # bs) = (if a = b then memcmp as bs else if a < b then - 1 else 1)"
| "memcmp _ _ = 0"

lemma memcmp_append: "length a = length b \<Longrightarrow> memcmp (a @ a') (b @ b') = (if a = b then memcmp a' b' else memcmp a b)"
  by (induction a b rule: list_induct2) auto

lemma memcmp_zero: "length a = length b \<Longrightarrow> memcmp a b = 0 \<longleftrightarrow> a = b"
  by (induction a b rule: list_induct2) auto

end
