(* ===== verification/Big_Endian.thy ===== *)
theory Big_Endian
  imports Snmp_Prelude
begin

unbundle bit_operations_syntax

text \<open>
  Words as sequences of octets, most significant first: the octets of a word,
  the word of a sequence of octets, and the least number of octets that still
  determine a signed or an unsigned word. These are the reference encodings
  the integer loops of \<^verbatim>\<open>snmplib/asn1.c\<close> are compared with.
\<close>

primrec be_bytes :: "nat \<Rightarrow> 'a::len word \<Rightarrow> u8 list" where
  "be_bytes 0 x = []"
| "be_bytes (Suc n) x = ucast (drop_bit (8 * n) x) # be_bytes n x"

definition be_value :: "'a::len word \<Rightarrow> u8 list \<Rightarrow> 'a word" where
  "be_value acc bs = foldl (\<lambda>v b. push_bit 8 v OR ucast b) acc bs"

lemma be_value_Nil [simp]: "be_value acc [] = acc"
  and be_value_Cons [simp]: "be_value acc (b # bs) = be_value (push_bit 8 acc OR ucast b) bs"
  by (simp_all add: be_value_def)

lemma length_be_bytes [simp]: "length (be_bytes n x) = n"
  by (induction n) simp_all

lemma be_value_be_bytes:
  "be_value acc (be_bytes n x) = push_bit (8 * n) acc OR take_bit (8 * n) (x :: 'a::len word)"
proof (induction n arbitrary: acc)
  case 0
  then show ?case by simp
next
  case (Suc n)
  show ?case
    by (rule word_bit_eqI) (auto simp: Suc.IH bit_simps ac_simps)
qed

lemma be_bytes_hd:
  "0 < n \<Longrightarrow> be_bytes n x \<noteq> [] \<and> bit (hd (be_bytes n (x :: 'a::len word))) 7 = bit x (8 * n - 1)"
  by (cases n) (auto simp: bit_simps ac_simps)

lemma all_equal_iff:
  "R (c :: nat) \<Longrightarrow> ((\<forall>n. R n \<longrightarrow> \<not> P n) \<or> (\<forall>n. R n \<longrightarrow> P n)) = (\<forall>n. R n \<longrightarrow> P n = P c)"
  by blast

definition fits_signed :: "nat \<Rightarrow> 'a::len word \<Rightarrow> bool" where
  "fits_signed n x \<longleftrightarrow> signed_take_bit (8 * n - 1) x = x"

lemma fits_signed_iff:
  "fits_signed n (x :: 'a::len word) \<longleftrightarrow>
     (\<forall>k. 8 * n - 1 \<le> k \<and> k < LENGTH('a) \<longrightarrow> bit x k = bit x (8 * n - 1))"
  unfolding fits_signed_def bit_eq_iff[of "signed_take_bit (8 * n - 1) x" x]
  by (auto simp: bit_simps min_def)

lemma fits_signedD:
  "fits_signed n (x :: 'a::len word) \<Longrightarrow> 8 * n - 1 \<le> k \<Longrightarrow> k < LENGTH('a) \<Longrightarrow>
     bit x k = bit x (8 * n - 1)"
  unfolding fits_signed_iff by blast

lemma fits_signedI:
  "(\<And>k. 8 * n - 1 \<le> k \<Longrightarrow> k < LENGTH('a) \<Longrightarrow> bit x k = bit x (8 * n - 1)) \<Longrightarrow>
     fits_signed n (x :: 'a::len word)"
  unfolding fits_signed_iff by blast

fun min_octets :: "nat \<Rightarrow> 'a::len word \<Rightarrow> nat" where
  "min_octets n x = (if 1 < n \<and> fits_signed (n - 1) x then min_octets (n - 1) x else n)"

declare min_octets.simps [simp del]

lemma min_octets_bounds: "0 < n \<Longrightarrow> 0 < min_octets n x \<and> min_octets n x \<le> n"
proof (induction n x rule: min_octets.induct)
  case (1 n x)
  then show ?case by (subst (1 2) min_octets.simps) auto
qed

lemma min_octets_fits: "fits_signed n x \<Longrightarrow> fits_signed (min_octets n x) x"
proof (induction n x rule: min_octets.induct)
  case (1 n x)
  then show ?case by (subst min_octets.simps) auto
qed

lemma fits_signed_full: "LENGTH('a) \<le> 8 * n \<Longrightarrow> fits_signed n (x :: 'a::len word)"
proof (rule fits_signedI)
  fix k assume "LENGTH('a) \<le> 8 * n" "8 * n - 1 \<le> k" "k < LENGTH('a)"
  then have "k = 8 * n - 1" by linarith
  then show "bit x k = bit x (8 * n - 1)" by simp
qed

lemma signed_value_be_bytes:
  assumes "fits_signed n (x :: 'a::len word)" "0 < n" "8 * n \<le> LENGTH('a)"
  shows "be_value (if bit x (8 * n - 1) then - 1 else 0) (be_bytes n x) = x"
  unfolding be_value_be_bytes
proof (rule word_bit_eqI)
  fix k assume k: "k < LENGTH('a)"
  show "bit (push_bit (8 * n) (if bit x (8 * n - 1) then - 1 else 0) OR take_bit (8 * n) x) k = bit x k"
  proof (cases "k < 8 * n")
    case True
    then show ?thesis by (simp add: bit_simps)
  next
    case False
    then have "bit x k = bit x (8 * n - 1)"
      using fits_signedD[OF assms(1), of k] k by simp
    with False k show ?thesis by (auto simp: bit_simps)
  qed
qed

definition top9 :: "'a::len word \<Rightarrow> bool" where
  "top9 i \<longleftrightarrow> (\<forall>k < 9. bit i (LENGTH('a) - 1 - k) = bit i (LENGTH('a) - 1))"

lemma top9_shifted:
  assumes "fits_signed n (x :: 'a::len word)" "1 < n" "8 * n \<le> LENGTH('a)"
  shows "top9 (push_bit (LENGTH('a) - 8 * n) x) \<longleftrightarrow> fits_signed (n - 1) x"
proof -
  have idx: "bit (push_bit (LENGTH('a) - 8 * n) x) (LENGTH('a) - 1 - k) = bit x (8 * n - 1 - k)"
    if "k < 9" for k
    using assms that by (auto simp: bit_simps)
  have "top9 (push_bit (LENGTH('a) - 8 * n) x) \<longleftrightarrow> (\<forall>k<9. bit x (8 * n - 1 - k) = bit x (8 * n - 1))"
    using idx idx[of 0] by (simp add: top9_def)
  also have "\<dots> \<longleftrightarrow> fits_signed (n - 1) x"
  proof
    assume *: "\<forall>k<9. bit x (8 * n - 1 - k) = bit x (8 * n - 1)"
    have low: "bit x j = bit x (8 * n - 1)" if "8 * (n - 1) - 1 \<le> j" "j \<le> 8 * n - 1" for j
    proof -
      have "8 * n - 1 - j < 9" "8 * n - 1 - (8 * n - 1 - j) = j" using that assms(2) by auto
      with * show ?thesis by metis
    qed
    show "fits_signed (n - 1) x"
    proof (rule fits_signedI)
      fix k assume k: "8 * (n - 1) - 1 \<le> k" "k < LENGTH('a)"
      have "bit x (8 * (n - 1) - 1) = bit x (8 * n - 1)" by (rule low) (use assms(2) in auto)
      moreover have "bit x k = bit x (8 * n - 1)"
      proof (cases "k \<le> 8 * n - 1")
        case True
        with k(1) show ?thesis by (rule low)
      next
        case False
        with k(2) show ?thesis by (intro fits_signedD[OF assms(1)]) simp_all
      qed
      ultimately show "bit x k = bit x (8 * (n - 1) - 1)" by simp
    qed
  next
    assume "fits_signed (n - 1) x"
    note * = fits_signedD[OF this]
    show "\<forall>k<9. bit x (8 * n - 1 - k) = bit x (8 * n - 1)"
    proof (intro allI impI)
      fix k :: nat assume "k < 9"
      have "bit x (8 * n - 1 - k) = bit x (8 * (n - 1) - 1)"
        by (rule *) (use assms \<open>k < 9\<close> in auto)
      also have "\<dots> = bit x (8 * n - 1)"
        by (rule * [symmetric]) (use assms in auto)
      finally show "bit x (8 * n - 1 - k) = bit x (8 * n - 1)" .
    qed
  qed
  finally show ?thesis .
qed


fun min_uoctets :: "nat \<Rightarrow> 'a::len word \<Rightarrow> nat" where
  "min_uoctets n x = (if 1 < n \<and> take_bit (8 * (n - 1)) x = x then min_uoctets (n - 1) x else n)"

declare min_uoctets.simps [simp del]

lemma min_uoctets_bounds: "0 < n \<Longrightarrow> 0 < min_uoctets n x \<and> min_uoctets n x \<le> n"
proof (induction n x rule: min_uoctets.induct)
  case (1 n x)
  then show ?case by (subst (1 2) min_uoctets.simps) auto
qed

lemma min_uoctets_fits: "take_bit (8 * n) x = x \<Longrightarrow> take_bit (8 * min_uoctets n x) x = x"
proof (induction n x rule: min_uoctets.induct)
  case (1 n x)
  then show ?case by (subst min_uoctets.simps) auto
qed

lemma take_bit_self_mono:
  "take_bit m (x :: 'a::len word) = x \<Longrightarrow> m \<le> n \<Longrightarrow> take_bit n x = x"
  by (metis min.absorb2 take_bit_take_bit)

lemma min_uoctets_eqI:
  assumes "take_bit (8 * k) x = x" "k = 1 \<or> take_bit (8 * (k - 1)) x \<noteq> x" "0 < k" "k \<le> n"
  shows "min_uoctets n x = k"
  using assms
proof (induction n)
  case 0
  then show ?case by simp
next
  case (Suc n)
  show ?case
  proof (cases "k \<le> n")
    case True
    then have "take_bit (8 * n) x = x" by (intro take_bit_self_mono[OF assms(1)]) simp
    then show ?thesis using True Suc by (subst min_uoctets.simps) auto
  next
    case False
    then have "k = Suc n" using Suc.prems by simp
    then show ?thesis using Suc.prems by (subst min_uoctets.simps) auto
  qed
qed

lemma be_bytes_snoc: "be_bytes (Suc n) x = be_bytes n (drop_bit 8 x) @ [ucast x]"
  by (induction n) (simp_all add: add.commute)

lemma take_bit_drop_bit_self:
  "take_bit n (drop_bit k (x :: 'a::len word)) = drop_bit k x \<longleftrightarrow> take_bit (n + k) x = x"
proof
  assume a: "take_bit n (drop_bit k x) = drop_bit k x"
  show "take_bit (n + k) x = x"
  proof (rule word_bit_eqI)
    fix j assume "j < LENGTH('a)"
    have "bit x j \<Longrightarrow> j < n + k"
    proof (rule ccontr)
      assume b: "bit x j" "\<not> j < n + k"
      then have "bit (drop_bit k x) (j - k)" by (simp add: bit_simps)
      then have "bit (take_bit n (drop_bit k x)) (j - k)" using a by simp
      then show False using b by (simp add: bit_simps)
    qed
    then show "bit (take_bit (n + k) x) j = bit x j" by (auto simp: bit_simps)
  qed
next
  assume "take_bit (n + k) x = x"
  then show "take_bit n (drop_bit k x) = drop_bit k x"
    by (metis drop_bit_take_bit add_diff_cancel_right')
qed

text \<open>
  The bytes a loop stores that takes the low byte of a value and shifts the
  value right until nothing is left.
\<close>

function uint_out :: "u32 \<Rightarrow> u8 list" where
  "uint_out v = (if v = 0 then [] else ucast v # uint_out (drop_bit 8 v))"
  by pat_completeness auto
termination
  by (relation "measure unat") (simp_all add: unat_drop_bit_less)

declare uint_out.simps [simp del]

lemma uint_out_0 [simp]: "uint_out 0 = []"
  by (simp add: uint_out.simps)

lemma uint_out_min_aux:
  "rev (ucast v # uint_out (drop_bit 8 v)) = be_bytes (Suc (length (uint_out (drop_bit 8 v)))) v \<and>
   take_bit (8 * Suc (length (uint_out (drop_bit 8 v)))) v = v \<and>
   (uint_out (drop_bit 8 v) = [] \<or> take_bit (8 * length (uint_out (drop_bit 8 v))) v \<noteq> v)"
proof (induction v rule: uint_out.induct)
  case (1 v)
  show ?case
  proof (cases "drop_bit 8 v = 0")
    case True
    then have "take_bit 8 v = v" using take_bit_drop_bit_self[of 0 8 v] by simp
    with True show ?thesis by simp
  next
    case False
    then have "v \<noteq> 0" by auto
    note IH = "1.IH"[OF this]
    let ?w = "drop_bit 8 v"
    define n where "n = length (uint_out (drop_bit 8 ?w))"
    have u: "uint_out ?w = ucast ?w # uint_out (drop_bit 8 ?w)"
      using False by (subst uint_out.simps) simp
    have a: "take_bit (8 * Suc n) ?w = ?w \<longleftrightarrow> take_bit (8 * Suc (Suc n)) v = v"
      "take_bit (8 * n) ?w = ?w \<longleftrightarrow> take_bit (8 * Suc n) v = v"
      using take_bit_drop_bit_self[of "8 * Suc n" 8 v] take_bit_drop_bit_self[of "8 * n" 8 v]
      by (simp_all add: add.commute)
    have "take_bit (8 * Suc n) v \<noteq> v"
    proof (cases "uint_out (drop_bit 8 ?w) = []")
      case True
      then show ?thesis using False take_bit_drop_bit_self[of 0 8 v] by (simp add: n_def)
    next
      case False
      then show ?thesis using IH a(2) by (simp add: n_def)
    qed
    then show ?thesis
      using IH a(1) be_bytes_snoc[of "Suc n" v] by (simp add: u n_def del: be_bytes.simps)
  qed
qed

lemma uint_out_min: "rev (uint_out (drop_bit 8 v)) @ [ucast v] = be_bytes (min_uoctets 4 v) v"
proof -
  let ?n = "length (uint_out (drop_bit 8 v))"
  note a = uint_out_min_aux[of v]
  have "?n < 4"
  proof (rule ccontr)
    assume n: "\<not> ?n < 4"
    then have "take_bit (8 * ?n) v = v" by (intro take_bit_word_eq_self) simp
    then show False using a n by auto
  qed
  then have "min_uoctets 4 v = Suc ?n"
    using a by (intro min_uoctets_eqI) auto
  then show ?thesis using a by simp
qed

section \<open>Sign bits\<close>

definition sign_from :: "nat \<Rightarrow> 'a::len word \<Rightarrow> bool" where
  "sign_from n x \<longleftrightarrow> (\<forall>k. n \<le> k \<and> k < LENGTH('a) \<longrightarrow> bit x k = bit x (LENGTH('a) - 1))"

lemma sign_fromD:
  "sign_from n (x :: 'a::len word) \<Longrightarrow> n \<le> k \<Longrightarrow> k < LENGTH('a) \<Longrightarrow> bit x k = bit x (LENGTH('a) - 1)"
  unfolding sign_from_def by blast

lemma sign_fromI:
  "(\<And>k. n \<le> k \<Longrightarrow> k < LENGTH('a) \<Longrightarrow> bit x k = bit x (LENGTH('a) - 1)) \<Longrightarrow> sign_from n (x :: 'a::len word)"
  unfolding sign_from_def by blast

lemma sign_from_mono: "sign_from m x \<Longrightarrow> m \<le> n \<Longrightarrow> sign_from n x"
  by (rule sign_fromI, erule sign_fromD) (rule le_trans, assumption+)

lemma fits_signed_sign_from:
  assumes "0 < n" "8 * n \<le> LENGTH('a)"
  shows "fits_signed n (x :: 'a::len word) \<longleftrightarrow> sign_from (8 * n - 1) x"
proof
  assume f: "fits_signed n x"
  have top: "bit x (LENGTH('a) - 1) = bit x (8 * n - 1)"
    using assms by (intro fits_signedD[OF f]) auto
  show "sign_from (8 * n - 1) x"
    by (rule sign_fromI) (unfold top, rule fits_signedD[OF f])
next
  assume s: "sign_from (8 * n - 1) x"
  show "fits_signed n x"
  proof (rule fits_signedI)
    fix k assume k: "8 * n - 1 \<le> k" "k < LENGTH('a)"
    have "bit x (8 * n - 1) = bit x (LENGTH('a) - 1)" by (rule sign_fromD[OF s]) (use k in auto)
    moreover have "bit x k = bit x (LENGTH('a) - 1)" by (rule sign_fromD[OF s k])
    ultimately show "bit x k = bit x (8 * n - 1)" by simp
  qed
qed

lemma min_octets_eqI:
  fixes x :: "'a::len word"
  assumes "sign_from (8 * k - 1) x" "k = 1 \<or> \<not> sign_from (8 * (k - 1) - 1) x"
    and "0 < k" "k \<le> n" "8 * n \<le> LENGTH('a)"
  shows "min_octets n x = k"
  using assms
proof (induction n)
  case 0
  then show ?case by simp
next
  case (Suc n)
  show ?case
  proof (cases "k \<le> n")
    case True
    then have "fits_signed n x"
      using Suc.prems by (subst fits_signed_sign_from) (auto intro: sign_from_mono[OF Suc.prems(1)])
    then show ?thesis using True Suc by (subst min_octets.simps) auto
  next
    case False
    then have k: "k = Suc n" using Suc.prems by simp
    then have "n = 0 \<or> \<not> fits_signed n x"
      using Suc.prems by (cases "n = 0") (auto simp: fits_signed_sign_from)
    then show ?thesis using k by (subst min_octets.simps) auto
  qed
qed

text \<open>
  Storing bytes until what is left is the sign, and one more byte when the
  last one does not show the sign, gives the shortest encoding.
\<close>

lemma sign_extension_octets:
  fixes x :: "'a::len word"
  assumes k: "0 < k" "k \<le> n" "8 * n = LENGTH('a)"
    and s: "sign_from (8 * k) x" "k = 1 \<or> \<not> sign_from (8 * (k - 1)) x"
  shows "be_bytes (min_octets n x) x =
    (if bit x (8 * k - 1) = bit x (LENGTH('a) - 1) then be_bytes k x
     else (if bit x (LENGTH('a) - 1) then 0xFF else 0) # be_bytes k x)"
proof (cases "bit x (8 * k - 1) = bit x (LENGTH('a) - 1)")
  case True
  have "sign_from (8 * k - 1) x"
  proof (rule sign_fromI)
    fix j assume j: "8 * k - 1 \<le> j" "j < LENGTH('a)"
    show "bit x j = bit x (LENGTH('a) - 1)"
    proof (cases "j = 8 * k - 1")
      case False
      then have "8 * k \<le> j" using j by linarith
      then show ?thesis using j(2) by (rule sign_fromD[OF s(1)])
    qed (use True in simp)
  qed
  moreover have "k = 1 \<or> \<not> sign_from (8 * (k - 1) - 1) x"
    using s(2) sign_from_mono[of "8 * (k - 1) - 1" x "8 * (k - 1)"] by auto
  ultimately have "min_octets n x = k" using k by (intro min_octets_eqI) auto
  with True show ?thesis by simp
next
  case False
  then have "k \<noteq> n" using k by auto
  then have kn: "Suc k \<le> n" using k by simp
  have "\<not> sign_from (8 * k - 1) x"
  proof
    assume "sign_from (8 * k - 1) x"
    moreover have "8 * k - 1 < LENGTH('a)" using k kn by linarith
    ultimately show False using False sign_fromD by blast
  qed
  moreover have "sign_from (8 * Suc k - 1) x" by (rule sign_from_mono[OF s(1)]) simp
  ultimately have m: "min_octets n x = Suc k" using kn k by (intro min_octets_eqI) auto
  have "ucast (drop_bit (8 * k) x) = ((if bit x (LENGTH('a) - 1) then mask 8 else 0) :: u8)"
  proof (rule word_bit_eqI)
    fix j assume j: "j < LENGTH(8)"
    then have "8 * k \<le> 8 * k + j \<and> 8 * k + j < LENGTH('a)" using kn k by simp
    then have "bit x (8 * k + j) = bit x (LENGTH('a) - 1)" using sign_fromD[OF s(1)] by blast
    then show "bit (ucast (drop_bit (8 * k) x) :: u8) j =
        bit ((if bit x (LENGTH('a) - 1) then mask 8 else 0) :: u8) j"
      using j by (auto simp: bit_simps)
  qed
  then have "ucast (drop_bit (8 * k) x) = ((if bit x (LENGTH('a) - 1) then 0xFF else 0) :: u8)"
    by (simp add: mask_eq_exp_minus_1)
  with False m show ?thesis by simp
qed

text \<open>The shortest unsigned octets, with a leading zero octet where they would read as negative.\<close>

lemma min_uoctets_least: "min_uoctets n x \<le> 1 \<or> take_bit (8 * (min_uoctets n x - 1)) x \<noteq> x"
proof (induction n x rule: min_uoctets.induct)
  case (1 n x)
  then show ?case by (subst (1 2) min_uoctets.simps) auto
qed

lemma sign_from_nonneg:
  assumes "\<not> bit (x :: 'a::len word) (LENGTH('a) - 1)"
  shows "sign_from n x \<longleftrightarrow> take_bit n x = x"
proof
  assume s: "sign_from n x"
  show "take_bit n x = x"
  proof (rule word_bit_eqI)
    fix k assume "k < LENGTH('a)"
    then show "bit (take_bit n x) k = bit x k"
      using sign_fromD[OF s, of k] assms by (cases "n \<le> k") (auto simp: bit_take_bit_iff)
  qed
next
  assume t: "take_bit n x = x"
  show "sign_from n x"
  proof (rule sign_fromI)
    fix k assume "n \<le> k" "k < LENGTH('a)"
    then have "\<not> bit (take_bit n x) k" by (simp add: bit_take_bit_iff)
    then show "bit x k = bit x (LENGTH('a) - 1)" using t assms by simp
  qed
qed

lemma min_octets_le_iff:
  fixes x :: "'a::len word"
  assumes "0 < k" "k \<le> n" "8 * n \<le> LENGTH('a)" "fits_signed n x"
  shows "min_octets n x \<le> k \<longleftrightarrow> fits_signed k x"
  using assms
proof (induction n)
  case (Suc n)
  show ?case
  proof (cases "k = Suc n")
    case True
    then show ?thesis using Suc.prems min_octets_bounds[of "Suc n" x] by simp
  next
    case False
    then have k: "k \<le> n" "0 < n" using Suc.prems by auto
    have up: "fits_signed n x" if "fits_signed k x"
    proof (rule fits_signedI)
      fix j assume j: "8 * n - 1 \<le> j" "j < LENGTH('a)"
      have "8 * k - 1 \<le> 8 * n - 1" "8 * n - 1 < LENGTH('a)" using k Suc.prems(3) by auto
      then show "bit x j = bit x (8 * n - 1)"
        using fits_signedD[OF that, of j] fits_signedD[OF that, of "8 * n - 1"] j by simp
    qed
    show ?thesis
      using Suc.IH[OF Suc.prems(1) k(1)] Suc.prems(3) k up by (subst min_octets.simps) auto
  qed
qed simp

lemma bit_be_value_high:
  "8 * length bs \<le> k \<Longrightarrow> k < LENGTH('a) \<Longrightarrow>
     bit (be_value (acc :: 'a::len word) bs) k = bit acc (k - 8 * length bs)"
proof (induction bs arbitrary: acc)
  case (Cons b bs)
  have "\<not> bit b (k - 8 * length bs)" using Cons.prems by (auto dest: bit_imp_le_length)
  then show ?case using Cons by (auto simp: bit_simps add.commute)
qed simp

lemma be_value_fits:
  assumes "bs \<noteq> []" "8 * length bs \<le> LENGTH('a)"
  shows "fits_signed (length bs) (be_value (if bit (hd bs) 7 then - 1 else 0 :: 'a::len word) bs)"
proof -
  obtain b bs' where bs: "bs = b # bs'" using assms(1) by (cases bs) auto
  let ?acc = "if bit b 7 then - 1 else 0 :: 'a word"
  have top: "bit (be_value ?acc bs) (8 * length bs - 1) = bit b 7"
    using bit_be_value_high[of bs' "8 * length bs - 1" "push_bit 8 ?acc OR ucast b"] assms(2)
    by (simp add: bs bit_simps)
  have "bit (be_value ?acc bs) k = bit b 7" if "8 * length bs - 1 \<le> k" "k < LENGTH('a)" for k
  proof (cases "k = 8 * length bs - 1")
    case False
    then have "8 * length bs \<le> k" using that by linarith
    then show ?thesis using bit_be_value_high[of bs k ?acc] that by (simp add: bit_simps less_imp_diff_less)
  qed (use top in simp)
  then have "fits_signed (length bs) (be_value ?acc bs)" using top by (intro fits_signedI) simp
  then show ?thesis by (simp add: bs)
qed

end
