(* ===== verification/Asn_Length.thy ===== *)
theory Asn_Length
  imports Big_Endian
begin

unbundle bit_operations_syntax

text \<open>
  The lowest layer of \<^verbatim>\<open>snmplib/asn1.c\<close>: checked reads of a receive buffer,
  BER lengths and headers, forward decoding and encoding.

  A decoder gets the whole readable memory \<open>m\<close>, the offset of the object in it
  (the C pointer \<^verbatim>\<open>data\<close>) and the value of \<^verbatim>\<open>*datalength\<close>. The C code reads
  some bytes before it compares anything with \<^verbatim>\<open>*datalength\<close>; a read past the
  end of \<open>m\<close> is the error \<open>OutOfBounds\<close>, every other error is a NULL return.
\<close>

section \<open>Errors and memory\<close>

datatype asn_error =
    OutOfBounds            \<comment> \<open>a read past the readable memory (undefined behaviour in C)\<close>
  | SizeErr                \<comment> \<open>\<^verbatim>\<open>_asn_size_err\<close>\<close>
  | LengthErr              \<comment> \<open>\<^verbatim>\<open>_asn_length_err\<close>\<close>
  | MsgOverflow            \<comment> \<open>\<^verbatim>\<open>_asn_parse_length_check\<close>\<close>
  | HeaderTooShort         \<comment> \<open>\<^verbatim>\<open>_asn_build_header_check\<close>\<close>
  | IndefiniteLength
  | LengthUnsupported
  | NegativeLength u32     \<comment> \<open>with the value left in \<^verbatim>\<open>*length\<close>\<close>
  | ExtensionId
  | WrongType
  | BadLength              \<comment> \<open>no room for the header or length octets\<close>
  | BitstringTooSmall
  | NoString
  | SubidSyntax
  | OidTooLong
  | BadFirstSubid
  | BadSecondSubid
  | MalformedNull
  | MallocFailed
  | BadPduType
  | ReallocFailed          \<comment> \<open>no room, and the buffer may not or cannot grow\<close>

definition rd :: "u8 list \<Rightarrow> nat \<Rightarrow> asn_error + u8" where
  "rd m p = (if p < length m then Inr (m ! p) else Inl OutOfBounds)"

text \<open>\<open>n\<close> bytes starting at \<open>p\<close>, as \<^verbatim>\<open>memmove\<close> and \<^verbatim>\<open>memcpy\<close> read them.\<close>

definition rds :: "u8 list \<Rightarrow> nat \<Rightarrow> nat \<Rightarrow> asn_error + u8 list" where
  "rds m p n = (if p + n \<le> length m then Inr (take n (drop p m)) else Inl OutOfBounds)"

fun bytes_at :: "u8 list \<Rightarrow> nat \<Rightarrow> u8 list \<Rightarrow> bool" where
  "bytes_at m p [] \<longleftrightarrow> True"
| "bytes_at m p (b # bs) \<longleftrightarrow> p < length m \<and> m ! p = b \<and> bytes_at m (Suc p) bs"

lemma rd_bytes_at [byte_simps]: "bytes_at m p (b # bs) \<Longrightarrow> rd m p = Inr b"
  by (simp add: rd_def)

lemma bytes_at_append [byte_simps]:
  "bytes_at m p (xs @ ys) \<longleftrightarrow> bytes_at m p xs \<and> bytes_at m (p + length xs) ys"
  by (induction xs arbitrary: p) auto

lemma bytes_at_iff:
  "p \<le> length m \<Longrightarrow> bytes_at m p bs \<longleftrightarrow> p + length bs \<le> length m \<and> take (length bs) (drop p m) = bs"
proof (induction bs arbitrary: p)
  case Nil
  then show ?case by simp
next
  case (Cons b bs)
  show ?case
  proof (cases "p < length m")
    case True
    with Cons.IH[of "Suc p"] show ?thesis by (auto simp: Cons_nth_drop_Suc[symmetric])
  next
    case False
    with Cons.prems show ?thesis by simp
  qed
qed

lemma rds_bytes_at [byte_simps]:
  "bytes_at m p bs \<Longrightarrow> bs \<noteq> [] \<Longrightarrow> rds m p (length bs) = Inr bs"
  using bytes_at_iff[of p m bs] by (cases bs) (auto simp: rds_def)

lemma bytes_at_self: "bytes_at (pre @ bs @ post) (length pre) bs"
  by (subst bytes_at_iff) simp_all

text \<open>
  The decoders' accumulation loop: \<^verbatim>\<open>while (n--) v = (v << 8) | *bufp++\<close>.
\<close>

fun shift_in :: "u8 list \<Rightarrow> nat \<Rightarrow> nat \<Rightarrow> u32 \<Rightarrow> asn_error + nat \<times> u32" where
  "shift_in m p 0 v = Inr (p, v)"
| "shift_in m p (Suc n) v =
     ebind (rd m p) (\<lambda>b. shift_in m (p + 1) n (push_bit 8 v OR ucast b))"

lemma shift_in_bytes_at [byte_simps]:
  "bytes_at m p bs \<Longrightarrow> shift_in m p (length bs) v = Inr (p + length bs, be_value v bs)"
  by (induction bs arbitrary: p v) (auto simp: rd_def)

lemma shift_in_Inr: "shift_in m p n v = Inr (q, w) \<Longrightarrow> q = p + n \<and> p + n \<le> max p (length m)"
  by (induction m p n v rule: shift_in.induct) (auto simp: ebind_eq_Inr rd_def split: if_splits)

lemma shift_in_total: "p + n \<le> length m \<Longrightarrow> \<exists>w. shift_in m p n v = Inr (p + n, w)"
  by (induction m p n v rule: shift_in.induct) (auto simp: rd_def)

section \<open>Lengths\<close>

definition asn_parse_length :: "u8 list \<Rightarrow> nat \<Rightarrow> asn_error + nat \<times> u32" where
  "asn_parse_length m data =
     ebind (rd m data) (\<lambda>lengthbyte.
       if lengthbyte AND 0x80 \<noteq> 0 then
         (let n = lengthbyte AND NOT 0x80 in
          if n = 0 then Inl IndefiniteLength
          else if n > 4 then Inl LengthUnsupported
          else ebind (shift_in m (data + 1) (unat n) 0) (\<lambda>(data', len).
            if sint len < 0 then Inl (NegativeLength len) else Inr (data', len)))
       else Inr (data + 1, ucast lengthbyte))"

definition asn_build_length :: "u32 \<Rightarrow> u32 \<Rightarrow> u8 list \<times> (asn_error + u32)" where
  "asn_build_length datalength len =
     (if len < 0x80 then
        if datalength < 1 then ([], Inl BadLength)
        else ([ucast len], Inr (datalength - 1))
      else if len \<le> 0xFF then
        if datalength < 2 then ([], Inl BadLength)
        else ([0x81, ucast len], Inr (datalength - 2))
      else
        if datalength < 3 then ([], Inl BadLength)
        else ([0x82, ucast (drop_bit 8 len AND 0xFF), ucast (len AND 0xFF)], Inr (datalength - 3)))"

text \<open>\<^verbatim>\<open>_asn_parse_length_check\<close>: true when the object does not fit in \<^verbatim>\<open>dlen\<close>.\<close>

definition asn_parse_length_check :: "nat \<Rightarrow> nat \<Rightarrow> u32 \<Rightarrow> u32 \<Rightarrow> bool" where
  "asn_parse_length_check bufp data plen dlen =
     (let header_len = (of_nat (bufp - data) :: u32) in
      plen > 0x7fffffff \<or> header_len > 0x7fffffff \<or> plen + header_len > dlen)"

text \<open>
  The reference encoding of a definite length: the short form below 128, else
  the number of octets and then the shortest big-endian octet string.
\<close>

definition ber_length :: "u32 \<Rightarrow> u8 list" where
  "ber_length len =
     (if len < 0x80 then [ucast len]
      else (0x80 OR of_nat (min_uoctets 4 len)) # be_bytes (min_uoctets 4 len) len)"

lemma ber_length_len: "0 < length (ber_length len) \<and> length (ber_length len) \<le> 5"
  using min_uoctets_bounds[of 4 len] by (auto simp: ber_length_def)

lemma ber_length_forward:
  assumes "len \<le> 0xFFFF"
  shows "ber_length len =
    (if len < 0x80 then [ucast len] else if len \<le> 0xFF then [0x81, ucast len]
     else [0x82, ucast (drop_bit 8 len), ucast len])"
proof -
  have t: "take_bit n len = len \<longleftrightarrow> len < 2 ^ n" if "n < 32" for n
    using that by (simp add: take_bit_u32_eq_self_iff)
  have "min_uoctets 4 len = (if len \<le> 0xFF then 1 else 2)"
    using assms by (auto simp: min_uoctets.simps t word_less_nat_alt word_le_nat_alt)
  then show ?thesis
    by (simp add: ber_length_def numeral_2_eq_2)
qed

lemma asn_build_length_eq:
  "len \<le> 0xFFFF \<Longrightarrow> asn_build_length dl len =
     (if of_nat (length (ber_length len)) \<le> dl
      then (ber_length len, Inr (dl - of_nat (length (ber_length len))))
      else ([], Inl BadLength))"
  by (auto simp: asn_build_length_def ber_length_forward not_less not_le)


lemma parse_ber_length [byte_simps]:
  assumes "bytes_at m p (ber_length len)" "unat len < 2 ^ 31"
  shows "asn_parse_length m p = Inr (p + length (ber_length len), len)"
proof (cases "len < 0x80")
  case True
  then have b: "ber_length len = [ucast len]" by (simp add: ber_length_def)
  have len7: "take_bit 7 len = len"
    using True by (simp add: take_bit_u32_eq_self_iff)
  then have nb: "\<not> bit (ucast len :: u8) 7"
    by (metis bit_take_bit_iff bit_ucast_iff less_irrefl)
  have "take_bit 8 len = len"
    using take_bit_take_bit[of 8 7 len] len7 by simp
  then have "(ucast (ucast len :: u8) :: u32) = len"
    by (simp add: ucast_u8_u32)
  with assms(1) b nb show ?thesis
    by (simp add: asn_parse_length_def rd_def)
next
  case False
  define k where "k = min_uoctets 4 len"
  have k: "0 < k" "k \<le> 4" using min_uoctets_bounds[of 4 len] by (auto simp: k_def)
  have b: "ber_length len = (0x80 OR of_nat k) # be_bytes k len"
    using False by (simp add: ber_length_def k_def)
  have "k = 1 \<or> k = 2 \<or> k = 3 \<or> k = 4" using k by linarith
  then have n: "((0x80 :: u8) OR of_nat k) AND NOT 0x80 = of_nat k" "bit ((0x80 :: u8) OR of_nat k) 7"
    and u: "unat (of_nat k :: u8) = k"
    and z: "(of_nat k :: u8) \<noteq> 0" "\<not> 4 < (of_nat k :: u8)"
    by auto
  have "take_bit (8 * k) len = len"
    unfolding k_def by (rule min_uoctets_fits) (simp add: take_bit_word_eq_self)
  then have v: "be_value 0 (be_bytes k len) = len"
    by (simp add: be_value_be_bytes)
  have r: "rd m p = Inr (0x80 OR of_nat k)" "bytes_at m (Suc p) (be_bytes k len)"
    using assms(1) b by (auto simp: rd_def)
  have "shift_in m (p + 1) k 0 = Inr (p + 1 + k, len)"
    using shift_in_bytes_at[OF r(2), of 0] by (simp add: v)
  then show ?thesis
    using r(1) n u z assms(2) u32_small_nonneg[of len]
    by (simp add: asn_parse_length_def b)
qed

lemma asn_parse_length_check_iff:
  assumes "bufp - data < 2 ^ 31"
  shows "asn_parse_length_check bufp data plen dlen \<longleftrightarrow>
    2 ^ 31 \<le> unat plen \<or> unat dlen < unat plen + (bufp - data)"
proof -
  have h: "unat (of_nat (bufp - data) :: u32) = bufp - data"
    using assms by (simp add: unat_of_nat)
  have "unat (plen + of_nat (bufp - data)) = unat plen + (bufp - data)" if "unat plen < 2 ^ 31"
    using that assms by (simp add: unat_word_ariths h)
  then show ?thesis
    using assms by (cases "unat plen < 2 ^ 31")
      (auto simp: asn_parse_length_check_def Let_def word_less_nat_alt h not_less)
qed


section \<open>Headers\<close>

definition ASN_OPAQUE :: u8 where "ASN_OPAQUE = 0x44"
definition ASN_OPAQUE_TAG1 :: u8 where "ASN_OPAQUE_TAG1 = 0x9F"
definition ASN_OPAQUE_COUNTER64 :: u8 where "ASN_OPAQUE_COUNTER64 = 0x76"
definition ASN_OPAQUE_FLOAT :: u8 where "ASN_OPAQUE_FLOAT = 0x78"
definition ASN_OPAQUE_DOUBLE :: u8 where "ASN_OPAQUE_DOUBLE = 0x79"
definition ASN_OPAQUE_I64 :: u8 where "ASN_OPAQUE_I64 = 0x7A"
definition ASN_OPAQUE_U64 :: u8 where "ASN_OPAQUE_U64 = 0x7B"
definition ASN_SEQUENCE_CONSTRUCTOR :: u8 where "ASN_SEQUENCE_CONSTRUCTOR = 0x30"

lemmas asn_tag_defs = ASN_OPAQUE_def ASN_OPAQUE_TAG1_def ASN_OPAQUE_COUNTER64_def
  ASN_OPAQUE_FLOAT_def ASN_OPAQUE_DOUBLE_def ASN_OPAQUE_I64_def ASN_OPAQUE_U64_def
  ASN_SEQUENCE_CONSTRUCTOR_def

definition is_extension_id :: "u8 \<Rightarrow> bool" where
  "is_extension_id b \<longleftrightarrow> b AND 0x1F = 0x1F"

definition asn_parse_header :: "u8 list \<Rightarrow> nat \<Rightarrow> u32 \<Rightarrow> asn_error + nat \<times> u32 \<times> u8" where
  "asn_parse_header m data datalength =
     ebind (rd m data) (\<lambda>type.
     if is_extension_id type then Inl ExtensionId
     else ebind (asn_parse_length m (data + 1)) (\<lambda>(bufp, asn_length).
     if asn_parse_length_check bufp data asn_length datalength then Inl MsgOverflow
     else if type \<noteq> ASN_OPAQUE then Inr (bufp, asn_length, type)
     else ebind (rd m bufp) (\<lambda>tag1.
     if tag1 \<noteq> ASN_OPAQUE_TAG1 then Inr (bufp, asn_length, type)
     else ebind (rd m (bufp + 1)) (\<lambda>tag2.
     if tag2 = ASN_OPAQUE_COUNTER64 \<or> tag2 = ASN_OPAQUE_U64 \<or> tag2 = ASN_OPAQUE_FLOAT \<or>
        tag2 = ASN_OPAQUE_DOUBLE \<or> tag2 = ASN_OPAQUE_I64 then
       ebind (asn_parse_length m (bufp + 2)) (\<lambda>(bufp', asn_length').
       if asn_parse_length_check bufp' data asn_length' datalength then Inl MsgOverflow
       else Inr (bufp', asn_length', tag2))
     else Inr (bufp, asn_length, type)))))"

definition asn_parse_sequence ::
  "u8 list \<Rightarrow> nat \<Rightarrow> u32 \<Rightarrow> u8 \<Rightarrow> asn_error + nat \<times> u32 \<times> u8" where
  "asn_parse_sequence m data datalength expected_type =
     ebind (asn_parse_header m data datalength) (\<lambda>(data', datalength', type).
       if type \<noteq> expected_type then Inl WrongType else Inr (data', datalength', type))"

definition asn_build_header :: "u32 \<Rightarrow> u8 \<Rightarrow> u32 \<Rightarrow> u8 list \<times> (asn_error + u32)" where
  "asn_build_header datalength type len =
     (if datalength < 1 then ([], Inl BadLength)
      else wbind ([type], Inr (datalength - 1)) (\<lambda>dl. asn_build_length dl len))"

definition asn_build_sequence :: "u32 \<Rightarrow> u8 \<Rightarrow> u32 \<Rightarrow> u8 list \<times> (asn_error + u32)" where
  "asn_build_sequence datalength type len =
     (if datalength < 4 then ([], Inl BadLength)
      else ([type, 0x82, ucast (drop_bit 8 len AND 0xFF), ucast (len AND 0xFF)],
            Inr (datalength - 4)))"

text \<open>
  \<^verbatim>\<open>_asn_build_header_check\<close>: true when what is left of the buffer after the
  header is too short for the contents. (Its other test, a NULL \<^verbatim>\<open>data\<close>, is the
  failure of \<^const>\<open>asn_build_header\<close>.)
\<close>

definition asn_build_header_check :: "u32 \<Rightarrow> u32 \<Rightarrow> bool" where
  "asn_build_header_check datalen typedlen = (datalen < typedlen)"

text \<open>
  The size of the message a stream transport has to wait for; \<open>uninit\<close> is the
  indeterminate value of the local \<^verbatim>\<open>asn_length\<close> that is used when
  \<^verbatim>\<open>asn_parse_length\<close> fails, since its result is not looked at.
\<close>

definition asn_check_packet :: "u32 \<Rightarrow> u8 list \<Rightarrow> u32 \<Rightarrow> asn_error + int" where
  "asn_check_packet uninit pkt len =
     (if len < 2 then Inr 0
      else ebind (rd pkt 0) (\<lambda>b0.
      if b0 \<noteq> ASN_SEQUENCE_CONSTRUCTOR then Inr (- 1)
      else ebind (rd pkt 1) (\<lambda>b1.
      if b1 AND 0x80 \<noteq> 0 then
        if sint len < int (unat (b1 AND NOT 0x80)) + 2 then Inr 0
        else (case asn_parse_length pkt 1 of
            Inr (_, asn_length) \<Rightarrow> Inr (sint (asn_length + 2 + ucast (b1 AND NOT 0x80)))
          | Inl (NegativeLength asn_length) \<Rightarrow> Inr (sint (asn_length + 2 + ucast (b1 AND NOT 0x80)))
          | Inl OutOfBounds \<Rightarrow> Inl OutOfBounds
          | Inl _ \<Rightarrow> Inr (sint (uninit + 2 + ucast (b1 AND NOT 0x80))))
      else Inr (int (unat b1) + 2))))"

definition ber_header :: "u8 \<Rightarrow> u32 \<Rightarrow> u8 list" where
  "ber_header type len = type # ber_length len"

lemma ber_header_len: "1 < length (ber_header type len) \<and> length (ber_header type len) \<le> 6"
  using ber_length_len[of len] by (auto simp: ber_header_def)

lemma asn_build_header_eq:
  assumes "len \<le> 0xFFFF"
  shows "asn_build_header dl type len =
     (if length (ber_header type len) \<le> unat dl
      then (ber_header type len, Inr (dl - of_nat (length (ber_header type len))))
      else (take (min (unat dl) 1) [type], Inl BadLength))"
proof -
  have l: "length (ber_length len) \<le> 5" "0 < length (ber_length len)"
    using ber_length_len[of len] by auto
  have u: "unat (of_nat (length (ber_length len)) :: u32) = length (ber_length len)"
    using l by (simp add: unat_of_nat)
  show ?thesis
  proof (cases "unat dl = 0")
    case True
    then show ?thesis
      by (simp add: asn_build_header_def word_less_nat_alt ber_header_def)
  next
    case False
    then have d: "unat (dl - 1) = unat dl - 1" "1 \<le> dl"
      by (auto simp: unat_sub word_le_nat_alt)
    have c: "of_nat (length (ber_length len)) \<le> dl - 1 \<longleftrightarrow> Suc (length (ber_length len)) \<le> unat dl"
      using False by (auto simp: word_le_nat_alt u d)
    show ?thesis using d(2) False
      by (auto simp: asn_build_header_def asn_build_length_eq[OF assms] c ber_header_def
          not_less word_less_nat_alt algebra_simps)
  qed
qed


section \<open>The opening of every decoder\<close>

text \<open>
  The lines every \<^verbatim>\<open>asn_parse_*\<close> function starts with: read the type octet,
  parse the length, check it against \<^verbatim>\<open>*datalength\<close>.
\<close>

definition asn_parse_tl :: "u8 list \<Rightarrow> nat \<Rightarrow> u32 \<Rightarrow> asn_error + u8 \<times> nat \<times> u32" where
  "asn_parse_tl m data datalength =
     ebind (rd m data) (\<lambda>type.
     ebind (asn_parse_length m (data + 1)) (\<lambda>(bufp, asn_length).
     if asn_parse_length_check bufp data asn_length datalength then Inl MsgOverflow
     else Inr (type, bufp, asn_length)))"

lemma asn_parse_length_Inr:
  assumes "asn_parse_length m p = Inr (q, len)"
  shows "p < q \<and> q \<le> p + 5 \<and> q \<le> length m \<and> unat len < 2 ^ 31"
proof -
  from assms obtain b where b: "p < length m" "rd m p = Inr b"
    by (auto simp: asn_parse_length_def ebind_eq_Inr rd_def split: if_splits)
  show ?thesis
  proof (cases "bit b 7")
    case False
    with assms b have "q = p + 1" "len = ucast b"
      by (auto simp: asn_parse_length_def)
    then show ?thesis using b(1) unat_u8_bound[of b] by simp
  next
    case True
    let ?n = "b AND NOT 0x80"
    from True assms b have s: "shift_in m (p + 1) (unat ?n) 0 = Inr (q, len)"
      and "\<not> 4 < ?n" "?n \<noteq> 0" "\<not> sint len < 0"
      by (auto simp: asn_parse_length_def ebind_eq_Inr Let_def split: if_splits prod.splits)
    then show ?thesis
      using shift_in_Inr[OF s] b(1) u32_small_nonneg[of len]
      by (simp add: word_less_nat_alt not_less)
  qed
qed

lemma asn_parse_tl_Inr:
  assumes "asn_parse_tl m data dl = Inr (type, bufp, len)"
  shows "data + 2 \<le> bufp" "bufp \<le> data + 6" "bufp \<le> length m" "unat len < 2 ^ 31"
    "bufp + unat len \<le> data + unat dl" "rd m data = Inr type"
proof -
  from assms obtain l: "asn_parse_length m (data + 1) = Inr (bufp, len)"
    and c: "\<not> asn_parse_length_check bufp data len dl" and t: "rd m data = Inr type"
    by (auto simp: asn_parse_tl_def ebind_eq_Inr split: if_splits prod.splits)
  note b = asn_parse_length_Inr[OF l]
  then show "data + 2 \<le> bufp" "bufp \<le> data + 6" "bufp \<le> length m" "unat len < 2 ^ 31" by auto
  with c show "bufp + unat len \<le> data + unat dl"
    by (auto simp: asn_parse_length_check_iff)
  show "rd m data = Inr type" by (rule t)
qed

lemma asn_parse_length_in_bounds:
  assumes "p + 5 \<le> length m"
  shows "asn_parse_length m p \<noteq> Inl OutOfBounds"
proof -
  have "shift_in m (Suc p) (unat n) 0 \<noteq> Inl OutOfBounds" if "\<not> 4 < n" for n :: u8
  proof -
    have "unat n \<le> 4" using that by (simp add: word_less_nat_alt not_less)
    with assms have "Suc p + unat n \<le> length m" by linarith
    from shift_in_total[OF this, of 0] show ?thesis by auto
  qed
  then show ?thesis
    using assms by (auto simp: asn_parse_length_def ebind_eq_Inl rd_def Let_def split: prod.splits)
qed

lemma asn_parse_tl_in_bounds:
  "data + 6 \<le> length m \<Longrightarrow> asn_parse_tl m data dl \<noteq> Inl OutOfBounds"
  using asn_parse_length_in_bounds[of "data + 1" m]
  by (auto simp: asn_parse_tl_def ebind_eq_Inl rd_def split: prod.splits)

lemma asn_parse_tl_header [byte_simps]:
  assumes "bytes_at m data (ber_header type len)" "unat len < 2 ^ 31"
    and "length (ber_header type len) + unat len \<le> unat dl"
  shows "asn_parse_tl m data dl = Inr (type, data + length (ber_header type len), len)"
proof -
  have l: "asn_parse_length m (data + 1) = Inr (data + length (ber_header type len), len)"
    using parse_ber_length[of m "data + 1" len] assms by (simp add: ber_header_def)
  have "\<not> asn_parse_length_check (data + length (ber_header type len)) data len dl"
    using assms ber_header_len[of type len] by (subst asn_parse_length_check_iff) auto
  with l assms(1) show ?thesis
    by (simp add: asn_parse_tl_def ber_header_def rd_def)
qed

end
