(* ===== verification/Asn_Codec.thy ===== *)
theory Asn_Codec
  imports Asn_Length
begin

unbundle bit_operations_syntax

text \<open>
  What the rest of the library may rely on when it calls an
  \<^verbatim>\<open>asn_build_*\<close> or \<^verbatim>\<open>asn_parse_*\<close> function, as locales: the encoder stores the
  reference encoding when it fits and stays inside the buffer when it does not;
  the decoder of a memory that holds the reference encoding gives the value
  back. Every pair of functions of \<^verbatim>\<open>asn1.c\<close> interprets them.
\<close>

section \<open>Type-length-value encodings\<close>

definition tlv :: "u8 \<Rightarrow> u8 list \<Rightarrow> u8 list" where
  "tlv type payload = ber_header type (of_nat (length payload)) @ payload"

lemma tlv_length_bounds: "length payload + 2 \<le> length (tlv type payload)"
  "length (tlv type payload) \<le> length payload + 6"
  using ber_header_len[of type "of_nat (length payload)"] by (auto simp: tlv_def)

lemma build_tlv_ok:
  assumes "length payload \<le> 0xFFFF" "len = of_nat (length payload)"
    and "length (tlv type payload) \<le> unat dl"
  shows "wbind (asn_build_header dl type len)
      (\<lambda>dl'. if asn_build_header_check dl' len then ([], Inl HeaderTooShort)
             else (payload, Inr (dl' - len)))
    = (tlv type payload, Inr (dl - of_nat (length (tlv type payload))))"
proof -
  have u: "unat len = length payload" using assms(1,2) by (simp add: unat_of_nat)
  have h: "length (ber_header type len) \<le> unat dl" using assms(2,3) by (simp add: tlv_def)
  have hu: "unat (of_nat (length (ber_header type len)) :: u32) = length (ber_header type len)"
    using ber_header_len[of type len] by (simp add: unat_of_nat)
  have le: "len \<le> 0xFFFF" using u assms(1) by (simp add: word_le_nat_alt)
  have "unat (dl - of_nat (length (ber_header type len))) = unat dl - length (ber_header type len)"
    using h by (simp add: unat_sub word_le_nat_alt hu)
  then have "\<not> asn_build_header_check (dl - of_nat (length (ber_header type len))) len"
    using assms(2,3) u by (simp add: asn_build_header_check_def word_less_nat_alt tlv_def)
  then show ?thesis
    using h by (simp add: asn_build_header_eq[OF le] tlv_def diff_diff_eq flip: assms(2))
qed

lemma build_tlv_short:
  assumes "length payload \<le> 0xFFFF" "len = of_nat (length payload)"
    and "unat dl < length (tlv type payload)"
  shows "\<exists>w e. wbind (asn_build_header dl type len)
      (\<lambda>dl'. if asn_build_header_check dl' len then ([], Inl HeaderTooShort)
             else (payload, Inr (dl' - len))) = (w, Inl e) \<and> length w \<le> unat dl"
proof -
  have u: "unat len = length payload" using assms(1,2) by (simp add: unat_of_nat)
  have le: "len \<le> 0xFFFF" using u assms(1) by (simp add: word_le_nat_alt)
  show ?thesis
  proof (cases "length (ber_header type len) \<le> unat dl")
    case False
    then show ?thesis by (simp add: asn_build_header_eq[OF le])
  next
    case True
    have hu: "unat (of_nat (length (ber_header type len)) :: u32) = length (ber_header type len)"
      using ber_header_len[of type len] by (simp add: unat_of_nat)
    have "unat (dl - of_nat (length (ber_header type len))) = unat dl - length (ber_header type len)"
      using True by (simp add: unat_sub word_le_nat_alt hu)
    then have "asn_build_header_check (dl - of_nat (length (ber_header type len))) len"
      using assms(2,3) True u by (auto simp: asn_build_header_check_def word_less_nat_alt tlv_def)
    with True show ?thesis by (simp add: asn_build_header_eq[OF le])
  qed
qed

lemma parse_tl_tlv [byte_simps]:
  assumes "bytes_at m p (tlv type payload)" "length payload \<le> 0xFFFF"
    and "length (tlv type payload) \<le> unat dl"
  shows "asn_parse_tl m p dl =
    Inr (type, p + length (tlv type payload) - length payload, of_nat (length payload))"
proof -
  have u: "unat (of_nat (length payload) :: u32) = length payload"
    using assms(2) by (simp add: unat_of_nat)
  show ?thesis
    using asn_parse_tl_header[of m p type "of_nat (length payload)" dl] assms u
    by (simp add: tlv_def bytes_at_append)
qed

lemma tlv_payload_at [byte_simps]:
  "bytes_at m p (tlv type payload) \<Longrightarrow>
     bytes_at m (p + length (tlv type payload) - length payload) payload"
  by (simp add: tlv_def bytes_at_append)

lemma rd_payload: "bytes_at m p bs \<Longrightarrow> bs \<noteq> [] \<Longrightarrow> rd m p = Inr (hd bs)"
  by (cases bs) (simp_all add: rd_def)

text \<open>What is left of \<^verbatim>\<open>*datalength\<close> after an object of \<open>l\<close> bytes with \<open>n\<close> bytes of contents.\<close>

lemma rest_length:
  "n \<le> l \<Longrightarrow> dl - (of_nat n + of_nat (p + l - n - p)) = (dl - of_nat l :: u32)"
  by (simp flip: of_nat_add)

section \<open>The contracts\<close>

locale ber_encoder =
  fixes build :: "u32 \<Rightarrow> 'v \<Rightarrow> u8 list \<times> (asn_error + u32)"
    and enc :: "'v \<Rightarrow> u8 list"
    and ok :: "'v \<Rightarrow> bool"
  assumes build_fits: "ok v \<Longrightarrow> length (enc v) \<le> unat dl \<Longrightarrow>
      build dl v = (enc v, Inr (dl - of_nat (length (enc v))))"
    and build_short: "ok v \<Longrightarrow> unat dl < length (enc v) \<Longrightarrow>
      \<exists>w e. build dl v = (w, Inl e) \<and> length w \<le> unat dl"
begin

lemma build_in_buffer: "ok v \<Longrightarrow> length (fst (build dl v)) \<le> unat dl"
  using build_fits[of v dl] build_short[of v dl] by (cases "length (enc v) \<le> unat dl") auto

lemma build_Inr_iff:
  "ok v \<Longrightarrow> build dl v = (w, Inr dl') \<longleftrightarrow>
     length (enc v) \<le> unat dl \<and> w = enc v \<and> dl' = dl - of_nat (length (enc v))"
  using build_fits[of v dl] build_short[of v dl] by (cases "length (enc v) \<le> unat dl") auto

lemma build_remaining:
  assumes "ok v" "build dl v = (w, Inr dl')"
  shows "unat dl' + length w = unat dl"
proof -
  from assms have l: "length (enc v) \<le> unat dl" "w = enc v" "dl' = dl - of_nat (length (enc v))"
    by (auto simp: build_Inr_iff)
  have "unat (of_nat (length (enc v)) :: u32) = length (enc v)"
    using l(1) unat_u32_bound[of dl] by (simp add: unat_of_nat)
  then show ?thesis using l by (simp add: unat_sub word_le_nat_alt)
qed

end

locale ber_decoder =
  fixes parse :: "u8 list \<Rightarrow> nat \<Rightarrow> u32 \<Rightarrow> asn_error + nat \<times> u32 \<times> 'r"
    and enc :: "'v \<Rightarrow> u8 list"
    and ok :: "'v \<Rightarrow> bool"
    and result :: "'v \<Rightarrow> 'r"
  assumes parse_enc: "ok v \<Longrightarrow> bytes_at m p (enc v) \<Longrightarrow> length (enc v) \<le> unat dl \<Longrightarrow>
      parse m p dl = Inr (p + length (enc v), dl - of_nat (length (enc v)), result v)"

locale ber_codec = ber_encoder build enc ok + ber_decoder parse enc ok result
  for build :: "u32 \<Rightarrow> 'v \<Rightarrow> u8 list \<times> (asn_error + u32)"
    and parse :: "u8 list \<Rightarrow> nat \<Rightarrow> u32 \<Rightarrow> asn_error + nat \<times> u32 \<times> 'r"
    and enc :: "'v \<Rightarrow> u8 list"
    and ok :: "'v \<Rightarrow> bool"
    and result :: "'v \<Rightarrow> 'r"
begin

lemma roundtrip:
  assumes "ok v" "build dl v = (w, Inr dl')"
  shows "parse (pre @ w @ post) (length pre) dl = Inr (length pre + length w, dl', result v)"
proof -
  from assms have l: "length (enc v) \<le> unat dl" "w = enc v" "dl' = dl - of_nat (length (enc v))"
    by (auto simp: build_Inr_iff)
  show ?thesis
    using parse_enc[OF assms(1), of "pre @ w @ post" "length pre" dl] l bytes_at_self[of pre w post]
    by simp
qed

end

section \<open>Values encoded as one header and its contents\<close>

text \<open>
  How the forward encoders of \<^verbatim>\<open>asn1.c\<close> all end: the header, the check that
  the contents fit in what is left, the contents.
\<close>

definition build_tlv :: "u32 \<Rightarrow> u8 \<Rightarrow> u8 list \<Rightarrow> u8 list \<times> (asn_error + u32)" where
  "build_tlv dl type payload =
     wbind (asn_build_header dl type (of_nat (length payload))) (\<lambda>dl'.
       if asn_build_header_check dl' (of_nat (length payload)) then ([], Inl HeaderTooShort)
       else (payload, Inr (dl' - of_nat (length payload))))"

lemma build_tlv_fits:
  "length payload \<le> 0xFFFF \<Longrightarrow> length (tlv type payload) \<le> unat dl \<Longrightarrow>
     build_tlv dl type payload = (tlv type payload, Inr (dl - of_nat (length (tlv type payload))))"
  unfolding build_tlv_def by (rule build_tlv_ok) simp_all

lemma build_tlv_too_long:
  "length payload \<le> 0xFFFF \<Longrightarrow> unat dl < length (tlv type payload) \<Longrightarrow>
     \<exists>w e. build_tlv dl type payload = (w, Inl e) \<and> length w \<le> unat dl"
  unfolding build_tlv_def by (rule build_tlv_short) simp_all

locale tlv_encoder =
  fixes build :: "u32 \<Rightarrow> 'v \<Rightarrow> u8 list \<times> (asn_error + u32)"
    and tag :: "'v \<Rightarrow> u8"
    and payload :: "'v \<Rightarrow> u8 list"
    and ok :: "'v \<Rightarrow> bool"
  assumes build_eq: "ok v \<Longrightarrow> build dl v = build_tlv dl (tag v) (payload v)"
    and payload_short: "ok v \<Longrightarrow> length (payload v) \<le> 0xFFFF"

sublocale tlv_encoder \<subseteq> ber_encoder build "\<lambda>v. tlv (tag v) (payload v)" ok
  by unfold_locales (simp_all add: build_eq build_tlv_fits build_tlv_too_long payload_short
      del: ex_simps)

text \<open>
  The law of a decoder once its header is read: the contents are at \<open>q\<close>, after
  a header of at most six bytes, and the object fits in \<^verbatim>\<open>*datalength\<close>.
\<close>

locale tlv_decoder =
  fixes parse :: "u8 list \<Rightarrow> nat \<Rightarrow> u32 \<Rightarrow> asn_error + nat \<times> u32 \<times> 'r"
    and tag :: "'v \<Rightarrow> u8"
    and payload :: "'v \<Rightarrow> u8 list"
    and ok :: "'v \<Rightarrow> bool"
    and result :: "'v \<Rightarrow> 'r"
  assumes contents_short: "ok v \<Longrightarrow> length (payload v) \<le> 0xFFFF"
    and parse_contents: "ok v \<Longrightarrow> bytes_at m q (payload v) \<Longrightarrow>
      asn_parse_tl m p dl = Inr (tag v, q, of_nat (length (payload v))) \<Longrightarrow>
      p + 2 \<le> q \<Longrightarrow> q \<le> p + 6 \<Longrightarrow> q - p + length (payload v) \<le> unat dl \<Longrightarrow>
      parse m p dl = Inr (q + length (payload v),
        dl - (of_nat (length (payload v)) + of_nat (q - p)), result v)"

sublocale tlv_decoder \<subseteq> ber_decoder parse "\<lambda>v. tlv (tag v) (payload v)" ok result
proof unfold_locales
  fix v m p and dl :: u32
  let ?l = "length (tlv (tag v) (payload v))" and ?n = "length (payload v)"
  assume v: "ok v" and at: "bytes_at m p (tlv (tag v) (payload v))" and fit: "?l \<le> unat dl"
  note n = contents_short[OF v] and b = tlv_length_bounds(1)[of "payload v" "tag v"] tlv_length_bounds(2)[of "tag v" "payload v"]
  have "parse m p dl = Inr (p + ?l - ?n + ?n, dl - (of_nat ?n + of_nat (p + ?l - ?n - p)), result v)"
    using b fit by (intro parse_contents[OF v tlv_payload_at[OF at] parse_tl_tlv[OF at n fit]]) auto
  then show "parse m p dl = Inr (p + ?l, dl - of_nat ?l, result v)"
    using b(1) by (simp add: rest_length)
qed

locale tlv_codec = tlv_encoder build tag payload ok + tlv_decoder parse tag payload ok result
  for build :: "u32 \<Rightarrow> 'v \<Rightarrow> u8 list \<times> (asn_error + u32)"
    and parse :: "u8 list \<Rightarrow> nat \<Rightarrow> u32 \<Rightarrow> asn_error + nat \<times> u32 \<times> 'r"
    and tag :: "'v \<Rightarrow> u8"
    and payload :: "'v \<Rightarrow> u8 list"
    and ok :: "'v \<Rightarrow> bool"
    and result :: "'v \<Rightarrow> 'r"

sublocale tlv_codec \<subseteq> ber_codec build parse "\<lambda>v. tlv (tag v) (payload v)" ok result
  by unfold_locales

end
