(* ===== verification/Asn_Realloc.thy ===== *)
theory Asn_Realloc
  imports Asn_Codec
begin

unbundle bit_operations_syntax

text \<open>
  The growing buffer of the reverse encoders of \<^verbatim>\<open>snmplib/asn1.c\<close>. The triple
  \<^verbatim>\<open>*pkt\<close>, \<^verbatim>\<open>*pkt_len\<close>, \<^verbatim>\<open>*offset\<close> is a record of the bytes of the buffer and the
  number of bytes already used at its end; an encoder puts bytes in front of
  those. Whether \<^verbatim>\<open>malloc\<close> or \<^verbatim>\<open>realloc\<close> can give a buffer of a size is the parameter
  \<open>alloc\<close>, and \<open>r\<close> is the flag of the same name. A return of 0 is an error
  value.
\<close>

section \<open>The buffer\<close>

record rbuf =
  pkt :: "u8 list"
  offset :: nat

definition valid_rbuf :: "rbuf \<Rightarrow> bool" where
  "valid_rbuf b \<longleftrightarrow> offset b \<le> length (pkt b)"

definition contents :: "rbuf \<Rightarrow> u8 list" where
  "contents b = drop (length (pkt b) - offset b) (pkt b)"

text \<open>\<^verbatim>\<open>snmp_realloc\<close>: the new size of the buffer, computed in 32 bits.\<close>

definition snmp_realloc :: "(nat \<Rightarrow> bool) \<Rightarrow> nat \<Rightarrow> nat option" where
  "snmp_realloc alloc buf_len =
     (let new_buf_len = (if buf_len \<le> 255 then buf_len + 256
                         else if buf_len > 255 \<and> buf_len \<le> 8191 then buf_len * 2
                         else buf_len + 8192) mod 2 ^ 32
      in if alloc new_buf_len then Some new_buf_len else None)"

definition asn_realloc :: "(nat \<Rightarrow> bool) \<Rightarrow> rbuf \<Rightarrow> asn_error + rbuf" where
  "asn_realloc alloc b =
     (case snmp_realloc alloc (length (pkt b)) of
        None \<Rightarrow> Inl ReallocFailed
      | Some pkt_len \<Rightarrow>
          if pkt_len < length (pkt b) then Inl OutOfBounds
          else Inr (b\<lparr>pkt := replicate (pkt_len - length (pkt b)) 0x20 @ pkt b\<rparr>))"

text \<open>The store \<^verbatim>\<open>*(*pkt + *pkt_len - (++*offset)) = x\<close>.\<close>

definition rstore :: "u8 \<Rightarrow> rbuf \<Rightarrow> asn_error + rbuf" where
  "rstore x b =
     (if offset b + 1 \<le> length (pkt b)
      then Inr (b\<lparr>pkt := (pkt b)[length (pkt b) - (offset b + 1) := x], offset := offset b + 1\<rparr>)
      else Inl OutOfBounds)"

text \<open>
  The store with its guard
  \<^verbatim>\<open>if (((*pkt_len - *offset) < 1) && !(r && asn_realloc(pkt, pkt_len))) return 0\<close>,
  and a loop of such stores.
\<close>

definition rput :: "(nat \<Rightarrow> bool) \<Rightarrow> bool \<Rightarrow> u8 \<Rightarrow> rbuf \<Rightarrow> asn_error + rbuf" where
  "rput alloc r x b =
     ebind (if length (pkt b) - offset b < 1
            then (if r then asn_realloc alloc b else Inl ReallocFailed) else Inr b)
       (rstore x)"

fun rputs :: "(nat \<Rightarrow> bool) \<Rightarrow> bool \<Rightarrow> u8 list \<Rightarrow> rbuf \<Rightarrow> asn_error + rbuf" where
  "rputs alloc r [] b = Inr b"
| "rputs alloc r (x # xs) b = ebind (rput alloc r x b) (rputs alloc r xs)"

lemma add_mod_neq: "0 < d \<Longrightarrow> d < k \<Longrightarrow> n \<noteq> (n + d) mod (k :: nat)"
proof
  assume d: "0 < d" "d < k" and n: "n = (n + d) mod k"
  have "n < k" using n d by (metis mod_less_divisor order.strict_trans)
  then have "(n + d) mod k = (if n + d < k then n + d else n + d - k)"
    using d by (simp add: mod_if)
  then show False using n d by (simp split: if_splits)
qed

lemma asn_realloc_grows:
  assumes "asn_realloc alloc b = Inr b'"
  shows "length (pkt b) < length (pkt b') \<and> offset b' = offset b"
proof -
  let ?n = "length (pkt b)"
  obtain n where n: "snmp_realloc alloc ?n = Some n" "?n \<le> n" "length (pkt b') = n" "offset b' = offset b"
    using assms by (auto simp: asn_realloc_def split: option.splits if_splits)
  have "n \<noteq> ?n"
  proof
    assume "n = ?n"
    with n(1) have "?n = (if ?n \<le> 255 then ?n + 256 else if ?n \<le> 8191 then ?n * 2 else ?n + 8192) mod 2 ^ 32"
      by (auto simp: snmp_realloc_def Let_def split: if_splits)
    then show False
      using add_mod_neq[of 256 "2 ^ 32" ?n] add_mod_neq[of 8192 "2 ^ 32" ?n] by (auto split: if_splits)
  qed
  with n show ?thesis by simp
qed

text \<open>The loop \<^verbatim>\<open>while ((*pkt_len - *offset) < n) if (!(r && asn_realloc(...))) return 0\<close>.\<close>

function rroom :: "(nat \<Rightarrow> bool) \<Rightarrow> bool \<Rightarrow> nat \<Rightarrow> rbuf \<Rightarrow> asn_error + rbuf" where
  "rroom alloc r n b =
     (if length (pkt b) - offset b < n then
        if r then (case asn_realloc alloc b of Inl e \<Rightarrow> Inl e | Inr b' \<Rightarrow> rroom alloc r n b')
        else Inl ReallocFailed
      else Inr b)"
  by pat_completeness auto
termination
  by (relation "measure (\<lambda>(_, _, n, b). n + offset b - length (pkt b))")
    (auto dest: asn_realloc_grows)

declare rroom.simps [simp del]

fun rstores :: "u8 list \<Rightarrow> rbuf \<Rightarrow> asn_error + rbuf" where
  "rstores [] b = Inr b"
| "rstores (x # xs) b = ebind (rstore x b) (rstores xs)"

text \<open>\<^verbatim>\<open>memcpy\<close> of a whole string in front of the bytes already used.\<close>

definition rcopy :: "u8 list \<Rightarrow> rbuf \<Rightarrow> asn_error + rbuf" where
  "rcopy s b =
     (let off = offset b + length s; start = length (pkt b) - off in
      if off \<le> length (pkt b)
      then Inr (b\<lparr>pkt := take start (pkt b) @ s @ drop (start + length s) (pkt b), offset := off\<rparr>)
      else Inl OutOfBounds)"

definition asn_realloc_build_header_check :: "rbuf \<Rightarrow> nat \<Rightarrow> bool" where
  "asn_realloc_build_header_check b typedlen = (length (pkt b) < typedlen)"

section \<open>What putting bytes in front means\<close>

text \<open>
  The outcome of an operation that is to put \<open>bs\<close> in front of the buffer \<open>b\<close>:
  on success they are there and what was there is kept, and a buffer with room
  for them is not moved; a failure means that there was no room, and that the
  buffer was not allowed to grow, that an allocation failed, or that the size
  no longer fits in 32 bits.
\<close>

definition prepended :: "(nat \<Rightarrow> bool) \<Rightarrow> bool \<Rightarrow> rbuf \<Rightarrow> u8 list \<Rightarrow> asn_error + rbuf \<Rightarrow> bool" where
  "prepended alloc r b bs res \<longleftrightarrow>
     (case res of
        Inr b' \<Rightarrow> valid_rbuf b' \<and> contents b' = bs @ contents b \<and> length (pkt b) \<le> length (pkt b') \<and>
          (\<not> r \<or> offset b + length bs \<le> length (pkt b) \<longrightarrow> length (pkt b') = length (pkt b))
      | Inl e \<Rightarrow> length (pkt b) < offset b + length bs \<and>
          (e = ReallocFailed \<and> (r \<longrightarrow> (\<exists>n. \<not> alloc n)) \<or>
           e = OutOfBounds \<and> r \<and> 2 ^ 32 - 8192 < offset b + length bs))"

lemma length_contents [simp]: "valid_rbuf b \<Longrightarrow> length (contents b) = offset b"
  by (simp add: valid_rbuf_def contents_def)

lemma prepended_offset:
  assumes "prepended alloc r b bs (Inr b')" "valid_rbuf b"
  shows "offset b' = offset b + length bs"
proof -
  have "valid_rbuf b'" "contents b' = bs @ contents b" using assms(1) by (simp_all add: prepended_def)
  then have "length (contents b') = length bs + length (contents b)" by simp
  then show ?thesis using assms(2) \<open>valid_rbuf b'\<close> by simp
qed

lemma prepended_Nil: "valid_rbuf b \<Longrightarrow> prepended alloc r b [] (Inr b)"
  by (simp add: prepended_def)

lemma prepended_bind:
  assumes "valid_rbuf b" "prepended alloc r b bs res"
    and "\<And>b'. res = Inr b' \<Longrightarrow> valid_rbuf b' \<Longrightarrow> contents b' = bs @ contents b \<Longrightarrow>
      offset b' = offset b + length bs \<Longrightarrow> prepended alloc r b' cs (g b')"
  shows "prepended alloc r b (cs @ bs) (ebind res g)"
proof (cases res)
  case (Inl e)
  then show ?thesis using assms(2) by (auto simp: prepended_def)
next
  case (Inr b')
  have b': "valid_rbuf b'" "contents b' = bs @ contents b" "length (pkt b) \<le> length (pkt b')"
      "\<not> r \<or> offset b + length bs \<le> length (pkt b) \<Longrightarrow> length (pkt b') = length (pkt b)"
    using assms(2) Inr by (auto simp: prepended_def)
  have o: "offset b' = offset b + length bs" using prepended_offset assms(1,2) Inr by blast
  from assms(3)[OF Inr b'(1,2) o] show ?thesis
    using Inr b' o by (auto simp: prepended_def split: sum.splits)
qed

lemma asn_realloc_Inr:
  assumes "asn_realloc alloc b = Inr b'" "valid_rbuf b"
  shows "valid_rbuf b' \<and> contents b' = contents b \<and> offset b' = offset b \<and> length (pkt b) < length (pkt b')"
  using assms asn_realloc_grows[OF assms(1)]
  by (auto simp: asn_realloc_def valid_rbuf_def contents_def split: option.splits if_splits)

lemma asn_realloc_Inl:
  assumes "asn_realloc alloc b = Inl e"
  shows "e = ReallocFailed \<and> (\<exists>n. \<not> alloc n) \<or> e = OutOfBounds \<and> 2 ^ 32 - 8192 \<le> length (pkt b)"
proof (cases "snmp_realloc alloc (length (pkt b))")
  case None
  then show ?thesis using assms
    by (auto simp: asn_realloc_def snmp_realloc_def Let_def split: if_splits)
next
  case (Some n)
  let ?l = "length (pkt b)"
  from Some assms have e: "e = OutOfBounds" "n < ?l"
    by (auto simp: asn_realloc_def split: if_splits)
  have "\<not> ?l < 2 ^ 32 - 8192"
  proof
    assume "?l < 2 ^ 32 - 8192"
    then have "(if ?l \<le> 255 then ?l + 256 else if ?l \<le> 8191 then ?l * 2 else ?l + 8192) < 2 ^ 32" by simp
    then have "n = (if ?l \<le> 255 then ?l + 256 else if ?l \<le> 8191 then ?l * 2 else ?l + 8192)"
      using Some by (auto simp: snmp_realloc_def Let_def split: if_splits)
    then show False using e(2) by (simp split: if_splits)
  qed
  then show ?thesis using e(1) by simp
qed

lemma rstore_prepended:
  assumes "valid_rbuf b" "offset b + 1 \<le> length (pkt b)"
  shows "prepended alloc r b [x] (rstore x b)"
proof -
  let ?i = "length (pkt b) - Suc (offset b)"
  have i: "?i < length (pkt b)" "Suc ?i = length (pkt b) - offset b" using assms(2) by auto
  have "drop ?i ((pkt b)[?i := x]) = x # drop (Suc ?i) (pkt b)"
    using i(1) by (simp add: Cons_nth_drop_Suc[symmetric])
  then show ?thesis
    using assms i by (simp add: rstore_def prepended_def valid_rbuf_def contents_def)
qed

lemma rstores_prepended:
  "valid_rbuf b \<Longrightarrow> offset b + length xs \<le> length (pkt b) \<Longrightarrow> prepended alloc r b (rev xs) (rstores xs b)"
proof (induction xs arbitrary: b)
  case Nil
  then show ?case by (simp add: prepended_Nil)
next
  case (Cons x xs)
  have p: "prepended alloc r b [x] (rstore x b)" using Cons.prems by (intro rstore_prepended) auto
  have "prepended alloc r b (rev xs @ [x]) (ebind (rstore x b) (rstores xs))"
  proof (rule prepended_bind[OF Cons.prems(1) p])
    fix b' assume b': "rstore x b = Inr b'" "valid_rbuf b'" "offset b' = offset b + length [x]"
    then have "length (pkt b') = length (pkt b)" by (auto simp: rstore_def split: if_splits)
    then show "prepended alloc r b' (rev xs) (rstores xs b')"
      using b' Cons.prems(2) by (intro Cons.IH) auto
  qed
  then show ?case by simp
qed

lemma rcopy_prepended:
  assumes "valid_rbuf b" "offset b + length s \<le> length (pkt b)"
  shows "prepended alloc r b s (rcopy s b)"
  using assms by (auto simp: rcopy_def Let_def prepended_def valid_rbuf_def contents_def algebra_simps)

lemma rput_prepended:
  assumes "valid_rbuf b"
  shows "prepended alloc r b [x] (rput alloc r x b)"
proof (cases "length (pkt b) - offset b < 1")
  case False
  then have "offset b + 1 \<le> length (pkt b)" using assms by (simp add: valid_rbuf_def)
  with False show ?thesis using rstore_prepended[OF assms] by (simp add: rput_def)
next
  case True
  then have full: "length (pkt b) < offset b + 1" using assms by (simp add: valid_rbuf_def)
  show ?thesis
  proof (cases "asn_realloc alloc b")
    case (Inl e)
    then show ?thesis
      using True full asn_realloc_Inl[OF Inl] by (auto simp: rput_def prepended_def)
  next
    case (Inr b')
    note b' = asn_realloc_Inr[OF Inr assms]
    have "prepended alloc r b' [x] (rstore x b')"
      using b' full assms by (intro rstore_prepended) (auto simp: valid_rbuf_def)
    moreover have "\<exists>b''. rstore x b' = Inr b''"
      using b' full assms by (auto simp: rstore_def valid_rbuf_def)
    ultimately show ?thesis
      using True full Inr b' by (auto simp: rput_def prepended_def)
  qed
qed

lemma rputs_prepended:
  "valid_rbuf b \<Longrightarrow> prepended alloc r b (rev xs) (rputs alloc r xs b)"
proof (induction xs arbitrary: b)
  case (Cons x xs)
  have "prepended alloc r b (rev xs @ [x]) (ebind (rput alloc r x b) (rputs alloc r xs))"
    by (rule prepended_bind[OF Cons.prems rput_prepended[OF Cons.prems]]) (rule Cons.IH)
  then show ?case by simp
qed (simp add: prepended_Nil)

lemma rroom_bind:
  assumes "valid_rbuf b" "n \<le> length bs"
    and "\<And>b'. valid_rbuf b' \<Longrightarrow> contents b' = contents b \<Longrightarrow> offset b' = offset b \<Longrightarrow>
      offset b' + n \<le> length (pkt b') \<Longrightarrow> prepended alloc r b' bs (g b')"
  shows "prepended alloc r b bs (ebind (rroom alloc r n b) g)"
  using assms
proof (induction alloc r n b rule: rroom.induct)
  case (1 alloc r n b)
  show ?case
  proof (cases "length (pkt b) - offset b < n")
    case False
    then have "offset b + n \<le> length (pkt b)" using "1.prems"(1) by (simp add: valid_rbuf_def)
    then show ?thesis using False "1.prems" by (simp add: rroom.simps[of alloc r n b])
  next
    case True
    then have full: "length (pkt b) < offset b + length bs"
      using "1.prems"(1,2) by (simp add: valid_rbuf_def)
    show ?thesis
    proof (cases "r \<and> (\<exists>b'. asn_realloc alloc b = Inr b')")
      case False
      then show ?thesis
        using True full asn_realloc_Inl[of alloc b]
        by (subst rroom.simps) (cases "asn_realloc alloc b"; auto simp: prepended_def)
    next
      case r: True
      then obtain b' where a: "asn_realloc alloc b = Inr b'" by blast
      note b' = asn_realloc_Inr[OF a "1.prems"(1)]
      have "prepended alloc r b' bs (ebind (rroom alloc r n b') g)"
        using r b' "1.prems"(2,3) by (intro "1.IH"[OF True _ a]) auto
      moreover have "rroom alloc r n b = rroom alloc r n b'"
        using True r a by (subst rroom.simps) simp
      ultimately show ?thesis
        using r b' full by (auto simp: prepended_def split: sum.splits)
    qed
  qed
qed

section \<open>The contract of the reverse encoders\<close>

locale reverse_encoder =
  fixes rbuild :: "(nat \<Rightarrow> bool) \<Rightarrow> bool \<Rightarrow> 'v \<Rightarrow> rbuf \<Rightarrow> asn_error + rbuf"
    and enc :: "'v \<Rightarrow> u8 list"
    and ok :: "'v \<Rightarrow> bool"
  assumes rbuild_prepended: "ok v \<Longrightarrow> valid_rbuf b \<Longrightarrow> prepended alloc r b (enc v) (rbuild alloc r v b)"
begin

lemma rbuild_contents:
  assumes "ok v" "valid_rbuf b" "rbuild alloc r v b = Inr b'"
  shows "valid_rbuf b' \<and> contents b' = enc v @ contents b"
  using rbuild_prepended[OF assms(1,2), of alloc r] assms(3) by (simp add: prepended_def)

lemma rbuild_fits:
  assumes "ok v" "valid_rbuf b" "offset b + length (enc v) \<le> length (pkt b)"
  shows "\<exists>b'. rbuild alloc r v b = Inr b' \<and> length (pkt b') = length (pkt b)"
  using rbuild_prepended[OF assms(1,2), of alloc r] assms(3)
  by (auto simp: prepended_def split: sum.splits)

lemma rbuild_no_growth:
  assumes "ok v" "valid_rbuf b" "length (pkt b) < offset b + length (enc v)"
  shows "rbuild alloc False v b = Inl ReallocFailed"
proof (cases "rbuild alloc False v b")
  case (Inl e)
  then show ?thesis using rbuild_prepended[OF assms(1,2), of alloc False] by (auto simp: prepended_def)
next
  case (Inr b')
  have p: "prepended alloc False b (enc v) (Inr b')"
    using rbuild_prepended[OF assms(1,2), of alloc False] Inr by simp
  then have "offset b' = offset b + length (enc v)" by (rule prepended_offset[OF _ assms(2)])
  then show ?thesis using p assms(3) by (auto simp: prepended_def valid_rbuf_def)
qed

lemma rbuild_total:
  assumes "ok v" "valid_rbuf b" "\<forall>n. alloc n" "offset b + length (enc v) \<le> 2 ^ 32 - 8192"
  shows "\<exists>b'. rbuild alloc True v b = Inr b'"
  using rbuild_prepended[OF assms(1,2), of alloc True] assms(3,4)
  by (auto simp: prepended_def split: sum.splits)

end

text \<open>A reverse encoder and a forward encoder of the same encoding.\<close>

locale encoder_pair = ber_encoder build enc ok + reverse_encoder rbuild enc ok
  for build :: "u32 \<Rightarrow> 'v \<Rightarrow> u8 list \<times> (asn_error + u32)"
    and rbuild :: "(nat \<Rightarrow> bool) \<Rightarrow> bool \<Rightarrow> 'v \<Rightarrow> rbuf \<Rightarrow> asn_error + rbuf"
    and enc :: "'v \<Rightarrow> u8 list"
    and ok :: "'v \<Rightarrow> bool"
begin

lemma same_bytes:
  assumes "ok v" "valid_rbuf b" "build dl v = (w, Inr dl')" "rbuild alloc r v b = Inr b'"
  shows "contents b' = w @ contents b"
  using rbuild_contents[OF assms(1,2,4)] assms(1,3) by (simp add: build_Inr_iff)

end

end
