(* ===== verification/Asn_Int.thy ===== *)
theory Asn_Int
  imports Asn_Codec
begin

unbundle bit_operations_syntax

text \<open>
  32-bit integers of \<^verbatim>\<open>snmplib/asn1.c\<close>: \<^verbatim>\<open>asn_parse_int\<close>,
  \<^verbatim>\<open>asn_build_int\<close>, \<^verbatim>\<open>asn_parse_unsigned_int\<close> and
  \<^verbatim>\<open>asn_build_unsigned_int\<close>, their loops, the shortest encodings these
  produce, and both pairs as codecs.
\<close>

section \<open>Encoding loops\<close>

fun trunc_int :: "u32 \<Rightarrow> nat \<Rightarrow> u32 \<times> nat" where
  "trunc_int integer intsize =
     (if (integer AND 0xFF800000 = 0 \<or> integer AND 0xFF800000 = 0xFF800000) \<and> intsize > 1
      then trunc_int (push_bit 8 integer) (intsize - 1)
      else (integer, intsize))"

declare trunc_int.simps [simp del]

fun emit_int :: "nat \<Rightarrow> u32 \<Rightarrow> u8 list" where
  "emit_int 0 integer = []"
| "emit_int (Suc n) integer =
     ucast (drop_bit 24 (integer AND 0xFF000000)) # emit_int n (push_bit 8 integer)"

lemma top9_mask: 
  "((i :: u32) AND 0xFF800000 = 0 \<or> i AND 0xFF800000 = 0xFF800000) \<longleftrightarrow> top9 i"
proof -
  have "i AND 0xFF800000 = 0 \<longleftrightarrow> (\<forall>n. 23 \<le> n \<and> n < 32 \<longrightarrow> \<not> bit i n)"
    unfolding mask_0xFF800000 bit_eq_iff[of "i AND push_bit 23 (mask 9)" 0]
    by (auto simp: bit_simps)
  moreover have "i AND 0xFF800000 = 0xFF800000 \<longleftrightarrow> (\<forall>n. 23 \<le> n \<and> n < 32 \<longrightarrow> bit i n)"
    unfolding mask_0xFF800000 bit_eq_iff[of "i AND push_bit 23 (mask 9)" "push_bit 23 (mask 9)"]
    by (auto simp: bit_simps)
  moreover have "top9 i \<longleftrightarrow> (\<forall>n. 23 \<le> n \<and> n < 32 \<longrightarrow> bit i n = bit i 31)"
  proof
    assume t: "top9 i"
    show "\<forall>n. 23 \<le> n \<and> n < 32 \<longrightarrow> bit i n = bit i 31"
    proof (intro allI impI)
      fix n :: nat assume n: "23 \<le> n \<and> n < 32"
      then have "31 - n < 9" "31 - (31 - n) = n" by auto
      then show "bit i n = bit i 31" using t by (force simp: top9_def)
    qed
  next
    assume *: "\<forall>n. 23 \<le> n \<and> n < 32 \<longrightarrow> bit i n = bit i 31"
    show "top9 i"
      unfolding top9_def
    proof (intro allI impI)
      fix k :: nat assume "k < 9"
      then have "23 \<le> 31 - k \<and> 31 - k < 32" by auto
      then have "bit i (31 - k) = bit i 31" using * by blast
      then show "bit i (LENGTH(32) - 1 - k) = bit i (LENGTH(32) - 1)" by simp
    qed
  qed
  moreover have "((\<forall>n. 23 \<le> n \<and> n < 32 \<longrightarrow> \<not> bit i n) \<or> (\<forall>n. 23 \<le> n \<and> n < 32 \<longrightarrow> bit i n))
      \<longleftrightarrow> (\<forall>n. 23 \<le> n \<and> n < 32 \<longrightarrow> bit i n = bit i 31)"
    by (rule all_equal_iff) simp
  ultimately show ?thesis by simp
qed

lemma trunc_int_spec:
  assumes "fits_signed n x" "0 < n" "n \<le> 4"
  shows "trunc_int (push_bit (32 - 8 * n) x) n =
    (push_bit (32 - 8 * min_octets n x) x, min_octets n x)"
  using assms
proof (induction n x rule: min_octets.induct)
  case (1 n x)
  show ?case
  proof (cases "1 < n")
    case False
    with 1(3) have "n = 1" by simp
    then show ?thesis
      by (simp add: trunc_int.simps[of _ "Suc 0"] min_octets.simps[of "Suc 0"])
  next
    case True
    have t: "top9 (push_bit (32 - 8 * n) x) \<longleftrightarrow> fits_signed (n - 1) x"
      using top9_shifted[OF 1(2) True] 1(4) by simp
    have sh: "push_bit 8 (push_bit (32 - 8 * n) x) = push_bit (32 - 8 * (n - 1)) x"
      using True 1(4) by (simp add: algebra_simps)
    show ?thesis
    proof (cases "fits_signed (n - 1) x")
      case True': True
      have "trunc_int (push_bit (32 - 8 * n) x) n = trunc_int (push_bit (32 - 8 * (n - 1)) x) (n - 1)"
        by (subst trunc_int.simps) (simp only: top9_mask t True True' sh, simp)
      also have "\<dots> = (push_bit (32 - 8 * min_octets (n - 1) x) x, min_octets (n - 1) x)"
        using "1.IH" True True' 1(4) by simp
      finally show ?thesis using True True' by (simp add: min_octets.simps[of n x])
    next
      case False
      then show ?thesis
        by (subst trunc_int.simps) (simp only: top9_mask t, simp add: min_octets.simps[of n x])
    qed
  qed
qed

lemma emit_int_spec: "n \<le> 4 \<Longrightarrow> emit_int n (push_bit (32 - 8 * n) x) = be_bytes n x"
proof (induction n)
  case 0
  then show ?case by simp
next
  case (Suc n)
  have "ucast (drop_bit 24 (push_bit (32 - 8 * Suc n) x AND 0xFF000000)) = (ucast (drop_bit (8 * n) x) :: u8)"
    unfolding mask_0xFF000000
    by (rule word_bit_eqI) (use Suc.prems in \<open>auto simp: bit_simps ac_simps\<close>)
  moreover have "push_bit 8 (push_bit (32 - 8 * Suc n) x) = push_bit (32 - 8 * n) x"
    using Suc.prems by simp
  ultimately show ?case using Suc by simp
qed

definition asn_parse_int ::
  "u8 list \<Rightarrow> nat \<Rightarrow> u32 \<Rightarrow> u32 \<Rightarrow> asn_error + nat \<times> u32 \<times> u8 \<times> u32" where
  "asn_parse_int m data datalength intsize =
     (if intsize \<noteq> 4 then Inl SizeErr
      else ebind (asn_parse_tl m data datalength) (\<lambda>(type, bufp, asn_length).
      if asn_length > intsize then Inl LengthErr
      else ebind (rd m bufp) (\<lambda>first.
      ebind (shift_in m bufp (unat asn_length) (if first AND 0x80 \<noteq> 0 then - 1 else 0))
        (\<lambda>(bufp', value).
      Inr (bufp', datalength - (asn_length + of_nat (bufp - data)), type, value)))))"

definition asn_build_int ::
  "u32 \<Rightarrow> u8 \<Rightarrow> u32 \<Rightarrow> u32 \<Rightarrow> u8 list \<times> (asn_error + u32)" where
  "asn_build_int datalength type intp intsize =
     (if intsize \<noteq> 4 then ([], Inl SizeErr)
      else let (integer, n) = trunc_int intp (unat intsize) in
      wbind (asn_build_header datalength type (of_nat n)) (\<lambda>datalength'.
      if asn_build_header_check datalength' (of_nat n) then ([], Inl HeaderTooShort)
      else (emit_int n integer, Inr (datalength' - of_nat n))))"

definition int_payload :: "u32 \<Rightarrow> u8 list" where
  "int_payload x = be_bytes (min_octets 4 x) x"

lemma trunc_int_4: "trunc_int x 4 = (push_bit (32 - 8 * min_octets 4 x) x, min_octets 4 x)"
  using trunc_int_spec[of 4 x] fits_signed_full[of 4 x] by simp

lemma asn_build_int_tlv: "asn_build_int dl type x 4 = build_tlv dl type (int_payload x)"
  using min_octets_bounds[of 4 x]
  by (simp add: asn_build_int_def build_tlv_def int_payload_def trunc_int_4 emit_int_spec cong: if_cong)

lemma int_payload_len: "0 < length (int_payload x)" "length (int_payload x) \<le> 4"
  using min_octets_bounds[of 4 x] by (auto simp: int_payload_def)

lemma int_payload_value:
  "be_value (if bit (hd (int_payload x)) 7 then - 1 else 0) (int_payload x) = x"
  using signed_value_be_bytes[of "min_octets 4 x" x] min_octets_bounds[of 4 x]
    min_octets_fits[of 4 x] fits_signed_full[of 4 x] be_bytes_hd[of "min_octets 4 x" x]
  by (simp add: int_payload_def)

text \<open>The encoding is the shortest one the decoder accepts for the value.\<close>

lemma shift_in_value:
  "shift_in m p n v = Inr (q, w) \<Longrightarrow> \<exists>bs. length bs = n \<and> w = be_value v bs \<and> (0 < n \<longrightarrow> rd m p = Inr (hd bs))"
proof (induction m p n v rule: shift_in.induct)
  case (2 m p n v)
  from "2.prems" obtain b where b: "rd m p = Inr b" "shift_in m (p + 1) n (push_bit 8 v OR ucast b) = Inr (q, w)"
    by (auto simp: ebind_eq_Inr)
  obtain bs where "length bs = n" "w = be_value (push_bit 8 v OR ucast b) bs" using "2.IH"[OF b(2)] by blast
  then show ?case using b(1) by (intro exI[of _ "b # bs"]) simp
qed simp

lemma int_payload_shortest:
  assumes "asn_parse_tl m p dl = Inr (type, q, n)" "n \<noteq> 0" "asn_parse_int m p dl 4 = Inr (p', dl', t', x)"
  shows "length (int_payload x) \<le> unat n"
proof -
  from assms(1,3) obtain b where n: "unat n \<le> 4" and b: "rd m q = Inr b"
    and s: "shift_in m q (unat n) (if bit b 7 then - 1 else 0) = Inr (p', x)"
    by (auto simp: asn_parse_int_def ebind_eq_Inr word_less_nat_alt split: if_splits)
  have n0: "0 < unat n" using assms(2) by (simp add: unat_gt_0)
  obtain bs where bs: "length bs = unat n" "x = be_value (if bit b 7 then - 1 else 0) bs" "hd bs = b"
    using shift_in_value[OF s] n0 b by auto
  moreover have "bs \<noteq> []" using bs(1) n0 by auto
  ultimately have "fits_signed (unat n) x"
    using be_value_fits[of bs, where 'a = 32] n by (auto split: if_splits)
  then have "min_octets 4 x \<le> unat n"
    using min_octets_le_iff[of "unat n" 4 x] fits_signed_full[of 4 x] n n0 by simp
  then show ?thesis by (simp add: int_payload_def)
qed

interpretation int_codec: tlv_codec
  "\<lambda>dl v. asn_build_int dl (fst v) (snd v) 4" "\<lambda>m p dl. asn_parse_int m p dl 4"
  fst "\<lambda>v. int_payload (snd v)" "\<lambda>_. True" "\<lambda>v. v"
proof unfold_locales
  fix v :: "u8 \<times> u32" and m q p and dl :: u32
  let ?bs = "int_payload (snd v)"
  note n = int_payload_len[of "snd v"]
  assume at: "bytes_at m q ?bs" and tl: "asn_parse_tl m p dl = Inr (fst v, q, of_nat (length ?bs))"
  have "rd m q = Inr (hd ?bs)" using rd_payload[OF at] n by fastforce
  then show "asn_parse_int m p dl 4 =
      Inr (q + length ?bs, dl - (of_nat (length ?bs) + of_nat (q - p)), v)"
    using tl shift_in_bytes_at[OF at] int_payload_value[of "snd v"] u32_of_nat_not_less[OF n(2)] n
    by (simp add: asn_parse_int_def u32_unat_of_nat split del: if_split)
qed (use int_payload_len in \<open>simp_all add: asn_build_int_tlv le_trans[OF int_payload_len(2)]\<close>)

section \<open>Unsigned integers\<close>

definition asn_parse_unsigned_int ::
  "u8 list \<Rightarrow> nat \<Rightarrow> u32 \<Rightarrow> u32 \<Rightarrow> asn_error + nat \<times> u32 \<times> u8 \<times> u32" where
  "asn_parse_unsigned_int m data datalength intsize =
     (if intsize \<noteq> 4 then Inl SizeErr
      else ebind (asn_parse_tl m data datalength) (\<lambda>(type, bufp, asn_length).
      if asn_length > intsize + 1 then Inl LengthErr
      else ebind (rd m bufp) (\<lambda>first.
      if asn_length = intsize + 1 \<and> first \<noteq> 0 then Inl LengthErr
      else ebind (shift_in m bufp (unat asn_length) (if first AND 0x80 \<noteq> 0 then - 1 else 0))
        (\<lambda>(bufp', value).
      Inr (bufp', datalength - (asn_length + of_nat (bufp - data)), type, value)))))"

definition asn_build_unsigned_int ::
  "u32 \<Rightarrow> u8 \<Rightarrow> u32 \<Rightarrow> u32 \<Rightarrow> u8 list \<times> (asn_error + u32)" where
  "asn_build_unsigned_int datalength type intp intsize =
     (if intsize \<noteq> 4 then ([], Inl SizeErr)
      else
        let add_null_byte = ((ucast (drop_bit 24 (intp AND 0xFF000000)) :: u8) AND 0x80 \<noteq> 0);
            (integer, n) = (if add_null_byte then (intp, unat intsize + 1) else trunc_int intp (unat intsize))
        in wbind (asn_build_header datalength type (of_nat n)) (\<lambda>datalength'.
           if asn_build_header_check datalength' (of_nat n) then ([], Inl HeaderTooShort)
           else (if add_null_byte then 0 # emit_int (n - 1) integer else emit_int n integer,
                 Inr (datalength' - of_nat n))))"

text \<open>
  The contents octets of an unsigned value of \<open>n\<close> octets: a leading zero octet
  when the top bit is set, else as few octets as a nonnegative number needs.
\<close>

definition uint_payload :: "nat \<Rightarrow> 'a::len word \<Rightarrow> u8 list" where
  "uint_payload n x = (if bit x (8 * n - 1) then 0 # be_bytes n x else be_bytes (min_octets n x) x)"

lemma uint_payload_len:
  "0 < n \<Longrightarrow> 0 < length (uint_payload n x)" "0 < n \<Longrightarrow> length (uint_payload n x) \<le> n + 1"
  using min_octets_bounds[of n x] by (simp_all add: uint_payload_def del: length_greater_0_conv)

lemma uint_payload_top: "0 < n \<Longrightarrow> length (uint_payload n x) = n + 1 \<Longrightarrow> hd (uint_payload n x) = 0"
  using min_octets_bounds[of n x] by (auto simp: uint_payload_def split: if_splits)

lemma uint_payload_value:
  fixes x :: "'a::len word"
  assumes "LENGTH('a) = 8 * n"
  shows "be_value (if bit (hd (uint_payload n x)) 7 then s else 0) (uint_payload n x) = x"
proof (cases "bit x (8 * n - 1)")
  case True
  then show ?thesis using assms
    by (simp add: uint_payload_def be_value_be_bytes take_bit_word_eq_self)
next
  case False
  let ?n = "min_octets n x"
  have "0 < n" using assms len_gt_0[where 'a = 'a] by simp
  then have n: "0 < ?n" "?n \<le> n" using min_octets_bounds[of n x] by auto
  have f: "fits_signed ?n x" using min_octets_fits[of n x] fits_signed_full[of n x] assms by simp
  have "bit x (8 * n - 1) = bit x (8 * ?n - 1)" by (rule fits_signedD[OF f]) (use n assms in auto)
  then have "\<not> bit x (8 * ?n - 1)" using False by simp
  then show ?thesis
    using False signed_value_be_bytes[OF f n(1)] n assms be_bytes_hd[OF n(1), of x]
    by (simp add: uint_payload_def)
qed

lemma uint_payload_min:
  fixes x :: "'a::len word"
  assumes "LENGTH('a) = 8 * n"
  shows "uint_payload n x =
    (if bit x (8 * min_uoctets n x - 1) then [0] else []) @ be_bytes (min_uoctets n x) x"
proof -
  let ?k = "min_uoctets n x"
  have n: "0 < n" using assms len_gt_0[where 'a = 'a] by simp
  then have k: "0 < ?k" "?k \<le> n" using min_uoctets_bounds[of n x] by auto
  have fit: "take_bit (8 * ?k) x = x"
    using assms by (intro min_uoctets_fits) (simp add: take_bit_word_eq_self)
  show ?thesis
  proof (cases "bit x (8 * n - 1)")
    case True
    have "8 * n - 1 < 8 * ?k" using True fit by (metis bit_take_bit_iff)
    then have "?k = n" using k by linarith
    with True show ?thesis by (simp add: uint_payload_def)
  next
    case False
    then have neg: "\<not> bit x (LENGTH('a) - 1)" using assms by simp
    have "be_bytes (min_octets n x) x = (if bit x (8 * ?k - 1) then [0] else []) @ be_bytes ?k x"
      using sign_extension_octets[of ?k n x] k assms neg fit min_uoctets_least[of n x]
      by (auto simp: sign_from_nonneg[OF neg])
    with False show ?thesis by (simp add: uint_payload_def)
  qed
qed

lemma top_byte_bit: "(ucast (drop_bit 24 (h AND 0xFF000000)) :: u8) AND 0x80 = 0 \<longleftrightarrow> \<not> bit h 31" for h :: u32
proof -
  have "bit (ucast (drop_bit 24 (h AND 0xFF000000)) :: u8) 7 = bit h 31"
    unfolding mask_0xFF000000 by (simp add: bit_simps)
  then show ?thesis by simp
qed

lemma asn_build_unsigned_int_tlv:
  "asn_build_unsigned_int dl type x 4 = build_tlv dl type (uint_payload 4 x)"
  using min_octets_bounds[of 4 x] emit_int_spec[of 4 x] emit_int_spec[of "min_octets 4 x" x]
  unfolding asn_build_unsigned_int_def Let_def top_byte_bit
  by (cases "bit x 31") (simp_all add: build_tlv_def uint_payload_def trunc_int_4 cong: if_cong)

interpretation uint_codec: tlv_codec
  "\<lambda>dl v. asn_build_unsigned_int dl (fst v) (snd v) 4" "\<lambda>m p dl. asn_parse_unsigned_int m p dl 4"
  fst "\<lambda>v. uint_payload 4 (snd v)" "\<lambda>_. True" "\<lambda>v. v"
proof unfold_locales
  fix v :: "u8 \<times> u32" and m q p and dl :: u32
  let ?bs = "uint_payload 4 (snd v)"
  have n: "0 < length ?bs" "length ?bs \<le> 5"
    using uint_payload_len(1)[of 4 "snd v"] uint_payload_len(2)[of 4 "snd v"] by auto
  assume at: "bytes_at m q ?bs" and tl: "asn_parse_tl m p dl = Inr (fst v, q, of_nat (length ?bs))"
  have r: "rd m q = Inr (hd ?bs)" using rd_payload[OF at] n by fastforce
  have "(of_nat (length ?bs) :: u32) = 5 \<longleftrightarrow> length ?bs = 5"
    using n by (simp add: word_unat_eq_iff u32_unat_of_nat)
  then have top: "((of_nat (length ?bs) :: u32) = 5 \<and> hd ?bs \<noteq> 0) = False"
    using uint_payload_top[of 4 "snd v"] by auto
  show "asn_parse_unsigned_int m p dl 4 =
      Inr (q + length ?bs, dl - (of_nat (length ?bs) + of_nat (q - p)), v)"
    using tl r shift_in_bytes_at[OF at] uint_payload_value[of 4 "snd v" "- 1"] u32_of_nat_not_less[OF n(2)] n
    by (simp add: asn_parse_unsigned_int_def u32_unat_of_nat top split del: if_split)
next
  show "length (uint_payload 4 (snd v)) \<le> 65535" for v :: "u8 \<times> u32"
    using uint_payload_len(2)[of 4 "snd v"] by simp
qed (simp add: asn_build_unsigned_int_tlv)

end
