(* ===== verification/Asn_String.thy ===== *)
theory Asn_String
  imports Asn_Codec
begin

unbundle bit_operations_syntax

text \<open>
  Octet strings, bit strings and null of \<^verbatim>\<open>snmplib/asn1.c\<close>. A decoder's
  output buffer is modelled by the bytes the decoder stores at its start and
  the new value of \<^verbatim>\<open>*strlength\<close>; a string argument is the memory it points to,
  \<open>None\<close> for a NULL pointer.
\<close>

section \<open>Octet strings\<close>

definition asn_parse_string ::
  "u8 list \<Rightarrow> nat \<Rightarrow> u32 \<Rightarrow> u32 \<Rightarrow> asn_error + nat \<times> u32 \<times> u8 \<times> u8 list \<times> u32" where
  "asn_parse_string m data datalength strlength =
     ebind (asn_parse_tl m data datalength) (\<lambda>(type, bufp, asn_length).
     if asn_length > strlength then Inl LengthErr
     else ebind (rds m bufp (unat asn_length)) (\<lambda>str.
     Inr (bufp + unat asn_length, datalength - (asn_length + of_nat (bufp - data)), type,
          if strlength > asn_length then str @ [0] else str, asn_length)))"

definition asn_build_string ::
  "u32 \<Rightarrow> u8 \<Rightarrow> u8 list option \<Rightarrow> u32 \<Rightarrow> u8 list \<times> (asn_error + u32)" where
  "asn_build_string datalength type str strlength =
     wbind (asn_build_header datalength type strlength) (\<lambda>dl.
     if asn_build_header_check dl strlength then ([], Inl HeaderTooShort)
     else if strlength = 0 then ([], Inr (dl - strlength))
     else case str of
       None \<Rightarrow> (replicate (unat strlength) 0, Inr (dl - strlength))
     | Some s \<Rightarrow> (case rds s 0 (unat strlength) of
           Inl e \<Rightarrow> ([], Inl e)
         | Inr bytes \<Rightarrow> (bytes, Inr (dl - strlength))))"

section \<open>Null\<close>

definition asn_parse_null :: "u8 list \<Rightarrow> nat \<Rightarrow> u32 \<Rightarrow> asn_error + nat \<times> u32 \<times> u8" where
  "asn_parse_null m data datalength =
     ebind (rd m data) (\<lambda>type.
     ebind (asn_parse_length m (data + 1)) (\<lambda>(bufp, asn_length).
     if asn_length \<noteq> 0 then Inl MalformedNull
     else Inr (bufp + unat asn_length, datalength - of_nat (bufp - data), type)))"

definition asn_build_null :: "u32 \<Rightarrow> u8 \<Rightarrow> u8 list \<times> (asn_error + u32)" where
  "asn_build_null datalength type = asn_build_header datalength type 0"

section \<open>Bit strings\<close>

definition asn_bitstring_check :: "u32 \<Rightarrow> u8 \<Rightarrow> bool" where
  "asn_bitstring_check asn_length datum = (asn_length < 1)"

definition asn_parse_bitstring ::
  "u8 list \<Rightarrow> nat \<Rightarrow> u32 \<Rightarrow> u32 \<Rightarrow> asn_error + nat \<times> u32 \<times> u8 \<times> u8 list \<times> u32" where
  "asn_parse_bitstring m data datalength strlength =
     ebind (asn_parse_tl m data datalength) (\<lambda>(type, bufp, asn_length).
     if asn_length > strlength then Inl LengthErr
     else ebind (rd m bufp) (\<lambda>datum.
     if asn_bitstring_check asn_length datum then Inl BitstringTooSmall
     else ebind (rds m bufp (unat asn_length)) (\<lambda>str.
     Inr (bufp + unat asn_length, datalength - (asn_length + of_nat (bufp - data)), type, str, asn_length))))"

definition asn_build_bitstring ::
  "u32 \<Rightarrow> u8 \<Rightarrow> u8 list option \<Rightarrow> u32 \<Rightarrow> u8 list \<times> (asn_error + u32)" where
  "asn_build_bitstring datalength type str strlength =
     (case (case str of None \<Rightarrow> Inr 0 | Some s \<Rightarrow> rd s 0) of
        Inl e \<Rightarrow> ([], Inl e)
      | Inr datum \<Rightarrow>
     if asn_bitstring_check strlength datum then ([], Inl BitstringTooSmall)
     else wbind (asn_build_header datalength type strlength) (\<lambda>dl.
     if asn_build_header_check dl strlength then ([], Inl HeaderTooShort)
     else case str of
       Some s \<Rightarrow>
         if strlength > 0 then (case rds s 0 (unat strlength) of
             Inl e \<Rightarrow> ([], Inl e)
           | Inr bytes \<Rightarrow> (bytes, Inr (dl - strlength)))
         else ([], Inr (dl - strlength))
     | None \<Rightarrow> if strlength > 0 then ([], Inl NoString) else ([], Inr (dl - strlength))))"

section \<open>Contracts\<close>

lemma rds_all [simp]: "rds s 0 (length s) = Inr s"
  by (simp add: rds_def)

lemma asn_build_string_tlv:
  "length s \<le> 0xFFFF \<Longrightarrow> asn_build_string dl type (Some s) (of_nat (length s)) = build_tlv dl type s"
  by (cases "s = []")
    (simp_all add: asn_build_string_def build_tlv_def u32_unat_of_nat word_unat_eq_iff cong: if_cong)

lemma asn_build_string_null_tlv:
  "n \<le> 0xFFFF \<Longrightarrow> asn_build_string dl type None (of_nat n) = build_tlv dl type (replicate n 0)"
  by (cases "n = 0")
    (simp_all add: asn_build_string_def build_tlv_def u32_unat_of_nat word_unat_eq_iff cong: if_cong)

lemma asn_build_bitstring_tlv:
  "s \<noteq> [] \<Longrightarrow> length s \<le> 0xFFFF \<Longrightarrow>
     asn_build_bitstring dl type (Some s) (of_nat (length s)) = build_tlv dl type s"
  by (simp add: asn_build_bitstring_def build_tlv_def asn_bitstring_check_def rd_def u32_unat_of_nat
      word_less_nat_alt cong: if_cong)

lemma build_tlv_Nil: "build_tlv dl type [] = asn_build_header dl type 0"
  by (cases "asn_build_header dl type 0"; cases "snd (asn_build_header dl type 0)")
    (auto simp: build_tlv_def asn_build_header_check_def)

lemma asn_build_null_tlv: "asn_build_null dl type = build_tlv dl type []"
  by (simp add: asn_build_null_def build_tlv_Nil)

lemma rds_payload: "bytes_at m q s \<Longrightarrow> q \<le> length m \<Longrightarrow> rds m q (length s) = Inr s"
  using rds_bytes_at[of m q s] by (cases "s = []") (auto simp: rds_def)

text \<open>
  A string is read with room to spare or exactly: \<^verbatim>\<open>*strlength\<close> is the caller's
  buffer size \<open>cap\<close>; a terminating zero is stored when there is room for it.
\<close>

definition string_result :: "u32 \<Rightarrow> u8 \<times> u8 list \<Rightarrow> u8 \<times> u8 list \<times> u32" where
  "string_result cap v = (fst v, if length (snd v) < unat cap then snd v @ [0] else snd v, of_nat (length (snd v)))"

lemma asn_parse_tl_pos: "asn_parse_tl m p dl = Inr (t, q, n) \<Longrightarrow> q \<le> length m"
  using asn_parse_tl_Inr[of m p dl t q n] by blast

interpretation string_codec: tlv_codec
  "\<lambda>dl v. asn_build_string dl (fst v) (Some (snd v)) (of_nat (length (snd v)))"
  "\<lambda>m p dl. asn_parse_string m p dl cap" fst snd
  "\<lambda>v. length (snd v) \<le> 0xFFFF \<and> length (snd v) \<le> unat cap" "string_result cap"
  for cap :: u32
proof unfold_locales
  fix v :: "u8 \<times> u8 list" and m q p and dl :: u32
  let ?s = "snd v"
  assume ok: "length ?s \<le> 0xFFFF \<and> length ?s \<le> unat cap" and at: "bytes_at m q ?s"
    and tl: "asn_parse_tl m p dl = Inr (fst v, q, of_nat (length ?s))"
  have u: "unat (of_nat (length ?s) :: u32) = length ?s" using ok by (simp add: u32_unat_of_nat)
  have "rds m q (length ?s) = Inr ?s" by (rule rds_payload[OF at asn_parse_tl_pos[OF tl]])
  then show "asn_parse_string m p dl cap =
      Inr (q + length ?s, dl - (of_nat (length ?s) + of_nat (q - p)), string_result cap v)"
    using tl u ok by (simp add: asn_parse_string_def string_result_def word_less_nat_alt)
qed (simp_all add: asn_build_string_tlv)

interpretation bitstring_codec: tlv_codec
  "\<lambda>dl v. asn_build_bitstring dl (fst v) (Some (snd v)) (of_nat (length (snd v)))"
  "\<lambda>m p dl. asn_parse_bitstring m p dl cap" fst snd
  "\<lambda>v. snd v \<noteq> [] \<and> length (snd v) \<le> 0xFFFF \<and> length (snd v) \<le> unat cap"
  "\<lambda>v. (fst v, snd v, of_nat (length (snd v)))"
  for cap :: u32
proof unfold_locales
  fix v :: "u8 \<times> u8 list" and m q p and dl :: u32
  let ?s = "snd v"
  assume ok: "?s \<noteq> [] \<and> length ?s \<le> 0xFFFF \<and> length ?s \<le> unat cap" and at: "bytes_at m q ?s"
    and tl: "asn_parse_tl m p dl = Inr (fst v, q, of_nat (length ?s))"
  have u: "unat (of_nat (length ?s) :: u32) = length ?s" using ok by (simp add: u32_unat_of_nat)
  have "rds m q (length ?s) = Inr ?s" by (rule rds_payload[OF at asn_parse_tl_pos[OF tl]])
  moreover have "rd m q = Inr (hd ?s)" using ok by (intro rd_payload[OF at]) simp
  ultimately show "asn_parse_bitstring m p dl cap =
      Inr (q + length ?s, dl - (of_nat (length ?s) + of_nat (q - p)), fst v, ?s, of_nat (length ?s))"
    using tl u ok
    by (simp add: asn_parse_bitstring_def asn_bitstring_check_def word_less_nat_alt)
qed (simp_all add: asn_build_bitstring_tlv)

interpretation null_codec: tlv_codec asn_build_null asn_parse_null "\<lambda>v. v" "\<lambda>_. []" "\<lambda>_. True" "\<lambda>v. v"
  by unfold_locales
    (auto simp: asn_build_null_tlv asn_parse_null_def asn_parse_tl_def ebind_eq_Inr split: if_splits prod.splits)

end
