(* ===== verification/Asn_Objid.thy ===== *)
theory Asn_Objid
  imports Asn_Codec
begin

unbundle bit_operations_syntax

text \<open>
  Object identifiers of \<^verbatim>\<open>snmplib/asn1.c\<close>. The output array of the decoder
  is modelled by the list of the subidentifiers it returns; a store past its
  end is \<open>OutOfBounds\<close>, as a read past the input is.
\<close>

definition MAX_OID_LEN :: nat where
  "MAX_OID_LEN = 128"

section \<open>Decoding\<close>

text \<open>
  The \<^verbatim>\<open>do ... while\<close> loop over one subidentifier: the next address, the value of
  \<^verbatim>\<open>length\<close>, the subidentifier and the last byte read.
\<close>

fun subid_loop :: "u8 list \<Rightarrow> nat \<Rightarrow> nat \<Rightarrow> u32 \<Rightarrow> asn_error + nat \<times> nat \<times> u32 \<times> u8" where
  "subid_loop m bufp len subidentifier =
     ebind (rd m bufp) (\<lambda>b.
     let subidentifier' = push_bit 7 subidentifier + ucast (b AND NOT 0x80) in
     if b AND 0x80 \<noteq> 0 \<and> len - 1 > 0 then subid_loop m (bufp + 1) (len - 1) subidentifier'
     else Inr (bufp + 1, len - 1, subidentifier', b))"

declare subid_loop.simps [simp del]

text \<open>
  The loop over the subidentifiers; \<open>cap\<close> is \<^verbatim>\<open>*objidlength\<close> as it counts down,
  \<open>i\<close> the index \<^verbatim>\<open>oidp - objid\<close> and \<open>n\<close> the size of the array.
\<close>

fun objid_loop :: "u8 list \<Rightarrow> nat \<Rightarrow> nat \<Rightarrow> nat \<Rightarrow> nat \<Rightarrow> nat \<Rightarrow> asn_error + nat \<times> nat \<times> u32 list" where
  "objid_loop m bufp len 0 i n = Inr (bufp, len, [])"
| "objid_loop m bufp len (Suc cap) i n =
     (if len = 0 then Inr (bufp, len, [])
      else ebind (subid_loop m bufp len 0) (\<lambda>(bufp', len', subidentifier, last_byte).
      if len' = 0 \<and> last_byte AND 0x80 \<noteq> 0 then Inl SubidSyntax
      else if i \<ge> n then Inl OutOfBounds
      else ebind (objid_loop m bufp' len' cap (i + 1) n) (\<lambda>(bufp'', len'', subids).
      Inr (bufp'', len'', subidentifier # subids))))"

definition split_first :: "u32 \<Rightarrow> u32 \<times> u32" where
  "split_first subidentifier =
     (if subidentifier = 0x2B then (1, 3)
      else if subidentifier < 40 then (0, subidentifier)
      else if subidentifier < 80 then (1, subidentifier - 40)
      else (2, subidentifier - 80))"

definition asn_parse_objid ::
  "u8 list \<Rightarrow> nat \<Rightarrow> u32 \<Rightarrow> u32 \<Rightarrow> asn_error + nat \<times> u32 \<times> u8 \<times> oid" where
  "asn_parse_objid m data datalength objidlength =
     ebind (asn_parse_tl m data datalength) (\<lambda>(type, bufp, asn_length).
     if asn_length = 0 \<and> objidlength < 2 then Inl OutOfBounds
     else ebind (objid_loop m bufp (unat asn_length) (unat (objidlength - 1)) 1 (unat objidlength))
       (\<lambda>(bufp', len, subids).
     if 0 \<noteq> len then Inl OidTooLong
     else
       let (objid0, objid1) = split_first (if asn_length = 0 then 0 else hd subids)
       in Inr (bufp', datalength - (asn_length + of_nat (bufp - data)), type,
               take (1 + length subids) (objid0 # objid1 # tl subids))))"

section \<open>Encoding\<close>

definition objid_size :: "u32 \<Rightarrow> nat" where
  "objid_size objid_val =
     (if objid_val < 0x80 then 1 else if objid_val < 0x4000 then 2
      else if objid_val < 0x200000 then 3 else if objid_val < 0x10000000 then 4 else 5)"

definition subid_bytes :: "u32 \<Rightarrow> u8 list" where
  "subid_bytes v =
     (if objid_size v = 1 then [ucast v]
      else if objid_size v = 2 then [ucast (drop_bit 7 v OR 0x80), ucast (v AND 0x7F)]
      else if objid_size v = 3 then
        [ucast (drop_bit 14 v OR 0x80), ucast ((drop_bit 7 v AND 0x7F) OR 0x80), ucast (v AND 0x7F)]
      else if objid_size v = 4 then
        [ucast (drop_bit 21 v OR 0x80), ucast ((drop_bit 14 v AND 0x7F) OR 0x80),
         ucast ((drop_bit 7 v AND 0x7F) OR 0x80), ucast (v AND 0x7F)]
      else
        [ucast (drop_bit 28 v OR 0x80), ucast ((drop_bit 21 v AND 0x7F) OR 0x80),
         ucast ((drop_bit 14 v AND 0x7F) OR 0x80), ucast ((drop_bit 7 v AND 0x7F) OR 0x80),
         ucast (v AND 0x7F)])"

text \<open>The value that stands for the first two subidentifiers, or why there is none.\<close>

definition objid_first :: "oid \<Rightarrow> asn_error + u32" where
  "objid_first objid =
     (case objid of
        [] \<Rightarrow> Inr 0
      | op0 # rest \<Rightarrow>
          if op0 > 2 then Inl BadFirstSubid
          else (case rest of
              [] \<Rightarrow> Inr (op0 * 40)
            | op1 # _ \<Rightarrow> if op1 > 40 \<and> op0 < 2 then Inl BadSecondSubid else Inr (op0 * 40 + op1)))"

definition asn_build_objid :: "u32 \<Rightarrow> u8 \<Rightarrow> oid \<Rightarrow> u8 list \<times> (asn_error + u32)" where
  "asn_build_objid datalength type objid =
     (case objid_first objid of
        Inl e \<Rightarrow> ([], Inl e)
      | Inr first_objid_val \<Rightarrow>
          if length objid > MAX_OID_LEN then ([], Inl OidTooLong)
          else
            let vals = first_objid_val # drop 2 objid;
                asnlength = of_nat (sum_list (map objid_size vals))
            in wbind (asn_build_header datalength type asnlength) (\<lambda>dl.
               if asn_build_header_check dl asnlength then ([], Inl HeaderTooShort)
               else (concat (map subid_bytes vals), Inr (dl - asnlength))))"

section \<open>Base 128\<close>

primrec septets :: "nat \<Rightarrow> u32 \<Rightarrow> u8 list" where
  "septets 0 v = []"
| "septets (Suc n) v = (ucast (drop_bit (7 * Suc n) v) OR 0x80) # septets n v"

definition septet_value :: "u32 \<Rightarrow> u8 list \<Rightarrow> u32" where
  "septet_value acc bs = foldl (\<lambda>v b. push_bit 7 v + ucast (b AND NOT 0x80)) acc bs"

lemma bit_128_int: "bit (128 :: int) n \<longleftrightarrow> n = 7"
proof -
  have "(128 :: int) = 2 ^ 7" by simp
  then show ?thesis by (metis bit_exp_iff possible_bit_int)
qed

lemma clear_bit8: "(b :: u8) AND NOT 0x80 = take_bit 7 b"
proof (rule word_bit_eqI)
  fix n assume n: "n < LENGTH(8)"
  have "bit (0x80 :: u8) n \<longleftrightarrow> n = 7" using n by (simp add: bit_128_int)
  then show "bit (b AND NOT 0x80) n = bit (take_bit 7 b) n"
    using n unfolding bit_and_iff bit_not_iff bit_take_bit_iff by auto
qed

lemma septet_byte:
  "(ucast ((x :: u32) OR 0x80) :: u8) = ucast x OR 0x80"
  "(ucast (take_bit 7 x) :: u8) OR 0x80 = ucast x OR 0x80"
  by (rule word_bit_eqI; auto simp: bit_simps bit_128_int)+

lemma septets_numeral:
  "septets 4 v = (ucast (drop_bit 28 v) OR 0x80) # septets 3 v"
  "septets 3 v = (ucast (drop_bit 21 v) OR 0x80) # septets 2 v"
  "septets 2 v = (ucast (drop_bit 14 v) OR 0x80) # septets 1 v"
  "septets 1 v = [ucast (drop_bit 7 v) OR 0x80]"
  by (simp_all add: eval_nat_numeral)

lemma subid_bytes_septets: "subid_bytes v = septets (objid_size v - 1) v @ [ucast (take_bit 7 v)]"
proof (cases "objid_size v = 1")
  case True
  then have "take_bit 7 v = v"
    by (auto simp: objid_size_def take_bit_u32_eq_self_iff split: if_splits)
  with True show ?thesis by (simp add: subid_bytes_def)
next
  case False
  then have "objid_size v \<in> {2, 3, 4, 5}" by (simp add: objid_size_def split: if_splits)
  then show ?thesis
    by (auto simp: subid_bytes_def septet_byte septets_numeral simp del: One_nat_def)
qed

lemma septet_value_simps [simp]:
  "septet_value acc [] = acc"
  "septet_value acc (b # bs) = septet_value (push_bit 7 acc + ucast (b AND NOT 0x80)) bs"
  by (simp_all add: septet_value_def)

lemma septet_value_append: "septet_value acc (xs @ ys) = septet_value (septet_value acc xs) ys"
  by (simp add: septet_value_def)

lemma septet_step:
  "push_bit 7 acc + ucast ((b :: u8) AND NOT 0x80) = push_bit 7 acc OR (ucast (take_bit 7 b) :: u32)"
proof -
  have "ucast (b AND NOT 0x80) = (ucast (take_bit 7 b) :: u32)"
    unfolding clear_bit8 ..
  moreover have "push_bit 7 acc + (ucast (take_bit 7 b) :: u32) = push_bit 7 acc OR ucast (take_bit 7 b)"
    by (rule disjunctive_add) (auto simp: bit_simps)
  ultimately show ?thesis by simp
qed

lemma septet_value_septets:
  "septet_value acc (septets n v) = push_bit (7 * n) acc OR (take_bit (7 * n) (drop_bit 7 v))"
proof (induction n arbitrary: acc)
  case (Suc n)
  show ?case
    unfolding septets.simps septet_value_simps septet_step Suc.IH
    by (rule word_bit_eqI) (auto simp: bit_simps bit_128_int ac_simps)
qed simp

lemma objid_size_covers: "objid_size v < 5 \<Longrightarrow> take_bit (7 * objid_size v) v = v"
  by (auto simp: objid_size_def take_bit_u32_eq_self_iff split: if_splits)

lemma septet_value_subid_bytes: "septet_value 0 (subid_bytes v) = v"
proof -
  define n where "n = objid_size v - 1"
  have s: "objid_size v = Suc n" by (simp add: n_def objid_size_def)
  have cov: "bit v k \<Longrightarrow> k < 7 * Suc n" for k
  proof (cases "objid_size v < 5")
    case True
    then have "take_bit (7 * Suc n) v = v" using objid_size_covers[of v] s by simp
    then show "bit v k \<Longrightarrow> k < 7 * Suc n" by (metis bit_take_bit_iff)
  next
    case False
    then have "35 \<le> 7 * Suc n" using s by simp
    then show "bit v k \<Longrightarrow> k < 7 * Suc n" using bit_imp_le_length[of v k] by simp
  qed
  have "septet_value 0 (subid_bytes v) =
      push_bit 7 (take_bit (7 * n) (drop_bit 7 v)) OR ucast (take_bit 7 (ucast (take_bit 7 v) :: u8))"
    unfolding subid_bytes_septets s by (simp add: septet_value_append septet_value_septets septet_step[simplified])
  also have "\<dots> = v"
  proof (rule word_bit_eqI)
    fix k assume "k < LENGTH(32)"
    then show "bit (push_bit 7 (take_bit (7 * n) (drop_bit 7 v)) OR
        ucast (take_bit 7 (ucast (take_bit 7 v) :: u8))) k = bit v k"
      using cov[of k] by (cases "k < 7") (auto simp: bit_simps)
  qed
  finally show ?thesis .
qed

lemma length_septets [simp]: "length (septets n v) = n"
  by (induction n) simp_all

lemma length_subid_bytes [simp]: "length (subid_bytes v) = objid_size v"
  by (simp add: subid_bytes_septets objid_size_def)

section \<open>The codec\<close>

lemma subid_loop_bytes:
  "bytes_at m p (bs @ [l]) \<Longrightarrow> \<forall>b\<in>set bs. bit b 7 \<Longrightarrow> \<not> bit l 7 \<Longrightarrow> len = length bs + 1 + k \<Longrightarrow>
     subid_loop m p len acc = Inr (p + length bs + 1, k, septet_value acc (bs @ [l]), l)"
proof (induction bs arbitrary: p acc len)
  case Nil
  then show ?case by (subst subid_loop.simps) (simp add: rd_def)
next
  case (Cons b bs)
  have "subid_loop m (p + 1) (len - 1) (push_bit 7 acc + ucast (b AND NOT 0x80)) =
      Inr (p + 1 + length bs + 1, k, septet_value (push_bit 7 acc + ucast (b AND NOT 0x80)) (bs @ [l]), l)"
    using Cons.prems by (intro Cons.IH) auto
  then show ?case
    using Cons.prems by (subst subid_loop.simps) (simp add: rd_def)
qed

lemma septets_continue: "\<forall>b\<in>set (septets n v). bit b 7"
  by (induction n) (auto simp: bit_simps bit_128_int)

lemma subid_loop_subid:
  assumes "bytes_at m p (subid_bytes v)" "len = objid_size v + k"
  shows "subid_loop m p len 0 = Inr (p + objid_size v, k, v, last (subid_bytes v))"
    "\<not> bit (last (subid_bytes v)) 7"
proof -
  have nl: "\<not> bit (ucast (take_bit 7 v) :: u8) 7" by (simp add: bit_simps)
  have "0 < objid_size v" by (simp add: objid_size_def)
  then show "subid_loop m p len 0 = Inr (p + objid_size v, k, v, last (subid_bytes v))"
    using subid_loop_bytes[OF assms(1)[unfolded subid_bytes_septets] septets_continue nl, of len k 0] assms(2)
      septet_value_subid_bytes[of v]
    by (simp add: subid_bytes_septets)
  show "\<not> bit (last (subid_bytes v)) 7" using nl by (simp add: subid_bytes_septets)
qed

lemma objid_loop_subids:
  "bytes_at m p (concat (map subid_bytes vs)) \<Longrightarrow> length vs \<le> cap \<Longrightarrow> i + length vs \<le> n \<Longrightarrow>
     objid_loop m p (sum_list (map objid_size vs)) cap i n =
       Inr (p + sum_list (map objid_size vs), 0, vs)"
proof (induction vs arbitrary: p cap i)
  case Nil
  then show ?case by (cases cap) simp_all
next
  case (Cons v vs)
  then obtain cap' where cap: "cap = Suc cap'" by (cases cap) auto
  have at: "bytes_at m p (subid_bytes v)" "bytes_at m (p + objid_size v) (concat (map subid_bytes vs))"
    using Cons.prems(1) by (auto simp: bytes_at_append)
  have "0 < objid_size v" by (simp add: objid_size_def)
  then show ?case
    using Cons.IH[OF at(2), of cap' "i + 1"] Cons.prems(2,3) subid_loop_subid[OF at(1) refl] cap
    by (simp add: add.assoc)
qed

lemma length_concat_subids: "length (concat (map subid_bytes vs)) = sum_list (map objid_size vs)"
  by (induction vs) simp_all

lemma sum_objid_size_le: "length vs \<le> sum_list (map objid_size vs) \<and> sum_list (map objid_size vs) \<le> 5 * length vs"
  by (induction vs) (auto simp: objid_size_def)

text \<open>The object identifiers that survive a round trip.\<close>

definition objid_ok :: "oid \<Rightarrow> bool" where
  "objid_ok objid \<longleftrightarrow> 2 \<le> length objid \<and> length objid \<le> MAX_OID_LEN \<and>
     (objid ! 0 < 2 \<and> objid ! 1 < 40 \<or> objid ! 0 = 2 \<and> unat (objid ! 1) < 2 ^ 32 - 80)"

definition objid_vals :: "oid \<Rightarrow> u32 list" where
  "objid_vals objid = (objid ! 0 * 40 + objid ! 1) # drop 2 objid"

definition objid_payload :: "oid \<Rightarrow> u8 list" where
  "objid_payload objid = concat (map subid_bytes (objid_vals objid))"

lemma split_first_combine:
  assumes "x < 2 \<and> y < 40 \<or> x = 2 \<and> unat y < 2 ^ 32 - 80"
  shows "split_first (x * 40 + y) = (x, y)"
proof -
  have b: "unat x < 2 \<and> unat y < 40 \<or> unat x = 2 \<and> unat y < 2 ^ 32 - 80"
    using assms by (auto simp: word_less_nat_alt)
  then have u: "unat (x * 40 + y) = unat x * 40 + unat y"
    by (auto simp: unat_word_ariths)
  have "unat x = 0 \<or> unat x = 1 \<or> unat x = 2" using b by linarith
  then have "x = 0 \<or> x = 1 \<or> x = 2" by (simp add: word_unat_eq_iff)
  then show ?thesis
  proof (elim disjE)
    assume x: "x = 0"
    then have "y < 40" using assms by auto
    moreover then have "y \<noteq> 43" by auto
    ultimately show ?thesis using x by (simp add: split_first_def)
  next
    assume x: "x = 1"
    then have y: "unat y < 40" using b by auto
    then have c: "\<not> 40 + y < 40" "40 + y < 80" using u x by (simp_all add: word_less_nat_alt)
    show ?thesis
    proof (cases "40 + y = 43")
      case True
      then have "y = 43 - 40" by (metis add_diff_cancel_left')
      then show ?thesis using x by (simp add: split_first_def)
    next
      case False
      then show ?thesis using x c by (simp add: split_first_def)
    qed
  next
    assume x: "x = 2"
    then have c: "\<not> 80 + y < 40" "\<not> 80 + y < 80" "80 + y \<noteq> 43"
      using u unfolding x by (simp_all add: word_less_nat_alt word_unat_eq_iff[of "80 + y"])
    then show ?thesis using x by (simp add: split_first_def)
  qed
qed

lemma asn_build_objid_tlv:
  assumes "objid_ok objid"
  shows "asn_build_objid dl type objid = build_tlv dl type (objid_payload objid)"
proof -
  from assms obtain x y rest where o: "objid = x # y # rest"
    by (cases objid; cases "tl objid") (auto simp: objid_ok_def)
  have "\<not> 2 < x" "\<not> (40 < y \<and> x < 2)" using assms by (auto simp: objid_ok_def o)
  then have "objid_first objid = Inr (x * 40 + y)" by (auto simp: objid_first_def o)
  moreover have "\<not> MAX_OID_LEN < length objid" using assms by (simp add: objid_ok_def)
  ultimately show ?thesis
    using length_concat_subids[of "objid_vals objid"]
    by (simp add: asn_build_objid_def build_tlv_def objid_payload_def objid_vals_def o Let_def cong: if_cong)
qed

lemma objid_payload_len: "objid_ok objid \<Longrightarrow> 0 < length (objid_payload objid) \<and> length (objid_payload objid) \<le> 635"
  using sum_objid_size_le[of "objid_vals objid"]
  by (auto simp: objid_payload_def length_concat_subids objid_vals_def objid_ok_def MAX_OID_LEN_def)

interpretation objid_codec: tlv_codec
  "\<lambda>dl v. asn_build_objid dl (fst v) (snd v)" "\<lambda>m p dl. asn_parse_objid m p dl cap"
  fst "\<lambda>v. objid_payload (snd v)" "\<lambda>v. objid_ok (snd v) \<and> length (snd v) \<le> unat cap" "\<lambda>v. v"
  for cap :: u32
proof unfold_locales
  fix v :: "u8 \<times> oid" and m q p and dl :: u32
  let ?bs = "objid_payload (snd v)"
  assume ok: "objid_ok (snd v) \<and> length (snd v) \<le> unat cap" and at: "bytes_at m q ?bs"
    and tl: "asn_parse_tl m p dl = Inr (fst v, q, of_nat (length ?bs))"
  from ok obtain x y rest where o: "snd v = x # y # rest"
    by (cases "snd v"; cases "tl (snd v)") (auto simp: objid_ok_def)
  have len: "0 < length ?bs" "length ?bs < 2 ^ 32" "unat (of_nat (length ?bs) :: u32) = length ?bs"
    using objid_payload_len[of "snd v"] ok by (auto simp: u32_unat_of_nat)
  then have nz: "(of_nat (length ?bs) :: u32) \<noteq> 0" by (simp add: word_unat_eq_iff)
  have cap: "unat (cap - 1) = unat cap - 1"
    using ok o by (simp add: unat_sub word_le_nat_alt)
  have "objid_loop m q (length ?bs) (unat (cap - 1)) 1 (unat cap) = Inr (q + length ?bs, 0, objid_vals (snd v))"
    unfolding objid_payload_def length_concat_subids
    using ok at cap o by (intro objid_loop_subids) (auto simp: objid_vals_def objid_payload_def)
  moreover have "split_first (x * 40 + y) = (x, y)"
    using ok by (intro split_first_combine) (auto simp: objid_ok_def o)
  ultimately show "asn_parse_objid m p dl cap =
      Inr (q + length ?bs, dl - (of_nat (length ?bs) + of_nat (q - p)), v)"
    using tl len nz o by (cases v) (simp add: asn_parse_objid_def objid_vals_def)
qed (use objid_payload_len in \<open>fastforce simp: asn_build_objid_tlv\<close>)+

end
