(* ===== verification/Asn_Rbuild.thy ===== *)
theory Asn_Rbuild
  imports Asn_Realloc Asn_Int Asn_String Asn_Objid
begin

unbundle bit_operations_syntax

text \<open>
  The reverse encoders \<^verbatim>\<open>asn_realloc_rbuild_*\<close> of \<^verbatim>\<open>snmplib/asn1.c\<close> for
  lengths, headers, strings, null, integers and object identifiers: an object
  is stored from its last byte to its first, the contents before the header.
  A loop that stores the low bytes of a value and shifts it is modelled by the
  list of the bytes it stores, in order, given to \<^const>\<open>rputs\<close>.
\<close>

section \<open>Lengths and headers\<close>

text \<open>The loop \<^verbatim>\<open>while (length > 0xff)\<close>: the bytes it stores and the value it leaves.\<close>

function len_out :: "u32 \<Rightarrow> u8 list \<times> u32" where
  "len_out len =
     (if len > 0xFF then
        (let (bs, rest) = len_out (drop_bit 8 len) in (ucast (len AND 0xFF) # bs, rest))
      else ([], len))"
  by pat_completeness auto
termination
  by (relation "measure unat") (auto intro!: unat_drop_bit_less)

declare len_out.simps [simp del]

definition asn_realloc_rbuild_length ::
  "(nat \<Rightarrow> bool) \<Rightarrow> bool \<Rightarrow> u32 \<Rightarrow> rbuf \<Rightarrow> asn_error + rbuf" where
  "asn_realloc_rbuild_length alloc r len b =
     (if len \<le> 0x7F then rput alloc r (ucast len) b
      else let (low, len') = len_out len in
        ebind (rputs alloc r low b) (\<lambda>b1.
        ebind (rroom alloc r 2 b1) (\<lambda>b2.
        ebind (rstore (ucast (len' AND 0xFF)) b2) (\<lambda>b3.
        let tmp_int = of_nat (offset b3 - offset b) in
        rstore (tmp_int OR 0x80) b3))))"

definition asn_realloc_rbuild_header ::
  "(nat \<Rightarrow> bool) \<Rightarrow> bool \<Rightarrow> u8 \<Rightarrow> u32 \<Rightarrow> rbuf \<Rightarrow> asn_error + rbuf" where
  "asn_realloc_rbuild_header alloc r type len b =
     ebind (asn_realloc_rbuild_length alloc r len b) (rput alloc r type)"

definition asn_realloc_rbuild_sequence ::
  "(nat \<Rightarrow> bool) \<Rightarrow> bool \<Rightarrow> u8 \<Rightarrow> u32 \<Rightarrow> rbuf \<Rightarrow> asn_error + rbuf" where
  "asn_realloc_rbuild_sequence alloc r type len b = asn_realloc_rbuild_header alloc r type len b"

definition asn_realloc_rbuild_null :: "(nat \<Rightarrow> bool) \<Rightarrow> bool \<Rightarrow> u8 \<Rightarrow> rbuf \<Rightarrow> asn_error + rbuf" where
  "asn_realloc_rbuild_null alloc r type b = asn_realloc_rbuild_header alloc r type 0 b"

text \<open>
  How the encoders end: the header, and the check of the size of the buffer
  against a length that some of them take before and some after the header.
\<close>

definition rbuild_finish ::
  "(nat \<Rightarrow> bool) \<Rightarrow> bool \<Rightarrow> u8 \<Rightarrow> nat \<Rightarrow> (rbuf \<Rightarrow> nat) \<Rightarrow> rbuf \<Rightarrow> asn_error + rbuf" where
  "rbuild_finish alloc r type n typedlen b =
     ebind (asn_realloc_rbuild_header alloc r type (of_nat n) b) (\<lambda>b'.
     if asn_realloc_build_header_check b' (typedlen b') then Inl HeaderTooShort else Inr b')"

lemma len_out_bytes:
  "fst (len_out len) @ [ucast (snd (len_out len))] = ucast len # uint_out (drop_bit 8 len)"
proof (induction len rule: len_out.induct)
  case (1 len)
  show ?case
  proof (cases "len > 0xFF")
    case False
    then have "take_bit 8 len = len" by (simp add: take_bit_u32_eq_self_iff word_less_nat_alt)
    then have "drop_bit 8 len = 0" using take_bit_drop_bit_self[of 0 8 len] by simp
    with False show ?thesis by (simp add: len_out.simps[of len])
  next
    case True
    then have "take_bit 8 len \<noteq> len" by (simp add: take_bit_u32_eq_self_iff word_less_nat_alt)
    then have "drop_bit 8 len \<noteq> 0" using take_bit_drop_bit_self[of 0 8 len] by auto
    then have u: "uint_out (drop_bit 8 len) = ucast (drop_bit 8 len) # uint_out (drop_bit 8 (drop_bit 8 len))"
      by (subst uint_out.simps) simp
    show ?thesis
      using "1.IH"[OF True] True u
      by (cases "len_out (drop_bit 8 len)") (simp add: len_out.simps[of len])
  qed
qed

lemma len_out_ber:
  assumes "\<not> len \<le> 0x7F"
  shows "((of_nat (length (fst (len_out len)) + 1) :: u8) OR 0x80) # ucast (snd (len_out len)) # rev (fst (len_out len))
    = ber_length len"
proof -
  have "rev (ucast len # uint_out (drop_bit 8 len)) = be_bytes (min_uoctets 4 len) len"
    using uint_out_min[of len] by simp
  then have "ucast (snd (len_out len)) # rev (fst (len_out len)) = be_bytes (min_uoctets 4 len) len"
    using arg_cong[OF len_out_bytes[of len], of rev] by simp
  moreover from this have "length (fst (len_out len)) + 1 = min_uoctets 4 len"
    by (metis add.commute length_Cons length_be_bytes length_rev plus_1_eq_Suc)
  moreover have "\<not> len < 0x80" using assms by (simp add: word_less_nat_alt word_le_nat_alt)
  ultimately show ?thesis by (simp add: ber_length_def or.commute)
qed

lemma rbuild_length_prepended:
  assumes "valid_rbuf b"
  shows "prepended alloc r b (ber_length len) (asn_realloc_rbuild_length alloc r len b)"
proof (cases "len \<le> 0x7F")
  case True
  then have "len < 0x80" by (simp add: word_less_nat_alt word_le_nat_alt)
  then show ?thesis using True rput_prepended[OF assms]
    by (simp add: asn_realloc_rbuild_length_def ber_length_def)
next
  case False
  let ?low = "fst (len_out len)" and ?x = "ucast (snd (len_out len)) :: u8"
  define n where "n = (of_nat (length ?low + 1) :: u8) OR 0x80"
  have "prepended alloc r b ([n, ?x] @ rev ?low) (ebind (rputs alloc r ?low b) (\<lambda>b1.
      ebind (rroom alloc r 2 b1) (\<lambda>b2. ebind (rstore ?x b2) (\<lambda>b3.
        rstore (of_nat (offset b3 - offset b) OR 0x80) b3))))"
  proof (rule prepended_bind[OF assms rputs_prepended[OF assms]], rule rroom_bind)
    fix b1 b2 assume b1: "offset b1 = offset b + length (rev ?low)"
      and b2: "valid_rbuf b2" "offset b2 = offset b1" "offset b2 + 2 \<le> length (pkt b2)"
    have "prepended alloc r b2 ([n] @ [?x]) (ebind (rstore ?x b2) (\<lambda>b3.
        rstore (of_nat (offset b3 - offset b) OR 0x80) b3))"
    proof (rule prepended_bind[OF b2(1)])
      show "prepended alloc r b2 [?x] (rstore ?x b2)" using b2 by (intro rstore_prepended) auto
      fix b3 assume "rstore ?x b2 = Inr b3" "valid_rbuf b3" "offset b3 = offset b2 + length [?x]"
      then show "prepended alloc r b3 [n] (rstore (of_nat (offset b3 - offset b) OR 0x80) b3)"
        using b1 b2 rstore_prepended[of b3 alloc r n]
        by (auto simp: rstore_def n_def split: if_splits)
    qed
    then show "prepended alloc r b2 [n, ?x] (ebind (rstore ?x b2) (\<lambda>b3.
        rstore (of_nat (offset b3 - offset b) OR 0x80) b3))" by simp
  qed simp_all
  then show ?thesis
    using False len_out_ber[OF False]
    by (cases "len_out len") (simp add: asn_realloc_rbuild_length_def n_def)
qed

lemma rbuild_header_prepended:
  assumes "valid_rbuf b"
  shows "prepended alloc r b (ber_header type len) (asn_realloc_rbuild_header alloc r type len b)"
proof -
  have "prepended alloc r b ([type] @ ber_length len) (asn_realloc_rbuild_header alloc r type len b)"
    unfolding asn_realloc_rbuild_header_def
    by (rule prepended_bind[OF assms rbuild_length_prepended[OF assms] rput_prepended])
  then show ?thesis by (simp add: ber_header_def)
qed

lemma rbuild_finish_prepended:
  assumes "valid_rbuf b" "\<And>b'. valid_rbuf b' \<Longrightarrow> offset b \<le> offset b' \<Longrightarrow> typedlen b' \<le> offset b'"
  shows "prepended alloc r b (ber_header type (of_nat n)) (rbuild_finish alloc r type n typedlen b)"
proof -
  have "prepended alloc r b ([] @ ber_header type (of_nat n)) (rbuild_finish alloc r type n typedlen b)"
    unfolding rbuild_finish_def
  proof (rule prepended_bind[OF assms(1) rbuild_header_prepended[OF assms(1)]])
    fix b' assume b': "valid_rbuf b'" "offset b' = offset b + length (ber_header type (of_nat n))"
    then have "typedlen b' \<le> length (pkt b')"
      using assms(2)[of b'] by (simp add: valid_rbuf_def)
    then show "prepended alloc r b' [] (if asn_realloc_build_header_check b' (typedlen b')
        then Inl HeaderTooShort else Inr b')"
      using b'(1) by (simp add: asn_realloc_build_header_check_def prepended_Nil)
  qed
  then show ?thesis by simp
qed

text \<open>An object: its contents, then its header.\<close>

lemma rbuild_tlv_prepended:
  assumes "valid_rbuf b" "prepended alloc r b payload res"
    and "\<And>b'. valid_rbuf b' \<Longrightarrow> offset b' = offset b + length payload \<Longrightarrow> len b' = length payload"
    and "\<And>b' b''. offset b'' \<ge> offset b + length payload \<Longrightarrow> typedlen b' b'' \<le> offset b''"
  shows "prepended alloc r b (tlv type payload)
    (ebind res (\<lambda>b'. rbuild_finish alloc r type (len b') (typedlen b') b'))"
  unfolding tlv_def
proof (rule prepended_bind[OF assms(1,2)])
  fix b' assume b': "valid_rbuf b'" "offset b' = offset b + length payload"
  then show "prepended alloc r b' (ber_header type (of_nat (length payload)))
      (rbuild_finish alloc r type (len b') (typedlen b') b')"
    using assms(3,4) by (simp add: rbuild_finish_prepended)
qed

section \<open>Strings and null\<close>

definition asn_realloc_rbuild_string ::
  "(nat \<Rightarrow> bool) \<Rightarrow> bool \<Rightarrow> u8 \<Rightarrow> u8 list \<Rightarrow> rbuf \<Rightarrow> asn_error + rbuf" where
  "asn_realloc_rbuild_string alloc r type str b =
     ebind (ebind (rroom alloc r (length str) b) (rcopy str))
       (rbuild_finish alloc r type (length str) (\<lambda>_. length str))"

definition asn_realloc_rbuild_bitstring ::
  "(nat \<Rightarrow> bool) \<Rightarrow> bool \<Rightarrow> u8 \<Rightarrow> u8 list \<Rightarrow> rbuf \<Rightarrow> asn_error + rbuf" where
  "asn_realloc_rbuild_bitstring alloc r type str b =
     ebind (ebind (rroom alloc r (length str) b) (rcopy str))
       (rbuild_finish alloc r type (length str) (\<lambda>_. length str))"

lemma rroom_rcopy_prepended:
  "valid_rbuf b \<Longrightarrow> prepended alloc r b s (ebind (rroom alloc r (length s) b) (rcopy s))"
  by (rule rroom_bind) (auto intro: rcopy_prepended)

lemma rbuild_string_prepended:
  "valid_rbuf b \<Longrightarrow> prepended alloc r b (tlv type s) (asn_realloc_rbuild_string alloc r type s b)"
  unfolding asn_realloc_rbuild_string_def
  by (rule rbuild_tlv_prepended[where len = "\<lambda>_. length s" and typedlen = "\<lambda>_ _. length s"])
    (auto intro: rroom_rcopy_prepended)

interpretation string_pair: encoder_pair
  "\<lambda>dl v. asn_build_string dl (fst v) (Some (snd v)) (of_nat (length (snd v)))"
  "\<lambda>alloc r v. asn_realloc_rbuild_string alloc r (fst v) (snd v)"
  "\<lambda>v. tlv (fst v) (snd v)" "\<lambda>v. length (snd v) \<le> 0xFFFF"
  by unfold_locales
    (auto simp: asn_build_string_tlv build_tlv_fits build_tlv_too_long[simplified] intro: rbuild_string_prepended)

interpretation bitstring_pair: encoder_pair
  "\<lambda>dl v. asn_build_bitstring dl (fst v) (Some (snd v)) (of_nat (length (snd v)))"
  "\<lambda>alloc r v. asn_realloc_rbuild_bitstring alloc r (fst v) (snd v)"
  "\<lambda>v. tlv (fst v) (snd v)" "\<lambda>v. snd v \<noteq> [] \<and> length (snd v) \<le> 0xFFFF"
  by unfold_locales
    (auto simp: asn_build_bitstring_tlv build_tlv_fits build_tlv_too_long[simplified]
      asn_realloc_rbuild_bitstring_def asn_realloc_rbuild_string_def[symmetric] intro: rbuild_string_prepended)

interpretation null_pair: encoder_pair asn_build_null asn_realloc_rbuild_null "\<lambda>v. tlv v []" "\<lambda>_. True"
  by unfold_locales
    (auto simp: asn_build_null_tlv build_tlv_fits build_tlv_too_long[simplified] asn_realloc_rbuild_null_def
      tlv_def intro: rbuild_header_prepended)

section \<open>Integers\<close>

text \<open>The byte \<^verbatim>\<open>*(*pkt + *pkt_len - *offset)\<close>, the first of those used.\<close>

definition rtop :: "rbuf \<Rightarrow> u8" where
  "rtop b = pkt b ! (length (pkt b) - offset b)"

text \<open>
  The loop \<^verbatim>\<open>while (integer != testvalue)\<close>, with an arithmetic shift. Its first
  argument bounds the rounds; four shifts by eight of a 32-bit value leave only
  copies of its sign, so four rounds are enough (lemma \<open>int_out_spec\<close>).
\<close>

fun int_out :: "nat \<Rightarrow> u32 \<Rightarrow> u32 \<Rightarrow> u8 list" where
  "int_out 0 testvalue integer = []"
| "int_out (Suc n) testvalue integer =
     (if integer = testvalue then [] else ucast integer # int_out n testvalue (signed_drop_bit 8 integer))"

definition asn_realloc_rbuild_int ::
  "(nat \<Rightarrow> bool) \<Rightarrow> bool \<Rightarrow> u8 \<Rightarrow> u32 \<Rightarrow> u32 \<Rightarrow> rbuf \<Rightarrow> asn_error + rbuf" where
  "asn_realloc_rbuild_int alloc r type integer intsize b =
     (if intsize \<noteq> 4 then Inl SizeErr
      else let testvalue = (if sint integer < 0 then - 1 else 0 :: u32) in
        ebind (ebind (rput alloc r (ucast integer) b) (\<lambda>b1.
               ebind (rputs alloc r (int_out 4 testvalue (signed_drop_bit 8 integer)) b1) (\<lambda>b2.
               if rtop b2 AND 0x80 \<noteq> ucast (testvalue AND 0x80)
               then rput alloc r (ucast (testvalue AND 0xFF)) b2 else Inr b2)))
          (\<lambda>b3. rbuild_finish alloc r type (offset b3 - offset b) (\<lambda>b'. offset b' - offset b) b3))"

definition asn_realloc_rbuild_unsigned_int ::
  "(nat \<Rightarrow> bool) \<Rightarrow> bool \<Rightarrow> u8 \<Rightarrow> u32 \<Rightarrow> u32 \<Rightarrow> rbuf \<Rightarrow> asn_error + rbuf" where
  "asn_realloc_rbuild_unsigned_int alloc r type integer intsize b =
     (if intsize \<noteq> 4 then Inl SizeErr
      else
        ebind (ebind (rput alloc r (ucast integer) b) (\<lambda>b1.
               ebind (rputs alloc r (uint_out (drop_bit 8 integer)) b1) (\<lambda>b2.
               if rtop b2 AND 0x80 \<noteq> 0 then rput alloc r 0 b2 else Inr b2)))
          (\<lambda>b3. rbuild_finish alloc r type (offset b3 - offset b) (\<lambda>b'. offset b' - offset b) b3))"

lemma rtop_contents: "valid_rbuf b \<Longrightarrow> contents b = x # xs \<Longrightarrow> rtop b = x"
  unfolding rtop_def contents_def
  by (cases "length (pkt b) - offset b < length (pkt b)") (auto simp: Cons_nth_drop_Suc[symmetric])

lemma rput_fix_prepended:
  "valid_rbuf b \<Longrightarrow> prepended alloc r b (if c then [x] else []) (if c then rput alloc r x b else Inr b)"
  by (simp add: rput_prepended prepended_Nil)

lemma signed_drop_bit_all:
  "signed_drop_bit n (x :: 'a::len word) = (if bit x (LENGTH('a) - 1) then - 1 else 0) \<longleftrightarrow> sign_from n x"
proof
  assume e: "signed_drop_bit n x = (if bit x (LENGTH('a) - 1) then - 1 else 0)"
  show "sign_from n x"
  proof (rule sign_fromI)
    fix k assume k: "n \<le> k" "k < LENGTH('a)"
    then have "bit (signed_drop_bit n x) (k - n) = bit x (if LENGTH('a) - n \<le> k - n then LENGTH('a) - 1 else k)"
      by (auto simp: bit_simps)
    moreover have "bit (signed_drop_bit n x) (k - n) = bit x (LENGTH('a) - 1)"
      using k unfolding e by (auto simp: bit_simps)
    moreover have "\<not> LENGTH('a) - n \<le> k - n" using k by linarith
    ultimately show "bit x k = bit x (LENGTH('a) - 1)" by simp
  qed
next
  assume s: "sign_from n x"
  show "signed_drop_bit n x = (if bit x (LENGTH('a) - 1) then - 1 else 0)"
  proof (rule word_bit_eqI)
    fix k assume k: "k < LENGTH('a)"
    have "bit (signed_drop_bit n x) k = bit x (LENGTH('a) - 1)"
      using sign_fromD[OF s, of "n + k"] k by (auto simp: bit_simps)
    then show "bit (signed_drop_bit n x) k = bit (if bit x (LENGTH('a) - 1) then - 1 else 0 :: 'a word) k"
      using k by (auto simp: bit_simps)
  qed
qed

lemma signed_drop_bit_add: "signed_drop_bit m (signed_drop_bit n x) = signed_drop_bit (n + m) (x :: 'a::len word)"
  by (rule word_bit_eqI) (auto simp: bit_simps ac_simps)

lemma ucast_signed_drop_bit:
  "n + 8 \<le> 32 \<Longrightarrow> (ucast (signed_drop_bit n (x :: u32)) :: u8) = ucast (drop_bit n x)"
  by (rule word_bit_eqI) (auto simp: bit_simps)

lemma int_out_spec:
  assumes "j \<le> 4" "4 \<le> n + j" "t = (if bit x 31 then - 1 else 0)"
  shows "\<exists>k. j \<le> k \<and> k \<le> 4 \<and> rev (int_out n t (signed_drop_bit (8 * j) x)) @ be_bytes j x = be_bytes k x \<and>
    sign_from (8 * k) x \<and> (k = j \<or> \<not> sign_from (8 * (k - 1)) x)"
  using assms(1,2)
proof (induction n arbitrary: j)
  case 0
  then have "j = 4" by simp
  moreover have "sign_from (8 * 4) x" by (rule sign_fromI) simp
  ultimately show ?case by force
next
  case (Suc n)
  have t: "signed_drop_bit (8 * j) x = t \<longleftrightarrow> sign_from (8 * j) x"
    using signed_drop_bit_all[of "8 * j" x] assms(3) by simp
  show ?case
  proof (cases "sign_from (8 * j) x")
    case True
    with t show ?thesis by (intro exI[of _ j]) (use Suc.prems in simp)
  next
    case False
    have "j < 4"
    proof (rule ccontr)
      assume "\<not> j < 4"
      then have "j = 4" using Suc.prems by simp
      then have "sign_from (8 * j) x" by (intro sign_fromI) simp
      with False show False by simp
    qed
    then obtain k where k: "Suc j \<le> k" "k \<le> 4"
        "rev (int_out n t (signed_drop_bit (8 * Suc j) x)) @ be_bytes (Suc j) x = be_bytes k x"
        "sign_from (8 * k) x" "k = Suc j \<or> \<not> sign_from (8 * (k - 1)) x"
      using Suc.IH[of "Suc j"] Suc.prems by auto
    moreover have "int_out (Suc n) t (signed_drop_bit (8 * j) x) =
        ucast (drop_bit (8 * j) x) # int_out n t (signed_drop_bit (8 * Suc j) x)"
      using t False \<open>j < 4\<close> ucast_signed_drop_bit[of "8 * j" x] signed_drop_bit_add[of 8 "8 * j" x]
      by (simp add: add.commute)
    ultimately show ?thesis using False by (intro exI[of _ k]) auto
  qed
qed

lemma emit_fix_prepended:
  assumes "valid_rbuf b" "bs = rev xs @ [a]"
  shows "prepended alloc r b ((if P (hd bs) then [x] else []) @ bs)
    (ebind (rput alloc r a b) (\<lambda>b1. ebind (rputs alloc r xs b1) (\<lambda>b2.
       if P (rtop b2) then rput alloc r x b2 else Inr b2)))"
proof -
  have e: "prepended alloc r b (rev xs @ [a]) (ebind (rput alloc r a b) (rputs alloc r xs))"
    by (rule prepended_bind[OF assms(1) rput_prepended[OF assms(1)] rputs_prepended])
  have "prepended alloc r b ((if P (hd bs) then [x] else []) @ rev xs @ [a])
    (ebind (ebind (rput alloc r a b) (rputs alloc r xs)) (\<lambda>b2. if P (rtop b2) then rput alloc r x b2 else Inr b2))"
  proof (rule prepended_bind[OF assms(1) e])
    fix b2 assume b2: "valid_rbuf b2" "contents b2 = (rev xs @ [a]) @ contents b"
    have "bs \<noteq> []" using assms(2) by simp
    then have "contents b2 = hd bs # (tl bs @ contents b)"
      using b2(2) assms(2) by (metis append_Cons list.collapse)
    then have "rtop b2 = hd bs" by (rule rtop_contents[OF b2(1)])
    then show "prepended alloc r b2 (if P (hd bs) then [x] else []) (if P (rtop b2) then rput alloc r x b2 else Inr b2)"
      using rput_fix_prepended[OF b2(1)] by simp
  qed
  then show ?thesis using assms(2) by (simp add: ebind_assoc)
qed

lemma emit_tlv_prepended:
  assumes "valid_rbuf b" "bs = rev xs @ [a]" "payload = (if P (hd bs) then [x] else []) @ bs"
  shows "prepended alloc r b (tlv type payload)
    (ebind (ebind (rput alloc r a b) (\<lambda>b1. ebind (rputs alloc r xs b1) (\<lambda>b2.
        if P (rtop b2) then rput alloc r x b2 else Inr b2)))
      (\<lambda>b3. rbuild_finish alloc r type (offset b3 - offset b) (\<lambda>b'. offset b' - offset b) b3))"
  unfolding assms(3)
  by (rule rbuild_tlv_prepended[OF assms(1) emit_fix_prepended[OF assms(1,2)],
        where len = "\<lambda>b3. offset b3 - offset b" and typedlen = "\<lambda>_ b'. offset b' - offset b"]) simp_all

lemma ucast_minus_1_u8: "(ucast (- 1 :: u32) :: u8) = 0xFF"
proof -
  have "(ucast (- 1 :: u32) :: u8) = - 1" by (rule word_bit_eqI) (simp add: bit_simps)
  then show ?thesis by simp
qed

lemma rbuild_int_prepended:
  assumes "valid_rbuf b"
  shows "prepended alloc r b (tlv type (int_payload x)) (asn_realloc_rbuild_int alloc r type x 4 b)"
proof -
  define t where "t = (if bit x 31 then - 1 else 0 :: u32)"
  define bs where "bs = rev (int_out 4 t (signed_drop_bit 8 x)) @ [ucast x]"
  obtain k where k: "1 \<le> k" "k \<le> 4" "bs = be_bytes k x" "sign_from (8 * k) x"
      "k = 1 \<or> \<not> sign_from (8 * (k - 1)) x"
    using int_out_spec[of 1 4 t x] by (auto simp: bs_def t_def)
  have h: "bit (hd bs) 7 = bit x (8 * k - 1)" using be_bytes_hd[of k x] k by simp
  have tb: "(ucast (t AND 0x80) :: u8) = (if bit x 31 then 0x80 else 0)"
      "(ucast (t AND 0xFF) :: u8) = (if bit x 31 then 0xFF else 0)"
    by (simp_all add: t_def ucast_minus_1_u8)
  have c: "y AND 0x80 \<noteq> (if c then 0x80 else 0) \<longleftrightarrow> bit y 7 \<noteq> c" for y :: u8 and c
    by (cases "bit y 7") (auto simp: and_0x80_u8)
  have p: "int_payload x = (if hd bs AND 0x80 \<noteq> ucast (t AND 0x80) then [ucast (t AND 0xFF)] else []) @ bs"
    unfolding tb c int_payload_def using sign_extension_octets[of k 4 x] k h by auto
  show ?thesis
    unfolding asn_realloc_rbuild_int_def Let_def sint_neg_iff_bit
    using emit_tlv_prepended[where P = "\<lambda>y. y AND 0x80 \<noteq> ucast (t AND 0x80)", OF assms bs_def p]
    by (simp only: t_def) simp
qed

lemma rbuild_unsigned_int_prepended:
  assumes "valid_rbuf b"
  shows "prepended alloc r b (tlv type (uint_payload 4 x)) (asn_realloc_rbuild_unsigned_int alloc r type x 4 b)"
proof -
  define bs where "bs = rev (uint_out (drop_bit 8 x)) @ [ucast x]"
  have bs: "bs = be_bytes (min_uoctets 4 x) x" by (simp add: bs_def uint_out_min)
  have "0 < min_uoctets 4 x" using min_uoctets_bounds[of 4 x] by simp
  then have p: "uint_payload 4 x = (if hd bs AND 0x80 \<noteq> 0 then [0] else []) @ bs"
    using uint_payload_min[of 4 x] be_bytes_hd[of "min_uoctets 4 x" x] by (simp add: bs)
  show ?thesis
    using emit_tlv_prepended[where P = "\<lambda>y. y AND 0x80 \<noteq> 0", OF assms bs_def p]
    by (simp add: asn_realloc_rbuild_unsigned_int_def)
qed

interpretation int_pair: encoder_pair
  "\<lambda>dl v. asn_build_int dl (fst v) (snd v) 4" "\<lambda>alloc r v. asn_realloc_rbuild_int alloc r (fst v) (snd v) 4"
  "\<lambda>v. tlv (fst v) (int_payload (snd v))" "\<lambda>_. True"
  by unfold_locales (rule rbuild_int_prepended)

interpretation uint_pair: encoder_pair
  "\<lambda>dl v. asn_build_unsigned_int dl (fst v) (snd v) 4"
  "\<lambda>alloc r v. asn_realloc_rbuild_unsigned_int alloc r (fst v) (snd v) 4"
  "\<lambda>v. tlv (fst v) (uint_payload 4 (snd v))" "\<lambda>_. True"
  by unfold_locales (rule rbuild_unsigned_int_prepended)

section \<open>Object identifiers\<close>

text \<open>The loop \<^verbatim>\<open>while (tmpint > 0)\<close> over the septets above the lowest one.\<close>

function septets_out :: "u32 \<Rightarrow> u8 list" where
  "septets_out tmpint =
     (if tmpint > 0 then ucast ((tmpint AND 0x7F) OR 0x80) # septets_out (drop_bit 7 tmpint) else [])"
  by pat_completeness auto
termination
  by (relation "measure unat") (auto intro!: unat_drop_bit_less)

declare septets_out.simps [simp del]

definition subid_out :: "u32 \<Rightarrow> u8 list" where
  "subid_out tmpint = (ucast tmpint AND 0x7F) # septets_out (drop_bit 7 tmpint)"

definition asn_realloc_rbuild_objid ::
  "(nat \<Rightarrow> bool) \<Rightarrow> bool \<Rightarrow> u8 \<Rightarrow> oid \<Rightarrow> rbuf \<Rightarrow> asn_error + rbuf" where
  "asn_realloc_rbuild_objid alloc r type objid b =
     ebind
       (case objid of
          [] \<Rightarrow> ebind (rroom alloc r 2 b) (rstores [0, 0])
        | op0 # rest \<Rightarrow>
            if op0 > 2 then Inl BadFirstSubid
            else (case rest of
                [] \<Rightarrow> rput alloc r (ucast op0) b
              | op1 # ops \<Rightarrow>
                  ebind (rputs alloc r (concat (map subid_out (rev ops))) b) (\<lambda>b1.
                  if op1 > 40 \<and> op0 < 2 then Inl BadSecondSubid
                  else rputs alloc r (subid_out (op0 * 40 + op1)) b1)))
       (\<lambda>b3. rbuild_finish alloc r type (offset b3 - offset b) (\<lambda>b'. offset b' - offset b) b3)"

lemma septets_out_bits:
  "bit_ok = (\<lambda>k. take_bit k v = v) \<Longrightarrow> bit_ok (7 * Suc n) \<Longrightarrow> n = 0 \<or> \<not> bit_ok (7 * n) \<Longrightarrow>
     rev (septets_out (drop_bit 7 v)) = septets n v"
proof (induction n arbitrary: v bit_ok)
  case 0
  then have "drop_bit 7 v = 0" using take_bit_drop_bit_self[of 0 7 v] by simp
  then show ?case by (simp add: septets_out.simps)
next
  case (Suc n)
  let ?w = "drop_bit 7 v"
  have w: "take_bit (7 * Suc n) ?w = ?w" "n = 0 \<or> take_bit (7 * n) ?w \<noteq> ?w" "?w \<noteq> 0"
    using Suc.prems take_bit_drop_bit_self[of "7 * Suc n" 7 v] take_bit_drop_bit_self[of "7 * n" 7 v]
      take_bit_self_mono[of 7 v "7 * Suc n"] take_bit_drop_bit_self[of 0 7 v]
    by (auto simp: add.commute)
  have "septets_out ?w = (ucast ?w OR 0x80) # septets_out (drop_bit 7 ?w)"
    using w(3) by (subst septets_out.simps) (simp add: word_neq_0_conv septet_byte)
  moreover have "rev (septets_out (drop_bit 7 ?w)) = septets n ?w"
    using w(1,2) by (intro Suc.IH[OF refl]) auto
  moreover have "septets (Suc n) v = septets n ?w @ [ucast ?w OR 0x80]"
    by (induction n) (simp_all add: add.commute)
  ultimately show ?case by simp
qed

lemma rev_subid_out: "rev (subid_out v) = subid_bytes v"
proof -
  define n where "n = objid_size v - 1"
  have s: "objid_size v = Suc n" by (simp add: n_def objid_size_def)
  have fit: "take_bit (7 * Suc n) v = v"
  proof (cases "objid_size v < 5")
    case True
    then show ?thesis using objid_size_covers[of v] s by simp
  next
    case False
    then show ?thesis using s by (intro take_bit_word_eq_self) simp
  qed
  have "n = 0 \<or> take_bit (7 * n) v \<noteq> v"
    by (auto simp: n_def objid_size_def take_bit_u32_eq_self_iff split: if_splits)
  then have "rev (septets_out (drop_bit 7 v)) = septets n v"
    using fit by (intro septets_out_bits[OF refl]) auto
  moreover have "(ucast v :: u8) AND 0x7F = ucast (take_bit 7 v)"
  proof -
    have "(ucast v :: u8) AND mask 7 = ucast (take_bit 7 v)" by (rule word_bit_eqI) (auto simp: bit_simps)
    then show ?thesis by (simp add: mask_eq_exp_minus_1)
  qed
  ultimately show ?thesis by (simp add: subid_out_def subid_bytes_septets s)
qed

lemma rev_concat_subid_out: "rev (concat (map subid_out (rev vs))) = concat (map subid_bytes vs)"
  by (induction vs) (simp_all add: rev_subid_out)

lemma rbuild_objid_prepended:
  assumes "valid_rbuf b" "objid_ok objid"
  shows "prepended alloc r b (tlv type (objid_payload objid)) (asn_realloc_rbuild_objid alloc r type objid b)"
proof -
  from assms(2) obtain x y ops where o: "objid = x # y # ops"
    by (cases objid; cases "tl objid") (auto simp: objid_ok_def)
  have ok: "\<not> 2 < x" "(40 < y \<and> x < 2) = False" using assms by (auto simp: objid_ok_def o)
  have ops: "prepended alloc r b (concat (map subid_bytes ops)) (rputs alloc r (concat (map subid_out (rev ops))) b)"
    using rputs_prepended[OF assms(1), of alloc r "concat (map subid_out (rev ops))"]
    by (simp only: rev_concat_subid_out)
  have "prepended alloc r b (subid_bytes (x * 40 + y) @ concat (map subid_bytes ops))
      (ebind (rputs alloc r (concat (map subid_out (rev ops))) b) (rputs alloc r (subid_out (x * 40 + y))))"
    by (rule prepended_bind[OF assms(1) ops])
      (use rputs_prepended[of _ alloc r "subid_out (x * 40 + y)"] in \<open>simp add: rev_subid_out\<close>)
  then have "prepended alloc r b (objid_payload objid)
      (ebind (rputs alloc r (concat (map subid_out (rev ops))) b) (rputs alloc r (subid_out (x * 40 + y))))"
    by (simp add: objid_payload_def objid_vals_def o)
  from rbuild_tlv_prepended[OF assms(1) this, where len = "\<lambda>b3. offset b3 - offset b"
      and typedlen = "\<lambda>_ b'. offset b' - offset b"]
  show ?thesis
    using ok(1) unfolding asn_realloc_rbuild_objid_def o list.case ok(2) if_False by simp
qed

interpretation objid_pair: encoder_pair
  "\<lambda>dl v. asn_build_objid dl (fst v) (snd v)" "\<lambda>alloc r v. asn_realloc_rbuild_objid alloc r (fst v) (snd v)"
  "\<lambda>v. tlv (fst v) (objid_payload (snd v))" "\<lambda>v. objid_ok (snd v)"
  using objid_payload_len
  by unfold_locales
    (fastforce simp: asn_build_objid_tlv build_tlv_fits build_tlv_too_long[simplified] intro: rbuild_objid_prepended)+

end
