(* ===== verification/Int64.thy ===== *)
theory Int64
  imports Snmp_Prelude
begin

unbundle bit_operations_syntax

text \<open>
  64-bit counters as two 32-bit halves: the operations of
  \<^verbatim>\<open>snmplib/int64.c\<close> (schoolbook division and multiplication by ten on
  16-bit digits, addition with carry, subtraction with borrow, decimal text,
  detection of 32-bit wraps) on \<^verbatim>\<open>struct counter64\<close>, each shown to compute
  on the number \<open>val64\<close> modulo \<open>2 ^ 64\<close>.
\<close>

section \<open>The structure and its operations\<close>

record counter64 =
  high :: u32
  low :: u32

definition val64 :: "counter64 \<Rightarrow> nat" where
  "val64 c = unat (high c) * 2 ^ 32 + unat (low c)"

lemma val64_bound: "val64 c < 2 ^ 64"
  using unat_u32_bound[of "high c"] unat_u32_bound[of "low c"] by (simp add: val64_def)

lemma val64_inject: "val64 a = val64 b \<longleftrightarrow> a = b"
proof
  assume e: "val64 a = val64 b"
  have "val64 c div 2 ^ 32 = unat (high c)" "val64 c mod 2 ^ 32 = unat (low c)" for c
    using unat_u32_bound[of "low c"] by (auto simp: val64_def)
  with e have "unat (high a) = unat (high b)" "unat (low a) = unat (low b)" by metis+
  then show "a = b" by (simp add: word_unat_eq_iff)
qed simp

definition divBy10 :: "counter64 \<Rightarrow> counter64 \<times> u32" where
  "divBy10 u64 =
    (let ulT = drop_bit 16 (high u64) AND 0xFFFF;
         ulQ = ulT div 10; ulR = ulT mod 10;
         qhigh = push_bit 16 ulQ;
         ulT = (high u64 AND 0xFFFF) + push_bit 16 ulR;
         ulQ = ulT div 10; ulR = ulT mod 10;
         qhigh = qhigh OR ulQ;
         ulT = (drop_bit 16 (low u64) AND 0xFFFF) + push_bit 16 ulR;
         ulQ = ulT div 10; ulR = ulT mod 10;
         qlow = push_bit 16 ulQ;
         ulT = (low u64 AND 0xFFFF) + push_bit 16 ulR;
         ulQ = ulT div 10; ulR = ulT mod 10;
         qlow = qlow OR ulQ
     in (\<lparr>high = qhigh, low = qlow\<rparr>, ulR))"

definition multBy10 :: "counter64 \<Rightarrow> counter64" where
  "multBy10 u64 =
    (let ulP = (low u64 AND 0xFFFF) * 10; ulK = drop_bit 16 ulP;
         plow = ulP AND 0xFFFF;
         ulP = (drop_bit 16 (low u64) AND 0xFFFF) * 10 + ulK; ulK = drop_bit 16 ulP;
         plow = push_bit 16 (ulP AND 0xFFFF) OR plow;
         ulP = (high u64 AND 0xFFFF) * 10 + ulK; ulK = drop_bit 16 ulP;
         phigh = ulP AND 0xFFFF;
         ulP = (drop_bit 16 (high u64) AND 0xFFFF) * 10 + ulK;
         phigh = push_bit 16 (ulP AND 0xFFFF) OR phigh
     in \<lparr>high = phigh, low = plow\<rparr>)"

definition incrByU16 :: "counter64 \<Rightarrow> u32 \<Rightarrow> counter64" where
  "incrByU16 pu64 u16 =
    (let ulT1 = low pu64;
         ulR = (ulT1 AND 0xFFFF) + u16
     in if drop_bit 16 ulR = 0 then pu64\<lparr>low := ulT1 + u16\<rparr>
        else let ulR = (drop_bit 16 ulT1 AND 0xFFFF) + 1
        in if drop_bit 16 ulR = 0 then pu64\<lparr>low := ulT1 + u16\<rparr>
        else pu64\<lparr>low := (ulT1 + u16) AND 0xFFFFFFFF, high := high pu64 + 1\<rparr>)"

definition incrByU32 :: "counter64 \<Rightarrow> u32 \<Rightarrow> counter64" where
  "incrByU32 pu64 u32 =
    (let tmp = low pu64; l = low pu64 + u32
     in if l < tmp then \<lparr>high = high pu64 + 1, low = l\<rparr> else \<lparr>high = high pu64, low = l\<rparr>)"

definition u64Subtract :: "counter64 \<Rightarrow> counter64 \<Rightarrow> counter64" where
  "u64Subtract one two =
    (if low one < low two then
       \<lparr>high = high one - high two - 1, low = 0xffffffff - low two + low one + 1\<rparr>
     else \<lparr>high = high one - high two, low = low one - low two\<rparr>)"

definition u64Incr :: "counter64 \<Rightarrow> counter64 \<Rightarrow> counter64" where
  "u64Incr out one = incrByU32 (out\<lparr>high := high out + high one\<rparr>) (low one)"

definition u64UpdateCounter :: "counter64 \<Rightarrow> counter64 \<Rightarrow> counter64 \<Rightarrow> counter64" where
  "u64UpdateCounter out one two = u64Incr out (u64Subtract one two)"

definition zeroU64 :: counter64 where
  "zeroU64 = \<lparr>high = 0, low = 0\<rparr>"

definition isZeroU64 :: "counter64 \<Rightarrow> bool" where
  "isZeroU64 c \<longleftrightarrow> low c = 0 \<and> high c = 0"

definition u64Copy :: "counter64 \<Rightarrow> counter64 \<Rightarrow> counter64" where
  "u64Copy one two = one\<lparr>high := high two, low := low two\<rparr>"

section \<open>Sixteen-bit digit arithmetic\<close>

lemma unat_push_bit_16: "unat x < 65536 \<Longrightarrow> unat (push_bit 16 (x :: u32)) = unat x * 65536"
  by (simp add: push_bit_eq_mult unat_word_ariths)

lemma unat_or_shift16:
  assumes "unat x < 65536" "unat y < 65536"
  shows "unat (push_bit 16 x OR (y :: u32)) = unat x * 65536 + unat y"
proof -
  have y: "take_bit 16 y = y"
    using assms by (simp add: take_bit_u32_eq_self_iff word_less_nat_alt)
  have "push_bit 16 x AND y = 0"
    by (subst y[symmetric], rule bit_word_eqI) (auto simp: bit_simps)
  then have "push_bit 16 x OR y = push_bit 16 x + y"
    using word_plus_and_or[of "push_bit 16 x" y] by simp
  then show ?thesis using assms by (simp add: unat_word_ariths unat_push_bit_16)
qed

lemma unat_high16: "unat (drop_bit 16 (x :: u32) AND 0xFFFF) = unat x div 65536"
  using unat_u32_bound[of x]
  by (simp add: take_bit_eq_mod drop_bit_eq_div unat_div_distrib unat_mod_distrib)

lemma unat_low16: "unat ((x :: u32) AND 0xFFFF) = unat x mod 65536"
  by (simp add: take_bit_eq_mod unat_mod_distrib)

text \<open>One digit of the schoolbook division: a remainder below 10 carried into the next 16 bits.\<close>

lemma div_step16:
  assumes "unat (t :: u32) < 65536" "unat (r :: u32) < 10"
  shows "unat (t + push_bit 16 r) = unat r * 65536 + unat t"
    "unat ((t + push_bit 16 r) div 10) = (unat r * 65536 + unat t) div 10"
    "unat ((t + push_bit 16 r) mod 10) = (unat r * 65536 + unat t) mod 10"
    "(unat r * 65536 + unat t) div 10 < 65536"
proof -
  show *: "unat (t + push_bit 16 r) = unat r * 65536 + unat t"
    using assms by (simp add: unat_word_ariths unat_push_bit_16)
  show "unat ((t + push_bit 16 r) div 10) = (unat r * 65536 + unat t) div 10"
    by (simp add: unat_div_distrib *)
  show "unat ((t + push_bit 16 r) mod 10) = (unat r * 65536 + unat t) mod 10"
    by (simp add: unat_mod_distrib *)
  show "(unat r * 65536 + unat t) div 10 < 65536" using assms by simp
qed

lemma long_div:
  "(A * 65536 + t) div 10 = A div 10 * 65536 + (A mod 10 * 65536 + t) div (10::nat)"
  "(A * 65536 + t) mod 10 = (A mod 10 * 65536 + t) mod (10::nat)"
proof -
  obtain Q R where A: "A = Q * 10 + R" and R: "R < 10"
    by (metis div_mult_mod_eq mod_less_divisor zero_less_numeral)
  have e: "(Q * 10 + R) * 65536 + t = (R * 65536 + t) + Q * 65536 * 10"
    by (simp add: algebra_simps)
  have d: "A div 10 = Q" "A mod 10 = R" using A R by auto
  show "(A * 65536 + t) div 10 = A div 10 * 65536 + (A mod 10 * 65536 + t) div 10"
    unfolding d unfolding A e by (subst div_mult_self1) simp_all
  show "(A * 65536 + t) mod 10 = (A mod 10 * 65536 + t) mod 10"
    unfolding d unfolding A e by (rule mod_mult_self1)
qed

lemma val64_halves:
  "val64 c = ((unat (high c) div 65536 * 65536 + unat (high c) mod 65536) * 65536
     + unat (low c) div 65536) * 65536 + unat (low c) mod 65536"
  by (simp add: val64_def algebra_simps)

lemma divBy10_spec:
  assumes "divBy10 c = (q, r)"
  shows "val64 q = val64 c div 10 \<and> unat r = val64 c mod 10"
proof -
  define t1 where "t1 = drop_bit 16 (high c) AND 0xFFFF"
  define t2 where "t2 = high c AND 0xFFFF"
  define t3 where "t3 = drop_bit 16 (low c) AND 0xFFFF"
  define t4 where "t4 = low c AND 0xFFFF"
  have t: "unat t1 = unat (high c) div 65536" "unat t2 = unat (high c) mod 65536"
      "unat t3 = unat (low c) div 65536" "unat t4 = unat (low c) mod 65536"
    unfolding t1_def t2_def t3_def t4_def by (rule unat_high16 unat_low16)+
  then have tb: "unat t1 < 65536" "unat t2 < 65536" "unat t3 < 65536" "unat t4 < 65536"
    using unat_u32_bound[of "high c"] unat_u32_bound[of "low c"] by auto
  have r0: "unat (w mod (10 :: u32)) < 10" for w :: u32 by (simp add: unat_mod_distrib)
  define r1 r2 r3 where "r1 = t1 mod 10" and "r2 = (t2 + push_bit 16 r1) mod 10"
    and "r3 = (t3 + push_bit 16 r2) mod 10"
  note rb = r0[of t1, folded r1_def] r0[of "t2 + push_bit 16 r1", folded r2_def]
    r0[of "t3 + push_bit 16 r2", folded r3_def]
  note s2 = div_step16[OF tb(2) rb(1)] and s3 = div_step16[OF tb(3) rb(2)]
    and s4 = div_step16[OF tb(4) rb(3)]
  have q: "q = \<lparr>high = push_bit 16 (t1 div 10) OR ((t2 + push_bit 16 r1) div 10),
                low = push_bit 16 ((t3 + push_bit 16 r2) div 10) OR ((t4 + push_bit 16 r3) div 10)\<rparr>"
    and r: "r = (t4 + push_bit 16 r3) mod 10"
    using assms unfolding divBy10_def Let_def r1_def r2_def r3_def t1_def t2_def t3_def t4_def
    by blast+
  have q1: "unat (t1 div 10) = unat t1 div 10" "unat t1 div 10 < 65536"
    using tb(1) by (auto simp: unat_div_distrib)
  have "unat r1 = unat t1 mod 10"
    unfolding r1_def by (subst unat_mod_distrib) simp
  note rv = this s2(3)[folded r2_def] s3(3)[folded r3_def] s4(3)[folded r]
  have hq: "unat (high q) = unat t1 div 10 * 65536 + (unat r1 * 65536 + unat t2) div 10"
      "unat (low q) = (unat r2 * 65536 + unat t3) div 10 * 65536 + (unat r3 * 65536 + unat t4) div 10"
    unfolding q counter64.simps
    by (subst unat_or_shift16; simp only: s2(2,4) s3(2,4) s4(2,4) q1)+
  define V2 V3 where "V2 = unat t1 * 65536 + unat t2" and "V3 = V2 * 65536 + unat t3"
  have V: "val64 c = V3 * 65536 + unat t4"
    unfolding V3_def V2_def t by (rule val64_halves)
  have m2: "V2 mod 10 = unat r2" and d2: "V2 div 10 = unat (high q)"
    unfolding V2_def long_div[of "unat t1"] rv(1)[symmetric] by (simp_all only: rv hq)
  have m3: "V3 mod 10 = unat r3" and d3: "V3 div 10 = V2 div 10 * 65536 + (unat r2 * 65536 + unat t3) div 10"
    unfolding V3_def long_div[of V2] m2 by (simp_all only: rv)
  have "unat r = val64 c mod 10"
    unfolding V long_div[of V3] m3 by (simp only: rv)
  moreover have "val64 c div 10 = val64 q"
    unfolding V long_div[of V3] m3 d3 d2 val64_def[of q] hq(2) by simp
  ultimately show ?thesis by simp
qed


lemma val64_mk: "val64 \<lparr>high = h, low = l\<rparr> = unat h * 2 ^ 32 + unat l"
  by (simp add: val64_def)

lemma mul_digits:
  assumes "t4 * 10 = k4 * 65536 + m4" "t3 * 10 + k4 = k3 * 65536 + m3"
    and "t2 * 10 + k3 = k2 * 65536 + m2" "t1 * 10 + k2 = (p :: nat)"
  shows "(((t1 * 65536 + t2) * 65536 + t3) * 65536 + t4) * 10 = ((p * 65536 + m2) * 65536 + m3) * 65536 + m4"
  using assms by algebra

lemma top_digit:
  "d * 65536 + m = (p :: nat) \<Longrightarrow> ((p * 65536 + a) * 65536 + b) * 65536 + e =
     ((m * 65536 + a) * 65536 + b) * 65536 + e + d * 2 ^ 64"
  by (erule subst) simp

lemma mul_step16:
  assumes "unat (t :: u32) < 65536" "unat (k :: u32) < 10"
  shows "unat (t * 10 + k) = unat t * 10 + unat k"
    "unat (drop_bit 16 (t * 10 + k)) = (unat t * 10 + unat k) div 65536"
    "unat (drop_bit 16 (t * 10 + k)) < 10"
    "unat ((t * 10 + k) AND 0xFFFF) = (unat t * 10 + unat k) mod 65536"
proof -
  show *: "unat (t * 10 + k) = unat t * 10 + unat k"
    using assms by (simp add: unat_word_ariths)
  show **: "unat (drop_bit 16 (t * 10 + k)) = (unat t * 10 + unat k) div 65536"
    unfolding unsigned_drop_bit_eq
    using assms by (simp add: * drop_bit_eq_div take_bit_nat_eq_self)
  show "unat (drop_bit 16 (t * 10 + k)) < 10" unfolding ** using assms by simp
  show "unat ((t * 10 + k) AND 0xFFFF) = (unat t * 10 + unat k) mod 65536"
    unfolding unat_low16 * ..
qed

lemma multBy10_spec: "val64 (multBy10 c) = (val64 c * 10) mod 2 ^ 64"
proof -
  define t1 where "t1 = drop_bit 16 (high c) AND 0xFFFF"
  define t2 where "t2 = high c AND 0xFFFF"
  define t3 where "t3 = drop_bit 16 (low c) AND 0xFFFF"
  define t4 where "t4 = low c AND 0xFFFF"
  have t: "unat t1 = unat (high c) div 65536" "unat t2 = unat (high c) mod 65536"
      "unat t3 = unat (low c) div 65536" "unat t4 = unat (low c) mod 65536"
    unfolding t1_def t2_def t3_def t4_def by (rule unat_high16 unat_low16)+
  then have tb: "unat t1 < 65536" "unat t2 < 65536" "unat t3 < 65536" "unat t4 < 65536"
    using unat_u32_bound[of "high c"] unat_u32_bound[of "low c"] by auto
  have z: "unat (0 :: u32) < 10" by simp
  define p4 where "p4 = t4 * 10 + 0"
  note s4 = mul_step16[OF tb(4) z, folded p4_def]
  define p3 where "p3 = t3 * 10 + drop_bit 16 p4"
  note s3 = mul_step16[OF tb(3) s4(3), folded p3_def]
  define p2 where "p2 = t2 * 10 + drop_bit 16 p3"
  note s2 = mul_step16[OF tb(2) s3(3), folded p2_def]
  define p1 where "p1 = t1 * 10 + drop_bit 16 p2"
  note s1 = mul_step16[OF tb(1) s2(3), folded p1_def]
  have m: "multBy10 c = \<lparr>high = push_bit 16 (p1 AND 0xFFFF) OR (p2 AND 0xFFFF),
                        low = push_bit 16 (p3 AND 0xFFFF) OR (p4 AND 0xFFFF)\<rparr>"
    by (simp only: multBy10_def Let_def p1_def p2_def p3_def p4_def t1_def t2_def t3_def t4_def add_0_right)
  have lt: "unat (w AND 0xFFFF) < 65536" for w :: u32 unfolding unat_low16 by simp
  have o: "unat (push_bit 16 (v AND 0xFFFF) OR (w AND 0xFFFF)) =
      unat (v AND 0xFFFF) * 65536 + unat (w AND 0xFFFF)" for v w :: u32
    by (rule unat_or_shift16) (rule lt)+
  define P4 P3 P2 P1 where "P4 = unat t4 * 10" and "P3 = unat t3 * 10 + P4 div 65536"
    and "P2 = unat t2 * 10 + P3 div 65536" and "P1 = unat t1 * 10 + P2 div 65536"
  have P: "unat (p4 AND 0xFFFF) = P4 mod 65536" "unat (p3 AND 0xFFFF) = P3 mod 65536"
      "unat (p2 AND 0xFFFF) = P2 mod 65536" "unat (p1 AND 0xFFFF) = P1 mod 65536"
    unfolding s1(4) s2(4) s3(4) s4(4) s1(2) s2(2) s3(2) s4(2) P1_def P2_def P3_def P4_def by simp_all
  have r: "val64 (multBy10 c) = ((P1 mod 65536 * 65536 + P2 mod 65536) * 65536 + P3 mod 65536) * 65536 + P4 mod 65536"
    unfolding m val64_mk o P by simp
  have c4: "unat t4 * 10 = P4 div 65536 * 65536 + P4 mod 65536"
    and c3: "unat t3 * 10 + P4 div 65536 = P3 div 65536 * 65536 + P3 mod 65536"
    and c2: "unat t2 * 10 + P3 div 65536 = P2 div 65536 * 65536 + P2 mod 65536"
    unfolding P4_def P3_def P2_def by (rule div_mult_mod_eq[symmetric])+
  have "val64 c = ((unat t1 * 65536 + unat t2) * 65536 + unat t3) * 65536 + unat t4"
    unfolding t by (rule val64_halves)
  then have "val64 c * 10 = ((P1 * 65536 + P2 mod 65536) * 65536 + P3 mod 65536) * 65536 + P4 mod 65536"
    using mul_digits[OF c4 c3 c2 P1_def[symmetric]] by simp
  also have "\<dots> = val64 (multBy10 c) + P1 div 65536 * 2 ^ 64"
    unfolding r by (rule top_digit) (rule div_mult_mod_eq)
  finally show ?thesis using val64_bound[of "multBy10 c"] by simp
qed

lemma incrByU32_spec: "val64 (incrByU32 c x) = (val64 c + unat x) mod 2 ^ 64"
proof -
  have w: "low c + x < low c \<longleftrightarrow> 2 ^ 32 \<le> unat (low c) + unat x"
    using unat_u32_bound[of "low c"] unat_u32_bound[of x]
    by (auto simp: word_less_nat_alt unat_plus_if')
  have h: "unat (high c + 1) = (if unat (high c) = 2 ^ 32 - 1 then 0 else unat (high c) + 1)"
    using unat_u32_bound[of "high c"] by (auto simp: unat_plus_if')
  show ?thesis
  proof (cases "low c + x < low c")
    case True
    then have l: "unat (low c + x) = unat (low c) + unat x - 2 ^ 32"
      using w unat_u32_bound[of x] by (simp add: unat_plus_if')
    have "val64 (incrByU32 c x) = unat (high c + 1) * 2 ^ 32 + (unat (low c) + unat x - 2 ^ 32)"
      using True by (simp add: incrByU32_def val64_def l)
    moreover have "unat (high c + 1) * 2 ^ 32 + (unat (low c) + unat x - 2 ^ 32) =
        (unat (high c) * 2 ^ 32 + unat (low c) + unat x) mod 2 ^ 64"
    proof (cases "unat (high c) = 2 ^ 32 - 1")
      case True': True
      then have "unat (high c) * 2 ^ 32 + unat (low c) + unat x =
          (unat (low c) + unat x - 2 ^ 32) + 1 * 2 ^ 64"
        using True w by simp
      then show ?thesis
        using True' h unat_u32_bound[of "low c"] unat_u32_bound[of x] by (simp only: mod_mult_self1) simp
    next
      case False
      then show ?thesis
        using True w h unat_u32_bound[of "high c"] unat_u32_bound[of x] unat_u32_bound[of "low c"]
        by simp
    qed
    ultimately show ?thesis by (simp only: val64_def)
  next
    case False
    then have "unat (low c + x) = unat (low c) + unat x" "unat (low c) + unat x < 2 ^ 32"
      using w unat_u32_bound[of x] by (auto simp: unat_plus_if')
    then show ?thesis
      using False unat_u32_bound[of "high c"] by (auto simp: incrByU32_def val64_def)
  qed
qed


lemma carry_iff:
  "r < 65536 \<Longrightarrow> x < 65536 \<Longrightarrow> q < 65536 \<Longrightarrow>
     (4294967296 \<le> q * 65536 + r + x) = (65536 \<le> r + x \<and> 65536 \<le> q + (1 :: nat))"
  by (cases "q = 65535") auto

lemma incrByU16_eq_incrByU32:
  assumes "unat x < 65536"
  shows "incrByU16 c x = incrByU32 c x"
proof -
  let ?l = "unat (low c)"
  have lb: "?l < 2 ^ 32" using unat_u32_bound[of "low c"] by simp
  have m: "(low c + x) AND 0xFFFFFFFF = low c + x"
    using take_bit_word_eq_self[of 32 "low c + x"]
    by (simp add: take_bit_eq_mask mask_eq_exp_minus_1)
  have r1: "unat ((low c AND 0xFFFF) + x) = ?l mod 65536 + unat x"
    using assms unat_low16[of "low c"] by (simp add: unat_word_ariths del: and_0xFFFF)
  have r2: "unat ((drop_bit 16 (low c) AND 0xFFFF) + 1) = ?l div 65536 + 1"
    using lb unat_high16[of "low c"] by (simp add: unat_word_ariths del: and_0xFFFF)
  have z: "drop_bit 16 w = 0 \<longleftrightarrow> unat w < 65536" for w :: u32
  proof -
    have "drop_bit 16 w = 0 \<longleftrightarrow> w div 65536 = 0" by (simp add: drop_bit_eq_div)
    also have "\<dots> \<longleftrightarrow> unat w div 65536 = 0" by (simp add: word_unat_eq_iff unat_div_distrib)
    also have "\<dots> \<longleftrightarrow> unat w < 65536" by linarith
    finally show ?thesis .
  qed
  have w: "low c + x < low c \<longleftrightarrow> 2 ^ 32 \<le> ?l + unat x"
    using lb unat_u32_bound[of x] by (auto simp: word_less_nat_alt unat_plus_if')
  have c: "2 ^ 32 \<le> ?l + unat x \<longleftrightarrow> 65536 \<le> ?l mod 65536 + unat x \<and> 65536 \<le> ?l div 65536 + 1"
    using carry_iff[of "?l mod 65536" "unat x" "?l div 65536"] lb assms by simp
  show ?thesis
    unfolding incrByU16_def incrByU32_def Let_def z r1 r2 m w c
    by (cases c) (auto simp: not_less)
qed

lemma incrByU16_spec:
  "unat x < 65536 \<Longrightarrow> val64 (incrByU16 c x) = (val64 c + unat x) mod 2 ^ 64"
  by (simp add: incrByU16_eq_incrByU32 incrByU32_spec)

lemma u64Incr_spec: "val64 (u64Incr a b) = (val64 a + val64 b) mod 2 ^ 64"
proof -
  have "val64 (a\<lparr>high := high a + high b\<rparr>) = ((unat (high a) + unat (high b)) mod 2 ^ 32) * 2 ^ 32 + unat (low a)"
    by (simp add: val64_def unat_word_ariths)
  then have "val64 (u64Incr a b) = (((unat (high a) + unat (high b)) mod 2 ^ 32) * 2 ^ 32 + unat (low a) + unat (low b)) mod 2 ^ 64"
    by (simp add: u64Incr_def incrByU32_spec)
  also have "((unat (high a) + unat (high b)) mod 2 ^ 32) * 2 ^ 32 = ((unat (high a) + unat (high b)) * 2 ^ 32) mod 2 ^ 64"
    using mult_mod_left[of "unat (high a) + unat (high b)" "2 ^ 32" "2 ^ 32"] by simp
  also have "(((unat (high a) + unat (high b)) * 2 ^ 32) mod 2 ^ 64 + unat (low a) + unat (low b)) mod 2 ^ 64 =
      ((unat (high a) + unat (high b)) * 2 ^ 32 + unat (low a) + unat (low b)) mod 2 ^ 64"
    unfolding add.assoc by (rule mod_add_left_eq)
  also have "(unat (high a) + unat (high b)) * 2 ^ 32 + unat (low a) + unat (low b) = val64 a + val64 b"
    unfolding val64_def by simp
  finally show ?thesis .
qed

lemma u64Subtract_Incr: "u64Incr (u64Subtract a b) b = a"
proof -
  have s: "(x :: u32) < x - y \<longleftrightarrow> x < y" for x y
    using unat_u32_bound[of x] unat_u32_bound[of y]
    by (auto simp: word_less_nat_alt unat_sub_if')
  have m1: "(0xffffffff :: u32) = - 1" by simp
  have l: "0xffffffff - low b + low a + 1 = low a - low b"
    unfolding m1 by (simp add: algebra_simps)
  show ?thesis
    unfolding u64Subtract_def l
    by (cases a) (auto simp: u64Incr_def incrByU32_def s Let_def)
qed

lemma u64Subtract_spec: "val64 (u64Subtract a b) = (val64 a + 2 ^ 64 - val64 b) mod 2 ^ 64"
proof -
  have e: "(val64 (u64Subtract a b) + val64 b) mod 2 ^ 64 = val64 a"
    using u64Incr_spec[of "u64Subtract a b" b] by (simp add: u64Subtract_Incr)
  show ?thesis
    using e val64_bound[of a] val64_bound[of b] val64_bound[of "u64Subtract a b"]
    by (auto simp: mod_if split: if_splits)
qed

lemma u64UpdateCounter_spec:
  "val64 (u64UpdateCounter out one two) = (val64 out + (val64 one + 2 ^ 64 - val64 two)) mod 2 ^ 64"
  by (simp add: u64UpdateCounter_def u64Incr_spec u64Subtract_spec mod_add_right_eq)


section \<open>Decimal text\<close>

definition digit_char :: "nat \<Rightarrow> char" where
  "digit_char d = char_of (48 + d)"

text \<open>
  \<open>print_digits n u64a acc\<close>: the loop of \<^verbatim>\<open>printU64\<close> and \<^verbatim>\<open>printI64\<close> with
  \<open>n = I64CHARSZ - j\<close> cells of \<^verbatim>\<open>aRes\<close> left and \<open>acc\<close> the digits stored so far.
  The result pairs the value of \<^verbatim>\<open>I64CHARSZ - 1 - j\<close> after the loop with the digits; when
  the loop runs off the front of \<^verbatim>\<open>aRes\<close> the result is \<open>None\<close>.
\<close>

fun print_digits :: "nat \<Rightarrow> counter64 \<Rightarrow> string \<Rightarrow> (nat \<times> string) option" where
  "print_digits 0 u64a acc = None"
| "print_digits (Suc n) u64a acc =
     (let (u64b, u) = divBy10 u64a;
          acc' = digit_char (unat u) # acc
      in if isZeroU64 u64b then Some (n, acc') else print_digits n u64b acc')"

definition I64CHARSZ :: nat where "I64CHARSZ = 21"

definition printU64 :: "counter64 \<Rightarrow> string option" where
  "printU64 pu64 = map_option snd (print_digits I64CHARSZ \<lparr>high = high pu64, low = low pu64\<rparr> [])"

definition printI64 :: "counter64 \<Rightarrow> string option" where
  "printI64 pu64 =
     (if high pu64 AND 0x80000000 \<noteq> 0 then
        (case print_digits I64CHARSZ (incrByU32 \<lparr>high = NOT (high pu64), low = NOT (low pu64)\<rparr> 1) [] of
           Some (Suc n, ds) \<Rightarrow> Some (CHR ''-'' # ds)
         | _ \<Rightarrow> None)
      else map_option snd (print_digits I64CHARSZ \<lparr>high = high pu64, low = low pu64\<rparr> []))"

definition isdigit :: "char \<Rightarrow> bool" where
  "isdigit ch \<longleftrightarrow> 48 \<le> (of_char ch :: nat) \<and> (of_char ch :: nat) \<le> 57"

fun read_digits :: "counter64 \<Rightarrow> bool \<Rightarrow> string \<Rightarrow> counter64 \<times> bool" where
  "read_digits i64 ok [] = (i64, ok)"
| "read_digits i64 ok (ch # str) =
     (if isdigit ch
      then read_digits (incrByU16 (multBy10 i64) (of_nat (of_char ch - 48))) True str
      else (i64, ok))"

definition read64 :: "string \<Rightarrow> counter64 \<times> bool" where
  "read64 str =
     (case str of
        ch # rest \<Rightarrow>
          if ch = CHR ''-'' then
            (let (i64, ok) = read_digits zeroU64 False rest
             in (incrByU16 \<lparr>high = NOT (high i64), low = NOT (low i64)\<rparr> 1, ok))
          else read_digits zeroU64 False str
      | [] \<Rightarrow> (zeroU64, False))"

text \<open>The reference: the decimal numeral of a natural number, most significant digit first.\<close>

fun dec :: "nat \<Rightarrow> string" where
  "dec n = (if n < 10 then [digit_char n] else dec (n div 10) @ [digit_char (n mod 10)])"

declare dec.simps [simp del]

lemma isZeroU64_iff: "isZeroU64 c \<longleftrightarrow> val64 c = 0"
  by (auto simp: isZeroU64_def val64_def unat_eq_0)

lemma print_digits_spec:
  "val64 c < 10 ^ n \<Longrightarrow> 0 < n \<Longrightarrow>
     print_digits n c acc = Some (n - length (dec (val64 c)), dec (val64 c) @ acc)"
proof (induction n arbitrary: c acc)
  case 0
  then show ?case by simp
next
  case (Suc n)
  obtain q r where qr: "divBy10 c = (q, r)" by (cases "divBy10 c")
  note sp = divBy10_spec[OF qr]
  show ?case
  proof (cases "val64 c < 10")
    case True
    then show ?thesis
      using sp by (simp add: qr isZeroU64_iff dec.simps[of "val64 c"])
  next
    case False
    then have "val64 q \<noteq> 0" "val64 q < 10 ^ n" "0 < n"
      using sp Suc.prems by (auto simp: less_mult_imp_div_less intro!: Nat.gr0I)
    then show ?thesis
      using sp Suc.IH[of q] False by (simp add: qr isZeroU64_iff dec.simps[of "val64 c"])
  qed
qed

lemma dec_length: "n < 10 ^ k \<Longrightarrow> 0 < k \<Longrightarrow> length (dec n) \<le> k"
proof (induction k arbitrary: n)
  case (Suc k)
  show ?case
  proof (cases "n < 10")
    case False
    then have "n div 10 < 10 ^ k" "0 < k"
      using Suc.prems by (auto simp: less_mult_imp_div_less intro!: Nat.gr0I)
    then show ?thesis using Suc.IH[of "n div 10"] False by (simp add: dec.simps[of n])
  qed (simp add: dec.simps[of n])
qed simp

lemma printU64_spec: "printU64 c = Some (dec (val64 c))"
proof -
  have "val64 \<lparr>high = high c, low = low c\<rparr> = val64 c" by (simp add: val64_def)
  moreover have "val64 c < 10 ^ I64CHARSZ" using val64_bound[of c] by (simp add: I64CHARSZ_def)
  ultimately show ?thesis
    using print_digits_spec[of "\<lparr>high = high c, low = low c\<rparr>" I64CHARSZ "[]"]
    by (simp add: printU64_def I64CHARSZ_def)
qed

lemma digit_char_of: "d < 10 \<Longrightarrow> of_char (digit_char d) = 48 + d"
  by (simp add: digit_char_def)

lemma read_digits_append:
  "list_all isdigit xs \<Longrightarrow> read_digits c ok (xs @ ys) =
     (let (c', ok') = read_digits c ok xs in read_digits c' ok' ys)"
  by (induction xs arbitrary: c ok) auto

lemma dec_isdigit: "list_all isdigit (dec n)"
proof (induction n rule: dec.induct)
  case (1 n)
  have "isdigit (digit_char (n mod 10))" "n < 10 \<Longrightarrow> isdigit (digit_char n)"
    by (simp_all add: isdigit_def digit_char_of)
  with 1 show ?case by (subst dec.simps) simp
qed


lemma read_digit_step:
  assumes "d < 10"
  shows "\<exists>c'. read_digits c ok [digit_char d] = (c', True) \<and> val64 c' = (val64 c * 10 + d) mod 2 ^ 64"
proof -
  have "isdigit (digit_char d)" using assms by (simp add: isdigit_def digit_char_of)
  moreover have "unat (of_nat d :: u32) = d" using assms by (simp add: unat_of_nat)
  ultimately show ?thesis
    using assms by (simp add: digit_char_of incrByU16_spec multBy10_spec mod_add_left_eq)
qed

lemma read_digits_dec:
  "\<exists>c'. read_digits c ok (dec n) = (c', True) \<and>
        val64 c' = (val64 c * 10 ^ length (dec n) + n) mod 2 ^ 64"
proof (induction n arbitrary: c ok rule: dec.induct)
  case (1 n)
  show ?case
  proof (cases "n < 10")
    case True
    then show ?thesis using read_digit_step[of n c ok] by (simp add: dec.simps[of n])
  next
    case False
    with "1.IH" obtain c1 where c1: "read_digits c ok (dec (n div 10)) = (c1, True)"
      "val64 c1 = (val64 c * 10 ^ length (dec (n div 10)) + n div 10) mod 2 ^ 64" by blast
    obtain c2 where c2: "read_digits c1 True [digit_char (n mod 10)] = (c2, True)"
      "val64 c2 = (val64 c1 * 10 + n mod 10) mod 2 ^ 64"
      using read_digit_step[of "n mod 10"] by auto
    have "val64 c2 = ((val64 c * 10 ^ length (dec (n div 10)) + n div 10) * 10 + n mod 10) mod 2 ^ 64"
      unfolding c2(2) c1(2) by (metis mod_add_left_eq mod_mult_left_eq)
    also have "(val64 c * 10 ^ length (dec (n div 10)) + n div 10) * 10 + n mod 10 =
        val64 c * 10 ^ length (dec n) + n"
      using False by (simp add: dec.simps[of n] algebra_simps)
    finally show ?thesis
      using c1(1) c2(1) False by (simp add: dec.simps[of n] read_digits_append dec_isdigit)
  qed
qed

lemma dec_Cons: "\<exists>d ds. dec n = d # ds \<and> isdigit d"
  using dec_isdigit[of n] by (cases "dec n") (auto simp: dec.simps[of n] split: if_splits)

lemma val64_zero [simp]: "val64 zeroU64 = 0"
  by (simp add: zeroU64_def val64_def)

lemma read64_dec: "\<exists>c. read64 (dec n) = (c, True) \<and> val64 c = n mod 2 ^ 64"
proof -
  obtain d ds where d: "dec n = d # ds" "isdigit d" using dec_Cons by blast
  then have "d \<noteq> CHR ''-''" by (auto simp: isdigit_def)
  then show ?thesis
    using d read_digits_dec[of zeroU64 False n] by (simp add: read64_def)
qed

lemma read64_printU64: "\<exists>s. printU64 c = Some s \<and> read64 s = (c, True)"
proof -
  obtain c' where "read64 (dec (val64 c)) = (c', True)" "val64 c' = val64 c mod 2 ^ 64"
    using read64_dec by blast
  then have "read64 (dec (val64 c)) = (c, True)"
    using val64_bound[of c] val64_inject[of c' c] by simp
  then show ?thesis by (simp add: printU64_spec)
qed

text \<open>The two's complement reading of a counter, as \<^verbatim>\<open>printI64\<close> takes it.\<close>

definition ival64 :: "counter64 \<Rightarrow> int" where
  "ival64 c = (if 2 ^ 63 \<le> val64 c then int (val64 c) - 2 ^ 64 else int (val64 c))"

lemma neg64_spec: "val64 (incrByU32 \<lparr>high = NOT (high c), low = NOT (low c)\<rparr> 1) = (2 ^ 64 - val64 c) mod 2 ^ 64"
proof -
  have n: "unat (NOT x) = 2 ^ 32 - 1 - unat x" for x :: u32
  proof -
    have "NOT x = - 1 - x" by (simp add: not_eq_complement)
    moreover have "unat (- 1 :: u32) = 2 ^ 32 - 1"
      by (simp add: unsigned_minus_1_eq_mask mask_eq_exp_minus_1)
    ultimately show ?thesis using unat_u32_bound[of x] by (simp add: unat_sub_if')
  qed
  have "val64 \<lparr>high = NOT (high c), low = NOT (low c)\<rparr> = 2 ^ 64 - 1 - val64 c"
    using unat_u32_bound[of "high c"] unat_u32_bound[of "low c"] by (simp add: val64_def n)
  moreover have "2 ^ 64 - 1 - val64 c + 1 = 2 ^ 64 - val64 c" using val64_bound[of c] by simp
  ultimately show ?thesis unfolding incrByU32_spec by simp
qed

lemma sign_bit_iff: "high c AND 0x80000000 = 0 \<longleftrightarrow> val64 c < 2 ^ 63"
proof -
  have "high c AND 0x80000000 = 0 \<longleftrightarrow> \<not> bit (high c) 31"
    using and_exp_eq_0_iff_not_bit[of "high c" 31] by simp
  also have "\<dots> \<longleftrightarrow> unat (high c) < 2 ^ 31" by (auto simp: bit31_iff)
  also have "\<dots> \<longleftrightarrow> val64 c < 2 ^ 63"
    using unat_u32_bound[of "low c"] by (auto simp: val64_def)
  finally show ?thesis .
qed

lemma printI64_spec:
  "printI64 c = Some (if 0 \<le> ival64 c then dec (nat (ival64 c)) else CHR ''-'' # dec (nat (- ival64 c)))"
proof (cases "val64 c < 2 ^ 63")
  case True
  have "val64 \<lparr>high = high c, low = low c\<rparr> = val64 c" by (simp add: val64_def)
  moreover have "val64 c < 10 ^ I64CHARSZ" using val64_bound[of c] by (simp add: I64CHARSZ_def)
  ultimately show ?thesis
    using True sign_bit_iff[of c] print_digits_spec[of "\<lparr>high = high c, low = low c\<rparr>" I64CHARSZ "[]"]
    by (simp add: printI64_def I64CHARSZ_def ival64_def)
next
  case False
  let ?c = "incrByU32 \<lparr>high = NOT (high c), low = NOT (low c)\<rparr> 1"
  have v: "val64 ?c = 2 ^ 64 - val64 c"
    using False neg64_spec[of c] by simp
  then have b: "val64 ?c < 10 ^ 20" "val64 ?c < 10 ^ I64CHARSZ" using False by (auto simp: I64CHARSZ_def)
  have "length (dec (val64 ?c)) \<le> 20" using dec_length[OF b(1)] by simp
  then obtain k where "I64CHARSZ - length (dec (val64 ?c)) = Suc k"
    by (cases "I64CHARSZ - length (dec (val64 ?c))") (auto simp: I64CHARSZ_def)
  then show ?thesis
    using False sign_bit_iff[of c] print_digits_spec[OF b(2), of "[]"] v val64_bound[of c]
    by (auto simp: printI64_def I64CHARSZ_def ival64_def nat_diff_distrib)
qed

lemma read64_printI64: "\<exists>s. printI64 c = Some s \<and> read64 s = (c, True)"
proof (cases "val64 c < 2 ^ 63")
  case True
  then obtain c' where "read64 (dec (val64 c)) = (c', True)" "val64 c' = val64 c mod 2 ^ 64"
    using read64_dec by blast
  then show ?thesis
    using True val64_bound[of c] val64_inject[of c' c] by (simp add: printI64_spec ival64_def)
next
  case False
  let ?n = "2 ^ 64 - val64 c"
  obtain c' where c': "read_digits zeroU64 False (dec ?n) = (c', True)" "val64 c' = ?n mod 2 ^ 64"
    using read_digits_dec[of zeroU64 False ?n] by auto
  have p: "printI64 c = Some (CHR ''-'' # dec ?n)"
    using False val64_bound[of c] by (auto simp: printI64_spec ival64_def nat_diff_distrib)
  have one: "unat (1 :: u32) < 65536" by simp
  have "val64 (incrByU16 \<lparr>high = NOT (high c'), low = NOT (low c')\<rparr> 1) = val64 c"
    unfolding incrByU16_eq_incrByU32[OF one] neg64_spec c'(2)
    using False val64_bound[of c] by simp
  then have "read64 (CHR ''-'' # dec ?n) = (c, True)"
    using c'(1) by (simp add: read64_def val64_inject)
  with p show ?thesis by blast
qed


section \<open>Counters that wrap at 32 bits\<close>

text \<open>
  \<^verbatim>\<open>netsnmp_c64_check_for_32bit_wrap\<close>: the return code and the new value, whose
  high half is incremented when a wrap is found and \<^verbatim>\<open>adjust\<close> is set. \<open>None\<close> is a
  NULL argument.
\<close>

definition netsnmp_c64_check_for_32bit_wrap ::
  "counter64 option \<Rightarrow> counter64 option \<Rightarrow> bool \<Rightarrow> int \<times> counter64 option" where
  "netsnmp_c64_check_for_32bit_wrap old_val new_val adjust =
     (case (old_val, new_val) of
        (Some old, Some new) \<Rightarrow>
          if low new \<ge> low old \<and> high new = high old then (0, new_val)
          else if high new = high old then
            (32, Some (if adjust then new\<lparr>high := high new + 1\<rparr> else new))
          else if high new = high old + 1 \<or> (high new = 0 \<and> high old = 0xffffffff) then (64, new_val)
          else (- 2, new_val)
      | _ \<Rightarrow> (- 1, new_val))"

text \<open>
  \<^verbatim>\<open>netsnmp_c64_check32_and_update\<close>: return code, \<^verbatim>\<open>*prev_val\<close>, \<^verbatim>\<open>*new_val\<close> and
  \<^verbatim>\<open>*need_wrap_check\<close> afterwards (\<open>None\<close> for a NULL pointer). The assertion on
  \<^verbatim>\<open>new_val->high\<close> only logs.
\<close>

definition netsnmp_c64_check32_and_update ::
  "counter64 \<Rightarrow> counter64 \<Rightarrow> counter64 \<Rightarrow> int option \<Rightarrow>
     int \<times> counter64 \<times> counter64 \<times> int option" where
  "netsnmp_c64_check32_and_update prev_val new_val old_prev_val need_wrap_check =
     (let (rc, new_val') =
            (if need_wrap_check = None \<or> need_wrap_check \<noteq> Some 0
             then netsnmp_c64_check_for_32bit_wrap (Some old_prev_val) (Some new_val) True
             else (0, Some new_val));
          new1 = the new_val'
      in if rc < 0 then (- 1, prev_val, new1, need_wrap_check)
         else let prev1 = u64UpdateCounter prev_val new1 old_prev_val
         in if rc = 32 then (0, prev1, new1\<lparr>high := 0\<rparr>, need_wrap_check)
            else if rc = 64 then
              if low prev1 \<noteq> low new1 \<or> high prev1 \<noteq> high new1 then (- 2, prev1, new1, need_wrap_check)
              else (0, prev1, new1, map_option (\<lambda>_. 0) need_wrap_check)
            else (0, prev1, new1, need_wrap_check))"

lemma wrap_check_Some: "\<exists>rc n. netsnmp_c64_check_for_32bit_wrap (Some a) (Some b) adj = (rc, Some n)"
  by (simp add: netsnmp_c64_check_for_32bit_wrap_def)

lemma counter32_accumulates:
  assumes "high new = 0" "high old = 0" "need \<noteq> Some 0"
  shows "\<exists>prev'. netsnmp_c64_check32_and_update prev new old need = (0, prev', new, need) \<and>
     val64 prev' = (val64 prev + unat (low new - low old)) mod 2 ^ 64"
proof (cases "low old \<le> low new")
  case True
  have r: "netsnmp_c64_check32_and_update prev new old need = (0, u64UpdateCounter prev new old, new, need)"
    using True assms by (simp add: netsnmp_c64_check32_and_update_def netsnmp_c64_check_for_32bit_wrap_def)
  have "val64 new + 2 ^ 64 - val64 old = unat (low new - low old) + 2 ^ 64"
    using True assms by (simp add: val64_def unat_sub word_le_nat_alt)
  then have "val64 (u64UpdateCounter prev new old) = (val64 prev + unat (low new - low old) + 2 ^ 64) mod 2 ^ 64"
    unfolding u64UpdateCounter_spec by (simp only: add.assoc)
  then show ?thesis using r by (simp only: mod_add_self2) simp
next
  case False
  let ?new = "new\<lparr>high := 1\<rparr>"
  have r: "netsnmp_c64_check32_and_update prev new old need = (0, u64UpdateCounter prev ?new old, new, need)"
    using False assms
    by (cases new) (simp add: netsnmp_c64_check32_and_update_def netsnmp_c64_check_for_32bit_wrap_def)
  have "val64 ?new + 2 ^ 64 - val64 old = unat (low new - low old) + 2 ^ 64"
    using False assms unat_u32_bound[of "low old"]
    by (simp add: val64_def unat_sub_if' word_le_nat_alt)
  then have "val64 (u64UpdateCounter prev ?new old) = (val64 prev + unat (low new - low old) + 2 ^ 64) mod 2 ^ 64"
    unfolding u64UpdateCounter_spec by (simp only: add.assoc)
  then show ?thesis using r by (simp only: mod_add_self2) simp
qed

end
