(* ===== verification/Asn_Int64.thy ===== *)
theory Asn_Int64
  imports Asn_Int Int64
begin

unbundle bit_operations_syntax

text \<open>
  64-bit integers of \<^verbatim>\<open>snmplib/asn1.c\<close>, plain and wrapped in an Opaque, on
  the two halves of \<^verbatim>\<open>struct counter64\<close>. The decoders start the sign extension
  of a negative number from 24 one bits instead of 32;
  \<open>i64_decoded_iff\<close> says which numbers survive that.
\<close>

section \<open>The pair of halves as one 64-bit word\<close>

definition cat64 :: "u32 \<Rightarrow> u32 \<Rightarrow> u64" where
  "cat64 h l = push_bit 32 (ucast h) OR ucast l"

definition u64_of :: "counter64 \<Rightarrow> u64" where
  "u64_of c = cat64 (high c) (low c)"

lemma bit_cat64: "bit (cat64 h l) n \<longleftrightarrow> (if n < 32 then bit l n else n < 64 \<and> bit h (n - 32))"
  by (auto simp: cat64_def bit_simps dest: bit_imp_le_length)

lemma cat64_inject: "cat64 h l = cat64 h' l' \<longleftrightarrow> h = h' \<and> l = l'"
proof
  assume e: "cat64 h l = cat64 h' l'"
  have "bit l n = bit l' n" if "n < 32" for n
    using e that bit_cat64[of h l n] bit_cat64[of h' l' n] by simp
  moreover have "bit h n = bit h' n" if "n < 32" for n
    using e that bit_cat64[of h l "n + 32"] bit_cat64[of h' l' "n + 32"] by simp
  ultimately show "h = h' \<and> l = l'" by (auto intro!: word_bit_eqI)
qed simp

lemma cat64_shift:
  "cat64 (push_bit 8 h OR drop_bit 24 (l AND 0xFF000000)) (push_bit 8 l) = push_bit 8 (cat64 h l)"
  unfolding mask_0xFF000000
  by (rule word_bit_eqI) (auto simp: bit_cat64 bit_simps)

lemma cat64_shift_in:
  "cat64 (push_bit 8 (0x00FFFFFF AND h) OR drop_bit 24 (l AND 0xFF000000))
         (push_bit 8 (l AND 0x00FFFFFF) OR ucast (b :: u8)) = push_bit 8 (cat64 h l) OR ucast b"
  unfolding mask_0xFF000000 mask_0x00FFFFFF
  by (rule word_bit_eqI) (auto simp: bit_cat64 bit_simps dest: bit_imp_le_length)

lemma top9_cat64: "top9 (cat64 h l) \<longleftrightarrow> top9 h"
proof -
  have e: "bit (cat64 h l) (63 - k) = bit h (31 - k)" if "k < 9" for k
  proof -
    have "\<not> 63 - k < 32" "63 - k < 64" "63 - k - 32 = 31 - k" using that by auto
    then show ?thesis unfolding bit_cat64 by simp
  qed
  have "(\<forall>k<9. bit (cat64 h l) (63 - k) = bit (cat64 h l) 63) \<longleftrightarrow> (\<forall>k<9. bit h (31 - k) = bit h 31)"
    using e e[of 0] by simp
  then show ?thesis by (simp add: top9_def)
qed

section \<open>Encoding loops\<close>

fun trunc64 :: "u32 \<Rightarrow> u32 \<Rightarrow> nat \<Rightarrow> u32 \<times> u32 \<times> nat" where
  "trunc64 h l intsize =
     (if (h AND 0xFF800000 = 0 \<or> h AND 0xFF800000 = 0xFF800000) \<and> intsize > 1
      then trunc64 (push_bit 8 h OR drop_bit 24 (l AND 0xFF000000)) (push_bit 8 l) (intsize - 1)
      else (h, l, intsize))"

declare trunc64.simps [simp del]

fun emit64 :: "nat \<Rightarrow> u32 \<Rightarrow> u32 \<Rightarrow> u8 list" where
  "emit64 0 h l = []"
| "emit64 (Suc n) h l =
     ucast (drop_bit 24 (h AND 0xFF000000)) #
     emit64 n (push_bit 8 h OR drop_bit 24 (l AND 0xFF000000)) (push_bit 8 l)"

lemma trunc64_spec:
  assumes "fits_signed n x" "0 < n" "n \<le> 8" "cat64 h l = push_bit (64 - 8 * n) x"
  shows "\<exists>h' l'. trunc64 h l n = (h', l', min_octets n x) \<and>
    cat64 h' l' = push_bit (64 - 8 * min_octets n x) x"
  using assms
proof (induction n x arbitrary: h l rule: min_octets.induct)
  case (1 n x)
  show ?case
  proof (cases "1 < n")
    case False
    with 1(3) have "n = 1" by simp
    then show ?thesis using 1(5)
      by (simp add: trunc64.simps[of _ _ "Suc 0"] min_octets.simps[of "Suc 0"])
  next
    case True
    have t: "top9 h \<longleftrightarrow> fits_signed (n - 1) x"
      using top9_shifted[OF 1(2) True] 1(4,5) top9_cat64[of h l] by simp
    let ?h = "push_bit 8 h OR drop_bit 24 (l AND 0xFF000000)" and ?l = "push_bit 8 l"
    have sh: "cat64 ?h ?l = push_bit (64 - 8 * (n - 1)) x"
      using True 1(4,5) by (simp only: cat64_shift push_bit_push_bit) (simp add: algebra_simps)
    show ?thesis
    proof (cases "fits_signed (n - 1) x")
      case True': True
      have "trunc64 h l n = trunc64 ?h ?l (n - 1)"
        by (subst trunc64.simps) (simp only: top9_mask t True True', simp)
      then show ?thesis
        using "1.IH"[of ?h ?l] True True' 1(4) sh by (simp add: min_octets.simps[of n x])
    next
      case False
      then show ?thesis using 1(5)
        by (subst trunc64.simps) (simp only: top9_mask t, simp add: min_octets.simps[of n x])
    qed
  qed
qed

lemma emit64_spec:
  "n \<le> 8 \<Longrightarrow> cat64 h l = push_bit (64 - 8 * n) x \<Longrightarrow> emit64 n h l = be_bytes n x"
proof (induction n arbitrary: h l)
  case 0
  then show ?case by simp
next
  case (Suc n)
  have hb: "bit h k = bit x (8 * Suc n + k - 32)" if "24 \<le> k" "k < 32" for k
  proof -
    have "bit h k = bit (cat64 h l) (k + 32)" using that by (simp add: bit_cat64)
    also have "\<dots> = bit x (8 * Suc n + k - 32)"
      unfolding Suc.prems(2) using that Suc.prems(1) by (auto simp: bit_simps ac_simps)
    finally show ?thesis .
  qed
  have "ucast (drop_bit 24 (h AND 0xFF000000)) = (ucast (drop_bit (8 * n) x) :: u8)"
    unfolding mask_0xFF000000
  proof (rule word_bit_eqI)
    fix k assume "k < LENGTH(8)"
    then show "bit (ucast (drop_bit 24 (h AND push_bit 24 (mask 8))) :: u8) k =
        bit (ucast (drop_bit (8 * n) x) :: u8) k"
      using hb[of "24 + k"] by (auto simp: bit_simps algebra_simps)
  qed
  moreover have "cat64 (push_bit 8 h OR drop_bit 24 (l AND 0xFF000000)) (push_bit 8 l) = push_bit (64 - 8 * n) x"
    unfolding cat64_shift Suc.prems(2) using Suc.prems(1) by simp
  ultimately show ?case using Suc by simp
qed


section \<open>Unsigned 64-bit integers\<close>

fun shift_in64 :: "u8 list \<Rightarrow> nat \<Rightarrow> nat \<Rightarrow> u32 \<Rightarrow> u32 \<Rightarrow> asn_error + nat \<times> u32 \<times> u32" where
  "shift_in64 m p 0 h l = Inr (p, h, l)"
| "shift_in64 m p (Suc n) h l =
     ebind (rd m p) (\<lambda>b. shift_in64 m (p + 1) n
       (push_bit 8 (0x00FFFFFF AND h) OR drop_bit 24 (l AND 0xFF000000))
       (push_bit 8 (l AND 0x00FFFFFF) OR ucast b))"

text \<open>
  The block of the 64-bit and floating point decoders that looks inside an
  \<^verbatim>\<open>Opaque\<close>: whether a special value was found, and the type, pointer and
  length to go on with.
\<close>

definition asn_opaque_unwrap ::
  "(u8 \<Rightarrow> bool) \<Rightarrow> (u32 \<Rightarrow> bool) \<Rightarrow> u8 list \<Rightarrow> nat \<Rightarrow> u32 \<Rightarrow> u8 \<Rightarrow> nat \<Rightarrow> u32 \<Rightarrow>
     asn_error + bool \<times> u8 \<times> nat \<times> u32" where
  "asn_opaque_unwrap tags lenok m data datalength type bufp asn_length =
     (if type = ASN_OPAQUE \<and> lenok asn_length then
        ebind (rd m bufp) (\<lambda>tag1.
        if tag1 \<noteq> ASN_OPAQUE_TAG1 then Inr (False, type, bufp, asn_length)
        else ebind (rd m (bufp + 1)) (\<lambda>tag2.
        if \<not> tags tag2 then Inr (False, type, bufp, asn_length)
        else ebind (asn_parse_length m (bufp + 2)) (\<lambda>(bufp', asn_length').
        if asn_parse_length_check bufp' data asn_length' datalength then Inl MsgOverflow
        else Inr (True, tag2, bufp', asn_length'))))
      else Inr (False, type, bufp, asn_length))"

definition asn_parse_unsigned_int64 ::
  "u8 list \<Rightarrow> nat \<Rightarrow> u32 \<Rightarrow> u32 \<Rightarrow> asn_error + nat \<times> u32 \<times> u8 \<times> counter64" where
  "asn_parse_unsigned_int64 m data datalength countersize =
     (if countersize \<noteq> 8 then Inl SizeErr
      else ebind (asn_parse_tl m data datalength) (\<lambda>(type, bufp, asn_length).
      ebind (asn_opaque_unwrap (\<lambda>t. t = ASN_OPAQUE_COUNTER64 \<or> t = ASN_OPAQUE_U64) (\<lambda>l. l \<le> 12)
               m data datalength type bufp asn_length) (\<lambda>(_, type, bufp, asn_length).
      if asn_length > 9 then Inl LengthErr
      else ebind (rd m bufp) (\<lambda>first.
      if asn_length = 9 \<and> first \<noteq> 0 then Inl LengthErr
      else ebind (shift_in64 m bufp (unat asn_length)
               (if first AND 0x80 \<noteq> 0 then 0xFFFFFF else 0) (if first AND 0x80 \<noteq> 0 then 0xFFFFFF else 0))
             (\<lambda>(bufp', h, l).
      Inr (bufp', datalength - (asn_length + of_nat (bufp - data)), type, \<lparr>high = h, low = l\<rparr>))))))"

definition asn_build_unsigned_int64 ::
  "u32 \<Rightarrow> u8 \<Rightarrow> counter64 \<Rightarrow> u32 \<Rightarrow> u8 list \<times> (asn_error + u32)" where
  "asn_build_unsigned_int64 datalength type cp countersize =
     (if countersize \<noteq> 8 then ([], Inl SizeErr)
      else
        let add_null_byte = ((ucast (drop_bit 24 (high cp AND 0xFF000000)) :: u8) AND 0x80 \<noteq> 0);
            (h, l, intsize) = (if add_null_byte then (high cp, low cp, 9) else trunc64 (high cp) (low cp) 8);
            stored = (if add_null_byte then 0 # emit64 (intsize - 1) h l else emit64 intsize h l)
        in if type = ASN_OPAQUE_COUNTER64 \<or> type = ASN_OPAQUE_U64 then
             wbind (asn_build_header datalength ASN_OPAQUE (of_nat (intsize + 3))) (\<lambda>dl.
             if asn_build_header_check dl (of_nat (intsize + 3)) then ([], Inl HeaderTooShort)
             else ([ASN_OPAQUE_TAG1, type, of_nat intsize] @ stored, Inr (dl - 3 - of_nat intsize)))
           else
             wbind (asn_build_header datalength type (of_nat intsize)) (\<lambda>dl.
             if asn_build_header_check dl (of_nat intsize) then ([], Inl HeaderTooShort)
             else (stored, Inr (dl - of_nat intsize))))"


lemma shift_in64_bytes_at:
  "bytes_at m p bs \<Longrightarrow> \<exists>h' l'. shift_in64 m p (length bs) h l = Inr (p + length bs, h', l') \<and>
     cat64 h' l' = be_value (cat64 h l) bs"
proof (induction bs arbitrary: p h l)
  case (Cons b bs)
  then show ?case
    using Cons.IH[of "Suc p" "push_bit 8 (0x00FFFFFF AND h) OR drop_bit 24 (l AND 0xFF000000)"
        "push_bit 8 (l AND 0x00FFFFFF) OR ucast b"]
    by (simp only: cat64_shift_in bytes_at.simps) (simp add: rd_def)
qed simp

section \<open>Values wrapped in an Opaque\<close>

definition opaque_wrap :: "u8 \<Rightarrow> u8 list \<Rightarrow> u8 list" where
  "opaque_wrap type payload = [ASN_OPAQUE_TAG1, type, of_nat (length payload)] @ payload"

lemma length_opaque_wrap [simp]: "length (opaque_wrap type payload) = length payload + 3"
  by (simp add: opaque_wrap_def)

lemma ber_length_small:
  assumes "n < 128"
  shows "ber_length (of_nat n) = [of_nat n]"
proof -
  have "(of_nat n :: u32) < 0x80" using assms by (simp add: word_less_nat_alt unat_of_nat)
  moreover have "ucast (of_nat n :: u32) = (of_nat n :: u8)"
    using assms by (simp add: unat_of_nat word_unat_eq_iff unsigned_ucast_eq take_bit_eq_mod)
  ultimately show ?thesis by (simp add: ber_length_def)
qed

lemma unwrap_none:
  "type \<noteq> ASN_OPAQUE \<Longrightarrow> asn_opaque_unwrap tags lenok m data dl type bufp len = Inr (False, type, bufp, len)"
  by (simp add: asn_opaque_unwrap_def)

lemma unwrap_wrapped:
  assumes at: "bytes_at m q (opaque_wrap tag payload)" and "p + 2 \<le> q" "q \<le> p + 6"
    and fit: "q - p + length (opaque_wrap tag payload) \<le> unat dl"
    and "tags tag" "length payload < 128" "lenok (of_nat (length payload + 3))"
  shows "asn_opaque_unwrap tags lenok m p dl ASN_OPAQUE q (of_nat (length payload + 3)) =
       Inr (True, tag, q + 3, of_nat (length payload)) \<and> bytes_at m (q + 3) payload"
proof -
  have r: "rd m q = Inr ASN_OPAQUE_TAG1" "rd m (q + 1) = Inr tag"
      "bytes_at m (q + 2) [of_nat (length payload)]" "bytes_at m (q + 3) payload"
    using at by (auto simp: opaque_wrap_def rd_def eval_nat_numeral)
  have u: "unat (of_nat (length payload) :: u32) = length payload"
    using assms(6) by (simp add: unat_of_nat)
  have pl: "asn_parse_length m (q + 2) = Inr (q + 3, of_nat (length payload))"
    using parse_ber_length[of m "q + 2" "of_nat (length payload)"] r(3) u assms(6)
    by (simp add: ber_length_small)
  have "\<not> asn_parse_length_check (q + 3) p (of_nat (length payload)) dl"
    using assms(2,3,6) fit u by (subst asn_parse_length_check_iff) auto
  then show ?thesis
    using r(1,2,4) pl assms(5,7) by (simp add: asn_opaque_unwrap_def)
qed

section \<open>The unsigned codec\<close>

definition is_opaque_u64 :: "u8 \<Rightarrow> bool" where
  "is_opaque_u64 type \<longleftrightarrow> type = ASN_OPAQUE_COUNTER64 \<or> type = ASN_OPAQUE_U64"

definition u64_tag :: "u8 \<Rightarrow> u8" where
  "u64_tag type = (if is_opaque_u64 type then ASN_OPAQUE else type)"

definition u64_payload :: "u8 \<Rightarrow> counter64 \<Rightarrow> u8 list" where
  "u64_payload type c = (if is_opaque_u64 type then opaque_wrap type (uint_payload 8 (u64_of c))
     else uint_payload 8 (u64_of c))"

lemma u64_payload_len: "length (u64_payload type c) \<le> 12"
  using uint_payload_len(2)[of 8 "u64_of c"] by (auto simp: u64_payload_def)

lemma emit64_full: "emit64 8 (high c) (low c) = be_bytes 8 (u64_of c)"
  by (rule emit64_spec) (simp_all add: u64_of_def)

lemma trunc64_emit:
  "\<exists>h l. trunc64 (high c) (low c) 8 = (h, l, min_octets 8 (u64_of c)) \<and>
     emit64 (min_octets 8 (u64_of c)) h l = be_bytes (min_octets 8 (u64_of c)) (u64_of c)"
proof -
  have "cat64 (high c) (low c) = push_bit (64 - 8 * 8) (u64_of c)" by (simp add: u64_of_def)
  then obtain h l where "trunc64 (high c) (low c) 8 = (h, l, min_octets 8 (u64_of c))"
      "cat64 h l = push_bit (64 - 8 * min_octets 8 (u64_of c)) (u64_of c)"
    using trunc64_spec[OF fits_signed_full[of 8 "u64_of c"]] by fastforce
  then show ?thesis
    using emit64_spec[of "min_octets 8 (u64_of c)" h l "u64_of c"] min_octets_bounds[of 8 "u64_of c"]
    by simp
qed

lemma bit_63_u64_of: "bit (u64_of c) 63 = bit (high c) 31"
  by (simp add: u64_of_def bit_cat64)

lemma u32_diff_diff: "dl - 3 - of_nat n = dl - (3 + of_nat n :: u32)"
  by (rule diff_diff_eq)

lemma asn_build_unsigned_int64_tlv:
  "asn_build_unsigned_int64 dl type c 8 = build_tlv dl (u64_tag type) (u64_payload type c)"
proof -
  obtain h l where t: "trunc64 (high c) (low c) 8 = (h, l, min_octets 8 (u64_of c))"
    and e: "emit64 (min_octets 8 (u64_of c)) h l = be_bytes (min_octets 8 (u64_of c)) (u64_of c)"
    using trunc64_emit by blast
  show ?thesis
    unfolding asn_build_unsigned_int64_def Let_def top_byte_bit is_opaque_u64_def[symmetric]
      u64_tag_def u64_payload_def uint_payload_def build_tlv_def opaque_wrap_def
    using t e bit_63_u64_of[of c] emit64_full[of c]
    by (cases "is_opaque_u64 type"; cases "bit (high c) 31")
      (simp_all add: u32_diff_diff add.commute[of 3] diff_diff_eq cong: if_cong)
qed

interpretation u64_codec: tlv_codec
  "\<lambda>dl v. asn_build_unsigned_int64 dl (fst v) (snd v) 8" "\<lambda>m p dl. asn_parse_unsigned_int64 m p dl 8"
  "\<lambda>v. u64_tag (fst v)" "\<lambda>v. u64_payload (fst v) (snd v)" "\<lambda>v. fst v \<noteq> ASN_OPAQUE" "\<lambda>v. v"
proof unfold_locales
  fix v :: "u8 \<times> counter64" and m q p and dl :: u32
  obtain t c where v: "v = (t, c)" by (cases v)
  let ?P = "u64_payload t c" and ?bs = "uint_payload 8 (u64_of c)"
  have n: "0 < length ?bs" "length ?bs \<le> 9"
    using uint_payload_len(1)[of 8 "u64_of c"] uint_payload_len(2)[of 8 "u64_of c"] by auto
  assume ok: "fst v \<noteq> ASN_OPAQUE" and at: "bytes_at m q (u64_payload (fst v) (snd v))"
    and tl: "asn_parse_tl m p dl =
      Inr (u64_tag (fst v), q, of_nat (length (u64_payload (fst v) (snd v))))"
    and q: "p + 2 \<le> q" "q \<le> p + 6" "q - p + length (u64_payload (fst v) (snd v)) \<le> unat dl"
  define k where "k = (if is_opaque_u64 t then 3 else 0 :: nat)"
  have u: "asn_opaque_unwrap (\<lambda>t. t = ASN_OPAQUE_COUNTER64 \<or> t = ASN_OPAQUE_U64) (\<lambda>l. l \<le> 12)
      m p dl (u64_tag t) q (of_nat (length ?P)) = Inr (k > 0, t, q + k, of_nat (length ?bs)) \<and>
      bytes_at m (q + k) ?bs"
  proof (cases "is_opaque_u64 t")
    case True
    then show ?thesis
      using unwrap_wrapped[of m q t ?bs p dl "\<lambda>t. t = ASN_OPAQUE_COUNTER64 \<or> t = ASN_OPAQUE_U64" "\<lambda>l. l \<le> 12"]
        at q n u32_of_nat_le[of "length ?bs + 3" 12]
      by (simp add: v u64_payload_def u64_tag_def k_def is_opaque_u64_def[symmetric])
  next
    case False
    then show ?thesis using at ok by (simp add: v unwrap_none u64_payload_def u64_tag_def k_def)
  qed
  have r: "rd m (q + k) = Inr (hd ?bs)" using rd_payload[of m "q + k" ?bs] u n by fastforce
  have "(of_nat (length ?bs) :: u32) = 9 \<longleftrightarrow> length ?bs = 9"
    using n by (simp add: word_unat_eq_iff u32_unat_of_nat)
  then have top: "((of_nat (length ?bs) :: u32) = 9 \<and> hd ?bs \<noteq> 0) = False"
    using uint_payload_top[of 8 "u64_of c"] by auto
  obtain h l where s: "shift_in64 m (q + k) (length ?bs) (if bit (hd ?bs) 7 then 0xFFFFFF else 0)
      (if bit (hd ?bs) 7 then 0xFFFFFF else 0) = Inr (q + k + length ?bs, h, l)"
    and hl: "cat64 h l = be_value (if bit (hd ?bs) 7 then cat64 0xFFFFFF 0xFFFFFF else 0) ?bs"
    using shift_in64_bytes_at[of m "q + k" ?bs "if bit (hd ?bs) 7 then 0xFFFFFF else 0"
        "if bit (hd ?bs) 7 then 0xFFFFFF else 0"] u
    by (cases "bit (hd ?bs) 7") (auto simp: cat64_def)
  have "cat64 h l = cat64 (high c) (low c)"
    using hl uint_payload_value[of 8 "u64_of c" "cat64 0xFFFFFF 0xFFFFFF"] by (simp add: u64_of_def)
  then have c: "\<lparr>high = h, low = l\<rparr> = c" by (simp add: cat64_inject)
  have lp: "length ?P = length ?bs + k" "q + k - p = q - p + k"
    using q(1) by (auto simp: u64_payload_def k_def)
  show "asn_parse_unsigned_int64 m p dl 8 =
    Inr (q + length (u64_payload (fst v) (snd v)),
      dl - (of_nat (length (u64_payload (fst v) (snd v))) + of_nat (q - p)), v)"
    using tl u r s n u32_of_nat_not_less[OF n(2)] c lp
    by (simp add: asn_parse_unsigned_int64_def u32_unat_of_nat v top algebra_simps split del: if_split)
qed (use le_trans[OF u64_payload_len] in \<open>simp_all add: asn_build_unsigned_int64_tlv\<close>)

section \<open>Signed 64-bit integers\<close>

definition asn_parse_signed_int64 ::
  "u8 list \<Rightarrow> nat \<Rightarrow> u32 \<Rightarrow> u32 \<Rightarrow> asn_error + nat \<times> u32 \<times> u8 \<times> counter64" where
  "asn_parse_signed_int64 m data datalength countersize =
     (if countersize \<noteq> 8 then Inl SizeErr
      else ebind (asn_parse_tl m data datalength) (\<lambda>(type, bufp, asn_length).
      ebind (asn_opaque_unwrap (\<lambda>t. t = ASN_OPAQUE_I64) (\<lambda>l. l \<le> 12)
               m data datalength type bufp asn_length) (\<lambda>(special, type, bufp, asn_length).
      if \<not> special then
        ebind (rd m bufp) (\<lambda>_. ebind (rd m (bufp + 1)) (\<lambda>_. Inl WrongType))
      else if asn_length > 9 then Inl LengthErr
      else ebind (rd m bufp) (\<lambda>first.
      if asn_length = 9 \<and> first \<noteq> 0 then Inl LengthErr
      else ebind (shift_in64 m bufp (unat asn_length)
               (if first AND 0x80 \<noteq> 0 then 0xFFFFFF else 0) (if first AND 0x80 \<noteq> 0 then 0xFFFFFF else 0))
             (\<lambda>(bufp', h, l).
      Inr (bufp', datalength - (asn_length + of_nat (bufp - data)), type, \<lparr>high = h, low = l\<rparr>))))))"

definition asn_build_signed_int64 ::
  "u32 \<Rightarrow> u8 \<Rightarrow> counter64 \<Rightarrow> u32 \<Rightarrow> u8 list \<times> (asn_error + u32)" where
  "asn_build_signed_int64 datalength type cp countersize =
     (if countersize \<noteq> 8 then ([], Inl SizeErr)
      else let (h, l, intsize) = trunc64 (high cp) (low cp) 8 in
        wbind (asn_build_header datalength ASN_OPAQUE (of_nat (intsize + 3))) (\<lambda>dl.
        if asn_build_header_check dl (of_nat (intsize + 3)) then ([], Inl HeaderTooShort)
        else ([ASN_OPAQUE_TAG1, ASN_OPAQUE_I64, of_nat intsize] @ emit64 intsize h l,
              Inr (dl - of_nat (3 + intsize)))))"

definition i64_payload :: "counter64 \<Rightarrow> u8 list" where
  "i64_payload c = be_bytes (min_octets 8 (u64_of c)) (u64_of c)"

lemma i64_payload_len: "0 < length (i64_payload c)" "length (i64_payload c) \<le> 8"
  using min_octets_bounds[of 8 "u64_of c"]
  by (simp_all add: i64_payload_def del: length_greater_0_conv)

lemma asn_build_signed_int64_tlv:
  "asn_build_signed_int64 dl type c 8 = build_tlv dl ASN_OPAQUE (opaque_wrap ASN_OPAQUE_I64 (i64_payload c))"
proof -
  obtain h l where t: "trunc64 (high c) (low c) 8 = (h, l, min_octets 8 (u64_of c))"
    and e: "emit64 (min_octets 8 (u64_of c)) h l = be_bytes (min_octets 8 (u64_of c)) (u64_of c)"
    using trunc64_emit by blast
  show ?thesis
    unfolding asn_build_signed_int64_def build_tlv_def opaque_wrap_def i64_payload_def
    using t e by (simp add: add.commute[of 3] cong: if_cong)
qed

text \<open>
  The decoder starts a negative value from the pair \<open>(0xFFFFFF, 0xFFFFFF)\<close>,
  which is not all ones: the value it returns when the contents are those of \<open>c\<close>.
\<close>

definition i64_decoded :: "counter64 \<Rightarrow> u64" where
  "i64_decoded c = be_value (if bit (u64_of c) 63 then cat64 0xFFFFFF 0xFFFFFF else 0) (i64_payload c)"

lemma i64_sign: "bit (hd (i64_payload c)) 7 = bit (u64_of c) 63"
proof -
  let ?n = "min_octets 8 (u64_of c)"
  have n: "0 < ?n" "?n \<le> 8" using min_octets_bounds[of 8 "u64_of c"] by auto
  have f: "fits_signed ?n (u64_of c)"
    using min_octets_fits[of 8 "u64_of c"] fits_signed_full[of 8 "u64_of c"] by simp
  have "bit (u64_of c) 63 = bit (u64_of c) (8 * ?n - 1)"
    by (rule fits_signedD[OF f]) (use n in auto)
  then show ?thesis using be_bytes_hd[OF n(1), of "u64_of c"] by (simp add: i64_payload_def)
qed

lemma asn_parse_signed_int64_wrapped:
  assumes at: "bytes_at m q (opaque_wrap ASN_OPAQUE_I64 (i64_payload c))"
    and tl: "asn_parse_tl m p dl = Inr (ASN_OPAQUE, q, of_nat (length (i64_payload c) + 3))"
    and q: "p + 2 \<le> q" "q \<le> p + 6" "q - p + (length (i64_payload c) + 3) \<le> unat dl"
  shows "\<exists>d. asn_parse_signed_int64 m p dl 8 =
      Inr (q + (length (i64_payload c) + 3), dl - (of_nat (length (i64_payload c) + 3) + of_nat (q - p)),
           ASN_OPAQUE_I64, d) \<and> u64_of d = i64_decoded c"
proof -
  let ?bs = "i64_payload c"
  note n = i64_payload_len[of c]
  have u: "asn_opaque_unwrap (\<lambda>t. t = ASN_OPAQUE_I64) (\<lambda>l. l \<le> 12) m p dl ASN_OPAQUE q
      (of_nat (length ?bs + 3)) = Inr (True, ASN_OPAQUE_I64, q + 3, of_nat (length ?bs)) \<and> bytes_at m (q + 3) ?bs"
    using n u32_of_nat_le[of "length ?bs + 3" 12] q by (intro unwrap_wrapped[OF at]) auto
  have r: "rd m (q + 3) = Inr (hd ?bs)" using rd_payload[of m "q + 3" ?bs] u n by fastforce
  have no9: "(of_nat (length ?bs) :: u32) \<noteq> 9" "\<not> 9 < (of_nat (length ?bs) :: u32)"
    using n by (simp_all add: word_unat_eq_iff word_less_nat_alt u32_unat_of_nat)
  obtain h l where s: "shift_in64 m (q + 3) (length ?bs) (if bit (hd ?bs) 7 then 0xFFFFFF else 0)
      (if bit (hd ?bs) 7 then 0xFFFFFF else 0) = Inr (q + 3 + length ?bs, h, l)"
    and hl: "cat64 h l = i64_decoded c"
    using shift_in64_bytes_at[of m "q + 3" ?bs "if bit (hd ?bs) 7 then 0xFFFFFF else 0"
        "if bit (hd ?bs) 7 then 0xFFFFFF else 0"] u
    by (cases "bit (hd ?bs) 7") (auto simp: cat64_def i64_decoded_def i64_sign)
  have e: "(of_nat (length ?bs) + of_nat (q + 3 - p) :: u32) = of_nat (length ?bs + 3) + of_nat (q - p)"
  proof -
    have "q + 3 - p = 3 + (q - p)" using q(1) by simp
    then show ?thesis by (simp only: of_nat_add add.assoc)
  qed
  have "asn_parse_signed_int64 m p dl 8 =
      Inr (q + (length ?bs + 3), dl - (of_nat (length ?bs + 3) + of_nat (q - p)),
           ASN_OPAQUE_I64, \<lparr>high = h, low = l\<rparr>)"
    using tl u r s n no9
    by (simp add: asn_parse_signed_int64_def u32_unat_of_nat e add.assoc add.commute[of 3] split del: if_split del: of_nat_add)
  then show ?thesis using hl by (auto simp: u64_of_def)
qed

lemma bit_gap64: "bit (cat64 0xFFFFFF 0xFFFFFF) k \<longleftrightarrow> k < 24 \<or> 32 \<le> k \<and> k < 56"
  unfolding bit_cat64 mask_0x00FFFFFF by (auto simp: bit_simps)

text \<open>The decoded value is the encoded one exactly for nonnegative values and those of five octets or more.\<close>

lemma i64_decoded_iff:
  "i64_decoded c = u64_of c \<longleftrightarrow> \<not> bit (u64_of c) 63 \<or> 5 \<le> min_octets 8 (u64_of c)"
proof -
  let ?x = "u64_of c" and ?n = "min_octets 8 (u64_of c)"
  have n: "0 < ?n" "?n \<le> 8" using min_octets_bounds[of 8 ?x] by auto
  have f: "fits_signed ?n ?x"
    using min_octets_fits[of 8 ?x] fits_signed_full[of 8 ?x] by simp
  have sign: "bit ?x k = bit ?x 63" if "8 * ?n - 1 \<le> k" "k < 64" for k
    using fits_signedD[OF f, of k] fits_signedD[OF f, of 63] that n by simp
  have b: "bit (i64_decoded c) k \<longleftrightarrow>
      (if k < 8 * ?n then bit ?x k
       else bit ?x 63 \<and> (k - 8 * ?n < 24 \<or> 32 \<le> k - 8 * ?n \<and> k - 8 * ?n < 56))"
    if "k < 64" for k
    using that by (auto simp: i64_decoded_def i64_payload_def be_value_be_bytes bit_simps bit_gap64)
  show ?thesis
  proof
    assume e: "i64_decoded c = ?x"
    show "\<not> bit ?x 63 \<or> 5 \<le> ?n"
    proof (rule ccontr)
      assume a: "\<not> (\<not> bit ?x 63 \<or> 5 \<le> ?n)"
      then have "\<not> bit (i64_decoded c) (8 * ?n + 24)" by (subst b) auto
      moreover have "bit ?x (8 * ?n + 24)" using sign[of "8 * ?n + 24"] a by simp
      ultimately show False using e by simp
    qed
  next
    assume a: "\<not> bit ?x 63 \<or> 5 \<le> ?n"
    show "i64_decoded c = ?x"
    proof (rule word_bit_eqI)
      fix k assume "k < LENGTH(64)"
      then show "bit (i64_decoded c) k = bit ?x k"
        using a sign[of k] by (subst b) auto
    qed
  qed
qed

lemma u64_of_inject: "u64_of c = u64_of d \<longleftrightarrow> c = d"
  by (cases c; cases d) (simp add: u64_of_def cat64_inject)

interpretation i64_codec: tlv_codec
  "\<lambda>dl v. asn_build_signed_int64 dl (fst v) (snd v) 8" "\<lambda>m p dl. asn_parse_signed_int64 m p dl 8"
  "\<lambda>v. ASN_OPAQUE" "\<lambda>v. opaque_wrap ASN_OPAQUE_I64 (i64_payload (snd v))"
  "\<lambda>v. \<not> bit (u64_of (snd v)) 63 \<or> 5 \<le> min_octets 8 (u64_of (snd v))" "\<lambda>v. (ASN_OPAQUE_I64, snd v)"
proof unfold_locales
  fix v :: "u8 \<times> counter64" and m q p and dl :: u32
  let ?P = "opaque_wrap ASN_OPAQUE_I64 (i64_payload (snd v))"
  assume ok: "\<not> bit (u64_of (snd v)) 63 \<or> 5 \<le> min_octets 8 (u64_of (snd v))"
    and "bytes_at m q ?P" "asn_parse_tl m p dl = Inr (ASN_OPAQUE, q, of_nat (length ?P))"
    and "p + 2 \<le> q" "q \<le> p + 6" "q - p + length ?P \<le> unat dl"
  then show "asn_parse_signed_int64 m p dl 8 = Inr (q + length ?P, dl - (of_nat (length ?P) + of_nat (q - p)),
      ASN_OPAQUE_I64, snd v)"
    using asn_parse_signed_int64_wrapped[of m q "snd v" p dl] i64_decoded_iff[of "snd v"]
    by (auto simp: u64_of_inject)
next
  show "length (opaque_wrap ASN_OPAQUE_I64 (i64_payload (snd v))) \<le> 65535" for v :: "u8 \<times> counter64"
    using i64_payload_len(2)[of "snd v"] by simp
qed (simp add: asn_build_signed_int64_tlv)

text \<open>Those are the values outside the negative 32-bit integers.\<close>

lemma fits_signed_4_u64:
  "bit (high c) 31 \<Longrightarrow> fits_signed 4 (u64_of c) \<longleftrightarrow> high c = - 1 \<and> bit (low c) 31"
proof -
  assume h: "bit (high c) 31"
  have x: "bit (u64_of c) k = (if k < 32 then bit (low c) k else k < 64 \<and> bit (high c) (k - 32))" for k
    by (simp add: u64_of_def bit_cat64)
  show ?thesis
  proof
    assume f: "fits_signed 4 (u64_of c)"
    have l: "bit (low c) 31" using fits_signedD[OF f, of 63] h by (simp add: x)
    have "bit (high c) k" if "k < 32" for k
      using fits_signedD[OF f, of "k + 32"] l that by (simp add: x)
    then show "high c = - 1 \<and> bit (low c) 31" using l by (auto intro!: word_bit_eqI)
  next
    assume a: "high c = - 1 \<and> bit (low c) 31"
    show "fits_signed 4 (u64_of c)"
    proof (rule fits_signedI)
      fix k assume "8 * 4 - 1 \<le> k" "k < LENGTH(64)"
      then have "k = 31 \<or> 32 \<le> k \<and> k < 64" by auto
      then show "bit (u64_of c) k = bit (u64_of c) (8 * 4 - 1)" using a by (auto simp: x)
    qed
  qed
qed

lemma i64_loss_iff:
  "(\<not> bit (u64_of c) 63 \<or> 5 \<le> min_octets 8 (u64_of c)) \<longleftrightarrow> \<not> (- (2 ^ 31) \<le> ival64 c \<and> ival64 c < 0)"
proof (cases "bit (high c) 31")
  case True
  have "2 ^ 31 \<le> unat (high c)" using True by (simp add: bit31_iff)
  then have neg: "2 ^ 63 \<le> val64 c" by (simp add: val64_def)
  have "5 \<le> min_octets 8 (u64_of c) \<longleftrightarrow> \<not> fits_signed 4 (u64_of c)"
    using min_octets_le_iff[of 4 8 "u64_of c"] fits_signed_full[of 8 "u64_of c"] by auto
  also have "\<dots> \<longleftrightarrow> \<not> (unat (high c) = 2 ^ 32 - 1 \<and> 2 ^ 31 \<le> unat (low c))"
    unfolding fits_signed_4_u64[OF True] by (simp add: bit31_iff word_unat_eq_iff[of "high c"] unsigned_minus_1_eq_mask mask_eq_exp_minus_1)
  also have "\<dots> \<longleftrightarrow> \<not> (2 ^ 64 - 2 ^ 31 \<le> val64 c)"
    using unat_u32_bound[of "high c"] unat_u32_bound[of "low c"] by (auto simp: val64_def)
  finally show ?thesis
    using True neg val64_bound[of c] by (auto simp: bit_63_u64_of ival64_def)
next
  case False
  then have "unat (high c) < 2 ^ 31" by (simp add: bit31_iff)
  then have "val64 c < 2 ^ 63" using unat_u32_bound[of "low c"] by (simp add: val64_def)
  then show ?thesis using False by (simp add: bit_63_u64_of ival64_def)
qed

end
