(* ===== verification/Asn_Float.thy ===== *)
theory Asn_Float
  imports Asn_Int64
begin

unbundle bit_operations_syntax

text \<open>
  Floating point values of \<^verbatim>\<open>snmplib/asn1.c\<close>, carried in an Opaque. The code
  looks at a value only through a union: a \<^verbatim>\<open>float\<close> is the word \<^verbatim>\<open>intVal\<close> (or
  \<^verbatim>\<open>longVal\<close>) of its union, a \<^verbatim>\<open>double\<close> the pair \<^verbatim>\<open>intVal[0]\<close>, \<^verbatim>\<open>intVal[1]\<close>, and
  the model keeps them so. The bytes in memory of \<^verbatim>\<open>htonl(x)\<close> are the
  big-endian octets of \<open>x\<close>, and \<^verbatim>\<open>ntohl\<close> of four bytes of memory is their
  big-endian value, whatever the byte order of the host.
\<close>

section \<open>Single precision\<close>

definition asn_parse_float ::
  "u8 list \<Rightarrow> nat \<Rightarrow> u32 \<Rightarrow> u32 \<Rightarrow> asn_error + nat \<times> u32 \<times> u8 \<times> u32" where
  "asn_parse_float m data datalength floatsize =
     (if floatsize \<noteq> 4 then Inl SizeErr
      else ebind (asn_parse_tl m data datalength) (\<lambda>(type, bufp, asn_length).
      ebind (asn_opaque_unwrap (\<lambda>t. t = ASN_OPAQUE_FLOAT) (\<lambda>l. l = 7)
               m data datalength type bufp asn_length) (\<lambda>(_, type, bufp, asn_length).
      if asn_length \<noteq> 4 then Inl SizeErr
      else ebind (rds m bufp (unat asn_length)) (\<lambda>c.
      Inr (bufp, datalength - (asn_length + of_nat (bufp - data)), type, be_value 0 c)))))"

definition asn_build_float ::
  "u32 \<Rightarrow> u8 \<Rightarrow> u32 \<Rightarrow> u32 \<Rightarrow> u8 list \<times> (asn_error + u32)" where
  "asn_build_float datalength type floatVal floatsize =
     (if floatsize \<noteq> 4 then ([], Inl SizeErr)
      else wbind (asn_build_header datalength ASN_OPAQUE (floatsize + 3)) (\<lambda>dl.
      if asn_build_header_check dl (floatsize + 3) then ([], Inl HeaderTooShort)
      else ([ASN_OPAQUE_TAG1, ASN_OPAQUE_FLOAT, ucast floatsize] @ be_bytes 4 floatVal,
            Inr (dl - 3 - floatsize))))"

section \<open>Double precision\<close>

definition asn_parse_double ::
  "u8 list \<Rightarrow> nat \<Rightarrow> u32 \<Rightarrow> u32 \<Rightarrow> asn_error + nat \<times> u32 \<times> u8 \<times> u32 \<times> u32" where
  "asn_parse_double m data datalength doublesize =
     (if doublesize \<noteq> 8 then Inl SizeErr
      else ebind (asn_parse_tl m data datalength) (\<lambda>(type, bufp, asn_length).
      ebind (asn_opaque_unwrap (\<lambda>t. t = ASN_OPAQUE_DOUBLE) (\<lambda>l. l = 11)
               m data datalength type bufp asn_length) (\<lambda>(_, type, bufp, asn_length).
      if asn_length \<noteq> 8 then Inl SizeErr
      else ebind (rds m bufp (unat asn_length)) (\<lambda>c.
      let tmp = be_value 0 (take 4 c) in
      Inr (bufp, datalength - (asn_length + of_nat (bufp - data)), type,
           be_value 0 (drop 4 c), tmp)))))"

definition asn_build_double ::
  "u32 \<Rightarrow> u8 \<Rightarrow> u32 \<times> u32 \<Rightarrow> u32 \<Rightarrow> u8 list \<times> (asn_error + u32)" where
  "asn_build_double datalength type doubleVal doublesize =
     (if doublesize \<noteq> 8 then ([], Inl SizeErr)
      else wbind (asn_build_header datalength ASN_OPAQUE (doublesize + 3)) (\<lambda>dl.
      if asn_build_header_check dl (doublesize + 3) then ([], Inl HeaderTooShort)
      else ([ASN_OPAQUE_TAG1, ASN_OPAQUE_DOUBLE, ucast doublesize] @
              be_bytes 4 (snd doubleVal) @ be_bytes 4 (fst doubleVal),
            Inr (dl - 3 - doublesize))))"

section \<open>Contracts\<close>

definition double_payload :: "u32 \<times> u32 \<Rightarrow> u8 list" where
  "double_payload d = be_bytes 4 (snd d) @ be_bytes 4 (fst d)"

lemma length_double_payload [simp]: "length (double_payload d) = 8"
  by (simp add: double_payload_def)

lemma asn_build_float_tlv:
  "asn_build_float dl type f 4 = build_tlv dl ASN_OPAQUE (opaque_wrap ASN_OPAQUE_FLOAT (be_bytes 4 f))"
  by (simp add: asn_build_float_def build_tlv_def opaque_wrap_def diff_diff_eq cong: if_cong)

lemma asn_build_double_tlv:
  "asn_build_double dl type d 8 = build_tlv dl ASN_OPAQUE (opaque_wrap ASN_OPAQUE_DOUBLE (double_payload d))"
  by (simp add: asn_build_double_def build_tlv_def opaque_wrap_def double_payload_def diff_diff_eq
      cong: if_cong)

interpretation float_encoder: tlv_encoder
  "\<lambda>dl v. asn_build_float dl (fst v) (snd v) 4" "\<lambda>v. ASN_OPAQUE"
  "\<lambda>v. opaque_wrap ASN_OPAQUE_FLOAT (be_bytes 4 (snd v))" "\<lambda>_. True"
  by unfold_locales (simp_all add: asn_build_float_tlv)

interpretation double_encoder: tlv_encoder
  "\<lambda>dl v. asn_build_double dl (fst v) (snd v) 8" "\<lambda>v. ASN_OPAQUE"
  "\<lambda>v. opaque_wrap ASN_OPAQUE_DOUBLE (double_payload (snd v))" "\<lambda>_. True"
  by unfold_locales (simp_all add: asn_build_double_tlv)

text \<open>
  The decoders return the address of the contents, not the end of the object:
  they do not meet the contract of the other decoders, only this one.
\<close>

lemma opaque_object:
  assumes at: "bytes_at m p (tlv ASN_OPAQUE (opaque_wrap tag payload))"
    and fit: "length (tlv ASN_OPAQUE (opaque_wrap tag payload)) \<le> unat dl"
    and "tags tag" "length payload < 100" "lenok (of_nat (length payload + 3))"
  shows "\<exists>q. asn_parse_tl m p dl = Inr (ASN_OPAQUE, q, of_nat (length payload + 3)) \<and>
    asn_opaque_unwrap tags lenok m p dl ASN_OPAQUE q (of_nat (length payload + 3)) =
      Inr (True, tag, q + 3, of_nat (length payload)) \<and>
    bytes_at m (q + 3) payload \<and> q + 3 + length payload = p + length (tlv ASN_OPAQUE (opaque_wrap tag payload)) \<and>
    p \<le> q"
proof -
  let ?w = "opaque_wrap tag payload"
  let ?l = "length (tlv ASN_OPAQUE ?w)"
  note b = tlv_length_bounds(1)[of ?w ASN_OPAQUE] tlv_length_bounds(2)[of ASN_OPAQUE ?w]
  have q: "p + 2 \<le> p + ?l - length ?w" "p + ?l - length ?w \<le> p + 6"
      "p + ?l - length ?w - p + length ?w \<le> unat dl"
    using b fit by auto
  have "asn_parse_tl m p dl = Inr (ASN_OPAQUE, p + ?l - length ?w, of_nat (length payload + 3))"
    using parse_tl_tlv[OF at _ fit] assms(4) by simp
  then show ?thesis
    using unwrap_wrapped[OF tlv_payload_at[OF at] q, of tags lenok] assms(3-5) b by auto
qed

lemma rds_at: "bytes_at m p bs \<Longrightarrow> 0 < length bs \<Longrightarrow> n = length bs \<Longrightarrow> rds m p n = Inr bs"
  using rds_bytes_at[of m p bs] by auto

lemma be_value_u32: "be_value 0 (be_bytes 4 (x :: u32)) = x"
  by (simp add: be_value_be_bytes take_bit_word_eq_self)

lemma of_nat_end: "q + 3 + n = p + l \<Longrightarrow> p \<le> q \<Longrightarrow> (of_nat n + of_nat (q + 3 - p) :: u32) = of_nat l"
  by (subst of_nat_add[symmetric]) (rule arg_cong[where f = of_nat], simp)

lemma asn_parse_float_contents:
  assumes "bytes_at m p (tlv ASN_OPAQUE (opaque_wrap ASN_OPAQUE_FLOAT (be_bytes 4 f)))"
    and "length (tlv ASN_OPAQUE (opaque_wrap ASN_OPAQUE_FLOAT (be_bytes 4 f))) \<le> unat dl"
    and l: "l = length (tlv ASN_OPAQUE (opaque_wrap ASN_OPAQUE_FLOAT (be_bytes 4 f)))"
  shows "asn_parse_float m p dl 4 = Inr (p + l - 4, dl - of_nat l, ASN_OPAQUE_FLOAT, f)"
proof -
  obtain q where q: "asn_parse_tl m p dl = Inr (ASN_OPAQUE, q, 7)"
    "asn_opaque_unwrap (\<lambda>t. t = ASN_OPAQUE_FLOAT) (\<lambda>l. l = 7) m p dl ASN_OPAQUE q 7 =
      Inr (True, ASN_OPAQUE_FLOAT, q + 3, 4)" "bytes_at m (q + 3) (be_bytes 4 f)"
    "q + 3 + 4 = p + l" "p \<le> q"
    using opaque_object[OF assms(1,2), of "\<lambda>t. t = ASN_OPAQUE_FLOAT" "\<lambda>l. l = 7"] l by auto
  have "rds m (q + 3) 4 = Inr (be_bytes 4 f)" using rds_at[OF q(3)] by simp
  then show ?thesis
    using q of_nat_end[OF q(4,5)] by (simp add: asn_parse_float_def be_value_u32)
qed

lemma asn_parse_double_contents:
  assumes "bytes_at m p (tlv ASN_OPAQUE (opaque_wrap ASN_OPAQUE_DOUBLE (double_payload d)))"
    and "length (tlv ASN_OPAQUE (opaque_wrap ASN_OPAQUE_DOUBLE (double_payload d))) \<le> unat dl"
    and l: "l = length (tlv ASN_OPAQUE (opaque_wrap ASN_OPAQUE_DOUBLE (double_payload d)))"
  shows "asn_parse_double m p dl 8 = Inr (p + l - 8, dl - of_nat l, ASN_OPAQUE_DOUBLE, d)"
proof -
  obtain q where q: "asn_parse_tl m p dl = Inr (ASN_OPAQUE, q, 11)"
    "asn_opaque_unwrap (\<lambda>t. t = ASN_OPAQUE_DOUBLE) (\<lambda>l. l = 11) m p dl ASN_OPAQUE q 11 =
      Inr (True, ASN_OPAQUE_DOUBLE, q + 3, 8)" "bytes_at m (q + 3) (double_payload d)"
    "q + 3 + 8 = p + l" "p \<le> q"
    using opaque_object[OF assms(1,2), of "\<lambda>t. t = ASN_OPAQUE_DOUBLE" "\<lambda>l. l = 11"] l by auto
  have "rds m (q + 3) 8 = Inr (double_payload d)" using rds_at[OF q(3)] by simp
  then show ?thesis
    using q of_nat_end[OF q(4,5)]
    by (simp add: asn_parse_double_def be_value_u32 double_payload_def)
qed

end
