(* ===== verification/Asn_Rbuild64.thy ===== *)
theory Asn_Rbuild64
  imports Asn_Rbuild Asn_Float
begin

unbundle bit_operations_syntax

text \<open>
  The reverse encoders of \<^verbatim>\<open>snmplib/asn1.c\<close> for 64-bit integers and floating
  point values.
\<close>

section \<open>Operations\<close>

text \<open>
  The bytes of the loops over \<^verbatim>\<open>low\<close> and \<^verbatim>\<open>high\<close>: the low half until nothing is
  left of it; when the high half is not zero, zeros up to four bytes and the high
  half.
\<close>

definition u64_out :: "u32 \<Rightarrow> u32 \<Rightarrow> u8 list" where
  "u64_out h l =
     (let lows = ucast l # uint_out (drop_bit 8 l) in
      lows @ (if h \<noteq> 0 then replicate (4 - length lows) 0 @ ucast h # uint_out (drop_bit 8 h) else []))"

text \<open>The same for a signed value; the first loop stops after four bytes.\<close>

definition i64_out :: "u32 \<Rightarrow> u32 \<Rightarrow> u32 \<Rightarrow> u8 list" where
  "i64_out testvalue h l =
     (let lows = ucast l # int_out 3 testvalue (signed_drop_bit 8 l) in
      lows @ (if h \<noteq> testvalue then
                replicate (4 - length lows) (if testvalue = 0 then 0 else 0xFF) @
                ucast h # int_out 4 testvalue (signed_drop_bit 8 h)
              else []))"

text \<open>The tag and length inside the Opaque and the header around it.\<close>

definition rbuild_opaque ::
  "(nat \<Rightarrow> bool) \<Rightarrow> bool \<Rightarrow> u8 \<Rightarrow> nat \<Rightarrow> rbuf \<Rightarrow> asn_error + rbuf" where
  "rbuild_opaque alloc r tag intsize b =
     ebind (rroom alloc r 5 b) (\<lambda>b1.
     ebind (rstores [of_nat intsize, tag, ASN_OPAQUE_TAG1] b1)
       (rbuild_finish alloc r ASN_OPAQUE (intsize + 3) (\<lambda>_. intsize + 3)))"

definition asn_realloc_rbuild_unsigned_int64 ::
  "(nat \<Rightarrow> bool) \<Rightarrow> bool \<Rightarrow> u8 \<Rightarrow> counter64 \<Rightarrow> u32 \<Rightarrow> rbuf \<Rightarrow> asn_error + rbuf" where
  "asn_realloc_rbuild_unsigned_int64 alloc r type cp countersize b =
     (if countersize \<noteq> 8 then Inl SizeErr
      else
        ebind (ebind (rputs alloc r (u64_out (high cp) (low cp)) b) (\<lambda>b2.
               if rtop b2 AND 0x80 \<noteq> 0 then rput alloc r 0 b2 else Inr b2)) (\<lambda>b3.
        let intsize = offset b3 - offset b in
        if type = ASN_OPAQUE_COUNTER64 then rbuild_opaque alloc r ASN_OPAQUE_COUNTER64 intsize b3
        else if type = ASN_OPAQUE_U64 then rbuild_opaque alloc r ASN_OPAQUE_U64 intsize b3
        else rbuild_finish alloc r type intsize (\<lambda>_. intsize) b3))"

definition asn_realloc_rbuild_signed_int64 ::
  "(nat \<Rightarrow> bool) \<Rightarrow> bool \<Rightarrow> u8 \<Rightarrow> counter64 \<Rightarrow> u32 \<Rightarrow> rbuf \<Rightarrow> asn_error + rbuf" where
  "asn_realloc_rbuild_signed_int64 alloc r type cp countersize b =
     (if countersize \<noteq> 8 then Inl SizeErr
      else let testvalue = (if high cp AND 0x80000000 \<noteq> 0 then - 1 else 0 :: u32) in
        ebind (ebind (rputs alloc r (i64_out testvalue (high cp) (low cp)) b) (\<lambda>b2.
               if rtop b2 AND 0x80 \<noteq> ucast (testvalue AND 0x80)
               then rput alloc r (if testvalue = 0 then 0 else 0xFF) b2 else Inr b2)) (\<lambda>b3.
        rbuild_opaque alloc r ASN_OPAQUE_I64 (offset b3 - offset b) b3))"

definition asn_realloc_rbuild_float ::
  "(nat \<Rightarrow> bool) \<Rightarrow> bool \<Rightarrow> u8 \<Rightarrow> u32 \<Rightarrow> u32 \<Rightarrow> rbuf \<Rightarrow> asn_error + rbuf" where
  "asn_realloc_rbuild_float alloc r type floatVal floatsize b =
     (if floatsize \<noteq> 4 \<or> floatsize > 122 then Inl SizeErr
      else ebind (rroom alloc r (unat floatsize + 3) b) (\<lambda>b1.
      ebind (rcopy (be_bytes 4 floatVal) b1) (\<lambda>b2.
      ebind (rstores [ucast floatsize, ASN_OPAQUE_FLOAT, ASN_OPAQUE_TAG1] b2)
        (rbuild_finish alloc r ASN_OPAQUE (unat floatsize + 3) (\<lambda>_. unat floatsize + 3)))))"

definition asn_realloc_rbuild_double ::
  "(nat \<Rightarrow> bool) \<Rightarrow> bool \<Rightarrow> u8 \<Rightarrow> u32 \<times> u32 \<Rightarrow> u32 \<Rightarrow> rbuf \<Rightarrow> asn_error + rbuf" where
  "asn_realloc_rbuild_double alloc r type doubleVal doublesize b =
     (if doublesize \<noteq> 8 \<or> doublesize > 122 then Inl SizeErr
      else ebind (rroom alloc r (unat doublesize + 3) b) (\<lambda>b1.
      ebind (rcopy (be_bytes 4 (snd doubleVal) @ be_bytes 4 (fst doubleVal)) b1) (\<lambda>b2.
      ebind (rstores [ucast doublesize, ASN_OPAQUE_DOUBLE, ASN_OPAQUE_TAG1] b2)
        (rbuild_finish alloc r ASN_OPAQUE (unat doublesize + 3) (\<lambda>_. unat doublesize + 3)))))"

section \<open>The Opaque wrapper\<close>

lemma ber_header_small: "n < 128 \<Longrightarrow> ber_header type (of_nat n) = [type, of_nat n]"
  using ber_length_small[of n] by (simp add: ber_header_def)

lemma tlv_opaque_wrap:
  assumes "n = length payload" "n < 100"
  shows "tlv ASN_OPAQUE (opaque_wrap tag payload) =
    (ber_header ASN_OPAQUE (of_nat (n + 3)) @ [ASN_OPAQUE_TAG1, tag, of_nat n]) @ payload"
  using assms by (simp add: tlv_def opaque_wrap_def add.commute)

lemma rbuild_opaque_prepended:
  assumes "valid_rbuf b" "n \<le> offset b" "n < 100"
  shows "prepended alloc r b (ber_header ASN_OPAQUE (of_nat (n + 3)) @ [ASN_OPAQUE_TAG1, tag, of_nat n])
    (rbuild_opaque alloc r tag n b)"
  unfolding rbuild_opaque_def
proof (rule rroom_bind[OF assms(1)])
  show "5 \<le> length (ber_header ASN_OPAQUE (of_nat (n + 3)) @ [ASN_OPAQUE_TAG1, tag, of_nat n])"
    using ber_header_small[of "n + 3" ASN_OPAQUE] assms(3) by simp
  fix b' assume b': "valid_rbuf b'" "offset b' = offset b" "offset b' + 5 \<le> length (pkt b')"
  have "prepended alloc r b' (rev [of_nat n, tag, ASN_OPAQUE_TAG1]) (rstores [of_nat n, tag, ASN_OPAQUE_TAG1] b')"
    using b' by (intro rstores_prepended) auto
  then have s: "prepended alloc r b' [ASN_OPAQUE_TAG1, tag, of_nat n] (rstores [of_nat n, tag, ASN_OPAQUE_TAG1] b')"
    by simp
  show "prepended alloc r b' (ber_header ASN_OPAQUE (of_nat (n + 3)) @ [ASN_OPAQUE_TAG1, tag, of_nat n])
      (ebind (rstores [of_nat n, tag, ASN_OPAQUE_TAG1] b')
        (rbuild_finish alloc r ASN_OPAQUE (n + 3) (\<lambda>_. n + 3)))"
    by (rule prepended_bind[OF b'(1) s], rule rbuild_finish_prepended) (use assms(2) b'(2) in auto)
qed

lemma rbuild_float_like_prepended:
  assumes "valid_rbuf b" "n = length payload" "n < 100" "ln = of_nat n"
  shows "prepended alloc r b (tlv ASN_OPAQUE (opaque_wrap tag payload))
    (ebind (rroom alloc r (n + 3) b) (\<lambda>b1. ebind (rcopy payload b1) (\<lambda>b2.
      ebind (rstores [ln, tag, ASN_OPAQUE_TAG1] b2)
        (rbuild_finish alloc r ASN_OPAQUE (n + 3) (\<lambda>_. n + 3)))))"
  unfolding tlv_opaque_wrap[OF assms(2,3)]
proof (rule rroom_bind[OF assms(1)])
  show "n + 3 \<le> length ((ber_header ASN_OPAQUE (of_nat (n + 3)) @ [ASN_OPAQUE_TAG1, tag, of_nat n]) @ payload)"
    using assms(2) by simp
  fix b1 assume b1: "valid_rbuf b1" "offset b1 + (n + 3) \<le> length (pkt b1)"
  have "prepended alloc r b1 payload (rcopy payload b1)" using b1 assms(2) by (intro rcopy_prepended) auto
  from b1(1) this show "prepended alloc r b1
      ((ber_header ASN_OPAQUE (of_nat (n + 3)) @ [ASN_OPAQUE_TAG1, tag, of_nat n]) @ payload)
      (ebind (rcopy payload b1) (\<lambda>b2. ebind (rstores [ln, tag, ASN_OPAQUE_TAG1] b2)
        (rbuild_finish alloc r ASN_OPAQUE (n + 3) (\<lambda>_. n + 3))))"
  proof (rule prepended_bind)
    fix b2 assume b2: "rcopy payload b1 = Inr b2" "valid_rbuf b2" "offset b2 = offset b1 + length payload"
    then have "length (pkt b2) = length (pkt b1)" by (auto simp: rcopy_def Let_def split: if_splits)
    then have "prepended alloc r b2 (rev [ln, tag, ASN_OPAQUE_TAG1]) (rstores [ln, tag, ASN_OPAQUE_TAG1] b2)"
      using b1 b2 assms(2) by (intro rstores_prepended) auto
    then have s: "prepended alloc r b2 [ASN_OPAQUE_TAG1, tag, of_nat n] (rstores [ln, tag, ASN_OPAQUE_TAG1] b2)"
      using assms(4) by simp
    show "prepended alloc r b2 (ber_header ASN_OPAQUE (of_nat (n + 3)) @ [ASN_OPAQUE_TAG1, tag, of_nat n])
        (ebind (rstores [ln, tag, ASN_OPAQUE_TAG1] b2) (rbuild_finish alloc r ASN_OPAQUE (n + 3) (\<lambda>_. n + 3)))"
      by (rule prepended_bind[OF b2(2) s], rule rbuild_finish_prepended) (use assms(2) b2(3) in auto)
  qed
qed

interpretation float_pair: encoder_pair
  "\<lambda>dl v. asn_build_float dl (fst v) (snd v) 4" "\<lambda>alloc r v. asn_realloc_rbuild_float alloc r (fst v) (snd v) 4"
  "\<lambda>v. tlv ASN_OPAQUE (opaque_wrap ASN_OPAQUE_FLOAT (be_bytes 4 (snd v)))" "\<lambda>_. True"
  using rbuild_float_like_prepended[where n = 4 and ln = 4]
  by unfold_locales (simp add: asn_realloc_rbuild_float_def)

interpretation double_pair: encoder_pair
  "\<lambda>dl v. asn_build_double dl (fst v) (snd v) 8" "\<lambda>alloc r v. asn_realloc_rbuild_double alloc r (fst v) (snd v) 8"
  "\<lambda>v. tlv ASN_OPAQUE (opaque_wrap ASN_OPAQUE_DOUBLE (double_payload (snd v)))" "\<lambda>_. True"
  using rbuild_float_like_prepended[where n = 8 and ln = 8]
  by unfold_locales (simp add: asn_realloc_rbuild_double_def double_payload_def[symmetric])

section \<open>The bytes of the integer loops\<close>

lemma be_bytes_cat64_low: "n \<le> 4 \<Longrightarrow> be_bytes n (cat64 h l) = be_bytes n l"
proof (induction n)
  case (Suc n)
  have "(ucast (drop_bit (8 * n) (cat64 h l)) :: u8) = ucast (drop_bit (8 * n) l)"
    by (rule word_bit_eqI) (use Suc.prems in \<open>auto simp: bit_simps bit_cat64\<close>)
  with Suc show ?case by simp
qed simp

lemma be_bytes_cat64_high: "n \<le> 4 \<Longrightarrow> be_bytes (n + 4) (cat64 h l) = be_bytes n h @ be_bytes 4 l"
proof (induction n)
  case 0
  then show ?case using be_bytes_cat64_low[of 4] by simp
next
  case (Suc n)
  have "(ucast (drop_bit (8 * (n + 4)) (cat64 h l)) :: u8) = ucast (drop_bit (8 * n) h)"
    by (rule word_bit_eqI) (use Suc.prems in \<open>auto simp: bit_simps bit_cat64\<close>)
  moreover have "be_bytes (n + 4) (cat64 h l) = be_bytes n h @ be_bytes 4 l" using Suc by simp
  ultimately show ?case unfolding add_Suc be_bytes.simps append_Cons by (rule arg_cong2)
qed

lemma be_bytes_pad:
  "sign_from (8 * k) (l :: u32) \<Longrightarrow> k \<le> n \<Longrightarrow> n \<le> 4 \<Longrightarrow> c = (if bit l 31 then 0xFF else 0) \<Longrightarrow>
     replicate (n - k) c @ be_bytes k l = be_bytes n l"
proof (induction n)
  case (Suc n)
  show ?case
  proof (cases "k = Suc n")
    case False
    have "(ucast (drop_bit (8 * n) l) :: u8) = (if bit l 31 then - 1 else 0)"
    proof (rule word_bit_eqI)
      fix j assume "j < LENGTH(8)"
      then have "bit l (8 * n + j) = bit l 31"
        using sign_fromD[OF Suc.prems(1), of "8 * n + j"] False Suc.prems(2,3) by simp
      then show "bit (ucast (drop_bit (8 * n) l) :: u8) j = bit (if bit l 31 then - 1 else 0 :: u8) j"
        using \<open>j < LENGTH(8)\<close> by (auto simp: bit_simps)
    qed
    then have "ucast (drop_bit (8 * n) l) = c" using Suc.prems(4) by simp
    then show ?thesis using Suc False by (simp add: Suc_diff_le)
  qed simp
qed simp

lemma sign_from_cat64_high: "n \<le> 32 \<Longrightarrow> sign_from (n + 32) (cat64 h l) \<longleftrightarrow> sign_from n h"
proof
  assume n: "n \<le> 32" and s: "sign_from (n + 32) (cat64 h l)"
  show "sign_from n h"
  proof (rule sign_fromI)
    fix k assume "n \<le> k" "k < LENGTH(32)"
    then show "bit h k = bit h (LENGTH(32) - 1)"
      using sign_fromD[OF s, of "k + 32"] by (simp add: bit_cat64)
  qed
next
  assume n: "n \<le> 32" and s: "sign_from n h"
  show "sign_from (n + 32) (cat64 h l)"
  proof (rule sign_fromI)
    fix k assume "n + 32 \<le> k" "k < LENGTH(64)"
    then show "bit (cat64 h l) k = bit (cat64 h l) (LENGTH(64) - 1)"
      using sign_fromD[OF s, of "k - 32"] by (simp add: bit_cat64)
  qed
qed

lemma all_sign_iff: "h = (if bit h 31 then - 1 else 0) \<longleftrightarrow> sign_from 0 h" for h :: u32
  using signed_drop_bit_all[of 0 h] by simp

lemma sign_from_cat64_low:
  assumes "n \<le> 32" "sign_from 0 h"
  shows "sign_from n (cat64 h l) \<longleftrightarrow> (\<forall>k. n \<le> k \<and> k < 32 \<longrightarrow> bit l k = bit h 31)"
proof
  assume s: "sign_from n (cat64 h l)"
  show "\<forall>k. n \<le> k \<and> k < 32 \<longrightarrow> bit l k = bit h 31"
  proof (intro allI impI)
    fix k assume "n \<le> k \<and> k < 32"
    then show "bit l k = bit h 31" using sign_fromD[OF s, of k] by (simp add: bit_cat64)
  qed
next
  assume a: "\<forall>k. n \<le> k \<and> k < 32 \<longrightarrow> bit l k = bit h 31"
  show "sign_from n (cat64 h l)"
  proof (rule sign_fromI)
    fix k assume "n \<le> k" "k < LENGTH(64)"
    then show "bit (cat64 h l) k = bit (cat64 h l) (LENGTH(64) - 1)"
      using a sign_fromD[OF assms(2), of "k - 32"] by (cases "k < 32") (auto simp: bit_cat64)
  qed
qed

text \<open>The signed loop over the low half, whatever the sign it is compared with.\<close>

lemma int_out_general:
  assumes "j + n \<le> 4"
  shows "\<exists>k. j \<le> k \<and> k \<le> j + n \<and> rev (int_out n t (signed_drop_bit (8 * j) x)) @ be_bytes j x = be_bytes k x \<and>
    (k = j + n \<or> signed_drop_bit (8 * k) x = t) \<and> (k = j \<or> signed_drop_bit (8 * (k - 1)) x \<noteq> t)"
  using assms
proof (induction n arbitrary: j)
  case 0
  then show ?case by auto
next
  case (Suc n)
  show ?case
  proof (cases "signed_drop_bit (8 * j) x = t")
    case True
    then show ?thesis by (intro exI[of _ j]) simp
  next
    case False
    obtain k where k: "Suc j \<le> k" "k \<le> Suc j + n"
        "rev (int_out n t (signed_drop_bit (8 * Suc j) x)) @ be_bytes (Suc j) x = be_bytes k x"
        "k = Suc j + n \<or> signed_drop_bit (8 * k) x = t" "k = Suc j \<or> signed_drop_bit (8 * (k - 1)) x \<noteq> t"
      using Suc.IH[of "Suc j"] Suc.prems by auto
    moreover have "int_out (Suc n) t (signed_drop_bit (8 * j) x) =
        ucast (drop_bit (8 * j) x) # int_out n t (signed_drop_bit (8 * Suc j) x)"
      using False Suc.prems ucast_signed_drop_bit[of "8 * j" x] signed_drop_bit_add[of 8 "8 * j" x]
      by (simp add: add.commute)
    ultimately show ?thesis using False by (intro exI[of _ k]) auto
  qed
qed

lemma signed_drop_bit_const:
  assumes "m < 32"
  shows "signed_drop_bit m (l :: u32) = (if c then - 1 else 0) \<longleftrightarrow> (\<forall>j. m \<le> j \<and> j < 32 \<longrightarrow> bit l j = c)"
proof (cases "bit l 31 = c")
  case True
  then show ?thesis using signed_drop_bit_all[of m l] by (simp add: sign_from_def)
next
  case False
  have "signed_drop_bit m l \<noteq> (if c then - 1 else 0)"
  proof
    assume "signed_drop_bit m l = (if c then - 1 else 0)"
    then have "bit (signed_drop_bit m l) 31 = bit (if c then - 1 else 0 :: u32) 31" by simp
    then show False using False assms by (cases "m = 0") (auto simp: bit_simps split: if_splits)
  qed
  moreover have "\<not> (\<forall>j. m \<le> j \<and> j < 32 \<longrightarrow> bit l j = c)"
  proof
    assume "\<forall>j. m \<le> j \<and> j < 32 \<longrightarrow> bit l j = c"
    from spec[OF this, of 31] show False using False assms by simp
  qed
  ultimately show ?thesis by simp
qed

lemma i64_out_octets:
  assumes "t = (if bit h 31 then - 1 else 0)"
  shows "\<exists>k. 0 < k \<and> k \<le> 8 \<and> rev (i64_out t h l) = be_bytes k (cat64 h l) \<and>
    sign_from (8 * k) (cat64 h l) \<and> (k = 1 \<or> \<not> sign_from (8 * (k - 1)) (cat64 h l))"
proof -
  let ?lows = "ucast l # int_out 3 t (signed_drop_bit 8 l)"
  obtain k where k: "1 \<le> k" "k \<le> 4" "rev ?lows = be_bytes k l"
      "k = 4 \<or> signed_drop_bit (8 * k) l = t" "k = 1 \<or> signed_drop_bit (8 * (k - 1)) l \<noteq> t"
    using int_out_general[of 1 3 t l] by auto
  have kl: "length ?lows = k" using arg_cong[OF k(3), of length] by simp
  have sd: "signed_drop_bit m l = t \<longleftrightarrow> (\<forall>j. m \<le> j \<and> j < 32 \<longrightarrow> bit l j = bit h 31)" if "m < 32" for m
    using signed_drop_bit_const[OF that, of l "bit h 31"] assms by simp
  show ?thesis
  proof (cases "h = t")
    case True
    then have h0: "sign_from 0 h" using assms all_sign_iff[of h] by simp
    have "sign_from (8 * k) (cat64 h l)"
      using k(2,4) sd[of "8 * k"] by (subst sign_from_cat64_low[OF _ h0]) auto
    moreover have "k = 1 \<or> \<not> sign_from (8 * (k - 1)) (cat64 h l)"
      using k(2,5) sd[of "8 * (k - 1)"] by (subst sign_from_cat64_low[OF _ h0]) auto
    ultimately show ?thesis
      using True k(1-3) be_bytes_cat64_low[of k h l] by (intro exI[of _ k]) (simp add: i64_out_def)
  next
    case False
    obtain k' where k': "1 \<le> k'" "k' \<le> 4" "rev (ucast h # int_out 4 t (signed_drop_bit 8 h)) = be_bytes k' h"
        "sign_from (8 * k') h" "k' = 1 \<or> \<not> sign_from (8 * (k' - 1)) h"
      using int_out_spec[of 1 4 t h] assms by auto
    have pad: "replicate (4 - k) (if t = 0 then 0 else 0xFF) @ be_bytes k l = be_bytes 4 l"
    proof (cases "k = 4")
      case False
      then have "\<forall>j. 8 * k \<le> j \<and> j < 32 \<longrightarrow> bit l j = bit h 31" using k(2,4) sd[of "8 * k"] by auto
      moreover from this have "bit l 31 = bit h 31" using k(2) False by auto
      ultimately have "sign_from (8 * k) l" by (simp add: sign_from_def)
      then show ?thesis using \<open>bit l 31 = bit h 31\<close> k(2) assms by (intro be_bytes_pad) auto
    qed simp
    have "rev (i64_out t h l) = be_bytes k' h @ be_bytes 4 l"
      using False k(3) k'(3) kl pad by (simp add: i64_out_def Let_def)
    moreover have "sign_from (8 * (k' + 4)) (cat64 h l)"
      using k' sign_from_cat64_high[of "8 * k'" h l] by (simp add: algebra_simps)
    moreover have "\<not> sign_from (8 * (k' + 4 - 1)) (cat64 h l)"
    proof -
      have "\<not> sign_from (8 * (k' - 1)) h" using k'(5) False assms all_sign_iff[of h] by auto
      moreover have "8 * (k' + 4 - 1) = 8 * (k' - 1) + 32" using k'(1) by simp
      ultimately show ?thesis using sign_from_cat64_high[of "8 * (k' - 1)" h l] k'(2) by (simp only:) simp
    qed
    ultimately show ?thesis
      using k' be_bytes_cat64_high[of k' h l] by (intro exI[of _ "k' + 4"]) simp
  qed
qed

lemma take_bit_self_iff: "take_bit n x = x \<longleftrightarrow> (\<forall>j. n \<le> j \<longrightarrow> \<not> bit x j)" for x :: "'a::len word"
proof
  assume "take_bit n x = x"
  then show "\<forall>j. n \<le> j \<longrightarrow> \<not> bit x j" by (metis bit_take_bit_iff leD)
next
  assume "\<forall>j. n \<le> j \<longrightarrow> \<not> bit x j"
  then show "take_bit n x = x" by (intro word_bit_eqI) (auto simp: bit_take_bit_iff simp flip: not_le)
qed

lemma take_bit_cat64_high: "take_bit (n + 32) (cat64 h l) = cat64 h l \<longleftrightarrow> take_bit n h = h"
proof -
  have "(\<forall>j. n + 32 \<le> j \<longrightarrow> \<not> bit (cat64 h l) j) \<longleftrightarrow> (\<forall>j. n \<le> j \<longrightarrow> \<not> bit h j)"
  proof (intro iffI allI impI)
    fix j assume a: "\<forall>j. n + 32 \<le> j \<longrightarrow> \<not> bit (cat64 h l) j" and "n \<le> j"
    then show "\<not> bit h j" using spec[OF a, of "j + 32"] bit_imp_le_length[of h j] by (auto simp: bit_cat64)
  next
    fix j assume "\<forall>j. n \<le> j \<longrightarrow> \<not> bit h j" "n + 32 \<le> j"
    then show "\<not> bit (cat64 h l) j" by (auto simp: bit_cat64)
  qed
  then show ?thesis by (simp add: take_bit_self_iff)
qed

lemma take_bit_cat64_low: "take_bit n (cat64 0 l) = cat64 0 l \<longleftrightarrow> take_bit n l = l"
proof -
  have "bit (cat64 0 l) j = bit l j" for j
    using bit_imp_le_length[of l j] by (auto simp: bit_cat64)
  then show ?thesis by (simp add: take_bit_self_iff)
qed

lemma u64_out_octets: "rev (u64_out h l) = be_bytes (min_uoctets 8 (cat64 h l)) (cat64 h l)"
proof -
  let ?lows = "ucast l # uint_out (drop_bit 8 l)"
  define k k' where "k = min_uoctets 4 l" and "k' = min_uoctets 4 h"
  have k: "0 < k" "k \<le> 4" "0 < k'" "k' \<le> 4"
    using min_uoctets_bounds[of 4 l] min_uoctets_bounds[of 4 h] by (auto simp: k_def k'_def)
  have lows: "rev ?lows = be_bytes k l" and highs: "rev (ucast h # uint_out (drop_bit 8 h)) = be_bytes k' h"
    using uint_out_min[of l] uint_out_min[of h] by (auto simp: k_def k'_def)
  have kl: "length ?lows = k" using arg_cong[OF lows, of length] by simp
  have fits: "take_bit (8 * k) l = l" "take_bit (8 * k') h = h"
    unfolding k_def k'_def by (rule min_uoctets_fits; simp add: take_bit_word_eq_self)+
  have least: "k = 1 \<or> take_bit (8 * (k - 1)) l \<noteq> l" "k' = 1 \<or> take_bit (8 * (k' - 1)) h \<noteq> h"
    using min_uoctets_least[of 4 l] min_uoctets_least[of 4 h] k by (auto simp: k_def k'_def)
  show ?thesis
  proof (cases "h = 0")
    case True
    have "min_uoctets 8 (cat64 h l) = k"
      using True k fits least by (intro min_uoctets_eqI) (auto simp: take_bit_cat64_low)
    then show ?thesis using True lows k be_bytes_cat64_low[of k h l] by (simp add: u64_out_def)
  next
    case False
    have hz: "take_bit (8 * (k' - 1)) h \<noteq> h" using least(2) False by auto
    have e: "8 * (k' + 4) = 8 * k' + 32" "8 * (k' + 4 - 1) = 8 * (k' - 1) + 32" using k by auto
    have "min_uoctets 8 (cat64 h l) = k' + 4"
    proof (rule min_uoctets_eqI)
      show "take_bit (8 * (k' + 4)) (cat64 h l) = cat64 h l"
        unfolding e(1) take_bit_cat64_high by (rule fits(2))
      show "k' + 4 = 1 \<or> take_bit (8 * (k' + 4 - 1)) (cat64 h l) \<noteq> cat64 h l"
        unfolding e(2) take_bit_cat64_high using hz by simp
    qed (use k in auto)
    moreover have "replicate (4 - k) 0 @ be_bytes k l = be_bytes 4 l"
    proof (cases "k = 4")
      case False
      then have nz: "\<not> bit l (LENGTH(32) - 1)"
        using fits(1) k(2) take_bit_self_iff[of "8 * k" l] by simp
      then have "sign_from (8 * k) l" using fits(1) by (simp only: sign_from_nonneg[OF nz])
      then show ?thesis using nz k(2) by (intro be_bytes_pad) auto
    qed simp
    ultimately show ?thesis
      using False lows highs kl k be_bytes_cat64_high[of k' h l]
      by (simp add: u64_out_def Let_def)
  qed
qed

section \<open>The integer encoders\<close>

lemma puts_fix_prepended:
  assumes "valid_rbuf b" "bs = rev xs" "xs \<noteq> []"
  shows "prepended alloc r b ((if P (hd bs) then [x] else []) @ bs)
    (ebind (rputs alloc r xs b) (\<lambda>b2. if P (rtop b2) then rput alloc r x b2 else Inr b2))"
proof -
  obtain a ys where xs: "xs = a # ys" using assms(3) by (cases xs) auto
  show ?thesis
    using emit_fix_prepended[OF assms(1), of bs ys a alloc r P x] assms(2)
    by (simp add: xs ebind_assoc)
qed

lemma rbuild_unsigned_int64_prepended:
  assumes "valid_rbuf b"
  shows "prepended alloc r b (tlv (u64_tag type) (u64_payload type c))
    (asn_realloc_rbuild_unsigned_int64 alloc r type c 8 b)"
proof -
  let ?x = "u64_of c" and ?P = "uint_payload 8 (u64_of c)"
  define bs where "bs = rev (u64_out (high c) (low c))"
  have bs: "bs = be_bytes (min_uoctets 8 ?x) ?x" by (simp add: bs_def u64_of_def u64_out_octets)
  have "0 < min_uoctets 8 ?x" using min_uoctets_bounds[of 8 ?x] by simp
  then have p: "?P = (if hd bs AND 0x80 \<noteq> 0 then [0] else []) @ bs"
    using uint_payload_min[of 8 ?x] be_bytes_hd[of "min_uoctets 8 ?x" ?x] by (simp add: bs)
  have n: "length ?P < 100" using uint_payload_len(2)[of 8 ?x] by simp
  have "u64_out (high c) (low c) \<noteq> []" by (simp add: u64_out_def Let_def)
  from puts_fix_prepended[where P = "\<lambda>y. y AND 0x80 \<noteq> 0", OF assms bs_def this, of alloc r 0]
  have e: "prepended alloc r b ?P (ebind (rputs alloc r (u64_out (high c) (low c)) b)
      (\<lambda>b2. if rtop b2 AND 0x80 \<noteq> 0 then rput alloc r 0 b2 else Inr b2))" by (simp add: p)
  have wrapped: "prepended alloc r b (tlv (u64_tag type) (u64_payload type c))
    (ebind (ebind (rputs alloc r (u64_out (high c) (low c)) b)
       (\<lambda>b2. if rtop b2 AND 0x80 \<noteq> 0 then rput alloc r 0 b2 else Inr b2))
      (\<lambda>b3. rbuild_opaque alloc r type (offset b3 - offset b) b3))" if "is_opaque_u64 type"
  proof -
    have "u64_tag type = ASN_OPAQUE" "u64_payload type c = opaque_wrap type ?P"
      using that by (simp_all add: u64_tag_def u64_payload_def)
    then show ?thesis
      unfolding tlv_opaque_wrap[OF refl n]
      by (simp only: tlv_opaque_wrap[OF refl n])
        (rule prepended_bind[OF assms e], use rbuild_opaque_prepended n in auto)
  qed
  have plain: "prepended alloc r b (tlv (u64_tag type) (u64_payload type c))
    (ebind (ebind (rputs alloc r (u64_out (high c) (low c)) b)
       (\<lambda>b2. if rtop b2 AND 0x80 \<noteq> 0 then rput alloc r 0 b2 else Inr b2))
      (\<lambda>b3. rbuild_finish alloc r type (offset b3 - offset b) (\<lambda>_. offset b3 - offset b) b3))"
    if "\<not> is_opaque_u64 type"
  proof -
    have "u64_tag type = type" "u64_payload type c = ?P"
      using that by (simp_all add: u64_tag_def u64_payload_def)
    then show ?thesis unfolding tlv_def
      by (simp only:) (rule prepended_bind[OF assms e], use rbuild_finish_prepended in auto)
  qed
  show ?thesis
    using wrapped plain
    by (cases "type = ASN_OPAQUE_COUNTER64"; cases "type = ASN_OPAQUE_U64")
      (auto simp: asn_realloc_rbuild_unsigned_int64_def Let_def is_opaque_u64_def)
qed

lemma rbuild_signed_int64_prepended:
  assumes "valid_rbuf b"
  shows "prepended alloc r b (tlv ASN_OPAQUE (opaque_wrap ASN_OPAQUE_I64 (i64_payload c)))
    (asn_realloc_rbuild_signed_int64 alloc r type c 8 b)"
proof -
  let ?x = "u64_of c" and ?P = "i64_payload c"
  define t where "t = (if bit (high c) 31 then - 1 else 0 :: u32)"
  define bs where "bs = rev (i64_out t (high c) (low c))"
  have b63: "bit ?x 63 = bit (high c) 31" by (rule bit_63_u64_of)
  obtain k where k: "0 < k" "k \<le> 8" "bs = be_bytes k ?x" "sign_from (8 * k) ?x"
      "k = 1 \<or> \<not> sign_from (8 * (k - 1)) ?x"
    using i64_out_octets[OF t_def, of "low c"] by (auto simp: bs_def u64_of_def)
  have h: "bit (hd bs) 7 = bit ?x (8 * k - 1)" using be_bytes_hd[of k ?x] k by simp
  have tb: "(ucast (t AND 0x80) :: u8) = (if bit (high c) 31 then 0x80 else 0)"
      "(if t = 0 then 0 else 0xFF) = (if bit (high c) 31 then 0xFF else 0 :: u8)"
    by (simp_all add: t_def)
  have cc: "y AND 0x80 \<noteq> (if d then 0x80 else 0) \<longleftrightarrow> bit y 7 \<noteq> d" for y :: u8 and d
    by (cases "bit y 7") (auto simp: and_0x80_u8)
  have p: "?P = (if hd bs AND 0x80 \<noteq> ucast (t AND 0x80) then [if t = 0 then 0 else 0xFF] else []) @ bs"
    unfolding tb cc i64_payload_def using sign_extension_octets[of k 8 ?x] k h b63 by auto
  have n: "length ?P < 100" using i64_payload_len(2)[of c] by simp
  have "i64_out t (high c) (low c) \<noteq> []" by (simp add: i64_out_def Let_def)
  from puts_fix_prepended[where P = "\<lambda>y. y AND 0x80 \<noteq> ucast (t AND 0x80)", OF assms bs_def this,
      of alloc r "if t = 0 then 0 else 0xFF"]
  have e: "prepended alloc r b ?P (ebind (rputs alloc r (i64_out t (high c) (low c)) b)
      (\<lambda>b2. if rtop b2 AND 0x80 \<noteq> ucast (t AND 0x80) then rput alloc r (if t = 0 then 0 else 0xFF) b2 else Inr b2))"
    unfolding p .
  have "high c AND 0x80000000 \<noteq> 0 \<longleftrightarrow> bit (high c) 31"
    using and_exp_eq_0_iff_not_bit[of "high c" 31] by simp
  then have d: "(if high c AND 0x80000000 \<noteq> 0 then - 1 else 0) = t" by (simp add: t_def)
  show ?thesis
    unfolding asn_realloc_rbuild_signed_int64_def d Let_def tlv_opaque_wrap[OF refl n]
    using prepended_bind[OF assms e, of "ber_header ASN_OPAQUE (of_nat (length ?P + 3)) @
        [ASN_OPAQUE_TAG1, ASN_OPAQUE_I64, of_nat (length ?P)]"
      "\<lambda>b3. rbuild_opaque alloc r ASN_OPAQUE_I64 (offset b3 - offset b) b3"] rbuild_opaque_prepended n
    by simp
qed

interpretation u64_pair: encoder_pair
  "\<lambda>dl v. asn_build_unsigned_int64 dl (fst v) (snd v) 8"
  "\<lambda>alloc r v. asn_realloc_rbuild_unsigned_int64 alloc r (fst v) (snd v) 8"
  "\<lambda>v. tlv (u64_tag (fst v)) (u64_payload (fst v) (snd v))" "\<lambda>v. fst v \<noteq> ASN_OPAQUE"
  by unfold_locales (rule rbuild_unsigned_int64_prepended)

interpretation i64_encoder: tlv_encoder
  "\<lambda>dl v. asn_build_signed_int64 dl (fst v) (snd v) 8" "\<lambda>v. ASN_OPAQUE"
  "\<lambda>v. opaque_wrap ASN_OPAQUE_I64 (i64_payload (snd v))" "\<lambda>_. True"
proof unfold_locales
  show "length (opaque_wrap ASN_OPAQUE_I64 (i64_payload (snd v))) \<le> 65535" for v :: "u8 \<times> counter64"
    using i64_payload_len(2)[of "snd v"] by simp
qed (simp add: asn_build_signed_int64_tlv)

interpretation i64_pair: encoder_pair
  "\<lambda>dl v. asn_build_signed_int64 dl (fst v) (snd v) 8"
  "\<lambda>alloc r v. asn_realloc_rbuild_signed_int64 alloc r (fst v) (snd v) 8"
  "\<lambda>v. tlv ASN_OPAQUE (opaque_wrap ASN_OPAQUE_I64 (i64_payload (snd v)))" "\<lambda>_. True"
  by unfold_locales (rule rbuild_signed_int64_prepended)

end
