(* ===== verification/Var_Op.thy ===== *)
theory Var_Op
  imports Asn_Rbuild64
begin

unbundle bit_operations_syntax

text \<open>
  Variable bindings: \<^verbatim>\<open>snmplib/snmp.c\<close>, the union \<^verbatim>\<open>netsnmp_vardata\<close> and the
  structure \<^verbatim>\<open>variable_list\<close> of \<^verbatim>\<open>include/net-snmp/types.h\<close>.
\<close>

section \<open>Types of values\<close>

definition ASN_INTEGER :: u8 where "ASN_INTEGER = 0x02"
definition ASN_BIT_STR :: u8 where "ASN_BIT_STR = 0x03"
definition ASN_OCTET_STR :: u8 where "ASN_OCTET_STR = 0x04"
definition ASN_NULL :: u8 where "ASN_NULL = 0x05"
definition ASN_OBJECT_ID :: u8 where "ASN_OBJECT_ID = 0x06"
definition ASN_IPADDRESS :: u8 where "ASN_IPADDRESS = 0x40"
definition ASN_COUNTER :: u8 where "ASN_COUNTER = 0x41"
definition ASN_GAUGE :: u8 where "ASN_GAUGE = 0x42"
definition ASN_TIMETICKS :: u8 where "ASN_TIMETICKS = 0x43"
definition ASN_NSAP :: u8 where "ASN_NSAP = 0x45"
definition ASN_COUNTER64 :: u8 where "ASN_COUNTER64 = 0x46"
definition ASN_UINTEGER :: u8 where "ASN_UINTEGER = 0x47"
definition SNMP_NOSUCHOBJECT :: u8 where "SNMP_NOSUCHOBJECT = 0x80"
definition SNMP_NOSUCHINSTANCE :: u8 where "SNMP_NOSUCHINSTANCE = 0x81"
definition SNMP_ENDOFMIBVIEW :: u8 where "SNMP_ENDOFMIBVIEW = 0x82"

lemmas var_tag_defs = ASN_INTEGER_def ASN_BIT_STR_def ASN_OCTET_STR_def ASN_NULL_def ASN_OBJECT_ID_def
  ASN_IPADDRESS_def ASN_COUNTER_def ASN_GAUGE_def ASN_TIMETICKS_def ASN_NSAP_def ASN_COUNTER64_def
  ASN_UINTEGER_def SNMP_NOSUCHOBJECT_def SNMP_NOSUCHINSTANCE_def SNMP_ENDOFMIBVIEW_def asn_tag_defs

text \<open>
  The case labels that the encoders and the decoder of a binding share: which
  member of the union a type selects.
\<close>

datatype var_kind = KInt | KUint | KU64 | KString | KObjid | KNull | KBits | KFloat | KDouble | KI64 | KBad

definition var_kind :: "u8 \<Rightarrow> var_kind" where
  "var_kind type =
     (if type = ASN_INTEGER then KInt
      else if type = ASN_GAUGE \<or> type = ASN_COUNTER \<or> type = ASN_TIMETICKS \<or> type = ASN_UINTEGER then KUint
      else if type = ASN_OPAQUE_COUNTER64 \<or> type = ASN_OPAQUE_U64 \<or> type = ASN_COUNTER64 then KU64
      else if type = ASN_OCTET_STR \<or> type = ASN_IPADDRESS \<or> type = ASN_OPAQUE \<or> type = ASN_NSAP then KString
      else if type = ASN_OBJECT_ID then KObjid
      else if type = ASN_NULL \<or> type = SNMP_NOSUCHOBJECT \<or> type = SNMP_NOSUCHINSTANCE \<or>
        type = SNMP_ENDOFMIBVIEW then KNull
      else if type = ASN_BIT_STR then KBits
      else if type = ASN_OPAQUE_FLOAT then KFloat
      else if type = ASN_OPAQUE_DOUBLE then KDouble
      else if type = ASN_OPAQUE_I64 then KI64
      else KBad)"

text \<open>
  The union: the member it was last written through, \<open>NoVal\<close> for a NULL
  pointer, \<open>Uninit\<close> for memory nobody wrote.
\<close>

datatype vardata =
    NoVal
  | IntegerVal u32
  | CounterVal counter64
  | StringVal "u8 list"
  | ObjidVal oid
  | FloatVal u32
  | DoubleVal "u32 \<times> u32"
  | Uninit

record variable_list =
  name :: oid
  vtype :: u8
  val :: vardata
  val_len :: u32

section \<open>Reading the union\<close>

text \<open>Reading another member than the one written is \<open>OutOfBounds\<close> (not defined in C).\<close>

definition as_integer :: "vardata \<Rightarrow> asn_error + u32" where
  "as_integer v = (case v of IntegerVal x \<Rightarrow> Inr x | _ \<Rightarrow> Inl OutOfBounds)"

definition as_counter64 :: "vardata \<Rightarrow> asn_error + counter64" where
  "as_counter64 v = (case v of CounterVal c \<Rightarrow> Inr c | _ \<Rightarrow> Inl OutOfBounds)"

definition as_float :: "vardata \<Rightarrow> asn_error + u32" where
  "as_float v = (case v of FloatVal x \<Rightarrow> Inr x | _ \<Rightarrow> Inl OutOfBounds)"

definition as_double :: "vardata \<Rightarrow> asn_error + u32 \<times> u32" where
  "as_double v = (case v of DoubleVal x \<Rightarrow> Inr x | _ \<Rightarrow> Inl OutOfBounds)"

definition as_string :: "vardata \<Rightarrow> asn_error + u8 list option" where
  "as_string v = (case v of StringVal s \<Rightarrow> Inr (Some s) | NoVal \<Rightarrow> Inr None | _ \<Rightarrow> Inl OutOfBounds)"

text \<open>\<^verbatim>\<open>(oid *) var_val\<close> with \<^verbatim>\<open>var_val_len / sizeof(oid)\<close> elements.\<close>

definition as_objid :: "vardata \<Rightarrow> u32 \<Rightarrow> asn_error + oid" where
  "as_objid v len = (case v of
      ObjidVal x \<Rightarrow> if unat len div 4 \<le> length x then Inr (take (unat len div 4) x) else Inl OutOfBounds
    | NoVal \<Rightarrow> if unat len div 4 = 0 then Inr [] else Inl OutOfBounds
    | _ \<Rightarrow> Inl OutOfBounds)"

text \<open>The bytes of a string for \<^verbatim>\<open>memcpy\<close>, which a NULL pointer has none of.\<close>

definition string_bytes :: "vardata \<Rightarrow> u32 \<Rightarrow> asn_error + u8 list" where
  "string_bytes v len = (case v of
      StringVal s \<Rightarrow> rds s 0 (unat len)
    | NoVal \<Rightarrow> if len = 0 then Inr [] else Inl OutOfBounds
    | _ \<Rightarrow> Inl OutOfBounds)"

definition wlift :: "asn_error + 'a \<Rightarrow> ('a \<Rightarrow> u8 list \<times> (asn_error + 'b)) \<Rightarrow> u8 list \<times> (asn_error + 'b)" where
  "wlift x f = (case x of Inl e \<Rightarrow> ([], Inl e) | Inr v \<Rightarrow> f v)"

lemma wlift_simps [simp]: "wlift (Inl e) f = ([], Inl e)" "wlift (Inr v) f = f v"
  by (simp_all add: wlift_def)

section \<open>Encoding\<close>

definition build_var_val :: "u32 \<Rightarrow> u8 \<Rightarrow> vardata \<Rightarrow> u32 \<Rightarrow> u8 list \<times> (asn_error + u32)" where
  "build_var_val dl type v len = (case var_kind type of
      KInt \<Rightarrow> wlift (as_integer v) (\<lambda>x. asn_build_int dl type x len)
    | KUint \<Rightarrow> wlift (as_integer v) (\<lambda>x. asn_build_unsigned_int dl type x len)
    | KU64 \<Rightarrow> wlift (as_counter64 v) (\<lambda>x. asn_build_unsigned_int64 dl type x len)
    | KString \<Rightarrow> wlift (as_string v) (\<lambda>s. asn_build_string dl type s len)
    | KObjid \<Rightarrow> wlift (as_objid v len) (\<lambda>x. asn_build_objid dl type x)
    | KNull \<Rightarrow> asn_build_null dl type
    | KBits \<Rightarrow> wlift (as_string v) (\<lambda>s. asn_build_bitstring dl type s len)
    | KFloat \<Rightarrow> wlift (as_float v) (\<lambda>x. asn_build_float dl type x len)
    | KDouble \<Rightarrow> wlift (as_double v) (\<lambda>x. asn_build_double dl type x len)
    | KI64 \<Rightarrow> wlift (as_counter64 v) (\<lambda>x. asn_build_signed_int64 dl type x len)
    | KBad \<Rightarrow> ([], Inl WrongType))"

text \<open>
  \<^verbatim>\<open>snmp_build_var_op\<close>: four bytes are left free for the header, which is
  stored when the length is known; \<open>buf\<close> is what the buffer held before, at those
  four bytes the only part that matters.
\<close>

definition patch_sequence :: "u8 list \<Rightarrow> u32 \<Rightarrow> u8 \<Rightarrow> u32 \<Rightarrow> u8 list" where
  "patch_sequence buf dl type len =
     (case asn_build_sequence dl type len of (h, Inr _) \<Rightarrow> h | (_, Inl _) \<Rightarrow> take 4 buf)"

definition snmp_build_var_op ::
  "u8 list \<Rightarrow> u32 \<Rightarrow> variable_list \<Rightarrow> u8 list \<times> (asn_error + u32)" where
  "snmp_build_var_op buf listlength vp =
     (if listlength < 4 then ([], Inl HeaderTooShort)
      else case wbind (asn_build_objid (listlength - 4) ASN_OBJECT_ID (name vp))
                  (\<lambda>dl. build_var_val dl (vtype vp) (val vp) (val_len vp)) of
          (w, Inl e) \<Rightarrow> (take 4 buf @ w, Inl e)
        | (w, Inr dl) \<Rightarrow>
            let dummyLen = of_nat (length w) in
            (patch_sequence buf dummyLen ASN_SEQUENCE_CONSTRUCTOR dummyLen @ w, Inr dl))"

definition rbuild_var_val ::
  "(nat \<Rightarrow> bool) \<Rightarrow> bool \<Rightarrow> u8 \<Rightarrow> vardata \<Rightarrow> u32 \<Rightarrow> rbuf \<Rightarrow> asn_error + rbuf" where
  "rbuild_var_val alloc r type v len b = (case var_kind type of
      KInt \<Rightarrow> ebind (as_integer v) (\<lambda>x. asn_realloc_rbuild_int alloc r type x len b)
    | KUint \<Rightarrow> ebind (as_integer v) (\<lambda>x. asn_realloc_rbuild_unsigned_int alloc r type x len b)
    | KU64 \<Rightarrow> ebind (as_counter64 v) (\<lambda>x. asn_realloc_rbuild_unsigned_int64 alloc r type x len b)
    | KString \<Rightarrow> ebind (string_bytes v len) (\<lambda>s. asn_realloc_rbuild_string alloc r type s b)
    | KObjid \<Rightarrow> ebind (as_objid v len) (\<lambda>x. asn_realloc_rbuild_objid alloc r type x b)
    | KNull \<Rightarrow> asn_realloc_rbuild_null alloc r type b
    | KBits \<Rightarrow> ebind (string_bytes v len) (\<lambda>s. asn_realloc_rbuild_bitstring alloc r type s b)
    | KFloat \<Rightarrow> ebind (as_float v) (\<lambda>x. asn_realloc_rbuild_float alloc r type x len b)
    | KDouble \<Rightarrow> ebind (as_double v) (\<lambda>x. asn_realloc_rbuild_double alloc r type x len b)
    | KI64 \<Rightarrow> ebind (as_counter64 v) (\<lambda>x. asn_realloc_rbuild_signed_int64 alloc r type x len b)
    | KBad \<Rightarrow> Inl WrongType)"

definition snmp_realloc_rbuild_var_op ::
  "(nat \<Rightarrow> bool) \<Rightarrow> bool \<Rightarrow> variable_list \<Rightarrow> rbuf \<Rightarrow> asn_error + rbuf" where
  "snmp_realloc_rbuild_var_op alloc r vp b =
     ebind (rbuild_var_val alloc r (vtype vp) (val vp) (val_len vp) b) (\<lambda>b1.
     ebind (asn_realloc_rbuild_objid alloc r ASN_OBJECT_ID (name vp) b1) (\<lambda>b2.
     asn_realloc_rbuild_sequence alloc r ASN_SEQUENCE_CONSTRUCTOR (of_nat (offset b2 - offset b)) b2))"

section \<open>Decoding\<close>

text \<open>
  \<^verbatim>\<open>snmp_parse_var_op\<close>: the end of the binding, what is left of the list, the
  name, the type and length of the value and where it is.
\<close>

definition snmp_parse_var_op ::
  "u8 list \<Rightarrow> nat \<Rightarrow> u32 \<Rightarrow> u32 \<Rightarrow> asn_error + nat \<times> u32 \<times> oid \<times> u8 \<times> u32 \<times> nat" where
  "snmp_parse_var_op m data listlength var_name_len =
     ebind (asn_parse_sequence m data listlength ASN_SEQUENCE_CONSTRUCTOR) (\<lambda>(data1, var_op_len, _).
     ebind (asn_parse_objid m data1 var_op_len var_name_len) (\<lambda>(data2, var_op_len, var_op_type, var_name).
     if var_op_type \<noteq> ASN_OBJECT_ID then Inl WrongType
     else ebind (asn_parse_header m data2 var_op_len) (\<lambda>(data3, var_val_len, var_val_type).
     let data4 = data3 + unat var_val_len in
     Inr (data4, listlength - of_nat (data4 - data), var_name, var_val_type, var_val_len, data2))))"

section \<open>Well-formed values and their encoding\<close>

definition val_ok :: "u8 \<Rightarrow> vardata \<Rightarrow> u32 \<Rightarrow> bool" where
  "val_ok type v len = (case var_kind type of
      KInt \<Rightarrow> (case v of IntegerVal _ \<Rightarrow> len = 4 | _ \<Rightarrow> False)
    | KUint \<Rightarrow> (case v of IntegerVal _ \<Rightarrow> len = 4 | _ \<Rightarrow> False)
    | KU64 \<Rightarrow> (case v of CounterVal _ \<Rightarrow> len = 8 | _ \<Rightarrow> False)
    | KString \<Rightarrow> (case v of StringVal s \<Rightarrow> length s \<le> 0xFFFF \<and> len = of_nat (length s) | _ \<Rightarrow> False)
    | KObjid \<Rightarrow> (case v of ObjidVal x \<Rightarrow> objid_ok x \<and> len = of_nat (4 * length x) | _ \<Rightarrow> False)
    | KNull \<Rightarrow> v = NoVal \<and> len = 0
    | KBits \<Rightarrow> (case v of StringVal s \<Rightarrow> s \<noteq> [] \<and> length s \<le> 0xFFFF \<and> len = of_nat (length s) | _ \<Rightarrow> False)
    | KFloat \<Rightarrow> (case v of FloatVal _ \<Rightarrow> len = 4 | _ \<Rightarrow> False)
    | KDouble \<Rightarrow> (case v of DoubleVal _ \<Rightarrow> len = 8 | _ \<Rightarrow> False)
    | KI64 \<Rightarrow> (case v of CounterVal _ \<Rightarrow> len = 8 | _ \<Rightarrow> False)
    | KBad \<Rightarrow> False)"

definition val_tag :: "u8 \<Rightarrow> u8" where
  "val_tag type = (case var_kind type of KU64 \<Rightarrow> u64_tag type | KFloat \<Rightarrow> ASN_OPAQUE | KDouble \<Rightarrow> ASN_OPAQUE
    | KI64 \<Rightarrow> ASN_OPAQUE | _ \<Rightarrow> type)"

definition val_payload :: "u8 \<Rightarrow> vardata \<Rightarrow> u8 list" where
  "val_payload type v = (case v of
      NoVal \<Rightarrow> []
    | IntegerVal x \<Rightarrow> if var_kind type = KInt then int_payload x else uint_payload 4 x
    | CounterVal c \<Rightarrow> if var_kind type = KI64 then opaque_wrap ASN_OPAQUE_I64 (i64_payload c) else u64_payload type c
    | StringVal s \<Rightarrow> s
    | ObjidVal x \<Rightarrow> objid_payload x
    | FloatVal x \<Rightarrow> opaque_wrap ASN_OPAQUE_FLOAT (be_bytes 4 x)
    | DoubleVal x \<Rightarrow> opaque_wrap ASN_OPAQUE_DOUBLE (double_payload x)
    | Uninit \<Rightarrow> [])"

definition val_enc :: "u8 \<Rightarrow> vardata \<Rightarrow> u8 list" where
  "val_enc type v = tlv (val_tag type) (val_payload type v)"

lemma val_ok_cases:
  assumes "val_ok type v len"
  obtains (Int) x where "var_kind type = KInt" "v = IntegerVal x" "len = 4"
  | (Uint) x where "var_kind type = KUint" "v = IntegerVal x" "len = 4"
  | (U64) c where "var_kind type = KU64" "v = CounterVal c" "len = 8"
  | (String) s where "var_kind type = KString" "v = StringVal s" "length s \<le> 0xFFFF" "len = of_nat (length s)"
  | (Objid) x where "var_kind type = KObjid" "v = ObjidVal x" "objid_ok x" "len = of_nat (4 * length x)"
  | (Null) "var_kind type = KNull" "v = NoVal" "len = 0"
  | (Bits) s where "var_kind type = KBits" "v = StringVal s" "s \<noteq> []" "length s \<le> 0xFFFF" "len = of_nat (length s)"
  | (Float) x where "var_kind type = KFloat" "v = FloatVal x" "len = 4"
  | (Double) x where "var_kind type = KDouble" "v = DoubleVal x" "len = 8"
  | (I64) c where "var_kind type = KI64" "v = CounterVal c" "len = 8"
  using assms unfolding val_ok_def by (cases "var_kind type"; cases v) simp_all

lemma var_kind_special:
  "var_kind type = KFloat \<longleftrightarrow> type = ASN_OPAQUE_FLOAT"
  "var_kind type = KDouble \<longleftrightarrow> type = ASN_OPAQUE_DOUBLE"
  "var_kind type = KI64 \<longleftrightarrow> type = ASN_OPAQUE_I64"
  "var_kind type = KInt \<longleftrightarrow> type = ASN_INTEGER"
  "var_kind type = KObjid \<longleftrightarrow> type = ASN_OBJECT_ID"
  "var_kind type = KBits \<longleftrightarrow> type = ASN_BIT_STR"
  by (auto simp: var_kind_def var_tag_defs)

lemma var_kind_KU64: "var_kind type = KU64 \<Longrightarrow> type \<noteq> ASN_OPAQUE"
  by (auto simp: var_kind_def var_tag_defs)

lemma objid_len_words:
  "objid_ok x \<Longrightarrow> as_objid (ObjidVal x) (of_nat (4 * length x)) = Inr x"
proof -
  assume "objid_ok x"
  then have "4 * length x < 2 ^ 32" by (simp add: objid_ok_def MAX_OID_LEN_def)
  then have "unat (of_nat (4 * length x) :: u32) = 4 * length x" by (rule u32_unat_of_nat)
  then show ?thesis by (simp add: as_objid_def del: of_nat_mult)
qed

lemma rds_len: "length s \<le> 0xFFFF \<Longrightarrow> rds s 0 (unat (of_nat (length s) :: u32)) = Inr s"
  by (simp add: u32_unat_of_nat)

lemma val_payload_len:
  assumes "val_ok type v len"
  shows "length (val_payload type v) \<le> 0xFFFF"
  using assms
proof (cases rule: val_ok_cases)
  case (Int x)
  then show ?thesis using int_payload_len(2)[of x] by (simp add: val_payload_def)
next
  case (Uint x)
  then show ?thesis using uint_payload_len(2)[of 4 x] by (simp add: val_payload_def)
next
  case (U64 c)
  then show ?thesis using u64_payload_len[of type c] by (simp add: val_payload_def)
next
  case (Objid x)
  then show ?thesis using objid_payload_len[of x] by (simp add: val_payload_def)
next
  case (I64 c)
  then show ?thesis using i64_payload_len(2)[of c] by (simp add: val_payload_def)
qed (simp_all add: val_payload_def)

lemma build_var_val_tlv:
  assumes "val_ok type v len"
  shows "build_var_val dl type v len = build_tlv dl (val_tag type) (val_payload type v)"
  using assms
proof (cases rule: val_ok_cases)
  case (Objid x)
  then show ?thesis using objid_len_words[of x]
    by (simp add: build_var_val_def val_tag_def val_payload_def asn_build_objid_tlv)
qed (simp_all add: build_var_val_def val_tag_def val_payload_def as_integer_def as_counter64_def
      as_float_def as_double_def as_string_def
      asn_build_int_tlv asn_build_unsigned_int_tlv asn_build_unsigned_int64_tlv asn_build_string_tlv
      asn_build_null_tlv asn_build_bitstring_tlv asn_build_float_tlv asn_build_double_tlv
      asn_build_signed_int64_tlv)

lemma rbuild_bitstring_prepended:
  "valid_rbuf b \<Longrightarrow> prepended alloc r b (tlv type s) (asn_realloc_rbuild_bitstring alloc r type s b)"
  by (simp add: asn_realloc_rbuild_bitstring_def asn_realloc_rbuild_string_def[symmetric] rbuild_string_prepended)

lemma rbuild_var_val_prepended:
  assumes "val_ok type v len" "valid_rbuf b"
  shows "prepended alloc r b (val_enc type v) (rbuild_var_val alloc r type v len b)"
proof -
  have o: "objid_ok x \<Longrightarrow> as_objid (ObjidVal x) (4 * of_nat (length x)) = Inr x" for x
    using objid_len_words[of x] by simp
  have n: "prepended alloc r b (tlv type []) (asn_realloc_rbuild_null alloc r type b)"
    using null_pair.rbuild_prepended[OF TrueI assms(2)] .
  have f: "prepended alloc r b (tlv ASN_OPAQUE (opaque_wrap ASN_OPAQUE_FLOAT (be_bytes 4 x)))
      (asn_realloc_rbuild_float alloc r type x 4 b)" for x
    using float_pair.rbuild_prepended[OF TrueI assms(2), of alloc r "(type, x)"] by simp
  have d: "prepended alloc r b (tlv ASN_OPAQUE (opaque_wrap ASN_OPAQUE_DOUBLE (double_payload x)))
      (asn_realloc_rbuild_double alloc r type x 8 b)" for x
    using double_pair.rbuild_prepended[OF TrueI assms(2), of alloc r "(type, x)"] by simp
  note defs = val_enc_def rbuild_var_val_def val_tag_def val_payload_def as_integer_def
    as_counter64_def as_float_def as_double_def string_bytes_def
  from assms(1) show ?thesis
  proof (cases rule: val_ok_cases)
    case (Objid x)
    then show ?thesis using rbuild_objid_prepended[OF assms(2)] o[of x] by (simp add: defs)
  qed (use assms(2) n f d in \<open>simp_all add: defs rds_len rbuild_int_prepended
      rbuild_unsigned_int_prepended rbuild_unsigned_int64_prepended rbuild_string_prepended
      rbuild_bitstring_prepended rbuild_signed_int64_prepended\<close>)
qed

text \<open>The binding: name and value in a sequence; the reverse encoder uses the shortest length.\<close>

definition var_contents :: "variable_list \<Rightarrow> u8 list" where
  "var_contents vp = tlv ASN_OBJECT_ID (objid_payload (name vp)) @ val_enc (vtype vp) (val vp)"

definition var_ok :: "variable_list \<Rightarrow> bool" where
  "var_ok vp \<longleftrightarrow> objid_ok (name vp) \<and> val_ok (vtype vp) (val vp) (val_len vp)"

lemma rbuild_var_op_prepended:
  assumes "var_ok vp" "valid_rbuf b"
  shows "prepended alloc r b (tlv ASN_SEQUENCE_CONSTRUCTOR (var_contents vp)) (snmp_realloc_rbuild_var_op alloc r vp b)"
proof -
  have ok: "objid_ok (name vp)" "val_ok (vtype vp) (val vp) (val_len vp)" using assms(1) by (auto simp: var_ok_def)
  let ?v = "rbuild_var_val alloc r (vtype vp) (val vp) (val_len vp) b"
  have c: "prepended alloc r b (var_contents vp)
      (ebind ?v (\<lambda>b1. asn_realloc_rbuild_objid alloc r ASN_OBJECT_ID (name vp) b1))"
    unfolding var_contents_def
    by (rule prepended_bind[OF assms(2) rbuild_var_val_prepended[OF ok(2) assms(2)]])
      (rule rbuild_objid_prepended[OF _ ok(1)])
  have "prepended alloc r b (ber_header ASN_SEQUENCE_CONSTRUCTOR (of_nat (length (var_contents vp))) @ var_contents vp)
      (ebind (ebind ?v (\<lambda>b1. asn_realloc_rbuild_objid alloc r ASN_OBJECT_ID (name vp) b1))
        (\<lambda>b2. asn_realloc_rbuild_sequence alloc r ASN_SEQUENCE_CONSTRUCTOR (of_nat (offset b2 - offset b)) b2))"
    by (rule prepended_bind[OF assms(2) c]) (simp add: asn_realloc_rbuild_sequence_def rbuild_header_prepended)
  then show ?thesis by (simp add: snmp_realloc_rbuild_var_op_def tlv_def ebind_assoc)
qed

interpretation var_reverse: reverse_encoder snmp_realloc_rbuild_var_op
  "\<lambda>vp. tlv ASN_SEQUENCE_CONSTRUCTOR (var_contents vp)" var_ok
  by unfold_locales (rule rbuild_var_op_prepended)

section \<open>Decoding what was encoded\<close>

text \<open>
  Values that the decoder gives back: an Opaque that does not begin like one of
  the special types, a signed 64-bit integer that \<^const>\<open>asn_parse_signed_int64\<close>
  extends correctly.
\<close>

definition val_rt :: "u8 \<Rightarrow> vardata \<Rightarrow> bool" where
  "val_rt type v \<longleftrightarrow> (case v of
      StringVal s \<Rightarrow> type = ASN_OPAQUE \<longrightarrow> s \<noteq> [] \<and> hd s \<noteq> ASN_OPAQUE_TAG1
    | CounterVal c \<Rightarrow> type = ASN_OPAQUE_I64 \<longrightarrow>
        \<not> bit (u64_of c) 63 \<or> 5 \<le> min_octets 8 (u64_of c)
    | _ \<Rightarrow> True)"

lemma not_extension: "var_kind type \<noteq> KBad \<Longrightarrow> \<not> is_extension_id type \<or> type \<in> {ASN_OPAQUE_COUNTER64,
    ASN_OPAQUE_U64, ASN_OPAQUE_FLOAT, ASN_OPAQUE_DOUBLE, ASN_OPAQUE_I64}"
  by (auto simp: var_kind_def var_tag_defs is_extension_id_def split: if_splits)

lemma val_tag_plain: "var_kind type \<noteq> KBad \<Longrightarrow> \<not> is_extension_id (val_tag type)"
  by (auto simp: val_tag_def u64_tag_def is_opaque_u64_def var_kind_def var_tag_defs is_extension_id_def
      split: if_splits)

lemma parse_tl_parts:
  assumes "asn_parse_tl m p dl = Inr (type, q, n)"
  shows "rd m p = Inr type" "asn_parse_length m (p + 1) = Inr (q, n)" "\<not> asn_parse_length_check q p n dl"
  using assms by (auto simp: asn_parse_tl_def ebind_eq_Inr split: if_splits prod.splits)

lemma parse_header_tl:
  assumes "asn_parse_tl m p dl = Inr (type, q, n)" "\<not> is_extension_id type" "type \<noteq> ASN_OPAQUE"
  shows "asn_parse_header m p dl = Inr (q, n, type)"
  using parse_tl_parts[OF assms(1)] assms(2,3) by (simp add: asn_parse_header_def)

lemma opaque_not_extension: "\<not> is_extension_id ASN_OPAQUE"
  by (simp add: is_extension_id_def ASN_OPAQUE_def)

lemma parse_header_opaque_plain:
  assumes "asn_parse_tl m p dl = Inr (ASN_OPAQUE, q, n)" "rd m q = Inr b" "b \<noteq> ASN_OPAQUE_TAG1"
  shows "asn_parse_header m p dl = Inr (q, n, ASN_OPAQUE)"
  using parse_tl_parts[OF assms(1)] assms(2,3) opaque_not_extension by (simp add: asn_parse_header_def)

definition special_tag :: "u8 \<Rightarrow> bool" where
  "special_tag tag \<longleftrightarrow> tag = ASN_OPAQUE_COUNTER64 \<or> tag = ASN_OPAQUE_U64 \<or> tag = ASN_OPAQUE_FLOAT \<or>
     tag = ASN_OPAQUE_DOUBLE \<or> tag = ASN_OPAQUE_I64"

lemma parse_header_opaque_special:
  assumes "asn_parse_tl m p dl = Inr (ASN_OPAQUE, q, n)"
    and "asn_opaque_unwrap special_tag (\<lambda>_. True) m p dl ASN_OPAQUE q n = Inr (True, tag, q', n')"
  shows "asn_parse_header m p dl = Inr (q', n', tag)"
proof -
  from assms(2) have r: "rd m q = Inr ASN_OPAQUE_TAG1" "rd m (q + 1) = Inr tag" "special_tag tag"
      "asn_parse_length m (q + 2) = Inr (q', n')" "\<not> asn_parse_length_check q' p n' dl"
    by (auto simp: asn_opaque_unwrap_def ebind_eq_Inr split: if_splits prod.splits)
  then show ?thesis
    using parse_tl_parts[OF assms(1)] opaque_not_extension
    by (simp add: asn_parse_header_def special_tag_def)
qed

lemma parse_header_wrapped:
  assumes "bytes_at m p (tlv ASN_OPAQUE (opaque_wrap tag payload))"
    and "length (tlv ASN_OPAQUE (opaque_wrap tag payload)) \<le> unat dl" "special_tag tag" "length payload < 100"
  shows "asn_parse_header m p dl =
    Inr (p + length (tlv ASN_OPAQUE (opaque_wrap tag payload)) - length payload, of_nat (length payload), tag)"
proof -
  obtain q where q: "asn_parse_tl m p dl = Inr (ASN_OPAQUE, q, of_nat (length payload + 3))"
    "asn_opaque_unwrap special_tag (\<lambda>_. True) m p dl ASN_OPAQUE q (of_nat (length payload + 3)) =
      Inr (True, tag, q + 3, of_nat (length payload))"
    "q + 3 + length payload = p + length (tlv ASN_OPAQUE (opaque_wrap tag payload))"
    using opaque_object[OF assms(1,2), of special_tag "\<lambda>_. True"] assms(3,4) by blast
  have "p + length (tlv ASN_OPAQUE (opaque_wrap tag payload)) - length payload = q + 3" using q(3) by linarith
  then show ?thesis using parse_header_opaque_special[OF q(1,2)] by simp
qed

lemma parse_header_plain:
  assumes "bytes_at m p (tlv type payload)" "length payload \<le> 0xFFFF" "length (tlv type payload) \<le> unat dl"
    and "\<not> is_extension_id type" "type = ASN_OPAQUE \<Longrightarrow> payload \<noteq> [] \<and> hd payload \<noteq> ASN_OPAQUE_TAG1"
  shows "asn_parse_header m p dl =
    Inr (p + length (tlv type payload) - length payload, of_nat (length payload), type)"
proof (cases "type = ASN_OPAQUE")
  case True
  then show ?thesis
    using parse_header_opaque_plain parse_tl_tlv[OF assms(1-3)] rd_payload[OF tlv_payload_at[OF assms(1)]] assms(5)
    by blast
next
  case False
  then show ?thesis using parse_header_tl[OF parse_tl_tlv[OF assms(1-3)] assms(4)] by blast
qed

lemma u64_special:
  assumes "var_kind type = KU64"
  shows "val_enc type (CounterVal c) =
    (if is_opaque_u64 type then tlv ASN_OPAQUE (opaque_wrap type (uint_payload 8 (u64_of c)))
     else tlv type (uint_payload 8 (u64_of c)))"
  using assms by (simp add: val_enc_def val_tag_def val_payload_def u64_tag_def u64_payload_def)

lemma parse_header_value:
  assumes "val_ok type v len" "val_rt type v" "bytes_at m p (val_enc type v)" "length (val_enc type v) \<le> unat dl"
  shows "\<exists>q n. asn_parse_header m p dl = Inr (q, n, type) \<and> q + unat n = p + length (val_enc type v) \<and>
    (var_kind type \<in> {KString, KBits, KNull} \<longrightarrow> n = len)"
proof -
  have fin: ?thesis if "\<And>w. val_enc type v = w \<Longrightarrow> asn_parse_header m p dl =
      Inr (p + length w - k, of_nat k, type)" "k \<le> length (val_enc type v)" "k \<le> 0xFFFF"
      "var_kind type \<in> {KString, KBits, KNull} \<Longrightarrow> of_nat k = len" for k
    using that(1)[OF refl] that(2-4) by (auto simp: u32_unat_of_nat)
  have plain: ?thesis if "val_tag type = type" "type = ASN_OPAQUE \<Longrightarrow> val_payload type v \<noteq> [] \<and>
      hd (val_payload type v) \<noteq> ASN_OPAQUE_TAG1" "var_kind type \<noteq> KBad"
      "var_kind type \<in> {KString, KBits, KNull} \<Longrightarrow> of_nat (length (val_payload type v)) = len"
    using parse_header_plain[of m p type "val_payload type v" dl] that assms(3,4) val_payload_len[OF assms(1)]
      val_tag_plain[OF that(3)] tlv_length_bounds(1)[of "val_payload type v" type]
    by (intro fin[of "length (val_payload type v)"]) (auto simp: val_enc_def)
  have wrapped: ?thesis if "val_enc type v = tlv ASN_OPAQUE (opaque_wrap type pay)" "special_tag type"
      "length pay < 100" "var_kind type \<notin> {KString, KBits, KNull}" for pay
    using parse_header_wrapped[of m p type pay dl] that assms(3,4)
      tlv_length_bounds(1)[of "opaque_wrap type pay" ASN_OPAQUE]
    by (intro fin[of "length pay"]) auto
  from assms(1) show ?thesis
  proof (cases rule: val_ok_cases)
    case (U64 c)
    show ?thesis
    proof (cases "is_opaque_u64 type")
      case True
      then show ?thesis
        using U64 u64_special[OF U64(1)] uint_payload_len(2)[of 8 "u64_of c"]
        by (intro wrapped[of "uint_payload 8 (u64_of c)"]) (auto simp: special_tag_def is_opaque_u64_def)
    next
      case False
      then show ?thesis
        using U64 var_kind_KU64 by (intro plain) (auto simp: val_tag_def u64_tag_def)
    qed
  next
    case (String s)
    then show ?thesis using assms(2) by (intro plain) (auto simp: val_tag_def val_payload_def val_rt_def)
  next
    case (Float x)
    then have "type = ASN_OPAQUE_FLOAT" by (simp add: var_kind_special)
    with Float show ?thesis
      by (intro wrapped[of "be_bytes 4 x"]) (simp_all add: val_enc_def val_tag_def val_payload_def special_tag_def)
  next
    case (Double x)
    then have "type = ASN_OPAQUE_DOUBLE" by (simp add: var_kind_special)
    with Double show ?thesis
      by (intro wrapped[of "double_payload x"]) (simp_all add: val_enc_def val_tag_def val_payload_def special_tag_def)
  next
    case (I64 c)
    then have "type = ASN_OPAQUE_I64" by (simp add: var_kind_special)
    with I64 i64_payload_len(2)[of c] show ?thesis
      by (intro wrapped[of "i64_payload c"]) (simp_all add: val_enc_def val_tag_def val_payload_def special_tag_def)
  qed (intro plain; auto simp: val_tag_def val_payload_def var_kind_def var_tag_defs split: if_splits)+
qed

text \<open>
  A binding whose sequence header was read, by whatever form of length: the
  decoder finds the name and the value.
\<close>

definition var_rt :: "variable_list \<Rightarrow> bool" where
  "var_rt vp \<longleftrightarrow> var_ok vp \<and> val_rt (vtype vp) (val vp)"

definition name_enc :: "variable_list \<Rightarrow> u8 list" where
  "name_enc vp = tlv ASN_OBJECT_ID (objid_payload (name vp))"

lemma sequence_not_extension: "\<not> is_extension_id ASN_SEQUENCE_CONSTRUCTOR" "ASN_SEQUENCE_CONSTRUCTOR \<noteq> ASN_OPAQUE"
  by (simp_all add: is_extension_id_def asn_tag_defs)

lemma parse_sequence_tl:
  "asn_parse_tl m p dl = Inr (ASN_SEQUENCE_CONSTRUCTOR, q, n) \<Longrightarrow>
     asn_parse_sequence m p dl ASN_SEQUENCE_CONSTRUCTOR = Inr (q, n, ASN_SEQUENCE_CONSTRUCTOR)"
  using parse_header_tl[OF _ sequence_not_extension] by (simp add: asn_parse_sequence_def)

lemma parse_var_op_contents:
  assumes "var_rt vp" "length (name vp) \<le> unat cap"
    and tl: "asn_parse_tl m p dl = Inr (ASN_SEQUENCE_CONSTRUCTOR, q, n)" "unat n = length (var_contents vp)"
    and at: "bytes_at m q (var_contents vp)"
  shows "\<exists>vl. snmp_parse_var_op m p dl cap = Inr (q + unat n, dl - of_nat (q + unat n - p), name vp,
      vtype vp, vl, q + length (name_enc vp)) \<and>
    (var_kind (vtype vp) \<in> {KString, KBits, KNull} \<longrightarrow> vl = val_len vp)"
proof -
  let ?o = "tlv ASN_OBJECT_ID (objid_payload (name vp))" and ?v = "val_enc (vtype vp) (val vp)"
  have ok: "objid_ok (name vp)" "val_ok (vtype vp) (val vp) (val_len vp)" "val_rt (vtype vp) (val vp)"
    using assms(1) by (auto simp: var_rt_def var_ok_def)
  have at': "bytes_at m q ?o" "bytes_at m (q + length ?o) ?v"
    using at by (auto simp: var_contents_def bytes_at_append)
  have l: "length ?o + length ?v = unat n" using tl(2) by (simp add: var_contents_def)
  have o: "asn_parse_objid m q n cap = Inr (q + length ?o, n - of_nat (length ?o), ASN_OBJECT_ID, name vp)"
    using objid_codec.parse_enc[of "(ASN_OBJECT_ID, name vp)" cap m q n] ok(1) assms(2) at'(1) l by simp
  have lu: "unat (of_nat (length ?o) :: u32) = length ?o"
    using l unat_u32_bound[of n] by (intro u32_unat_of_nat) simp
  then have "unat (n - of_nat (length ?o)) = unat n - length ?o"
    using l by (simp add: unat_sub word_le_nat_alt)
  then have "length ?v \<le> unat (n - of_nat (length ?o))" using l by linarith
  then obtain q' n' where h: "asn_parse_header m (q + length ?o) (n - of_nat (length ?o)) = Inr (q', n', vtype vp)"
      "q' + unat n' = q + length ?o + length ?v" "var_kind (vtype vp) \<in> {KString, KBits, KNull} \<longrightarrow> n' = val_len vp"
    using parse_header_value[OF ok(2,3) at'(2)] by blast
  have e: "q' + unat n' = q + unat n" using h(2) l by simp
  show ?thesis
    using parse_sequence_tl[OF tl(1)] o h(1,3) e by (simp add: snmp_parse_var_op_def name_enc_def Let_def)
qed

text \<open>Every binding that is decoded consumes bytes of the list, and no more than there are.\<close>

lemma subid_loop_advance:
  "subid_loop m p len v = Inr (p', len', v', b) \<Longrightarrow> 0 < len \<Longrightarrow> p' + len' = p + len \<and> p < p'"
proof (induction m p len v rule: subid_loop.induct)
  case (1 m p len v)
  from "1.prems"(1) obtain b0 where b0: "rd m p = Inr b0"
    by (subst (asm) subid_loop.simps) (auto simp: ebind_eq_Inr)
  let ?v = "push_bit 7 v + ucast (b0 AND NOT 0x80)"
  show ?case
  proof (cases "b0 AND 0x80 \<noteq> 0 \<and> len - 1 > 0")
    case True
    then have "subid_loop m (p + 1) (len - 1) ?v = Inr (p', len', v', b)"
      using "1.prems"(1) b0 by (subst (asm) subid_loop.simps) simp
    then show ?thesis using "1.IH"[OF refl True] "1.prems"(2) True by auto
  next
    case False
    then show ?thesis
      using "1.prems" b0 by (subst (asm) subid_loop.simps) (auto split: if_splits)
  qed
qed

lemma objid_loop_advance:
  "objid_loop m p len cap i n = Inr (p', len', vs) \<Longrightarrow> p' + len' = p + len"
proof (induction m p len cap i n arbitrary: p' len' vs rule: objid_loop.induct)
  case (2 m p len cap i n)
  show ?case
  proof (cases "len = 0")
    case True
    then show ?thesis using "2.prems" by simp
  next
    case False
    from "2.prems" False obtain p1 len1 v b vs' where s: "subid_loop m p len 0 = Inr (p1, len1, v, b)"
      and r: "objid_loop m p1 len1 cap (i + 1) n = Inr (p', len', vs')"
      by (auto simp: ebind_eq_Inr split: if_splits prod.splits)
    have "\<not> (len1 = 0 \<and> b AND 0x80 \<noteq> 0)" "\<not> n \<le> i"
      using "2.prems" False s by (auto split: if_splits)
    then have "p' + len' = p1 + len1" by (intro "2.IH"[OF False _ _ r]) auto
    then show ?thesis using subid_loop_advance[OF s] False by simp
  qed
qed simp

lemma u32_sub_nat: "k \<le> unat (a :: u32) \<Longrightarrow> unat (a - of_nat k) = unat a - k"
proof -
  assume k: "k \<le> unat a"
  then have "unat (of_nat k :: u32) = k" using unat_u32_bound[of a] by (intro u32_unat_of_nat) simp
  then show ?thesis using k by (simp add: unat_sub word_le_nat_alt)
qed

lemma asn_parse_objid_advance:
  assumes "asn_parse_objid m p dl cap = Inr (p', dl', t, x)"
  shows "p < p'" "p' \<le> p + unat dl" "unat dl' = unat dl - (p' - p)"
proof -
  from assms obtain q n vs where tl: "asn_parse_tl m p dl = Inr (t, q, n)"
    and lp: "objid_loop m q (unat n) (unat (cap - 1)) 1 (unat cap) = Inr (p', 0, vs)"
    and dl': "dl' = dl - (n + of_nat (q - p))"
    by (auto simp: asn_parse_objid_def ebind_eq_Inr Let_def split: if_splits prod.splits)
  note b = asn_parse_tl_Inr[OF tl]
  have p': "p' = q + unat n" using objid_loop_advance[OF lp] by simp
  then show "p < p'" "p' \<le> p + unat dl" using b by auto
  have "p' - p = unat n + (q - p)" using p' b(1) by simp
  then have "of_nat (p' - p) = n + of_nat (q - p)" by simp
  then have "dl' = dl - of_nat (p' - p)" unfolding dl' by (simp only:)
  moreover have "p' - p \<le> unat dl" using p' b by linarith
  ultimately show "unat dl' = unat dl - (p' - p)" by (simp only: u32_sub_nat)
qed

lemma asn_parse_header_advance:
  assumes "asn_parse_header m p dl = Inr (q, n, t)"
  shows "p + 2 \<le> q" "q + unat n \<le> p + unat dl"
proof -
  have chk: "q' + unat n' \<le> p + unat dl"
    if "\<not> asn_parse_length_check q' p n' dl" "p \<le> q'" "q' \<le> p + 20" for q' n'
    using that asn_parse_length_check_iff[of q' p n' dl] by auto
  have len: "p' < q' \<and> q' \<le> p' + 5" if "asn_parse_length m p' = Inr (q', n')" for p' q' n'
    using asn_parse_length_Inr[OF that] by auto
  from assms obtain q1 n1 where h: "asn_parse_length m (p + 1) = Inr (q1, n1)" "\<not> asn_parse_length_check q1 p n1 dl"
    and c: "(q = q1 \<and> n = n1) \<or> (asn_parse_length m (q1 + 2) = Inr (q, n) \<and> \<not> asn_parse_length_check q p n dl)"
    by (auto simp: asn_parse_header_def ebind_eq_Inr split: if_splits prod.splits)
  from c show "p + 2 \<le> q" "q + unat n \<le> p + unat dl"
    using len[OF h(1)] len[of "q1 + 2" q n] chk[OF h(2)] chk[of q n] by auto
qed

lemma snmp_parse_var_op_advance:
  assumes "snmp_parse_var_op m p dl cap = Inr (p', dl', x)"
  shows "p < p'" "p' \<le> p + unat dl" "unat dl' = unat dl - (p' - p)"
proof -
  from assms obtain q n t q2 n2 t2 nm q3 n3 t3 where
    s: "asn_parse_sequence m p dl ASN_SEQUENCE_CONSTRUCTOR = Inr (q, n, t)"
    and o: "asn_parse_objid m q n cap = Inr (q2, n2, t2, nm)"
    and h: "asn_parse_header m q2 n2 = Inr (q3, n3, t3)"
    and p': "p' = q3 + unat n3" "dl' = dl - of_nat (p' - p)"
    by (auto simp: snmp_parse_var_op_def ebind_eq_Inr Let_def split: if_splits prod.splits)
  from s have s': "asn_parse_header m p dl = Inr (q, n, t)"
    by (auto simp: asn_parse_sequence_def ebind_eq_Inr split: if_splits prod.splits)
  note b = asn_parse_header_advance[OF s'] asn_parse_objid_advance[OF o] asn_parse_header_advance[OF h]
  show "p < p'" "p' \<le> p + unat dl" using b p'(1) by linarith+
  then show "unat dl' = unat dl - (p' - p)" using u32_sub_nat[of "p' - p" dl] p'(2) by simp
qed

end
