(* ===== verification/Pdu.thy ===== *)
theory Pdu
  imports Var_Op
begin

unbundle bit_operations_syntax

text \<open>
  Protocol data units: the structure \<^verbatim>\<open>netsnmp_pdu\<close> of
  \<^verbatim>\<open>include/net-snmp/types.h\<close> (a pointer and its length are one list; the fields
  of the transport, of AgentX and the opaque security state are left out) and, of
  \<^verbatim>\<open>snmplib/snmp_api.c\<close>, \<^verbatim>\<open>snmp_pdu_parse\<close>, \<^verbatim>\<open>snmp_pdu_build\<close>,
  \<^verbatim>\<open>snmp_pdu_realloc_rbuild\<close> and \<^verbatim>\<open>snmp_parse_version\<close>.
\<close>

section \<open>The structure\<close>

definition SNMP_MSG_GET :: u32 where "SNMP_MSG_GET = 0xA0"
definition SNMP_MSG_GETNEXT :: u32 where "SNMP_MSG_GETNEXT = 0xA1"
definition SNMP_MSG_RESPONSE :: u32 where "SNMP_MSG_RESPONSE = 0xA2"
definition SNMP_MSG_SET :: u32 where "SNMP_MSG_SET = 0xA3"
definition SNMP_MSG_TRAP :: u32 where "SNMP_MSG_TRAP = 0xA4"
definition SNMP_MSG_GETBULK :: u32 where "SNMP_MSG_GETBULK = 0xA5"
definition SNMP_MSG_INFORM :: u32 where "SNMP_MSG_INFORM = 0xA6"
definition SNMP_MSG_TRAP2 :: u32 where "SNMP_MSG_TRAP2 = 0xA7"
definition SNMP_MSG_REPORT :: u32 where "SNMP_MSG_REPORT = 0xA8"
definition UCD_MSG_FLAG_RESPONSE_PDU :: u32 where "UCD_MSG_FLAG_RESPONSE_PDU = 0x100"
definition MAX_PACKET_LENGTH :: u32 where "MAX_PACKET_LENGTH = 0x7fffffff"

lemmas msg_defs = SNMP_MSG_GET_def SNMP_MSG_GETNEXT_def SNMP_MSG_RESPONSE_def SNMP_MSG_SET_def
  SNMP_MSG_TRAP_def SNMP_MSG_GETBULK_def SNMP_MSG_INFORM_def SNMP_MSG_TRAP2_def SNMP_MSG_REPORT_def

record pdu =
  version :: u32
  command :: u32
  reqid :: u32
  msgid :: u32
  transid :: u32
  sessid :: u32
  errstat :: u32
  errindex :: u32
  timestamp :: u32
  flags :: u32
  securityModel :: u32
  securityLevel :: u32
  msgParseModel :: u32
  variables :: "variable_list list"
  community :: "u8 list"
  enterprise :: oid
  trap_type :: u32
  specific_type :: u32
  agent_addr :: "u8 list"
  contextEngineID :: "u8 list"
  contextName :: "u8 list"
  securityEngineID :: "u8 list"
  securityName :: "u8 list"

section \<open>Decoding\<close>

text \<open>
  \<^verbatim>\<open>sizeof(netsnmp_variable_list)\<close> of the 32-bit build, \<^verbatim>\<open>sizeof(vp->buf)\<close> and
  \<^verbatim>\<open>sizeof(vp->name_loc)\<close>.
\<close>

definition SIZEOF_VARIABLE_LIST :: nat where "SIZEOF_VARIABLE_LIST = 588"
definition SIZEOF_VAR_BUF :: u32 where "SIZEOF_VAR_BUF = 40"
definition SIZEOF_NAME_LOC :: nat where "SIZEOF_NAME_LOC = 4 * MAX_OID_LEN"

text \<open>Whether \<^verbatim>\<open>snmp_set_var_objid\<close> (\<^verbatim>\<open>snmp_client.c\<close>) returns 1 for a fresh variable.\<close>

definition snmp_set_var_objid :: "(nat \<Rightarrow> bool) \<Rightarrow> oid \<Rightarrow> bool" where
  "snmp_set_var_objid alloc objid =
     (let len = 4 * length objid in if len \<le> SIZEOF_NAME_LOC then False else \<not> alloc len)"

text \<open>
  The result of a value decoder is not looked at: when it fails, the value
  keeps the memory it had, and \<^verbatim>\<open>vp->type\<close> and \<^verbatim>\<open>vp->val_len\<close> what the decoder left
  there.
\<close>

definition value_or :: "asn_error + 'a \<Rightarrow> ('a \<Rightarrow> 'b) \<Rightarrow> 'b \<Rightarrow> asn_error + 'b" where
  "value_or x f d = (case x of Inr v \<Rightarrow> Inr (f v) | Inl OutOfBounds \<Rightarrow> Inl OutOfBounds | Inl _ \<Rightarrow> Inr d)"

definition type_left :: "(u8 \<Rightarrow> bool) \<Rightarrow> (u32 \<Rightarrow> bool) \<Rightarrow> u8 list \<Rightarrow> nat \<Rightarrow> u8 \<Rightarrow> u8" where
  "type_left tags lenok m p type =
     (case asn_parse_tl m p MAX_PACKET_LENGTH of
        Inl _ \<Rightarrow> (case rd m p of Inr t \<Rightarrow> t | Inl _ \<Rightarrow> type)
      | Inr (t, q, n) \<Rightarrow> (case asn_opaque_unwrap tags lenok m p MAX_PACKET_LENGTH t q n of
            Inl _ \<Rightarrow> t | Inr (_, t', _) \<Rightarrow> t'))"

text \<open>What a failing \<^verbatim>\<open>asn_parse_objid\<close> leaves in \<^verbatim>\<open>*objidlength\<close>, which was \<^verbatim>\<open>MAX_OID_LEN\<close>.\<close>

fun objid_cap_left :: "u8 list \<Rightarrow> nat \<Rightarrow> nat \<Rightarrow> nat \<Rightarrow> nat" where
  "objid_cap_left m bufp len 0 = MAX_OID_LEN"
| "objid_cap_left m bufp len (Suc cap) =
     (case subid_loop m bufp len 0 of
        Inl _ \<Rightarrow> cap
      | Inr (bufp', len', _, last_byte) \<Rightarrow>
          if len' = 0 then cap else objid_cap_left m bufp' len' cap)"

definition objid_len_left :: "u8 list \<Rightarrow> nat \<Rightarrow> nat" where
  "objid_len_left m p =
     (case asn_parse_tl m p MAX_PACKET_LENGTH of
        Inl _ \<Rightarrow> MAX_OID_LEN
      | Inr (_, q, n) \<Rightarrow> objid_cap_left m q (unat n) (MAX_OID_LEN - 1))"

text \<open>
  The switch on \<^verbatim>\<open>vp->type\<close>: type, value and length of the variable, and whether
  the type is unknown.
\<close>

definition parse_var_val ::
  "(nat \<Rightarrow> bool) \<Rightarrow> u8 list \<Rightarrow> nat \<Rightarrow> u8 \<Rightarrow> u32 \<Rightarrow> asn_error + u8 \<times> vardata \<times> u32 \<times> bool" where
  "parse_var_val alloc m p type len = (case var_kind type of
      KInt \<Rightarrow> value_or (asn_parse_int m p MAX_PACKET_LENGTH 4)
        (\<lambda>(_, _, t, x). (t, IntegerVal x, 4, False)) (type, Uninit, 4, False)
    | KUint \<Rightarrow> value_or (asn_parse_unsigned_int m p MAX_PACKET_LENGTH 4)
        (\<lambda>(_, _, t, x). (t, IntegerVal x, 4, False)) (type, Uninit, 4, False)
    | KU64 \<Rightarrow> value_or (asn_parse_unsigned_int64 m p MAX_PACKET_LENGTH 8)
        (\<lambda>(_, _, t, c). (t, CounterVal c, 8, False))
        (type_left (\<lambda>t. t = ASN_OPAQUE_COUNTER64 \<or> t = ASN_OPAQUE_U64) (\<lambda>l. l \<le> 12) m p type, Uninit, 8, False)
    | KFloat \<Rightarrow> value_or (asn_parse_float m p MAX_PACKET_LENGTH 4)
        (\<lambda>(_, _, t, x). (t, FloatVal x, 4, False))
        (type_left (\<lambda>t. t = ASN_OPAQUE_FLOAT) (\<lambda>l. l = 7) m p type, Uninit, 4, False)
    | KDouble \<Rightarrow> value_or (asn_parse_double m p MAX_PACKET_LENGTH 8)
        (\<lambda>(_, _, t, x). (t, DoubleVal x, 8, False))
        (type_left (\<lambda>t. t = ASN_OPAQUE_DOUBLE) (\<lambda>l. l = 11) m p type, Uninit, 8, False)
    | KI64 \<Rightarrow> value_or (asn_parse_signed_int64 m p MAX_PACKET_LENGTH 8)
        (\<lambda>(_, _, t, c). (t, CounterVal c, 8, False))
        (type_left (\<lambda>t. t = ASN_OPAQUE_I64) (\<lambda>l. l \<le> 12) m p type, Uninit, 8, False)
    | KString \<Rightarrow>
        if \<not> len < SIZEOF_VAR_BUF \<and> \<not> alloc (unat len) then Inl MallocFailed
        else value_or (asn_parse_string m p MAX_PACKET_LENGTH len)
          (\<lambda>(_, _, t, s, l). (t, StringVal s, l, False)) (type, Uninit, len, False)
    | KObjid \<Rightarrow>
        (case asn_parse_objid m p MAX_PACKET_LENGTH (of_nat MAX_OID_LEN) of
           Inl OutOfBounds \<Rightarrow> Inl OutOfBounds
         | Inl _ \<Rightarrow> if alloc (4 * objid_len_left m p)
             then Inr (type, Uninit, of_nat (4 * objid_len_left m p), False) else Inl MallocFailed
         | Inr (_, _, t, x) \<Rightarrow> if alloc (4 * length x)
             then Inr (t, ObjidVal x, of_nat (4 * length x), False) else Inl MallocFailed)
    | KNull \<Rightarrow> Inr (type, NoVal, len, False)
    | KBits \<Rightarrow>
        if \<not> alloc (unat len) then Inl MallocFailed
        else value_or (asn_parse_bitstring m p MAX_PACKET_LENGTH len)
          (\<lambda>(_, _, t, s, l). (t, StringVal s, l, False)) (type, Uninit, len, False)
    | KBad \<Rightarrow> Inr (type, NoVal, len, True))"

text \<open>The loop \<^verbatim>\<open>while ((int) *length > 0)\<close> over the bindings.\<close>

function parse_varbinds ::
  "(nat \<Rightarrow> bool) \<Rightarrow> u8 list \<Rightarrow> nat \<Rightarrow> u32 \<Rightarrow> asn_error + variable_list list \<times> bool" where
  "parse_varbinds alloc m data len =
     (if sint len > 0 then
        if \<not> alloc SIZEOF_VARIABLE_LIST then Inl MallocFailed
        else case snmp_parse_var_op m data len (of_nat MAX_OID_LEN) of
          Inl e \<Rightarrow> Inl e
        | Inr (data', len', nm, t, vl, p) \<Rightarrow>
            if snmp_set_var_objid alloc nm then Inl MallocFailed
            else (case parse_var_val alloc m p t vl of
                Inl e \<Rightarrow> Inl e
              | Inr (t', v, vl', bad) \<Rightarrow>
                  (case parse_varbinds alloc m data' len' of
                      Inl e \<Rightarrow> Inl e
                    | Inr (vps, bad') \<Rightarrow>
                        Inr (\<lparr>name = nm, vtype = t', val = v, val_len = vl'\<rparr> # vps, bad \<or> bad')))
      else Inr ([], False))"
  by pat_completeness auto
termination
proof (relation "measure (\<lambda>(_, _, _, len). unat len)", goal_cases)
  case (2 alloc m data len res data' r1 len' r2 nm r3 t r4 vl p)
  then show ?case
    using snmp_parse_var_op_advance[of m data len "of_nat MAX_OID_LEN" data' len'] by auto
qed simp

declare parse_varbinds.simps [simp del]

text \<open>The fields of a version 1 trap and of the other PDUs before the bindings.\<close>

definition parse_trap_fields ::
  "(nat \<Rightarrow> bool) \<Rightarrow> pdu \<Rightarrow> u8 list \<Rightarrow> nat \<Rightarrow> u32 \<Rightarrow> asn_error + nat \<times> u32 \<times> pdu" where
  "parse_trap_fields alloc pdu m data len =
     ebind (asn_parse_objid m data len (of_nat MAX_OID_LEN)) (\<lambda>(data, len, _, ent).
     if \<not> alloc (4 * length ent) then Inl MallocFailed
     else ebind (asn_parse_string m data len 4) (\<lambda>(data, len, _, addr, _).
     ebind (asn_parse_int m data len 4) (\<lambda>(data, len, _, generic).
     ebind (asn_parse_int m data len 4) (\<lambda>(data, len, _, specific).
     ebind (asn_parse_unsigned_int m data len 4) (\<lambda>(data, len, _, ts).
     Inr (data, len, pdu\<lparr>enterprise := ent, agent_addr := addr @ drop (length addr) (agent_addr pdu),
       trap_type := generic, specific_type := specific, timestamp := ts\<rparr>))))))"

definition parse_request_fields ::
  "pdu \<Rightarrow> u8 list \<Rightarrow> nat \<Rightarrow> u32 \<Rightarrow> asn_error + nat \<times> u32 \<times> pdu" where
  "parse_request_fields pdu m data len =
     ebind (asn_parse_int m data len 4) (\<lambda>(data, len, _, rid).
     ebind (asn_parse_int m data len 4) (\<lambda>(data, len, _, es).
     ebind (asn_parse_int m data len 4) (\<lambda>(data, len, _, ei).
     Inr (data, len, pdu\<lparr>reqid := rid, errstat := es, errindex := ei\<rparr>))))"

definition is_request :: "u32 \<Rightarrow> bool" where
  "is_request c \<longleftrightarrow> c = SNMP_MSG_RESPONSE \<or> c = SNMP_MSG_REPORT \<or> c = SNMP_MSG_GET \<or> c = SNMP_MSG_GETNEXT \<or>
     c = SNMP_MSG_GETBULK \<or> c = SNMP_MSG_TRAP2 \<or> c = SNMP_MSG_INFORM \<or> c = SNMP_MSG_SET"

text \<open>
  \<^verbatim>\<open>snmp_pdu_parse\<close>. An early \<^verbatim>\<open>return -1\<close> is \<open>Inl\<close>; else the PDU and the return
  value, which is -1 when a binding had an unknown type.
\<close>

definition snmp_pdu_parse ::
  "(nat \<Rightarrow> bool) \<Rightarrow> pdu \<Rightarrow> u8 list \<Rightarrow> nat \<Rightarrow> u32 \<Rightarrow> asn_error + pdu \<times> int" where
  "snmp_pdu_parse alloc pdu m data len =
     ebind (asn_parse_header m data len) (\<lambda>(data, len, msg_type).
     let c = ucast msg_type;
         pdu = pdu\<lparr>command := c, flags := flags pdu AND NOT UCD_MSG_FLAG_RESPONSE_PDU\<rparr>
     in
     ebind (if c = SNMP_MSG_TRAP then parse_trap_fields alloc pdu m data len
            else if is_request c then
              parse_request_fields
                (if c = SNMP_MSG_RESPONSE \<or> c = SNMP_MSG_REPORT
                 then pdu\<lparr>flags := flags pdu OR UCD_MSG_FLAG_RESPONSE_PDU\<rparr> else pdu) m data len
            else Inl BadPduType) (\<lambda>(data, len, pdu).
     ebind (asn_parse_sequence m data len ASN_SEQUENCE_CONSTRUCTOR) (\<lambda>(data, len, _).
     ebind (parse_varbinds alloc m data len) (\<lambda>(vps, bad).
     Inr (if vps = [] then pdu else pdu\<lparr>variables := vps\<rparr>, if bad then - 1 else 0)))))"

text \<open>\<^verbatim>\<open>snmp_parse_version\<close>: -1 is \<^verbatim>\<open>SNMPERR_BAD_VERSION\<close>'s role here, \<open>bad\<close>.\<close>

definition snmp_parse_version :: "u8 list \<Rightarrow> nat \<Rightarrow> u32 \<Rightarrow> asn_error + int" where
  "snmp_parse_version m data len =
     (case asn_parse_sequence m data len ASN_SEQUENCE_CONSTRUCTOR of
        Inl OutOfBounds \<Rightarrow> Inl OutOfBounds
      | Inl _ \<Rightarrow> Inr (- 14)
      | Inr (data, len, _) \<Rightarrow> (case asn_parse_int m data len 4 of
            Inl OutOfBounds \<Rightarrow> Inl OutOfBounds
          | Inl _ \<Rightarrow> Inr (- 14)
          | Inr (_, _, t, v) \<Rightarrow> if t \<noteq> ASN_INTEGER then Inr (- 14) else Inr (sint v)))"

section \<open>Reverse encoding\<close>

definition VPCACHE_SIZE :: nat where "VPCACHE_SIZE = 50"

text \<open>
  The loop that fills \<^verbatim>\<open>vpcache\<close> from its end with the variables at positions
  \<open>k\<close>, \<open>k + 1\<close>, ... of the list and starts again at the end when it is full: the
  cache, \<^verbatim>\<open>final\<close> and \<^verbatim>\<open>wrapped\<close>.
\<close>

fun vp_fill :: "nat \<Rightarrow> nat \<Rightarrow> int \<Rightarrow> bool \<Rightarrow> nat option list \<Rightarrow> nat option list \<times> int \<times> bool" where
  "vp_fill k 0 i wrapped cache = (cache, i + 1, wrapped)"
| "vp_fill k (Suc n) i wrapped cache =
     (let (i', wrapped') = (if i < 0 then (int VPCACHE_SIZE - 1, True) else (i, wrapped)) in
      vp_fill (k + 1) n (i' - 1) wrapped' (cache[nat i' := Some k]))"

fun rbuild_vps ::
  "(nat \<Rightarrow> bool) \<Rightarrow> variable_list list \<Rightarrow> nat option list \<Rightarrow> rbuf \<Rightarrow> asn_error + rbuf" where
  "rbuild_vps alloc vars [] b = Inr b"
| "rbuild_vps alloc vars (None # ps) b = Inl OutOfBounds"
| "rbuild_vps alloc vars (Some k # ps) b =
     ebind (snmp_realloc_rbuild_var_op alloc True (vars ! k) b) (rbuild_vps alloc vars ps)"

text \<open>After \<open>k\<close> variables the cache holds the last fifty of them, the latest at \<^verbatim>\<open>i + 1\<close>.\<close>

definition vp_inv :: "nat \<Rightarrow> int \<Rightarrow> bool \<Rightarrow> nat option list \<Rightarrow> bool" where
  "vp_inv k i w cache \<longleftrightarrow> length cache = VPCACHE_SIZE \<and> - 1 \<le> i \<and> i < int VPCACHE_SIZE \<and>
     (\<not> w \<longrightarrow> int k + i + 1 = int VPCACHE_SIZE) \<and> (w \<longrightarrow> VPCACHE_SIZE < k) \<and>
     drop (nat (i + 1)) cache @ (if w then take (nat (i + 1)) cache else []) = map Some (rev [k - VPCACHE_SIZE..<k])"

lemma rev_upt_window:
  "VPCACHE_SIZE \<le> k \<Longrightarrow>
     map Some (rev [k + 1 - VPCACHE_SIZE..<k + 1]) = Some k # butlast (map Some (rev [k - VPCACHE_SIZE..<k]))"
proof -
  assume k: "VPCACHE_SIZE \<le> k"
  then have "k - VPCACHE_SIZE < k" "k + 1 - VPCACHE_SIZE = Suc (k - VPCACHE_SIZE)"
    by (auto simp: VPCACHE_SIZE_def)
  then have "[k - VPCACHE_SIZE..<k] = (k - VPCACHE_SIZE) # [k + 1 - VPCACHE_SIZE..<k]"
    by (simp add: upt_conv_Cons)
  moreover have "[k + 1 - VPCACHE_SIZE..<k + 1] = [k + 1 - VPCACHE_SIZE..<k] @ [k]"
    using k by (simp add: VPCACHE_SIZE_def)
  ultimately show ?thesis by simp
qed

lemma vp_inv_step:
  assumes inv: "vp_inv k i w cache" and i': "i' = (if i < 0 then int VPCACHE_SIZE - 1 else i)"
    and w': "w' = (if i < 0 then True else w)"
  shows "vp_inv (k + 1) (i' - 1) w' (cache[nat i' := Some k])"
proof -
  have len: "length cache = VPCACHE_SIZE" and rng: "- 1 \<le> i" "i < int VPCACHE_SIZE"
    and nw: "\<not> w \<Longrightarrow> int k + i + 1 = int VPCACHE_SIZE" and kw: "w \<Longrightarrow> VPCACHE_SIZE < k"
    and order: "drop (nat (i + 1)) cache @ (if w then take (nat (i + 1)) cache else []) =
      map Some (rev [k - VPCACHE_SIZE..<k])"
    using inv by (auto simp: vp_inv_def)
  have V: "VPCACHE_SIZE = 50" by (simp add: VPCACHE_SIZE_def)
  show ?thesis
  proof (cases "i < 0")
    case True
    then have i: "i = - 1" using rng by simp
    then have c: "cache = map Some (rev [k - VPCACHE_SIZE..<k])" using order by (cases w) simp_all
    have k: "VPCACHE_SIZE \<le> k" using nw kw i by (cases w) auto
    have "drop 49 (cache[49 := Some k]) = [Some k]"
      using len V by (simp add: Cons_nth_drop_Suc[symmetric])
    moreover have "take 49 (cache[49 := Some k]) = butlast cache"
      using len by (simp add: butlast_conv_take V)
    ultimately have "drop 49 (cache[49 := Some k]) @ take 49 (cache[49 := Some k]) =
        map Some (rev [k + 1 - VPCACHE_SIZE..<k + 1])"
      unfolding rev_upt_window[OF k] using c by simp
    moreover have "i' = 49" "w'" using True i' w' V by auto
    ultimately show ?thesis using len k V unfolding vp_inv_def by simp
  next
    case False
    define f where "f = nat i"
    have f: "i = int f" "f < VPCACHE_SIZE" using False rng by (auto simp: f_def)
    have d: "drop f (cache[f := Some k]) = Some k # drop (Suc f) cache"
      using f len by (simp add: Cons_nth_drop_Suc[symmetric])
    have t: "take (Suc f) cache = take f cache @ [cache ! f]"
      using f len by (simp add: take_Suc_conv_app_nth)
    show ?thesis
    proof (cases w)
      case True
      have "drop (Suc f) cache @ take f cache = butlast (map Some (rev [k - VPCACHE_SIZE..<k]))"
        using order True f t by (simp add: nat_add_distrib butlast_append flip: order)
      then show ?thesis
        using rev_upt_window[of k] kw[OF True] d f i' w' False True len by (simp add: vp_inv_def)
    next
      case False': False
      have "k < VPCACHE_SIZE" using nw[OF False'] f by simp
      then show ?thesis
        using order nw[OF False'] d f i' w' False False' len by (auto simp: vp_inv_def nat_add_distrib)
    qed
  qed
qed

lemma vp_inv_init: "length cache = VPCACHE_SIZE \<Longrightarrow> vp_inv 0 (int VPCACHE_SIZE - 1) False cache"
  by (simp add: vp_inv_def VPCACHE_SIZE_def)

lemma vp_fill_inv:
  "vp_inv k i w cache \<Longrightarrow> vp_fill k n i w cache = (cache', final, w') \<Longrightarrow> vp_inv (k + n) (final - 1) w' cache'"
proof (induction k n i w cache rule: vp_fill.induct)
  case (2 k n i w cache)
  let ?i = "if i < 0 then int VPCACHE_SIZE - 1 else i" and ?w = "if i < 0 then True else w"
  have "vp_fill (k + 1) n (?i - 1) ?w (cache[nat ?i := Some k]) = (cache', final, w')"
    using "2.prems"(2) by (simp split: if_splits)
  then have "vp_inv (k + 1 + n) (final - 1) w' cache'"
    by (intro "2.IH"[of "(?i, ?w)" ?i ?w] vp_inv_step[OF "2.prems"(1)]) auto
  then show ?case by simp
qed auto

lemma vp_fill_order:
  assumes "vp_fill 0 n (int VPCACHE_SIZE - 1) False cache = (cache', final, w)" "length cache = VPCACHE_SIZE"
  shows "map ((!) cache') [nat final..<VPCACHE_SIZE] @ (if w then map ((!) cache') [0..<nat final] else []) =
      map Some (rev [n - VPCACHE_SIZE..<n])"
    and "length cache' = VPCACHE_SIZE" "w \<longleftrightarrow> VPCACHE_SIZE < n" "0 \<le> final" "final \<le> int VPCACHE_SIZE"
proof -
  have inv: "vp_inv n (final - 1) w cache'" using vp_fill_inv[OF vp_inv_init[OF assms(2)] assms(1)] by simp
  show l: "length cache' = VPCACHE_SIZE" and "w \<longleftrightarrow> VPCACHE_SIZE < n" "0 \<le> final" "final \<le> int VPCACHE_SIZE"
    using inv by (auto simp: vp_inv_def)
  then have "nat final \<le> VPCACHE_SIZE" by simp
  then have "map ((!) cache') [nat final..<VPCACHE_SIZE] = drop (nat final) cache'"
      "map ((!) cache') [0..<nat final] = take (nat final) cache'"
    using l by (auto simp: list_eq_iff_nth_eq)
  then show "map ((!) cache') [nat final..<VPCACHE_SIZE] @ (if w then map ((!) cache') [0..<nat final] else []) =
      map Some (rev [n - VPCACHE_SIZE..<n])"
    using inv by (cases w) (simp_all add: vp_inv_def)
qed

text \<open>The variable at which a wrapped cache stopped: the first one already encoded.\<close>

definition vp_stop :: "nat option list \<Rightarrow> int \<Rightarrow> nat option" where
  "vp_stop cache final = (if final = 0 then cache ! (VPCACHE_SIZE - 1) else cache ! (nat final - 1))"

lemma vp_stop_position:
  assumes "vp_fill 0 n (int VPCACHE_SIZE - 1) False cache = (cache', final, True)" "length cache = VPCACHE_SIZE"
  shows "vp_stop cache' final = Some (n - VPCACHE_SIZE)"
proof -
  note o = vp_fill_order[OF assms]
  have n: "VPCACHE_SIZE < n" using o(3) by simp
  let ?l = "map ((!) cache') [nat final..<VPCACHE_SIZE] @ map ((!) cache') [0..<nat final]"
  have "last ?l = last (map Some (rev [n - VPCACHE_SIZE..<n]))" using o(1) by simp
  also have "\<dots> = Some (n - VPCACHE_SIZE)"
    using n by (simp add: last_map last_rev VPCACHE_SIZE_def)
  finally have "last ?l = Some (n - VPCACHE_SIZE)" .
  moreover have "last ?l = vp_stop cache' final"
    using o(4,5) by (cases "final = 0") (auto simp: vp_stop_def last_append last_map VPCACHE_SIZE_def)
  ultimately show ?thesis by simp
qed

lemma vp_stop_less:
  assumes "vp_fill 0 n (int VPCACHE_SIZE - 1) False cache = (cache', final, True)" "length cache = VPCACHE_SIZE"
    and "vp_stop cache' final = Some k"
  shows "k < n"
  using vp_stop_position[OF assms(1,2)] vp_fill_order(3)[OF assms(1,2)] assms(3)
  by (simp add: VPCACHE_SIZE_def)

text \<open>
  The \<^verbatim>\<open>do ... while (notdone)\<close> loop over the first \<open>n\<close> variables: the last fifty,
  backwards, and then those before them.
\<close>

function rbuild_varlist ::
  "(nat \<Rightarrow> bool) \<Rightarrow> variable_list list \<Rightarrow> nat \<Rightarrow> nat option list \<Rightarrow> rbuf \<Rightarrow> asn_error + rbuf" where
  "rbuild_varlist alloc vars n cache b =
     (if length cache \<noteq> VPCACHE_SIZE then Inl OutOfBounds
      else case vp_fill 0 n (int VPCACHE_SIZE - 1) False cache of (cache', final, wrapped) \<Rightarrow>
        (case rbuild_vps alloc vars (map ((!) cache') [nat final..<VPCACHE_SIZE]) b of
           Inl e \<Rightarrow> Inl e
         | Inr b1 \<Rightarrow>
             if wrapped then
               (case rbuild_vps alloc vars (map ((!) cache') [0..<nat final]) b1 of
                  Inl e \<Rightarrow> Inl e
                | Inr b2 \<Rightarrow>
                    (case vp_stop cache' final of
                       None \<Rightarrow> Inl OutOfBounds
                     | Some k \<Rightarrow> rbuild_varlist alloc vars k cache' b2))
             else Inr b1))"
  by pat_completeness auto
termination
  by (relation "measure (\<lambda>(_, _, n, _). n)") (auto dest: vp_stop_less[OF sym])

declare rbuild_varlist.simps [simp del]

definition rbuild_trap_fields :: "(nat \<Rightarrow> bool) \<Rightarrow> pdu \<Rightarrow> rbuf \<Rightarrow> asn_error + rbuf" where
  "rbuild_trap_fields alloc pdu b =
     ebind (asn_realloc_rbuild_unsigned_int alloc True ASN_TIMETICKS (timestamp pdu) 4 b) (\<lambda>b.
     ebind (asn_realloc_rbuild_int alloc True ASN_INTEGER (specific_type pdu) 4 b) (\<lambda>b.
     ebind (asn_realloc_rbuild_int alloc True ASN_INTEGER (trap_type pdu) 4 b) (\<lambda>b.
     ebind (asn_realloc_rbuild_string alloc True ASN_IPADDRESS (take 4 (agent_addr pdu)) b) (\<lambda>b.
     asn_realloc_rbuild_objid alloc True ASN_OBJECT_ID (enterprise pdu) b))))"

definition rbuild_request_fields :: "(nat \<Rightarrow> bool) \<Rightarrow> pdu \<Rightarrow> rbuf \<Rightarrow> asn_error + rbuf" where
  "rbuild_request_fields alloc pdu b =
     ebind (asn_realloc_rbuild_int alloc True ASN_INTEGER (errindex pdu) 4 b) (\<lambda>b.
     ebind (asn_realloc_rbuild_int alloc True ASN_INTEGER (errstat pdu) 4 b) (\<lambda>b.
     asn_realloc_rbuild_int alloc True ASN_INTEGER (reqid pdu) 4 b))"

text \<open>
  \<^verbatim>\<open>snmp_pdu_realloc_rbuild\<close>. The code does not look at the result of building the
  header of the binding list. Since \<open>alloc\<close> depends on the size alone, the next
  field then asks for the same size and fails, so that the function returns 0
  as it does here.
\<close>

definition snmp_pdu_realloc_rbuild :: "(nat \<Rightarrow> bool) \<Rightarrow> pdu \<Rightarrow> rbuf \<Rightarrow> asn_error + rbuf" where
  "snmp_pdu_realloc_rbuild alloc pdu b =
     ebind (rbuild_varlist alloc (variables pdu) (length (variables pdu)) (replicate VPCACHE_SIZE None) b) (\<lambda>b1.
     ebind (asn_realloc_rbuild_sequence alloc True ASN_SEQUENCE_CONSTRUCTOR (of_nat (offset b1 - offset b)) b1) (\<lambda>b2.
     ebind (if command pdu \<noteq> SNMP_MSG_TRAP then rbuild_request_fields alloc pdu b2
            else rbuild_trap_fields alloc pdu b2) (\<lambda>b3.
     asn_realloc_rbuild_sequence alloc True (ucast (command pdu)) (of_nat (offset b3 - offset b)) b3)))"

section \<open>What the reverse encoder puts in front\<close>

definition var_enc :: "variable_list \<Rightarrow> u8 list" where
  "var_enc vp = tlv ASN_SEQUENCE_CONSTRUCTOR (var_contents vp)"

definition fields_enc :: "pdu \<Rightarrow> u8 list" where
  "fields_enc pdu =
     (if command pdu \<noteq> SNMP_MSG_TRAP then
        tlv ASN_INTEGER (int_payload (reqid pdu)) @ tlv ASN_INTEGER (int_payload (errstat pdu)) @
        tlv ASN_INTEGER (int_payload (errindex pdu))
      else
        tlv ASN_OBJECT_ID (objid_payload (enterprise pdu)) @ tlv ASN_IPADDRESS (take 4 (agent_addr pdu)) @
        tlv ASN_INTEGER (int_payload (trap_type pdu)) @ tlv ASN_INTEGER (int_payload (specific_type pdu)) @
        tlv ASN_TIMETICKS (uint_payload 4 (timestamp pdu)))"

definition varlist_enc :: "variable_list list \<Rightarrow> u8 list" where
  "varlist_enc vps = concat (map var_enc vps)"

definition pdu_enc :: "pdu \<Rightarrow> u8 list" where
  "pdu_enc pdu = tlv (ucast (command pdu))
     (fields_enc pdu @ tlv ASN_SEQUENCE_CONSTRUCTOR (varlist_enc (variables pdu)))"

definition pdu_ok :: "pdu \<Rightarrow> bool" where
  "pdu_ok pdu \<longleftrightarrow> (\<forall>vp\<in>set (variables pdu). var_ok vp) \<and> (command pdu = SNMP_MSG_TRAP \<longrightarrow> objid_ok (enterprise pdu))"

lemma rbuild_vps_prepended:
  "\<forall>k\<in>set ps. k < length vars \<and> var_ok (vars ! k) \<Longrightarrow> valid_rbuf b \<Longrightarrow>
     prepended alloc True b (concat (map (\<lambda>k. var_enc (vars ! k)) (rev ps))) (rbuild_vps alloc vars (map Some ps) b)"
proof (induction ps arbitrary: b)
  case (Cons k ps)
  have v: "prepended alloc True b (var_enc (vars ! k)) (snmp_realloc_rbuild_var_op alloc True (vars ! k) b)"
    unfolding var_enc_def using Cons.prems by (intro rbuild_var_op_prepended) auto
  have "prepended alloc True b (concat (map (\<lambda>k. var_enc (vars ! k)) (rev ps)) @ var_enc (vars ! k))
      (ebind (snmp_realloc_rbuild_var_op alloc True (vars ! k) b) (rbuild_vps alloc vars (map Some ps)))"
    by (rule prepended_bind[OF Cons.prems(2) v]) (use Cons in auto)
  then show ?case by simp
qed (simp add: prepended_Nil)

lemma map_Some_split:
  assumes "xs @ ys = map Some zs"
  obtains as bs where "xs = map Some as" "ys = map Some bs" "zs = as @ bs"
  using assms by (auto simp: append_eq_map_conv)

lemma rbuild_varlist_prepended:
  "\<forall>vp\<in>set vars. var_ok vp \<Longrightarrow> n \<le> length vars \<Longrightarrow> length cache = VPCACHE_SIZE \<Longrightarrow> valid_rbuf b \<Longrightarrow>
     prepended alloc True b (varlist_enc (take n vars)) (rbuild_varlist alloc vars n cache b)"
proof (induction n arbitrary: cache b rule: less_induct)
  case (less n)
  obtain cache' final w where f: "vp_fill 0 n (int VPCACHE_SIZE - 1) False cache = (cache', final, w)"
    by (cases "vp_fill 0 n (int VPCACHE_SIZE - 1) False cache") auto
  note o = vp_fill_order[OF f less.prems(3)]
  let ?p1 = "map ((!) cache') [nat final..<VPCACHE_SIZE]"
  obtain q1 q2 where q: "?p1 = map Some q1"
      "(if w then map ((!) cache') [0..<nat final] else []) = map Some q2"
      "rev [n - VPCACHE_SIZE..<n] = q1 @ q2"
    using o(1) by (rule map_Some_split)
  have ks: "\<forall>k\<in>set q1 \<union> set q2. k < length vars \<and> var_ok (vars ! k)"
  proof -
    have "set q1 \<union> set q2 = set (rev [n - VPCACHE_SIZE..<n])" unfolding q(3) by simp
    then show ?thesis using less.prems(1,2) by auto
  qed
  have r: "rbuild_varlist alloc vars n cache b =
      (if w then ebind (ebind (rbuild_vps alloc vars (map Some q1) b) (rbuild_vps alloc vars (map Some q2)))
           (rbuild_varlist alloc vars (n - VPCACHE_SIZE) cache')
       else rbuild_vps alloc vars (map Some q1) b)"
    using less.prems(3) f q(1,2) vp_stop_position[of n cache cache' final]
    by (subst rbuild_varlist.simps) (auto simp: ebind_def split: sum.splits)
  let ?E = "\<lambda>ps. concat (map (\<lambda>k. var_enc (vars ! k)) ps)"
  have p1: "prepended alloc True b (?E (rev q1)) (rbuild_vps alloc vars (map Some q1) b)"
    using ks less.prems(4) by (intro rbuild_vps_prepended) auto
  have en: "?E [a..<n] = varlist_enc (drop a (take n vars))" for a
  proof -
    have "map (\<lambda>k. vars ! k) [a..<n] = drop a (take n vars)"
      using less.prems(2) by (auto simp: list_eq_iff_nth_eq)
    then have "map (\<lambda>k. var_enc (vars ! k)) [a..<n] = map var_enc (drop a (take n vars))"
      by (metis (no_types, lifting) map_map comp_apply map_eq_conv)
    then show ?thesis by (simp add: varlist_enc_def)
  qed
  have q12: "[n - VPCACHE_SIZE..<n] = rev q2 @ rev q1" using arg_cong[OF q(3), of rev] by simp
  show ?case
  proof (cases w)
    case False
    then have "n - VPCACHE_SIZE = 0" "q2 = []" using o(3) q(2) by auto
    then show ?thesis using p1 r False en[of 0] q12 by simp
  next
    case True
    have p2: "prepended alloc True b (?E (rev q2) @ ?E (rev q1))
        (ebind (rbuild_vps alloc vars (map Some q1) b) (rbuild_vps alloc vars (map Some q2)))"
      by (rule prepended_bind[OF less.prems(4) p1 rbuild_vps_prepended]) (use ks in auto)
    have e: "?E (rev q2) @ ?E (rev q1) = varlist_enc (drop (n - VPCACHE_SIZE) (take n vars))"
      using en[of "n - VPCACHE_SIZE"] q12 by simp
    have "prepended alloc True b
        (varlist_enc (take (n - VPCACHE_SIZE) vars) @ varlist_enc (drop (n - VPCACHE_SIZE) (take n vars)))
        (ebind (ebind (rbuild_vps alloc vars (map Some q1) b) (rbuild_vps alloc vars (map Some q2)))
           (rbuild_varlist alloc vars (n - VPCACHE_SIZE) cache'))"
    proof (rule prepended_bind[OF less.prems(4) p2[unfolded e]], rule less.IH)
      show "n - VPCACHE_SIZE < n" using True o(3) by (simp add: VPCACHE_SIZE_def)
    qed (use less.prems(1,2) o(2) in auto)
    moreover have "varlist_enc (take (n - VPCACHE_SIZE) vars) @ varlist_enc (drop (n - VPCACHE_SIZE) (take n vars)) =
        varlist_enc (take n vars)"
      unfolding varlist_enc_def concat_append[symmetric] map_append[symmetric]
      by (metis append_take_drop_id take_take min_def diff_le_self)
    ultimately show ?thesis using r True by simp
  qed
qed

lemma rbuild_fields_prepended:
  assumes "valid_rbuf b" "pdu_ok pdu"
  shows "prepended alloc True b (fields_enc pdu)
    (if command pdu \<noteq> SNMP_MSG_TRAP then rbuild_request_fields alloc pdu b else rbuild_trap_fields alloc pdu b)"
proof (cases "command pdu = SNMP_MSG_TRAP")
  case False
  have "prepended alloc True b
      ((tlv ASN_INTEGER (int_payload (reqid pdu)) @ tlv ASN_INTEGER (int_payload (errstat pdu))) @
       tlv ASN_INTEGER (int_payload (errindex pdu))) (rbuild_request_fields alloc pdu b)"
    unfolding rbuild_request_fields_def
    by (rule prepended_bind[OF assms(1) rbuild_int_prepended[OF assms(1)]])
      (rule prepended_bind[OF _ rbuild_int_prepended rbuild_int_prepended])
  then show ?thesis using False by (simp add: fields_enc_def)
next
  case True
  then have "objid_ok (enterprise pdu)" using assms(2) by (simp add: pdu_ok_def)
  have "prepended alloc True b
      ((((tlv ASN_OBJECT_ID (objid_payload (enterprise pdu)) @ tlv ASN_IPADDRESS (take 4 (agent_addr pdu))) @
       tlv ASN_INTEGER (int_payload (trap_type pdu))) @ tlv ASN_INTEGER (int_payload (specific_type pdu))) @
       tlv ASN_TIMETICKS (uint_payload 4 (timestamp pdu))) (rbuild_trap_fields alloc pdu b)"
    unfolding rbuild_trap_fields_def
    by (rule prepended_bind[OF assms(1) rbuild_unsigned_int_prepended[OF assms(1)]],
        rule prepended_bind[OF _ rbuild_int_prepended], assumption, assumption,
        rule prepended_bind[OF _ rbuild_int_prepended], assumption, assumption)
      (rule prepended_bind[OF _ rbuild_string_prepended rbuild_objid_prepended[OF _ \<open>objid_ok (enterprise pdu)\<close>]])
  then show ?thesis using True by (simp add: fields_enc_def)
qed

lemma rbuild_sequence_prepended:
  "valid_rbuf b \<Longrightarrow> prepended alloc r b (ber_header type len) (asn_realloc_rbuild_sequence alloc r type len b)"
  by (simp add: asn_realloc_rbuild_sequence_def rbuild_header_prepended)

lemma rbuild_pdu_prepended:
  assumes "pdu_ok pdu" "valid_rbuf b"
  shows "prepended alloc True b (pdu_enc pdu) (snmp_pdu_realloc_rbuild alloc pdu b)"
proof -
  let ?V = "varlist_enc (variables pdu)"
  let ?vl = "rbuild_varlist alloc (variables pdu) (length (variables pdu)) (replicate VPCACHE_SIZE None) b"
  let ?seq = "\<lambda>b1. asn_realloc_rbuild_sequence alloc True ASN_SEQUENCE_CONSTRUCTOR (of_nat (offset b1 - offset b)) b1"
  let ?fields = "\<lambda>b2. if command pdu \<noteq> SNMP_MSG_TRAP then rbuild_request_fields alloc pdu b2
            else rbuild_trap_fields alloc pdu b2"
  have "prepended alloc True b ?V ?vl"
    using rbuild_varlist_prepended[of "variables pdu" "length (variables pdu)" "replicate VPCACHE_SIZE None" b alloc] assms
    by (simp add: pdu_ok_def)
  then have s: "prepended alloc True b (tlv ASN_SEQUENCE_CONSTRUCTOR ?V) (ebind ?vl ?seq)"
    unfolding tlv_def by (rule prepended_bind[OF assms(2)]) (simp add: rbuild_sequence_prepended)
  have c: "prepended alloc True b (fields_enc pdu @ tlv ASN_SEQUENCE_CONSTRUCTOR ?V) (ebind (ebind ?vl ?seq) ?fields)"
    by (rule prepended_bind[OF assms(2) s rbuild_fields_prepended[OF _ assms(1)]])
  have "prepended alloc True b (pdu_enc pdu) (ebind (ebind (ebind ?vl ?seq) ?fields)
      (\<lambda>b3. asn_realloc_rbuild_sequence alloc True (ucast (command pdu)) (of_nat (offset b3 - offset b)) b3))"
    unfolding pdu_enc_def tlv_def[of "ucast (command pdu)"]
    by (rule prepended_bind[OF assms(2) c]) (simp add: rbuild_sequence_prepended)
  then show ?thesis by (simp add: snmp_pdu_realloc_rbuild_def ebind_assoc)
qed

section \<open>Decoding what was encoded\<close>

lemma value_or_Inr [simp]: "value_or (Inr v) f d = Inr (f v)"
  by (simp add: value_or_def)

lemma val_enc_len:
  assumes "val_ok type v len"
  shows "length (val_enc type v) \<le> unat MAX_PACKET_LENGTH"
  using val_payload_len[OF assms] tlv_length_bounds(2)[of "val_tag type" "val_payload type v"]
  by (simp add: val_enc_def MAX_PACKET_LENGTH_def)

lemma parse_var_val_enc:
  assumes "val_ok type v len" "val_rt type v" "bytes_at m p (val_enc type v)" "\<And>n. alloc n"
    and vl: "var_kind type \<in> {KString, KBits, KNull} \<Longrightarrow> vl = len"
  shows "parse_var_val alloc m p type vl = Inr (type, v, len, False)"
proof -
  note l = val_enc_len[OF assms(1)]
  note e = val_enc_def val_tag_def val_payload_def
  from assms(1) show ?thesis
  proof (cases rule: val_ok_cases)
    case (Int x)
    then show ?thesis
      using int_codec.parse_enc[where v = "(type, x)" and m = m and p = p and dl = MAX_PACKET_LENGTH] l assms(3)
      by (simp add: parse_var_val_def e)
  next
    case (Uint x)
    then show ?thesis
      using uint_codec.parse_enc[where v = "(type, x)" and m = m and p = p and dl = MAX_PACKET_LENGTH] l assms(3)
      by (simp add: parse_var_val_def e)
  next
    case (U64 c)
    then show ?thesis
      using u64_codec.parse_enc[where v = "(type, c)" and m = m and p = p and dl = MAX_PACKET_LENGTH] l assms(3) var_kind_KU64[OF U64(1)]
      by (simp add: parse_var_val_def e)
  next
    case (String s)
    have "unat (of_nat (length s) :: u32) = length s" using String(3) by (simp add: u32_unat_of_nat)
    then have "asn_parse_string m p MAX_PACKET_LENGTH len =
        Inr (p + length (tlv type s), MAX_PACKET_LENGTH - of_nat (length (tlv type s)), type, s, len)"
      using string_codec.parse_enc[where v = "(type, s)" and cap = len and m = m and p = p and dl = MAX_PACKET_LENGTH] l assms(3) String
      by (simp add: e string_result_def)
    then show ?thesis using String vl assms(4) by (simp add: parse_var_val_def)
  next
    case (Objid x)
    have "length x \<le> MAX_OID_LEN" using Objid(3) by (simp add: objid_ok_def)
    then have "asn_parse_objid m p MAX_PACKET_LENGTH (of_nat MAX_OID_LEN) =
        Inr (p + length (tlv type (objid_payload x)), MAX_PACKET_LENGTH - of_nat (length (tlv type (objid_payload x))), type, x)"
      using objid_codec.parse_enc[where v = "(type, x)" and cap = "of_nat MAX_OID_LEN" and m = m and p = p and dl = MAX_PACKET_LENGTH] l assms(3) Objid
      by (simp add: e MAX_OID_LEN_def)
    then show ?thesis using Objid assms(4) by (simp add: parse_var_val_def)
  next
    case Null
    then show ?thesis using vl by (simp add: parse_var_val_def)
  next
    case (Bits s)
    have "unat (of_nat (length s) :: u32) = length s" using Bits(4) by (simp add: u32_unat_of_nat)
    then have "asn_parse_bitstring m p MAX_PACKET_LENGTH len =
        Inr (p + length (tlv type s), MAX_PACKET_LENGTH - of_nat (length (tlv type s)), type, s, len)"
      using bitstring_codec.parse_enc[where v = "(type, s)" and cap = len and m = m and p = p and dl = MAX_PACKET_LENGTH] l assms(3) Bits
      by (simp add: e)
    then show ?thesis using Bits vl assms(4) by (simp add: parse_var_val_def)
  next
    case (Float x)
    then have "type = ASN_OPAQUE_FLOAT" by (simp add: var_kind_special)
    with Float show ?thesis
      using asn_parse_float_contents[of m p x MAX_PACKET_LENGTH, OF _ _ refl] l assms(3)
      by (simp add: parse_var_val_def e)
  next
    case (Double x)
    then have "type = ASN_OPAQUE_DOUBLE" by (simp add: var_kind_special)
    with Double show ?thesis
      using asn_parse_double_contents[of m p x MAX_PACKET_LENGTH, OF _ _ refl] l assms(3)
      by (cases x) (simp add: parse_var_val_def e)
  next
    case (I64 c)
    then have "type = ASN_OPAQUE_I64" by (simp add: var_kind_special)
    with I64 show ?thesis
      using i64_codec.parse_enc[where v = "(type, c)" and m = m and p = p and dl = MAX_PACKET_LENGTH] l assms(2,3)
      by (simp add: parse_var_val_def e val_rt_def)
  qed
qed

text \<open>
  A header at \<open>p\<close> of an object of \<open>n\<close> bytes at \<open>q\<close>, in whatever form of
  length: the forward encoder stores three length octets in every sequence, the
  reverse encoder the shortest form.
\<close>

definition header_at :: "u8 list \<Rightarrow> nat \<Rightarrow> u8 \<Rightarrow> nat \<Rightarrow> nat \<Rightarrow> bool" where
  "header_at m p type q n \<longleftrightarrow> p + 2 \<le> q \<and> q \<le> p + 6 \<and> n < 2 ^ 31 \<and>
     (\<forall>dl. q - p + n \<le> unat dl \<longrightarrow> asn_parse_tl m p dl = Inr (type, q, of_nat n))"

lemma header_at_ber:
  assumes "bytes_at m p (ber_header type (of_nat n))" "n < 2 ^ 31"
  shows "header_at m p type (p + length (ber_header type (of_nat n))) n"
proof -
  have u: "unat (of_nat n :: u32) = n" using assms(2) by (intro u32_unat_of_nat) simp
  have l: "1 < length (ber_header type (of_nat n))" "length (ber_header type (of_nat n)) \<le> 6"
    using ber_header_len[of type "of_nat n"] by auto
  have "asn_parse_tl m p dl = Inr (type, p + length (ber_header type (of_nat n)), of_nat n)"
    if "length (ber_header type (of_nat n)) + n \<le> unat dl" for dl
    using asn_parse_tl_header[OF assms(1), of dl] that u assms(2) by simp
  then show ?thesis using l assms(2) by (simp add: header_at_def)
qed

fun varbinds_at :: "u8 list \<Rightarrow> nat \<Rightarrow> variable_list list \<Rightarrow> nat \<Rightarrow> bool" where
  "varbinds_at m p [] e \<longleftrightarrow> p = e"
| "varbinds_at m p (vp # vps) e \<longleftrightarrow>
     (\<exists>q. header_at m p ASN_SEQUENCE_CONSTRUCTOR q (length (var_contents vp)) \<and>
        bytes_at m q (var_contents vp) \<and> varbinds_at m (q + length (var_contents vp)) vps e)"

lemma varbinds_at_le: "varbinds_at m p vps e \<Longrightarrow> p \<le> e"
proof (induction vps arbitrary: p)
  case (Cons vp vps)
  then obtain q where "p + 2 \<le> q" "varbinds_at m (q + length (var_contents vp)) vps e"
    by (auto simp: header_at_def)
  then show ?case using Cons.IH by fastforce
qed simp

lemma varbinds_at_enc:
  "bytes_at m p (varlist_enc vps) \<Longrightarrow> length (varlist_enc vps) < 2 ^ 31 \<Longrightarrow>
     varbinds_at m p vps (p + length (varlist_enc vps))"
proof (induction vps arbitrary: p)
  case (Cons vp vps)
  let ?c = "var_contents vp"
  let ?h = "ber_header ASN_SEQUENCE_CONSTRUCTOR (of_nat (length ?c))"
  have e: "varlist_enc (vp # vps) = ?h @ ?c @ varlist_enc vps"
    by (simp add: varlist_enc_def var_enc_def tlv_def)
  have at: "bytes_at m p ?h" "bytes_at m (p + length ?h) ?c"
      "bytes_at m (p + length ?h + length ?c) (varlist_enc vps)"
    using Cons.prems(1) by (auto simp: e bytes_at_append)
  have "varbinds_at m (p + length ?h + length ?c) vps (p + length ?h + length ?c + length (varlist_enc vps))"
    using Cons.prems(2) by (intro Cons.IH at) (simp add: e)
  moreover have "header_at m p ASN_SEQUENCE_CONSTRUCTOR (p + length ?h) (length ?c)"
    using Cons.prems(2) by (intro header_at_ber at) (simp add: e)
  ultimately show ?case
    using at(2) by (auto simp: e add.assoc intro!: exI[of _ "p + length ?h"])
qed (simp add: varlist_enc_def)

lemma sint_small: "unat (x :: u32) < 2 ^ 31 \<Longrightarrow> sint x = int (unat x)"
proof -
  assume "unat x < 2 ^ 31"
  then have "uint x < 2 ^ 31" by (metis of_nat_less_iff of_nat_numeral of_nat_power uint_nat)
  then have "signed_take_bit 31 (uint x) = uint x"
    by (intro signed_take_bit_int_eq_self) (simp_all add: order.trans[OF _ uint_ge_0])
  then show ?thesis by (simp add: sint_uint)
qed

lemma parse_varbinds_at:
  "\<forall>vp\<in>set vps. var_rt vp \<Longrightarrow> varbinds_at m p vps e \<Longrightarrow> e - p = unat len \<Longrightarrow> unat len < 2 ^ 31 \<Longrightarrow>
     (\<And>n. alloc n) \<Longrightarrow> parse_varbinds alloc m p len = Inr (vps, False)"
proof (induction vps arbitrary: p len)
  case Nil
  then show ?case by (subst parse_varbinds.simps) (simp add: sint_small)
next
  case (Cons vp vps)
  let ?n = "length (var_contents vp)"
  from Cons.prems(2) obtain q where h: "header_at m p ASN_SEQUENCE_CONSTRUCTOR q ?n"
    and at: "bytes_at m q (var_contents vp)" and rest: "varbinds_at m (q + ?n) vps e" by auto
  have q: "p + 2 \<le> q" "?n < 2 ^ 31" "q + ?n \<le> e" using h varbinds_at_le[OF rest] by (auto simp: header_at_def)
  have fit: "q + ?n - p \<le> unat len" using Cons.prems(3) q by linarith
  have u: "unat (of_nat ?n :: u32) = ?n" using q(2) by (intro u32_unat_of_nat) simp
  have "asn_parse_tl m p len = Inr (ASN_SEQUENCE_CONSTRUCTOR, q, of_nat ?n)"
    using h fit q(1) by (auto simp: header_at_def)
  moreover have rt: "var_rt vp" "length (name vp) \<le> unat (of_nat MAX_OID_LEN :: u32)"
    using Cons.prems(1) by (auto simp: var_rt_def var_ok_def objid_ok_def MAX_OID_LEN_def)
  ultimately obtain vl where op: "snmp_parse_var_op m p len (of_nat MAX_OID_LEN) =
        Inr (q + ?n, len - of_nat (q + ?n - p), name vp, vtype vp, vl, q + length (name_enc vp))"
    and vl: "var_kind (vtype vp) \<in> {KString, KBits, KNull} \<longrightarrow> vl = val_len vp"
    using parse_var_op_contents[OF rt, of m p len q "of_nat ?n"] at u by auto
  have "bytes_at m (q + length (name_enc vp)) (val_enc (vtype vp) (val vp))"
    using at by (simp add: var_contents_def name_enc_def bytes_at_append)
  then have v: "parse_var_val alloc m (q + length (name_enc vp)) (vtype vp) vl = Inr (vtype vp, val vp, val_len vp, False)"
    using rt(1) vl Cons.prems(5) by (intro parse_var_val_enc) (auto simp: var_rt_def var_ok_def)
  have "unat (len - of_nat (q + ?n - p)) = unat len - (q + ?n - p)" by (rule u32_sub_nat[OF fit])
  then have ul: "e - (q + ?n) = unat (len - of_nat (q + ?n - p))" "unat (len - of_nat (q + ?n - p)) < 2 ^ 31"
    using Cons.prems(3,4) q by linarith+
  have "parse_varbinds alloc m (q + ?n) (len - of_nat (q + ?n - p)) = Inr (vps, False)"
    using Cons.prems(1,5) by (intro Cons.IH[OF _ rest ul]) auto
  moreover have "0 < unat len" using Cons.prems(3) q by linarith
  then have "0 < sint len" using sint_small[OF Cons.prems(4)] by (simp only: of_nat_0_less_iff)
  moreover have "\<not> snmp_set_var_objid alloc (name vp)" using Cons.prems(5) by (simp add: snmp_set_var_objid_def Let_def)
  ultimately show ?case
    using op v Cons.prems(5) by (subst parse_varbinds.simps) simp
qed

section \<open>Round trip of a whole PDU\<close>

definition pdu_rt :: "pdu \<Rightarrow> bool" where
  "pdu_rt pdu \<longleftrightarrow> (\<forall>vp\<in>set (variables pdu). var_rt vp) \<and>
     (command pdu = SNMP_MSG_TRAP \<and> objid_ok (enterprise pdu) \<and> length (agent_addr pdu) = 4 \<or> is_request (command pdu))"

lemma pdu_rt_ok: "pdu_rt pdu \<Longrightarrow> pdu_ok pdu"
  by (auto simp: pdu_rt_def pdu_ok_def var_rt_def is_request_def msg_defs)

text \<open>
  What the decoder makes of a PDU structure \<open>p0\<close> when it decodes the encoding of \<open>pdu\<close>:
  the fields on the wire are overwritten, the response flag is set by the type.
\<close>

definition pdu_decoded :: "pdu \<Rightarrow> pdu \<Rightarrow> pdu" where
  "pdu_decoded p0 pdu =
     (let p1 = (if command pdu = SNMP_MSG_TRAP
                then p0\<lparr>command := command pdu, flags := flags p0 AND NOT UCD_MSG_FLAG_RESPONSE_PDU,
                  enterprise := enterprise pdu, agent_addr := agent_addr pdu, trap_type := trap_type pdu,
                  specific_type := specific_type pdu, timestamp := timestamp pdu\<rparr>
                else p0\<lparr>command := command pdu,
                  flags := (if command pdu = SNMP_MSG_RESPONSE \<or> command pdu = SNMP_MSG_REPORT
                    then (flags p0 AND NOT UCD_MSG_FLAG_RESPONSE_PDU) OR UCD_MSG_FLAG_RESPONSE_PDU
                    else flags p0 AND NOT UCD_MSG_FLAG_RESPONSE_PDU),
                  reqid := reqid pdu, errstat := errstat pdu, errindex := errindex pdu\<rparr>)
      in if variables pdu = [] then p1 else p1\<lparr>variables := variables pdu\<rparr>)"

lemma parse_int_step:
  "bytes_at m p (tlv t (int_payload x)) \<Longrightarrow> length (tlv t (int_payload x)) \<le> unat dl \<Longrightarrow>
     asn_parse_int m p dl 4 = Inr (p + length (tlv t (int_payload x)), dl - of_nat (length (tlv t (int_payload x))), t, x)"
  using int_codec.parse_enc[where v = "(t, x)" and m = m and p = p and dl = dl] by simp

lemma u32_diff_nat: "(dl - of_nat a) - of_nat b = (dl - of_nat (a + b) :: u32)"
  by (simp add: diff_diff_eq)

text \<open>Stepping over one object: what the next decoder finds.\<close>

lemma over_object:
  assumes "bytes_at m p (x @ rest)" "length (x @ rest) \<le> unat (dl :: u32)"
  shows "bytes_at m p x" "length x \<le> unat dl" "bytes_at m (p + length x) rest"
    "length rest \<le> unat (dl - of_nat (length x))"
  using assms u32_sub_nat[of "length x" dl] by (auto simp: bytes_at_append)

lemma parse_request_fields_at:
  assumes "bytes_at m p (fields_enc pdu @ rest)" "length (fields_enc pdu @ rest) \<le> unat dl"
    and "command pdu \<noteq> SNMP_MSG_TRAP"
  shows "parse_request_fields p0 m p dl = Inr (p + length (fields_enc pdu), dl - of_nat (length (fields_enc pdu)),
    p0\<lparr>reqid := reqid pdu, errstat := errstat pdu, errindex := errindex pdu\<rparr>)"
proof -
  define a b c where abc: "a = tlv ASN_INTEGER (int_payload (reqid pdu))"
    "b = tlv ASN_INTEGER (int_payload (errstat pdu))" "c = tlv ASN_INTEGER (int_payload (errindex pdu))"
  have f: "fields_enc pdu = a @ b @ c" using assms(3) by (simp add: fields_enc_def abc)
  note 1 = over_object[OF assms(1,2)[unfolded f append_assoc]]
  note 2 = over_object[OF 1(3,4)]
  note 3 = over_object[OF 2(3,4)]
  show ?thesis
    using parse_int_step[OF 1(1,2)[unfolded abc(1)]] parse_int_step[OF 2(1,2)[unfolded abc(2)]]
      parse_int_step[OF 3(1,2)[unfolded abc(3)]]
    by (simp add: parse_request_fields_def f abc[symmetric] add.assoc diff_diff_eq)
qed

lemma parse_trap_fields_at:
  assumes "bytes_at m p (fields_enc pdu @ rest)" "length (fields_enc pdu @ rest) \<le> unat dl"
    and "command pdu = SNMP_MSG_TRAP" "objid_ok (enterprise pdu)" "length (agent_addr pdu) = 4"
    and "length (agent_addr p0) = 4" "\<And>n. alloc n"
  shows "parse_trap_fields alloc p0 m p dl = Inr (p + length (fields_enc pdu), dl - of_nat (length (fields_enc pdu)),
    p0\<lparr>enterprise := enterprise pdu, agent_addr := agent_addr pdu, trap_type := trap_type pdu,
       specific_type := specific_type pdu, timestamp := timestamp pdu\<rparr>)"
proof -
  define a b c d e where abc: "a = tlv ASN_OBJECT_ID (objid_payload (enterprise pdu))"
    "b = tlv ASN_IPADDRESS (agent_addr pdu)" "c = tlv ASN_INTEGER (int_payload (trap_type pdu))"
    "d = tlv ASN_INTEGER (int_payload (specific_type pdu))"
    "e = tlv ASN_TIMETICKS (uint_payload 4 (timestamp pdu))"
  have f: "fields_enc pdu = a @ b @ c @ d @ e" using assms(3,5) by (simp add: fields_enc_def abc)
  note 1 = over_object[OF assms(1,2)[unfolded f append_assoc]]
  note 2 = over_object[OF 1(3,4)]
  note 3 = over_object[OF 2(3,4)]
  note 4 = over_object[OF 3(3,4)]
  note 5 = over_object[OF 4(3,4)]
  have "length (enterprise pdu) \<le> MAX_OID_LEN" using assms(4) by (simp add: objid_ok_def)
  then have "asn_parse_objid m p dl (of_nat MAX_OID_LEN) =
      Inr (p + length a, dl - of_nat (length a), ASN_OBJECT_ID, enterprise pdu)"
    using objid_codec.parse_enc[where v = "(ASN_OBJECT_ID, enterprise pdu)" and cap = "of_nat MAX_OID_LEN"
        and m = m and p = p and dl = dl] 1(1,2) assms(4) by (simp add: abc(1) MAX_OID_LEN_def)
  moreover have "asn_parse_string m (p + length a) dl' 4 =
      Inr (p + length a + length b, dl' - of_nat (length b), ASN_IPADDRESS, agent_addr pdu, 4)"
    if "dl' = dl - of_nat (length a)" for dl'
    using string_codec.parse_enc[where v = "(ASN_IPADDRESS, agent_addr pdu)" and cap = 4
        and m = m and p = "p + length a" and dl = dl'] 2(1,2) assms(5) that
    by (simp add: abc(2) string_result_def)
  moreover have "asn_parse_unsigned_int m q dl' 4 = Inr (q + length e, dl' - of_nat (length e), ASN_TIMETICKS, timestamp pdu)"
    if "bytes_at m q e" "length e \<le> unat dl'" for q dl'
    using uint_codec.parse_enc[where v = "(ASN_TIMETICKS, timestamp pdu)" and m = m and p = q and dl = dl'] that
    by (simp add: abc(5))
  ultimately show ?thesis
    using parse_int_step[OF 3(1,2)[unfolded abc(3)]] parse_int_step[OF 4(1,2)[unfolded abc(4)]] 5(1,2) assms(5-7)
    by (simp add: parse_trap_fields_def f abc(3,4)[symmetric] add.assoc diff_diff_eq)
qed

lemma header_at_parse:
  assumes "header_at m p type q n" "q - p + n \<le> unat dl" "\<not> is_extension_id type" "type \<noteq> ASN_OPAQUE"
  shows "asn_parse_header m p dl = Inr (q, of_nat n, type)"
  using assms(1,2) by (intro parse_header_tl assms(3,4)) (simp add: header_at_def)

text \<open>An encoding of \<open>pdu\<close> at \<open>p\<close>, with either form of the lengths of its sequences.\<close>

definition pdu_at :: "u8 list \<Rightarrow> nat \<Rightarrow> pdu \<Rightarrow> nat \<Rightarrow> bool" where
  "pdu_at m p pdu e \<longleftrightarrow> (\<exists>q r n.
     header_at m p (ucast (command pdu)) q (e - q) \<and> bytes_at m q (fields_enc pdu) \<and>
     header_at m (q + length (fields_enc pdu)) ASN_SEQUENCE_CONSTRUCTOR r n \<and>
     varbinds_at m r (variables pdu) (r + n) \<and> e = r + n)"

lemma pdu_at_enc:
  assumes "bytes_at m p (pdu_enc pdu)" "length (pdu_enc pdu) < 2 ^ 31"
  shows "pdu_at m p pdu (p + length (pdu_enc pdu))"
proof -
  define F V where FV: "F = fields_enc pdu" "V = varlist_enc (variables pdu)"
  define S where S: "S = ber_header ASN_SEQUENCE_CONSTRUCTOR (of_nat (length V))"
  define H where H: "H = ber_header (ucast (command pdu)) (of_nat (length (F @ S @ V)))"
  have e: "pdu_enc pdu = H @ F @ S @ V" by (simp add: pdu_enc_def tlv_def FV S H)
  have at: "bytes_at m p H" "bytes_at m (p + length H) F" "bytes_at m (p + length H + length F) S"
      "bytes_at m (p + length H + length F + length S) V"
    using assms(1) by (simp_all add: e bytes_at_append)
  have l: "length H + length F + length S + length V < 2 ^ 31" using assms(2) by (simp add: e)
  have "header_at m p (ucast (command pdu)) (p + length H) (length (F @ S @ V))"
    unfolding H using at(1) l by (intro header_at_ber) (auto simp: H)
  moreover have "header_at m (p + length H + length F) ASN_SEQUENCE_CONSTRUCTOR
      (p + length H + length F + length S) (length V)"
    unfolding S using at(3) l by (intro header_at_ber) (auto simp: S)
  moreover have "varbinds_at m (p + length H + length F + length S) (variables pdu)
      (p + length H + length F + length S + length V)"
    using varbinds_at_enc at(4) l by (simp add: FV)
  ultimately show ?thesis
    unfolding pdu_at_def e FV(1)[symmetric] using at(2)
    by (intro exI[of _ "p + length H"] exI[of _ "p + length H + length F + length S"] exI[of _ "length V"])
      (simp add: add.assoc)
qed

lemma request_commands:
  "is_request c \<or> c = SNMP_MSG_TRAP \<Longrightarrow>
     ucast (ucast c :: u8) = c \<and> \<not> is_extension_id (ucast c) \<and> ucast c \<noteq> ASN_OPAQUE"
  by (auto simp: is_request_def msg_defs is_extension_id_def ASN_OPAQUE_def)

lemma snmp_pdu_parse_at:
  assumes at: "pdu_at m p pdu e" and e: "e - p \<le> unat dl" and rt: "pdu_rt pdu"
    and p0: "length (agent_addr p0) = 4" and al: "\<And>n. alloc n"
  shows "snmp_pdu_parse alloc p0 m p dl = Inr (pdu_decoded p0 pdu, 0)"
proof -
  from at obtain q r n where h: "header_at m p (ucast (command pdu)) q (e - q)"
    and f: "bytes_at m q (fields_enc pdu)"
    and s: "header_at m (q + length (fields_enc pdu)) ASN_SEQUENCE_CONSTRUCTOR r n"
    and v: "varbinds_at m r (variables pdu) (r + n)" and er: "e = r + n"
    by (auto simp: pdu_at_def)
  let ?F = "fields_enc pdu" and ?l = "of_nat (e - q) :: u32"
  have o: "p + 2 \<le> q" "q + length ?F + 2 \<le> r" "n < 2 ^ 31" "e - q < 2 ^ 31"
    using h s by (auto simp: header_at_def)
  have c: "ucast (ucast (command pdu) :: u8) = command pdu" "\<not> is_extension_id (ucast (command pdu))"
      "ucast (command pdu) \<noteq> ASN_OPAQUE"
    using rt request_commands[of "command pdu"] by (auto simp: pdu_rt_def)
  have ph: "asn_parse_header m p dl = Inr (q, ?l, ucast (command pdu))"
    using e o er by (intro header_at_parse[OF h] c) linarith
  have u: "unat ?l = e - q" using o(4) by (intro u32_unat_of_nat) simp
  have lf: "length ?F \<le> unat ?l" "unat (?l - of_nat (length ?F)) = e - q - length ?F"
    using u o er u32_sub_nat[of "length ?F" ?l] by auto
  have "asn_parse_sequence m (q + length ?F) (?l - of_nat (length ?F)) ASN_SEQUENCE_CONSTRUCTOR =
      Inr (r, of_nat n, ASN_SEQUENCE_CONSTRUCTOR)"
    using header_at_parse[OF s, of "?l - of_nat (length ?F)"] lf(2) o er
    by (simp add: asn_parse_sequence_def is_extension_id_def asn_tag_defs)
  moreover have "unat (of_nat n :: u32) = n" using o(3) by (intro u32_unat_of_nat) simp
  then have "parse_varbinds alloc m r (of_nat n) = Inr (variables pdu, False)"
    using rt o(3) by (intro parse_varbinds_at[OF _ v _ _ al]) (auto simp: pdu_rt_def)
  ultimately show ?thesis
    using ph c(1) parse_request_fields_at[of m q pdu "[]" ?l] f lf(1)
      parse_trap_fields_at[of m q pdu "[]" ?l] rt p0 al
    by (auto simp: snmp_pdu_parse_def pdu_rt_def pdu_decoded_def Let_def is_request_def msg_defs)
qed

end
