(* ===== verification/Decoder_Safety.thy ===== *)
theory Decoder_Safety
  imports Pdu
begin

unbundle bit_operations_syntax

text \<open>
  What decoding arbitrary bytes reads. The decoders look at type and length
  octets before they compare anything with \<^verbatim>\<open>*datalength\<close>, so they can read
  past the end of a packet; this theory bounds how far. The contract
  \<open>safe_decoder\<close> says that a decoder reads at most sixteen bytes past the region it
  was given and leaves a region inside it; it is met by every decoder of
  \<^verbatim>\<open>asn1.c\<close> that \<^verbatim>\<open>snmp_pdu_parse\<close> calls on the way through a packet. The values
  of bindings are decoded with \<^verbatim>\<open>*datalength\<close> set to \<^verbatim>\<open>MAX_PACKET_LENGTH\<close>: there the
  bound comes from the header that \<^verbatim>\<open>snmp_parse_var_op\<close> has checked.
\<close>

section \<open>The contract\<close>

definition in_memory :: "asn_error + 'a \<Rightarrow> bool" where
  "in_memory x \<longleftrightarrow> x \<noteq> Inl OutOfBounds"

lemma in_memory_simps [simp]: "in_memory (Inr v)" "in_memory (Inl e) \<longleftrightarrow> e \<noteq> OutOfBounds"
  by (simp_all add: in_memory_def)

lemma safe_ebind: "in_memory x \<Longrightarrow> (\<And>v. x = Inr v \<Longrightarrow> in_memory (f v)) \<Longrightarrow> in_memory (ebind x f)"
  by (cases x) auto

lemma safe_if: "(c \<Longrightarrow> in_memory x) \<Longrightarrow> (\<not> c \<Longrightarrow> in_memory y) \<Longrightarrow> in_memory (if c then x else y)"
  by simp

lemma safe_unless: "(\<not> c \<Longrightarrow> in_memory x) \<Longrightarrow> (c \<Longrightarrow> in_memory y) \<Longrightarrow> in_memory (if \<not> c then x else y)"
  by simp

definition readable :: "u8 list \<Rightarrow> nat \<Rightarrow> bool" where
  "readable m e \<longleftrightarrow> e + 16 \<le> length m"

locale safe_decoder =
  fixes parse :: "u8 list \<Rightarrow> nat \<Rightarrow> u32 \<Rightarrow> asn_error + nat \<times> u32 \<times> 'r"
  assumes in_bounds: "readable m (p + unat dl) \<Longrightarrow> in_memory (parse m p dl)"
    and stays_inside: "parse m p dl = Inr (p', dl', r) \<Longrightarrow> p' + unat dl' \<le> p + unat dl"
begin

lemma bind_safe:
  assumes "readable m e" "p + unat dl \<le> e"
    and "\<And>p' dl' r. p' + unat dl' \<le> e \<Longrightarrow> in_memory (k (p', dl', r))"
  shows "in_memory (ebind (parse m p dl) k)"
proof -
  have "readable m (p + unat dl)" using assms(1,2) by (simp add: readable_def)
  from in_bounds[OF this] show ?thesis
    using assms(2,3) stays_inside[of m p dl] by (intro safe_ebind) fastforce+
qed

end

section \<open>Reads inside a region\<close>

lemma rd_safe: "p < length m \<Longrightarrow> in_memory (rd m p)"
  by (simp add: rd_def)

lemma rds_safe: "p + n \<le> length m \<Longrightarrow> in_memory (rds m p n)"
  by (simp add: rds_def)

lemma shift_in_safe: "p + n \<le> length m \<Longrightarrow> in_memory (shift_in m p n v)"
  using shift_in_total[of p n m v] by auto

lemma shift_in64_safe: "p + n \<le> length m \<Longrightarrow> in_memory (shift_in64 m p n h l)"
  by (induction m p n h l rule: shift_in64.induct) (auto simp: rd_def)

lemma parse_length_safe: "p + 5 \<le> length m \<Longrightarrow> in_memory (asn_parse_length m p)"
  using asn_parse_length_in_bounds[of p m] by (simp add: in_memory_def)

lemma parse_tl_safe: "p + 6 \<le> length m \<Longrightarrow> in_memory (asn_parse_tl m p dl)"
  using asn_parse_tl_in_bounds[of p m dl] by (simp add: in_memory_def)

text \<open>The region left after an object whose header is at \<open>p\<close> and whose contents are at \<open>q\<close>.\<close>

lemma rest_inside:
  assumes "asn_parse_tl m p dl = Inr (type, q, n)"
  shows "q + unat n + unat (dl - (n + of_nat (q - p))) = p + unat dl"
proof -
  note b = asn_parse_tl_Inr[OF assms]
  let ?k = "unat n + (q - p)"
  have "(of_nat ?k :: u32) = n + of_nat (q - p)" by simp
  moreover have "?k \<le> unat dl" using b by linarith
  then have "unat (dl - of_nat ?k) = unat dl - ?k" by (rule u32_sub_nat)
  ultimately show ?thesis using b by (simp only:)
qed

text \<open>
  A decoder that starts by reading a header is safe when the header it reads
  describes readable contents.
\<close>

definition good_header :: "u8 list \<Rightarrow> nat \<Rightarrow> u32 \<Rightarrow> bool" where
  "good_header m p dl \<longleftrightarrow> readable m p \<and> (\<forall>t q n. asn_parse_tl m p dl = Inr (t, q, n) \<longrightarrow> readable m (q + unat n))"

lemma good_header_region: "readable m (p + unat dl) \<Longrightarrow> good_header m p dl"
  by (fastforce simp: good_header_def readable_def dest: asn_parse_tl_Inr(5))

lemma safe_tl_bind:
  assumes "good_header m p dl"
    and "\<And>t q n. asn_parse_tl m p dl = Inr (t, q, n) \<Longrightarrow> readable m (q + unat n) \<Longrightarrow> in_memory (k (t, q, n))"
  shows "in_memory (ebind (asn_parse_tl m p dl) k)"
proof (rule safe_ebind)
  show "in_memory (asn_parse_tl m p dl)" using assms(1) by (intro parse_tl_safe) (simp add: good_header_def readable_def)
next
  fix v assume "asn_parse_tl m p dl = Inr v"
  then show "in_memory (k v)" using assms by (cases v) (auto simp: good_header_def)
qed

lemma parse_int_safe: "good_header m p dl \<Longrightarrow> in_memory (asn_parse_int m p dl 4)"
  unfolding asn_parse_int_def
  by (rule safe_if, simp, rule safe_tl_bind, assumption) (auto intro!: safe_ebind rd_safe shift_in_safe simp: readable_def)

lemma parse_unsigned_int_safe: "good_header m p dl \<Longrightarrow> in_memory (asn_parse_unsigned_int m p dl 4)"
  unfolding asn_parse_unsigned_int_def
  by (rule safe_if, simp, rule safe_tl_bind, assumption) (auto intro!: safe_ebind rd_safe shift_in_safe simp: readable_def)

lemma parse_string_safe: "good_header m p dl \<Longrightarrow> in_memory (asn_parse_string m p dl cap)"
  unfolding asn_parse_string_def
  by (rule safe_tl_bind, assumption) (auto intro!: safe_ebind rds_safe simp: readable_def)

lemma parse_bitstring_safe: "good_header m p dl \<Longrightarrow> in_memory (asn_parse_bitstring m p dl cap)"
  unfolding asn_parse_bitstring_def
  by (rule safe_tl_bind, assumption) (auto intro!: safe_ebind rd_safe rds_safe simp: readable_def)

lemma subid_loop_safe: "p + len \<le> length m \<Longrightarrow> 0 < len \<Longrightarrow> in_memory (subid_loop m p len v)"
proof (induction m p len v rule: subid_loop.induct)
  case (1 m p len v)
  have r: "rd m p = Inr (m ! p)" using "1.prems" by (simp add: rd_def)
  show ?case
  proof (cases "m ! p AND 0x80 \<noteq> 0 \<and> len - 1 > 0")
    case True
    then have "in_memory (subid_loop m (p + 1) (len - 1) (push_bit 7 v + ucast (m ! p AND NOT 0x80)))"
      using "1.prems" by (intro "1.IH"[OF refl]) auto
    then show ?thesis using True r by (subst subid_loop.simps) simp
  next
    case False
    then show ?thesis using r by (subst subid_loop.simps) auto
  qed
qed

text \<open>The array of the decoder has room for what it counts: a store past it does not happen either.\<close>

lemma objid_loop_safe: "p + len \<le> length m \<Longrightarrow> i + cap \<le> n \<Longrightarrow> in_memory (objid_loop m p len cap i n)"
proof (induction m p len cap i n rule: objid_loop.induct)
  case (2 m p len cap i n)
  show ?case
  proof (cases "len = 0")
    case False
    have first: "in_memory (subid_loop m p len 0)" using "2.prems"(1) False by (intro subid_loop_safe) auto
    have rest: "in_memory (objid_loop m p' len' cap (i + 1) n)"
      if "subid_loop m p len 0 = Inr (p', len', sv, b)" "\<not> (len' = 0 \<and> b AND 0x80 \<noteq> 0)" for p' len' sv b
    proof -
      have "p' + len' = p + len" using subid_loop_advance[OF that(1)] False by simp
      then show ?thesis using "2.prems" by (intro "2.IH"[OF False that(2)]) auto
    qed
    show ?thesis
      using False first "2.prems"(2) rest by (auto intro!: safe_ebind)
  qed simp
qed simp

lemma parse_objid_safe:
  assumes "good_header m p dl" "2 \<le> unat cap"
  shows "in_memory (asn_parse_objid m p dl cap)"
proof -
  have c: "unat (cap - 1) = unat cap - 1" "\<not> cap < 2"
    using assms(2) u32_sub_nat[of 1 cap] by (auto simp: word_less_nat_alt)
  have "in_memory (objid_loop m q (unat n) (unat (cap - 1)) 1 (unat cap))" if "readable m (q + unat n)" for q n
    using that c assms(2) by (intro objid_loop_safe) (auto simp: readable_def)
  then show ?thesis
    unfolding asn_parse_objid_def using c
    by (intro safe_tl_bind[OF assms(1)]) (auto intro!: safe_ebind split: prod.splits)
qed

section \<open>The decoders on the way through a packet\<close>

lemma tl_stays_inside:
  assumes "asn_parse_tl m p dl = Inr (t, q, n)" "p' = q + unat n" "dl' = dl - (n + of_nat (q - p))"
  shows "p' + unat dl' \<le> p + unat dl"
  using rest_inside[OF assms(1)] assms(2,3) by simp

interpretation safe_int: safe_decoder "\<lambda>m p dl. asn_parse_int m p dl 4"
  by unfold_locales
    (erule parse_int_safe[OF good_header_region], auto elim!: tl_stays_inside
      simp: asn_parse_int_def ebind_eq_Inr dest!: shift_in_Inr split: if_splits)

interpretation safe_unsigned_int: safe_decoder "\<lambda>m p dl. asn_parse_unsigned_int m p dl 4"
  by unfold_locales
    (erule parse_unsigned_int_safe[OF good_header_region], auto elim!: tl_stays_inside
      simp: asn_parse_unsigned_int_def ebind_eq_Inr dest!: shift_in_Inr split: if_splits)

interpretation safe_string: safe_decoder "\<lambda>m p dl. asn_parse_string m p dl cap" for cap
  by unfold_locales
    (erule parse_string_safe[OF good_header_region], auto elim!: tl_stays_inside
      simp: asn_parse_string_def ebind_eq_Inr split: if_splits)

interpretation safe_header: safe_decoder asn_parse_header
proof unfold_locales
  fix m p and dl :: u32
  assume r: "readable m (p + unat dl)"
  show "in_memory (asn_parse_header m p dl)"
    unfolding asn_parse_header_def
    using r by (auto intro!: safe_ebind rd_safe parse_length_safe dest!: asn_parse_length_Inr simp: readable_def)
next
  fix m p and dl :: u32 and p' dl' r
  assume "asn_parse_header m p dl = Inr (p', dl', r)"
  then show "p' + unat dl' \<le> p + unat dl" by (rule asn_parse_header_advance(2))
qed

interpretation safe_sequence: safe_decoder "\<lambda>m p dl. asn_parse_sequence m p dl t" for t
proof unfold_locales
  fix m p and dl :: u32
  assume r: "readable m (p + unat dl)"
  show "in_memory (asn_parse_sequence m p dl t)"
    unfolding asn_parse_sequence_def by (rule safe_ebind[OF safe_header.in_bounds[OF r]]) auto
next
  fix m p and dl :: u32 and p' dl' r
  assume "asn_parse_sequence m p dl t = Inr (p', dl', r)"
  then have "asn_parse_header m p dl = Inr (p', dl', t)" "r = t"
    by (auto simp: asn_parse_sequence_def ebind_eq_Inr split: if_splits)
  then show "p' + unat dl' \<le> p + unat dl" by (auto intro: safe_header.stays_inside)
qed

interpretation safe_objid: safe_decoder "\<lambda>m p dl. asn_parse_objid m p dl (of_nat MAX_OID_LEN)"
proof unfold_locales
  fix m p and dl :: u32
  assume "readable m (p + unat dl)"
  then show "in_memory (asn_parse_objid m p dl (of_nat MAX_OID_LEN))"
    by (intro parse_objid_safe good_header_region) (simp_all add: MAX_OID_LEN_def)
next
  fix m p and dl :: u32 and p' dl' r
  assume "asn_parse_objid m p dl (of_nat MAX_OID_LEN) = Inr (p', dl', r)"
  then show "p' + unat dl' \<le> p + unat dl"
    using asn_parse_objid_advance[of m p dl "of_nat MAX_OID_LEN" p' dl'] by (cases r) fastforce
qed

section \<open>Values in an Opaque\<close>

text \<open>
  What is known of the value of a binding at \<open>p\<close> once \<^verbatim>\<open>asn_parse_header\<close> has
  accepted its header inside a region that ends at \<open>e\<close>.
\<close>

lemma header_parts:
  assumes "asn_parse_header m p dl = Inr (q, n, t)"
  shows "(\<exists>t' q1 n1. asn_parse_tl m p dl = Inr (t', q1, n1) \<and>
    (q = q1 \<and> n = n1 \<and> t = t' \<and> (t' = ASN_OPAQUE \<longrightarrow>
        (\<exists>b. rd m q1 = Inr b \<and> (b \<noteq> ASN_OPAQUE_TAG1 \<or> (\<exists>b2. rd m (q1 + 1) = Inr b2 \<and> \<not> special_tag b2)))) \<or>
     t' = ASN_OPAQUE \<and> special_tag t \<and> rd m q1 = Inr ASN_OPAQUE_TAG1 \<and> rd m (q1 + 1) = Inr t \<and>
       asn_parse_length m (q1 + 2) = Inr (q, n)))"
proof -
  from assms obtain t' q1 n1 where r: "rd m p = Inr t'" "asn_parse_length m (p + 1) = Inr (q1, n1)"
      "\<not> asn_parse_length_check q1 p n1 dl"
    by (auto simp: asn_parse_header_def ebind_eq_Inr split: if_splits prod.splits)
  then have tl: "asn_parse_tl m p dl = Inr (t', q1, n1)" by (simp add: asn_parse_tl_def)
  have "q = q1 \<and> n = n1 \<and> t = t' \<and> (t' = ASN_OPAQUE \<longrightarrow>
        (\<exists>b. rd m q1 = Inr b \<and> (b \<noteq> ASN_OPAQUE_TAG1 \<or> (\<exists>b2. rd m (q1 + 1) = Inr b2 \<and> \<not> special_tag b2)))) \<or>
     t' = ASN_OPAQUE \<and> special_tag t \<and> rd m q1 = Inr ASN_OPAQUE_TAG1 \<and> rd m (q1 + 1) = Inr t \<and>
       asn_parse_length m (q1 + 2) = Inr (q, n)"
  proof (cases "t' = ASN_OPAQUE")
    case False
    then show ?thesis using assms r by (simp add: asn_parse_header_def split: if_splits)
  next
    case True
    with assms r obtain b where b: "rd m q1 = Inr b"
      by (auto simp: asn_parse_header_def ebind_eq_Inr split: if_splits)
    show ?thesis
    proof (cases "b = ASN_OPAQUE_TAG1")
      case False
      then show ?thesis using assms r b True by (simp add: asn_parse_header_def split: if_splits)
    next
      case tag1: True
      with assms r b True obtain b2 where b2: "rd m (q1 + 1) = Inr b2"
        by (auto simp: asn_parse_header_def ebind_eq_Inr split: if_splits)
      show ?thesis
        using assms r b b2 True tag1 unfolding asn_parse_header_def special_tag_def[symmetric]
        by (cases "special_tag b2") (auto simp: ebind_eq_Inr split: if_splits prod.splits)
    qed
  qed
  with tl show ?thesis by blast
qed

lemma tl_other_length:
  assumes "asn_parse_tl m p dl = Inr (t, q, n)" "asn_parse_tl m p dl' = Inr (t', q', n')"
  shows "t' = t \<and> q' = q \<and> n' = n"
  using assms by (auto simp: asn_parse_tl_def ebind_eq_Inr split: if_splits prod.splits)

lemma value_header:
  assumes "asn_parse_header m p dl = Inr (q, n, t)" "readable m (p + unat dl)"
  shows "good_header m p dl'"
proof -
  obtain t' q1 n1 where tl: "asn_parse_tl m p dl = Inr (t', q1, n1)" using header_parts[OF assms(1)] by blast
  have "readable m p" "readable m (q1 + unat n1)"
    using assms(2) asn_parse_tl_Inr(5)[OF tl] by (auto simp: readable_def)
  then show ?thesis using tl_other_length[OF tl] unfolding good_header_def by blast
qed

text \<open>
  Where the decoders of special Opaque values go on, they find contents that
  the header check of the binding covered.
\<close>

lemma unwrap_safe:
  assumes "asn_parse_header m p dl = Inr (q, n, t)" "readable m (p + unat dl)"
    and tl: "asn_parse_tl m p dl' = Inr (t', q1, n1)" and tags: "\<And>x. tags x \<Longrightarrow> special_tag x"
  shows "in_memory (asn_opaque_unwrap tags lenok m p dl' t' q1 n1)"
    and "asn_opaque_unwrap tags lenok m p dl' t' q1 n1 = Inr (s, t2, q2, n2) \<Longrightarrow> readable m (q2 + unat n2)"
proof -
  obtain t0 q0 n0 where "asn_parse_tl m p dl = Inr (t0, q0, n0)" using header_parts[OF assms(1)] by blast
  then have tl0: "asn_parse_tl m p dl = Inr (t', q1, n1)" using tl_other_length[OF tl] by blast
  note b = asn_parse_tl_Inr[OF tl0]
  have len: "q1 + 9 \<le> length m" using b(2) assms(2) by (simp add: readable_def)
  then show "in_memory (asn_opaque_unwrap tags lenok m p dl' t' q1 n1)"
    unfolding asn_opaque_unwrap_def by (auto intro!: safe_ebind rd_safe parse_length_safe)
  have plain: "readable m (q1 + unat n1)" using b(5) assms(2) by (simp add: readable_def)
  have inner: "q + unat n \<le> p + unat dl" using asn_parse_header_advance(2)[OF assms(1)] .
  show "readable m (q2 + unat n2)"
    if u: "asn_opaque_unwrap tags lenok m p dl' t' q1 n1 = Inr (s, t2, q2, n2)"
  proof (cases s)
    case False
    then have "q2 = q1" "n2 = n1" using u by (auto simp: asn_opaque_unwrap_def ebind_eq_Inr split: if_splits prod.splits)
    then show ?thesis using plain by simp
  next
    case True
    then have "t' = ASN_OPAQUE" "rd m q1 = Inr ASN_OPAQUE_TAG1" "rd m (q1 + 1) = Inr t2" "tags t2"
        "asn_parse_length m (q1 + 2) = Inr (q2, n2)"
      using u by (auto simp: asn_opaque_unwrap_def ebind_eq_Inr split: if_splits prod.splits)
    then have "q2 = q \<and> n2 = n" using header_parts[OF assms(1)] tl0 tags[of t2] by auto
    then show ?thesis using inner assms(2) by (simp add: readable_def)
  qed
qed

lemma safe_unwrap_bind:
  assumes "asn_parse_header m p dl = Inr (q, n, t)" "readable m (p + unat dl)" "asn_parse_tl m p dl' = Inr (t', q1, n1)"
    and "\<And>x. tags x \<Longrightarrow> special_tag x"
    and "\<And>s t2 q2 n2. readable m (q2 + unat n2) \<Longrightarrow> in_memory (k (s, t2, q2, n2))"
  shows "in_memory (ebind (asn_opaque_unwrap tags lenok m p dl' t' q1 n1) k)"
proof (rule safe_ebind)
  show "in_memory (asn_opaque_unwrap tags lenok m p dl' t' q1 n1)" by (rule unwrap_safe(1)[OF assms(1-4)])
next
  fix v assume u: "asn_opaque_unwrap tags lenok m p dl' t' q1 n1 = Inr v"
  obtain s t2 q2 n2 where v: "v = (s, t2, q2, n2)" by (cases v) auto
  then show "in_memory (k v)" using unwrap_safe(2)[OF assms(1-4), where lenok = lenok and s = s and ?t2.0 = t2 and ?q2.0 = q2 and ?n2.0 = n2] u assms(5) by simp
qed

lemma opaque_decoders_safe:
  assumes h: "asn_parse_header m p dl = Inr (q, n, t)" "readable m (p + unat dl)"
  shows "in_memory (asn_parse_unsigned_int64 m p dl' 8)" "in_memory (asn_parse_signed_int64 m p dl' 8)"
    "in_memory (asn_parse_float m p dl' 4)" "in_memory (asn_parse_double m p dl' 8)"
proof -
  note g = value_header[OF h, of dl']
  show "in_memory (asn_parse_unsigned_int64 m p dl' 8)"
    unfolding asn_parse_unsigned_int64_def
    by (rule safe_if, simp, rule safe_tl_bind[OF g], unfold prod.case, rule safe_unwrap_bind[OF h], assumption)
      (auto simp: special_tag_def readable_def intro!: safe_ebind rd_safe shift_in64_safe)
  show "in_memory (asn_parse_signed_int64 m p dl' 8)"
    unfolding asn_parse_signed_int64_def
    by (rule safe_if, simp, rule safe_tl_bind[OF g], unfold prod.case, rule safe_unwrap_bind[OF h], assumption)
      (auto simp: special_tag_def readable_def intro!: safe_ebind rd_safe shift_in64_safe)
  show "in_memory (asn_parse_float m p dl' 4)"
    unfolding asn_parse_float_def
    by (rule safe_if, simp, rule safe_tl_bind[OF g], unfold prod.case, rule safe_unwrap_bind[OF h], assumption)
      (auto simp: special_tag_def readable_def intro!: safe_ebind rds_safe)
  show "in_memory (asn_parse_double m p dl' 8)"
    unfolding asn_parse_double_def
    by (rule safe_if, simp, rule safe_tl_bind[OF g], unfold prod.case, rule safe_unwrap_bind[OF h], assumption)
      (auto simp: special_tag_def readable_def Let_def intro!: safe_ebind rds_safe)
qed

section \<open>Bindings and packets\<close>

lemma value_or_safe: "in_memory x \<Longrightarrow> in_memory (value_or x f d)"
  by (cases x) (auto simp: value_or_def split: asn_error.splits)

lemma parse_var_val_safe:
  assumes h: "asn_parse_header m p dl = Inr (q, n, t)" "readable m (p + unat dl)"
  shows "in_memory (parse_var_val alloc m p type len)"
proof -
  note g = value_header[OF h]
  have o: "in_memory (asn_parse_objid m p MAX_PACKET_LENGTH (of_nat MAX_OID_LEN))"
    by (rule parse_objid_safe[OF g]) (simp add: MAX_OID_LEN_def)
  show ?thesis
  proof (cases "var_kind type")
    case KObjid
    then show ?thesis using o by (auto simp: parse_var_val_def split: sum.splits asn_error.splits)
  qed (auto simp: parse_var_val_def intro!: value_or_safe parse_int_safe parse_unsigned_int_safe parse_string_safe
      parse_bitstring_safe g opaque_decoders_safe[OF h])
qed

lemma snmp_parse_var_op_safe:
  assumes "readable m (p + unat dl)"
  shows "in_memory (snmp_parse_var_op m p dl (of_nat MAX_OID_LEN))"
    and "snmp_parse_var_op m p dl (of_nat MAX_OID_LEN) = Inr (p', dl', nm, t, vl, v) \<Longrightarrow>
      in_memory (parse_var_val alloc m v type len)"
proof -
  let ?E = "p + unat dl"
  have hdr: "in_memory (ebind (asn_parse_header m p2 dl2) (\<lambda>(data3, var_val_len, var_val_type).
      let data4 = data3 + unat var_val_len in
      Inr (data4, dl - of_nat (data4 - p), nm, var_val_type, var_val_len, p2)))"
    if "p2 + unat dl2 \<le> ?E" for p2 dl2 and nm :: oid
    by (rule safe_header.bind_safe[OF assms that]) (simp add: Let_def split: prod.splits)
  have obj: "in_memory (ebind (asn_parse_objid m p1 dl1 (of_nat MAX_OID_LEN)) (\<lambda>(data2, var_op_len, var_op_type, var_name).
      if var_op_type \<noteq> ASN_OBJECT_ID then Inl WrongType
      else ebind (asn_parse_header m data2 var_op_len) (\<lambda>(data3, var_val_len, var_val_type).
      let data4 = data3 + unat var_val_len in
      Inr (data4, dl - of_nat (data4 - p), var_name, var_val_type, var_val_len, data2))))"
    if "p1 + unat dl1 \<le> ?E" for p1 dl1
    by (rule safe_objid.bind_safe[OF assms that]) (use hdr in \<open>auto split: prod.splits\<close>)
  show "in_memory (snmp_parse_var_op m p dl (of_nat MAX_OID_LEN))"
    unfolding snmp_parse_var_op_def
    by (rule safe_sequence.bind_safe[OF assms order.refl]) (use obj in auto)
next
  assume "snmp_parse_var_op m p dl (of_nat MAX_OID_LEN) = Inr (p', dl', nm, t, vl, v)"
  then obtain q n ty dl2 t2 q3 where s: "asn_parse_sequence m p dl ASN_SEQUENCE_CONSTRUCTOR = Inr (q, n, ty)"
    and o: "asn_parse_objid m q n (of_nat MAX_OID_LEN) = Inr (v, dl2, t2, nm)"
    and h: "asn_parse_header m v dl2 = Inr (q3, vl, t)"
    by (auto simp: snmp_parse_var_op_def ebind_eq_Inr Let_def split: if_splits prod.splits)
  have "v + unat dl2 \<le> p + unat dl"
    using safe_sequence.stays_inside[OF s] safe_objid.stays_inside[OF o] by linarith
  then have "readable m (v + unat dl2)" using assms by (simp add: readable_def)
  then show "in_memory (parse_var_val alloc m v type len)" by (rule parse_var_val_safe[OF h])
qed

lemma parse_varbinds_safe:
  "readable m (p + unat len) \<Longrightarrow> in_memory (parse_varbinds alloc m p len)"
proof (induction alloc m p len rule: parse_varbinds.induct)
  case (1 alloc m p len)
  note op = snmp_parse_var_op_safe[OF "1.prems"]
  show ?case
  proof (cases "sint len > 0 \<and> alloc SIZEOF_VARIABLE_LIST")
    case False
    then show ?thesis by (subst parse_varbinds.simps) auto
  next
    case True
    show ?thesis
    proof (cases "snmp_parse_var_op m p len (of_nat MAX_OID_LEN)")
      case (Inl e)
      then show ?thesis using True op(1) by (subst parse_varbinds.simps) simp
    next
      case (Inr x)
      obtain p' len' nm t vl v where x: "x = (p', len', nm, t, vl, v)" by (cases x) auto
      have s: "snmp_parse_var_op m p len (of_nat MAX_OID_LEN) = Inr (p', len', nm, t, vl, v)" using Inr x by simp
      have a: "p' + unat len' \<le> p + unat len" using snmp_parse_var_op_advance[OF s] by linarith
      then have r: "readable m (p' + unat len')" using "1.prems" by (simp add: readable_def)
      have v: "in_memory (parse_var_val alloc m v t vl)" by (rule op(2)[OF s])
      have ih: "in_memory (parse_varbinds alloc m p' len')"
        if "\<not> snmp_set_var_objid alloc nm" "parse_var_val alloc m v t vl = Inr y" for y
        using "1.IH"[OF _ _ s refl refl refl refl refl _ that(2)] that(1) True r by (cases y) auto
      then show ?thesis
        using True s v by (subst parse_varbinds.simps) (auto split: sum.splits)
    qed
  qed
qed

text \<open>The fields before the bindings: what follows them is inside the region still.\<close>

lemma parse_request_fields_safe:
  assumes "readable m e" "p + unat dl \<le> e"
  shows "in_memory (parse_request_fields pdu m p dl)"
    and "parse_request_fields pdu m p dl = Inr (p', dl', pdu') \<Longrightarrow> p' + unat dl' \<le> e"
proof -
  show "in_memory (parse_request_fields pdu m p dl)"
    unfolding parse_request_fields_def
    by (rule safe_int.bind_safe[OF assms], clarify, rule safe_int.bind_safe[OF assms(1)], assumption, clarify,
        rule safe_int.bind_safe[OF assms(1)], assumption) auto
  show "p' + unat dl' \<le> e" if "parse_request_fields pdu m p dl = Inr (p', dl', pdu')"
    using that assms(2)
    by (auto simp: parse_request_fields_def ebind_eq_Inr split: prod.splits dest!: safe_int.stays_inside)
qed

lemma parse_trap_fields_safe:
  assumes "readable m e" "p + unat dl \<le> e"
  shows "in_memory (parse_trap_fields alloc pdu m p dl)"
    and "parse_trap_fields alloc pdu m p dl = Inr (p', dl', pdu') \<Longrightarrow> p' + unat dl' \<le> e"
proof -
  show "in_memory (parse_trap_fields alloc pdu m p dl)"
    unfolding parse_trap_fields_def
    by (rule safe_objid.bind_safe[OF assms], clarify, rule safe_unless, simp,
        rule safe_string.bind_safe[OF assms(1)], assumption, clarify,
        rule safe_int.bind_safe[OF assms(1)], assumption, clarify,
        rule safe_int.bind_safe[OF assms(1)], assumption, clarify,
        rule safe_unsigned_int.bind_safe[OF assms(1)], assumption) auto
  show "p' + unat dl' \<le> e" if "parse_trap_fields alloc pdu m p dl = Inr (p', dl', pdu')"
    using that assms(2)
    by (auto simp: parse_trap_fields_def ebind_eq_Inr split: prod.splits if_splits
        dest!: safe_objid.stays_inside safe_string.stays_inside safe_int.stays_inside safe_unsigned_int.stays_inside)
qed

lemma snmp_pdu_parse_safe:
  assumes "readable m (p + unat dl)"
  shows "in_memory (snmp_pdu_parse alloc p0 m p dl)"
proof -
  let ?E = "p + unat dl"
  have binds: "in_memory (ebind (asn_parse_sequence m p1 dl1 ASN_SEQUENCE_CONSTRUCTOR) (\<lambda>(data, len, _).
      ebind (parse_varbinds alloc m data len) (\<lambda>(vps, bad).
      Inr (if vps = [] then pdu else pdu\<lparr>variables := vps\<rparr>, if bad then - 1 else 0 :: int))))"
    if "p1 + unat dl1 \<le> ?E" for p1 dl1 and pdu :: pdu
  proof (rule safe_sequence.bind_safe[OF assms that])
    fix p2 and dl2 :: u32 and r :: u8 assume "p2 + unat dl2 \<le> ?E"
    then have "readable m (p2 + unat dl2)" using assms by (simp add: readable_def)
    then show "in_memory (case (p2, dl2, r) of (data, len, _) \<Rightarrow> ebind (parse_varbinds alloc m data len) (\<lambda>(vps, bad).
      Inr (if vps = [] then pdu else pdu\<lparr>variables := vps\<rparr>, if bad then - 1 else 0 :: int)))"
      by (auto intro!: safe_ebind parse_varbinds_safe)
  qed
  show ?thesis
    unfolding snmp_pdu_parse_def Let_def
  proof (rule safe_header.bind_safe[OF assms order.refl], unfold prod.case, rule safe_ebind, goal_cases)
    case (1 p1 dl1 t)
    then show ?case
      using parse_trap_fields_safe(1)[OF assms] parse_request_fields_safe(1)[OF assms] by (auto intro!: safe_if)
  next
    case (2 p1 dl1 t v)
    obtain p2 dl2 pdu where v: "v = (p2, dl2, pdu)" by (cases v) auto
    consider "ucast t = SNMP_MSG_TRAP" | "ucast t \<noteq> SNMP_MSG_TRAP" "is_request (ucast t)"
      using 2(2) by (auto split: if_splits)
    then have "p2 + unat dl2 \<le> ?E"
    proof cases
      case 1
      then show ?thesis using 2(2) v by (simp add: parse_trap_fields_safe(2)[OF assms 2(1)])
    next
      case other: 2
      then show ?thesis using 2(2) v by (simp only: if_False if_True) (rule parse_request_fields_safe(2)[OF assms 2(1)])
    qed
    then show ?case using binds v by simp
  qed
qed

end
