(* ===== verification/Pdu_Types.thy ===== *)
theory Pdu_Types
  imports Pdu
begin

text \<open>
  The type of a decoded variable says which member of the union was written. A value whose decoder failed is left as it was.
\<close>

definition typed :: "u8 \<Rightarrow> vardata \<Rightarrow> u32 \<Rightarrow> bool" where
  "typed t v l =
     (case v of
        Uninit \<Rightarrow> True
      | NoVal \<Rightarrow> var_kind t = KNull \<or> var_kind t = KBad
      | IntegerVal _ \<Rightarrow> (var_kind t = KInt \<or> var_kind t = KUint) \<and> l = 4
      | CounterVal _ \<Rightarrow> (var_kind t = KU64 \<or> var_kind t = KI64) \<and> l = 8
      | StringVal s \<Rightarrow> (var_kind t = KString \<or> var_kind t = KBits) \<and> unat l \<le> length s
      | ObjidVal x \<Rightarrow> var_kind t = KObjid \<and> l = of_nat (4 * length x) \<and> length x \<le> MAX_OID_LEN
      | FloatVal _ \<Rightarrow> (var_kind t = KFloat \<or> t = ASN_OPAQUE) \<and> l = 4
      | DoubleVal _ \<Rightarrow> (var_kind t = KDouble \<or> t = ASN_OPAQUE) \<and> l = 8)"

definition var_typed :: "variable_list \<Rightarrow> bool" where
  "var_typed vp \<longleftrightarrow> typed (vtype vp) (val vp) (val_len vp) \<and> length (name vp) \<le> MAX_OID_LEN"

lemma typed_Uninit [simp]: "typed t Uninit l"
  by (simp add: typed_def)

text \<open>The type a header has: the byte in front, or a special type in an Opaque.\<close>

lemma header_tag:
  "asn_parse_header m p dl = Inr (q, n, t) \<Longrightarrow>
     rd m p = Inr t \<or> rd m p = Inr ASN_OPAQUE \<and> var_kind t \<in> {KU64, KFloat, KDouble, KI64}"
  by (auto simp: asn_parse_header_def ebind_eq_Inr var_kind_def var_tag_defs asn_tag_defs split: if_splits)

lemma tl_tag: "asn_parse_tl m p dl = Inr (t, q, n) \<Longrightarrow> rd m p = Inr t"
  by (auto simp: asn_parse_tl_def ebind_eq_Inr split: if_splits)

lemma unwrap_tag:
  "asn_opaque_unwrap tags lenok m p dl t q n = Inr (s, t', q', n') \<Longrightarrow>
     (if s then t = ASN_OPAQUE \<and> tags t' else t' = t \<and> n' = n)"
  by (auto simp: asn_opaque_unwrap_def ebind_eq_Inr split: if_splits)

lemma int_tag: "asn_parse_int m p dl k = Inr (q, l, t, x) \<Longrightarrow> rd m p = Inr t"
  by (auto simp: asn_parse_int_def ebind_eq_Inr dest!: tl_tag split: if_splits)

lemma uint_tag: "asn_parse_unsigned_int m p dl k = Inr (q, l, t, x) \<Longrightarrow> rd m p = Inr t"
  by (auto simp: asn_parse_unsigned_int_def ebind_eq_Inr dest!: tl_tag split: if_splits)

lemma string_tag: "asn_parse_string m p dl k = Inr (q, l, t, s, n) \<Longrightarrow> rd m p = Inr t \<and> unat n \<le> length s"
  by (auto simp: asn_parse_string_def ebind_eq_Inr rds_def dest!: tl_tag split: if_splits)

lemma bitstring_tag: "asn_parse_bitstring m p dl k = Inr (q, l, t, s, n) \<Longrightarrow> rd m p = Inr t \<and> unat n \<le> length s"
  by (auto simp: asn_parse_bitstring_def ebind_eq_Inr rds_def dest!: tl_tag split: if_splits)

lemma objid_tag: "asn_parse_objid m p dl k = Inr (q, l, t, x) \<Longrightarrow> rd m p = Inr t"
  by (auto simp: asn_parse_objid_def ebind_eq_Inr Let_def dest!: tl_tag split: if_splits prod.splits)

lemma uint64_tag:
  "asn_parse_unsigned_int64 m p dl k = Inr (q, l, t, c) \<Longrightarrow> rd m p = Inr t \<or> t = ASN_OPAQUE_COUNTER64 \<or> t = ASN_OPAQUE_U64"
  by (auto simp: asn_parse_unsigned_int64_def ebind_eq_Inr dest!: tl_tag unwrap_tag split: if_splits)

lemma int64_tag: "asn_parse_signed_int64 m p dl k = Inr (q, l, t, c) \<Longrightarrow> t = ASN_OPAQUE_I64"
  by (auto simp: asn_parse_signed_int64_def ebind_eq_Inr dest!: unwrap_tag split: if_splits)

lemma float_tag: "asn_parse_float m p dl k = Inr (q, l, t, x) \<Longrightarrow> rd m p = Inr t \<or> t = ASN_OPAQUE_FLOAT"
  by (auto simp: asn_parse_float_def ebind_eq_Inr dest!: tl_tag unwrap_tag split: if_splits)

lemma double_tag: "asn_parse_double m p dl k = Inr (q, l, t, x) \<Longrightarrow> rd m p = Inr t \<or> t = ASN_OPAQUE_DOUBLE"
  by (auto simp: asn_parse_double_def ebind_eq_Inr dest!: tl_tag unwrap_tag split: if_splits)

lemmas decoder_tags = int_tag uint_tag string_tag bitstring_tag objid_tag uint64_tag int64_tag float_tag double_tag

lemma value_or_Inr_iff:
  "value_or x f d = Inr w \<longleftrightarrow> (\<exists>v. x = Inr v \<and> w = f v) \<or> (\<exists>e. x = Inl e \<and> e \<noteq> OutOfBounds \<and> w = d)"
  by (auto simp: value_or_def split: sum.splits asn_error.splits)

text \<open>An Opaque that holds a 64-bit counter is unwrapped, or too long to be decoded.\<close>

lemma uint64_unwraps:
  assumes h: "asn_parse_header m p dl = Inr (q, n, t)" and k: "var_kind t = KU64" "rd m p = Inr ASN_OPAQUE"
    and u: "asn_parse_unsigned_int64 m p dl' 8 = Inr (q', l', t', c)"
  shows "var_kind t' = KU64"
proof -
  have t: "t = ASN_OPAQUE_COUNTER64 \<or> t = ASN_OPAQUE_U64 \<or> t = ASN_COUNTER64" using k(1) by (auto simp: var_kind_def split: if_splits)
  obtain b len where b: "asn_parse_length m (p + 1) = Inr (b, len)" "rd m b = Inr ASN_OPAQUE_TAG1" "rd m (b + 1) = Inr t"
      "t = ASN_OPAQUE_COUNTER64 \<or> t = ASN_OPAQUE_U64"
    using h k(2) t by (auto simp: asn_parse_header_def ebind_eq_Inr var_tag_defs asn_tag_defs split: if_splits)
  have tl: "asn_parse_tl m p dl' = Inr (t0, b0, n0) \<Longrightarrow> t0 = ASN_OPAQUE \<and> b0 = b \<and> n0 = len" for t0 b0 n0
    using b(1) k(2) by (auto simp: asn_parse_tl_def split: if_splits)
  obtain t0 b0 n0 sp n1 b1 where p: "asn_parse_tl m p dl' = Inr (t0, b0, n0)" "\<not> n1 > 9"
      "asn_opaque_unwrap (\<lambda>t. t = ASN_OPAQUE_COUNTER64 \<or> t = ASN_OPAQUE_U64) (\<lambda>l. l \<le> 12) m p dl' t0 b0 n0 = Inr (sp, t', b1, n1)"
    using u by (auto simp: asn_parse_unsigned_int64_def ebind_eq_Inr split: if_splits)
  have o: "t0 = ASN_OPAQUE" "b0 = b" "n0 = len" using tl[OF p(1)] by auto
  show ?thesis
  proof (cases "len \<le> 12")
    case True
    then have "t' = t" using p(3) b o by (auto simp: asn_opaque_unwrap_def ebind_eq_Inr split: if_splits)
    then show ?thesis using k(1) by simp
  next
    case False
    then have "n1 = len" using p(3) o by (simp add: asn_opaque_unwrap_def)
    then show ?thesis using False p(2) by (simp add: word_less_nat_alt word_le_nat_alt)
  qed
qed

lemma special_header_kind [simp]:
  "var_kind ASN_OPAQUE_COUNTER64 = KU64" "var_kind ASN_OPAQUE_U64 = KU64" "var_kind ASN_OPAQUE_I64 = KI64"
  "var_kind ASN_OPAQUE_FLOAT = KFloat" "var_kind ASN_OPAQUE_DOUBLE = KDouble" "var_kind ASN_OPAQUE = KString"
  by (simp_all add: var_kind_def var_tag_defs asn_tag_defs)

lemma objid_loop_length: "objid_loop m q len cap i n = Inr (q', len', xs) \<Longrightarrow> length xs \<le> cap"
proof (induction cap arbitrary: q len i q' len' xs)
  case (Suc cap)
  then show ?case by (auto simp: ebind_eq_Inr split: if_splits prod.splits)
qed simp

lemma objid_length: "asn_parse_objid m p dl (of_nat MAX_OID_LEN) = Inr (q, l, t, x) \<Longrightarrow> length x \<le> MAX_OID_LEN"
  by (auto simp: asn_parse_objid_def ebind_eq_Inr Let_def MAX_OID_LEN_def dest!: objid_loop_length split: if_splits prod.splits)

lemma parse_var_val_typed:
  assumes h: "asn_parse_header m p dl = Inr (q, n, t)" and v: "parse_var_val alloc m p t vl = Inr (t', v, l', bad)"
  shows "typed t' v l'"
proof -
  note tag = header_tag[OF h]
  note iff = parse_var_val_def value_or_Inr_iff typed_def
  show ?thesis
  proof (cases "var_kind t")
    case KU64
    then consider "v = Uninit" | q' l c where "asn_parse_unsigned_int64 m p MAX_PACKET_LENGTH 8 = Inr (q', l, t', c)" "v = CounterVal c" "l' = 8"
      using v by (auto simp: parse_var_val_def value_or_Inr_iff)
    then show ?thesis
    proof cases
      case (2 q' l c)
      have "var_kind t' = KU64"
        using tag
      proof
        assume "rd m p = Inr t"
        then show ?thesis using uint64_tag[OF 2(1)] KU64 by auto
      next
        assume "rd m p = Inr ASN_OPAQUE \<and> var_kind t \<in> {KU64, KFloat, KDouble, KI64}"
        then show ?thesis using uint64_unwraps[OF h KU64 _ 2(1)] by blast
      qed
      then show ?thesis using 2 by (simp add: typed_def)
    qed simp
  next
    case KI64
    with v show ?thesis by (auto simp: iff dest!: int64_tag)
  next
    case KFloat
    with v tag show ?thesis by (auto simp: iff dest!: float_tag)
  next
    case KDouble
    with v tag show ?thesis by (auto simp: iff dest!: double_tag)
  next
    case KObjid
    then consider "v = Uninit" | q' l x where "asn_parse_objid m p MAX_PACKET_LENGTH (of_nat MAX_OID_LEN) = Inr (q', l, t', x)"
        "v = ObjidVal x" "l' = of_nat (4 * length x)"
      using v by (auto simp: parse_var_val_def split: sum.splits asn_error.splits if_splits)
    then show ?thesis
    proof cases
      case (2 q' l x)
      then show ?thesis using tag KObjid objid_tag[OF 2(1)] objid_length[OF 2(1)] by (simp add: typed_def)
    qed simp
  qed (use v tag in \<open>auto simp: iff dest!: int_tag uint_tag string_tag bitstring_tag split: if_splits\<close>)
qed

lemma parse_varbinds_typed:
  "parse_varbinds alloc m data len = Inr (vps, bad) \<Longrightarrow> \<forall>vp\<in>set vps. var_typed vp"
proof (induction alloc m data len arbitrary: vps bad rule: parse_varbinds.induct)
  case (1 alloc m data len)
  show ?case
  proof (cases "sint len > 0")
    case True
    with "1.prems" obtain data' len' nm t vl p t' v vl' bad1 ws bad2 where r: "alloc SIZEOF_VARIABLE_LIST"
        "snmp_parse_var_op m data len (of_nat MAX_OID_LEN) = Inr (data', len', nm, t, vl, p)" "\<not> snmp_set_var_objid alloc nm"
        "parse_var_val alloc m p t vl = Inr (t', v, vl', bad1)" "parse_varbinds alloc m data' len' = Inr (ws, bad2)"
        "vps = \<lparr>name = nm, vtype = t', val = v, val_len = vl'\<rparr> # ws"
      by (subst (asm) parse_varbinds.simps) (auto split: if_splits sum.splits prod.splits)
    obtain d1 vo ty d2 vo2 t2 q n where h: "asn_parse_objid m d1 vo (of_nat MAX_OID_LEN) = Inr (d2, vo2, t2, nm)"
        "asn_parse_header m p vo2 = Inr (q, n, t)"
      using r(2) by (auto simp: snmp_parse_var_op_def ebind_eq_Inr Let_def split: if_splits)
    have "\<forall>vp\<in>set ws. var_typed vp" using "1.IH" True r(1-5) by fastforce
    then show ?thesis using parse_var_val_typed[OF h(2) r(4)] objid_length[OF h(1)] by (simp add: r(6) var_typed_def)
  next
    case False
    then show ?thesis using "1.prems" by (simp add: parse_varbinds.simps)
  qed
qed

lemma fields_variables:
  "parse_trap_fields alloc pdu m p len = Inr (q, l, pdu') \<Longrightarrow> variables pdu' = variables pdu"
  "parse_request_fields pdu m p len = Inr (q, l, pdu') \<Longrightarrow> variables pdu' = variables pdu"
  by (auto simp: parse_trap_fields_def parse_request_fields_def ebind_eq_Inr split: if_splits prod.splits)

lemma pdu_parse_typed:
  assumes "snmp_pdu_parse alloc p0 m p len = Inr (pdu, ret)" "\<forall>vp\<in>set (variables p0). var_typed vp"
  shows "\<forall>vp\<in>set (variables pdu). var_typed vp"
proof -
  let ?start = "\<lambda>t. p0\<lparr>command := ucast (t :: u8), flags := and (flags p0) (not UCD_MSG_FLAG_RESPONSE_PDU)\<rparr>"
  obtain q n t d l p2 d' l' vps bad where
    f: "(if ucast t = SNMP_MSG_TRAP then parse_trap_fields alloc (?start t) m q n
         else if is_request (ucast t) then
           parse_request_fields
             (if ucast t = SNMP_MSG_RESPONSE \<or> ucast t = SNMP_MSG_REPORT
              then (?start t)\<lparr>flags := or (flags (?start t)) UCD_MSG_FLAG_RESPONSE_PDU\<rparr> else ?start t) m q n
         else Inl BadPduType) = Inr (d, l, p2)"
    and v: "parse_varbinds alloc m d' l' = Inr (vps, bad)" and e: "pdu = (if vps = [] then p2 else p2\<lparr>variables := vps\<rparr>)"
    using assms(1) unfolding snmp_pdu_parse_def Let_def ebind_eq_Inr split_paired_Ex prod.case sum.inject prod.inject
    by blast
  have "variables p2 = variables p0" using f by (auto split: if_splits dest!: fields_variables)
  then show ?thesis using e parse_varbinds_typed[OF v] assms(2) by simp
qed

end
