(* ===== verification/Pdu_Forward.thy ===== *)
theory Pdu_Forward
  imports Pdu
begin

unbundle bit_operations_syntax

text \<open>
  The forward encoder of PDUs, \<^verbatim>\<open>snmp_pdu_build\<close> of \<^verbatim>\<open>snmplib/snmp_api.c\<close>. It writes
  four bytes as a placeholder for the header of each sequence and stores the
  real length, in two octets, when the contents are there.
\<close>

section \<open>Operations\<close>

definition build_fields :: "u32 \<Rightarrow> pdu \<Rightarrow> u8 list \<times> (asn_error + u32)" where
  "build_fields dl pdu =
     (if command pdu \<noteq> SNMP_MSG_TRAP then
        wbind (asn_build_int dl ASN_INTEGER (reqid pdu) 4) (\<lambda>dl.
        wbind (asn_build_int dl ASN_INTEGER (errstat pdu) 4) (\<lambda>dl.
        asn_build_int dl ASN_INTEGER (errindex pdu) 4))
      else
        wbind (asn_build_objid dl ASN_OBJECT_ID (enterprise pdu)) (\<lambda>dl.
        wbind (asn_build_string dl ASN_IPADDRESS (Some (agent_addr pdu)) 4) (\<lambda>dl.
        wbind (asn_build_int dl ASN_INTEGER (trap_type pdu) 4) (\<lambda>dl.
        wbind (asn_build_int dl ASN_INTEGER (specific_type pdu) 4) (\<lambda>dl.
        asn_build_unsigned_int dl ASN_TIMETICKS (timestamp pdu) 4)))))"

text \<open>The loop over the bindings; \<open>buf\<close> is what the memory held before.\<close>

fun build_varbinds :: "u8 list \<Rightarrow> u32 \<Rightarrow> variable_list list \<Rightarrow> u8 list \<times> (asn_error + u32)" where
  "build_varbinds buf dl [] = ([], Inr dl)"
| "build_varbinds buf dl (vp # vps) =
     (case snmp_build_var_op buf dl vp of
        (w, Inl e) \<Rightarrow> (w, Inl e)
      | (w, Inr dl') \<Rightarrow> (case build_varbinds (drop (length w) buf) dl' vps of (w', r) \<Rightarrow> (w @ w', r)))"

text \<open>
  Storing the real length over the placeholder \<open>h\<close>: the bytes that are there
  afterwards and the new value of the local \<^verbatim>\<open>length\<close>, which counts down from
  \<^verbatim>\<open>*out_length\<close>. The result of \<^verbatim>\<open>asn_build_sequence\<close> is not looked at.
\<close>

definition insert_length :: "u8 list \<Rightarrow> u32 \<Rightarrow> u8 \<Rightarrow> u32 \<Rightarrow> u8 list \<times> u32" where
  "insert_length h len type n =
     (case asn_build_sequence len type n of (w, Inr len') \<Rightarrow> (w, len') | (_, Inl _) \<Rightarrow> (h, len))"

definition snmp_pdu_build :: "u8 list \<Rightarrow> u32 \<Rightarrow> pdu \<Rightarrow> u8 list \<times> (asn_error + u32)" where
  "snmp_pdu_build buf out_length pdu =
     (case asn_build_sequence out_length (ucast (command pdu)) 0 of
        (h1, Inl e) \<Rightarrow> (h1, Inl e)
      | (h1, Inr dl) \<Rightarrow> (case build_fields dl pdu of
        (f, Inl e) \<Rightarrow> (h1 @ f, Inl e)
      | (f, Inr dl) \<Rightarrow> (case asn_build_sequence dl ASN_SEQUENCE_CONSTRUCTOR 0 of
        (h2, Inl e) \<Rightarrow> (h1 @ f @ h2, Inl e)
      | (h2, Inr dl) \<Rightarrow> (case build_varbinds (drop (length (h1 @ f @ h2)) buf) dl (variables pdu) of
        (v, Inl e) \<Rightarrow> (h1 @ f @ h2 @ v, Inl e)
      | (v, Inr dl) \<Rightarrow>
          let (h2', len) = insert_length h2 out_length ASN_SEQUENCE_CONSTRUCTOR (of_nat (length v));
              (h1', len) = insert_length h1 len (ucast (command pdu)) (of_nat (length (f @ h2 @ v)))
          in (h1' @ f @ h2' @ v, Inr dl)))))"

section \<open>The bytes of a binding and of the fields\<close>

lemma asn_build_sequence_Inr:
  "asn_build_sequence dl type len = (w, Inr dl') \<longleftrightarrow>
     4 \<le> unat dl \<and> w = [type, 0x82, ucast (drop_bit 8 len), ucast len] \<and> dl' = dl - 4"
  by (auto simp: asn_build_sequence_def word_less_nat_alt)

definition seq_header :: "u8 \<Rightarrow> nat \<Rightarrow> u8 list" where
  "seq_header type n = [type, 0x82, ucast (drop_bit 8 (of_nat n :: u32)), ucast (of_nat n :: u32)]"

lemma length_seq_header [simp]: "length (seq_header type n) = 4"
  by (simp add: seq_header_def)

lemma seq_header_at:
  assumes "bytes_at m p (seq_header type n)" "n \<le> 0xFFFF"
  shows "header_at m p type (p + 4) n"
proof -
  let ?L = "of_nat n :: u32"
  have u: "unat ?L = n" using assms(2) by (intro u32_unat_of_nat) simp
  have "take_bit 16 ?L = ?L" using u assms(2) by (simp add: take_bit_u32_eq_self_iff word_less_nat_alt)
  then have v: "be_value 0 (be_bytes 2 ?L) = ?L" by (simp add: be_value_be_bytes)
  have two: "be_bytes 2 ?L = [ucast (drop_bit 8 ?L), ucast ?L]" by (simp add: numeral_2_eq_2)
  have r: "rd m p = Inr type" "rd m (p + 1) = Inr 0x82" "bytes_at m (p + 2) (be_bytes 2 ?L)"
    using assms(1) by (auto simp: seq_header_def rd_def two)
  have "shift_in m (p + 2) 2 0 = Inr (p + 4, ?L)"
    using shift_in_bytes_at[OF r(3), of 0] v by simp
  then have pl: "asn_parse_length m (p + 1) = Inr (p + 4, ?L)"
    using r(2) u assms(2) u32_small_nonneg[of ?L] by (simp add: asn_parse_length_def)
  have "asn_parse_tl m p dl = Inr (type, p + 4, ?L)" if "4 + n \<le> unat dl" for dl
    using r(1) pl that u assms(2) by (simp add: asn_parse_tl_def asn_parse_length_check_iff)
  then show ?thesis using assms(2) by (simp add: header_at_def)
qed

lemma build_tlv_Inr:
  assumes "length payload \<le> 0xFFFF" "build_tlv dl type payload = (w, Inr dl')"
  shows "w = tlv type payload" "unat dl' + length w = unat dl"
proof -
  have l: "length (tlv type payload) \<le> unat dl"
    using assms build_tlv_too_long[of payload dl type] by (cases "unat dl < length (tlv type payload)") auto
  then show "w = tlv type payload" "unat dl' + length w = unat dl"
    using assms build_tlv_fits[of payload type dl] u32_sub_nat[OF l] by auto
qed

lemma build_var_op_Inr:
  assumes ok: "var_ok vp" and b: "snmp_build_var_op buf dl vp = (w, Inr dl')"
  shows "w = seq_header ASN_SEQUENCE_CONSTRUCTOR (length (var_contents vp)) @ var_contents vp"
    "unat dl' + length w = unat dl"
proof -
  have o: "objid_ok (name vp)" "val_ok (vtype vp) (val vp) (val_len vp)" using ok by (auto simp: var_ok_def)
  let ?P = "val_payload (vtype vp) (val vp)" and ?c = "var_contents vp"
  from b obtain wc where dl: "4 \<le> unat dl"
    and wc: "wbind (asn_build_objid (dl - 4) ASN_OBJECT_ID (name vp))
      (\<lambda>dl. build_var_val dl (vtype vp) (val vp) (val_len vp)) = (wc, Inr dl')"
    and w: "w = patch_sequence buf (of_nat (length wc)) ASN_SEQUENCE_CONSTRUCTOR (of_nat (length wc)) @ wc"
    by (auto simp: snmp_build_var_op_def Let_def word_less_nat_alt not_less split: if_splits prod.splits sum.splits)
  from wc obtain w1 w2 dl1 where
    1: "asn_build_objid (dl - 4) ASN_OBJECT_ID (name vp) = (w1, Inr dl1)"
    and 2: "build_var_val dl1 (vtype vp) (val vp) (val_len vp) = (w2, Inr dl')" and w12: "wc = w1 @ w2"
    by (auto simp: wbind_eq_Inr)
  have w1: "w1 = tlv ASN_OBJECT_ID (objid_payload (name vp))" "unat dl1 + length w1 = unat (dl - 4)"
    using build_tlv_Inr[OF _ 1[unfolded asn_build_objid_tlv[OF o(1)]]] objid_payload_len[OF o(1)] by auto
  have w2: "w2 = val_enc (vtype vp) (val vp)" "unat dl' + length w2 = unat dl1"
    using build_tlv_Inr[OF val_payload_len[OF o(2)] 2[unfolded build_var_val_tlv[OF o(2)]]] by (auto simp: val_enc_def)
  have c: "wc = ?c" using w1 w2 w12 by (simp add: var_contents_def)
  have d4: "unat (dl - 4) = unat dl - 4" using u32_sub_nat[of 4 dl] dl by simp
  have "length ?c \<le> unat dl" using w1 w2 d4 w12 c[symmetric] by simp
  then have u: "unat (of_nat (length ?c) :: u32) = length ?c"
    using unat_u32_bound[of dl] by (intro u32_unat_of_nat) simp
  have "4 \<le> length ?c"
    using tlv_length_bounds(1)[of "objid_payload (name vp)" ASN_OBJECT_ID] tlv_length_bounds(1)[of ?P "val_tag (vtype vp)"]
    by (simp add: var_contents_def val_enc_def)
  then have "patch_sequence buf (of_nat (length ?c)) ASN_SEQUENCE_CONSTRUCTOR (of_nat (length ?c)) =
      seq_header ASN_SEQUENCE_CONSTRUCTOR (length ?c)"
    using u by (simp add: patch_sequence_def asn_build_sequence_def seq_header_def word_less_nat_alt)
  then show "w = seq_header ASN_SEQUENCE_CONSTRUCTOR (length ?c) @ ?c" using w unfolding c by simp
  then show "unat dl' + length w = unat dl" using w1 w2 d4 dl w12 c[symmetric] by simp
qed

definition varlist_fwd :: "variable_list list \<Rightarrow> u8 list" where
  "varlist_fwd vps = concat (map (\<lambda>vp. seq_header ASN_SEQUENCE_CONSTRUCTOR (length (var_contents vp)) @ var_contents vp) vps)"

lemma build_varbinds_Inr:
  "\<forall>vp\<in>set vps. var_ok vp \<Longrightarrow> build_varbinds buf dl vps = (w, Inr dl') \<Longrightarrow>
     w = varlist_fwd vps \<and> unat dl' + length w = unat dl"
proof (induction vps arbitrary: buf dl w)
  case (Cons vp vps)
  from Cons.prems(2) obtain w1 dl1 w2 where 1: "snmp_build_var_op buf dl vp = (w1, Inr dl1)"
    and 2: "build_varbinds (drop (length w1) buf) dl1 vps = (w2, Inr dl')" and w: "w = w1 @ w2"
    by (auto split: prod.splits sum.splits)
  have "w2 = varlist_fwd vps \<and> unat dl' + length w2 = unat dl1" using Cons.prems(1) by (intro Cons.IH[OF _ 2]) simp
  then show ?case using build_var_op_Inr[OF _ 1] Cons.prems(1) w by (auto simp: varlist_fwd_def)
qed (simp add: varlist_fwd_def)

lemma varlist_fwd_at:
  "bytes_at m p (varlist_fwd vps) \<Longrightarrow> length (varlist_fwd vps) \<le> 0xFFFF \<Longrightarrow>
     varbinds_at m p vps (p + length (varlist_fwd vps))"
proof (induction vps arbitrary: p)
  case (Cons vp vps)
  let ?c = "var_contents vp"
  have e: "varlist_fwd (vp # vps) = seq_header ASN_SEQUENCE_CONSTRUCTOR (length ?c) @ ?c @ varlist_fwd vps"
    by (simp add: varlist_fwd_def)
  have at: "bytes_at m p (seq_header ASN_SEQUENCE_CONSTRUCTOR (length ?c))" "bytes_at m (p + 4) ?c"
      "bytes_at m (p + 4 + length ?c) (varlist_fwd vps)"
    using Cons.prems(1) by (auto simp: e bytes_at_append)
  have "varbinds_at m (p + 4 + length ?c) vps (p + 4 + length ?c + length (varlist_fwd vps))"
    using Cons.prems(2) by (intro Cons.IH at) (simp add: e)
  moreover have "header_at m p ASN_SEQUENCE_CONSTRUCTOR (p + 4) (length ?c)"
    using Cons.prems(2) by (intro seq_header_at at) (simp add: e)
  ultimately show ?case using at(2) by (auto simp: e add.assoc intro!: exI[of _ "p + 4"])
qed (simp add: varlist_fwd_def)

lemma build_fields_Inr:
  assumes "build_fields dl pdu = (w, Inr dl')" "command pdu = SNMP_MSG_TRAP \<Longrightarrow> objid_ok (enterprise pdu)"
    and "length (agent_addr pdu) = 4"
  shows "w = fields_enc pdu" "unat dl' + length w = unat dl"
proof -
  have s: "asn_build_string d ASN_IPADDRESS (Some (agent_addr pdu)) 4 = build_tlv d ASN_IPADDRESS (agent_addr pdu)" for d
    using asn_build_string_tlv[of "agent_addr pdu" d ASN_IPADDRESS] assms(3) by simp
  have t: "take 4 (agent_addr pdu) = agent_addr pdu" using assms(3) by simp
  have l: "length (int_payload x) \<le> 0xFFFF" "length (uint_payload 4 x) \<le> 0xFFFF" for x :: u32
    using int_payload_len(2)[of x] uint_payload_len(2)[of 4 x] by auto
  have lo: "length (objid_payload (enterprise pdu)) \<le> 0xFFFF" if "objid_ok (enterprise pdu)"
    using objid_payload_len[OF that] by simp
  show "w = fields_enc pdu"
    using assms(1,2) lo assms(3)
    by (auto simp: build_fields_def fields_enc_def wbind_eq_Inr s t asn_build_int_tlv asn_build_unsigned_int_tlv
        asn_build_objid_tlv dest!: build_tlv_Inr(1)[rotated] split: if_splits intro: l)
  show "unat dl' + length w = unat dl"
    using assms(1,2) lo assms(3)
    by (auto simp: build_fields_def wbind_eq_Inr s asn_build_int_tlv asn_build_unsigned_int_tlv
        asn_build_objid_tlv dest!: build_tlv_Inr(2)[rotated] split: if_splits intro: l)
qed

section \<open>The whole PDU\<close>

text \<open>The bytes \<^const>\<open>snmp_pdu_build\<close> leaves when it succeeds.\<close>

definition pdu_fwd :: "pdu \<Rightarrow> u8 list" where
  "pdu_fwd pdu = (let v = varlist_fwd (variables pdu); f = fields_enc pdu in
     seq_header (ucast (command pdu)) (length f + 4 + length v) @ f @
     seq_header ASN_SEQUENCE_CONSTRUCTOR (length v) @ v)"

lemma insert_length_fits:
  "4 \<le> unat len \<Longrightarrow> insert_length h len type (of_nat n) = (seq_header type n, len - 4)"
  by (simp add: insert_length_def asn_build_sequence_def seq_header_def word_less_nat_alt)

lemma snmp_pdu_build_Inr:
  assumes ok: "pdu_ok pdu" "length (agent_addr pdu) = 4" and b: "snmp_pdu_build buf dl pdu = (w, Inr dl')"
  shows "w = pdu_fwd pdu" "unat dl' + length w = unat dl"
proof -
  from b obtain h1 d1 f d2 h2 d3 v where 1: "asn_build_sequence dl (ucast (command pdu)) 0 = (h1, Inr d1)"
    and 2: "build_fields d1 pdu = (f, Inr d2)"
    and 3: "asn_build_sequence d2 ASN_SEQUENCE_CONSTRUCTOR 0 = (h2, Inr d3)"
    and 4: "build_varbinds (drop (length (h1 @ f @ h2)) buf) d3 (variables pdu) = (v, Inr dl')"
    and w: "w = fst (insert_length h1 (snd (insert_length h2 dl ASN_SEQUENCE_CONSTRUCTOR (of_nat (length v))))
        (ucast (command pdu)) (of_nat (length (f @ h2 @ v)))) @ f @
      fst (insert_length h2 dl ASN_SEQUENCE_CONSTRUCTOR (of_nat (length v))) @ v"
    by (auto simp: snmp_pdu_build_def Let_def split: prod.splits sum.splits)
  have h: "4 \<le> unat dl" "d1 = dl - 4" "4 \<le> unat d2" "d3 = d2 - 4" "length h1 = 4" "length h2 = 4"
    using 1 3 by (auto simp: asn_build_sequence_Inr)
  have d: "unat d1 = unat dl - 4" "unat d3 = unat d2 - 4"
    using h u32_sub_nat[of 4 dl] u32_sub_nat[of 4 d2] by auto
  have f: "f = fields_enc pdu" "unat d2 + length f = unat d1"
    using build_fields_Inr[OF 2 _ ok(2)] ok(1) by (auto simp: pdu_ok_def)
  have v: "v = varlist_fwd (variables pdu)" "unat dl' + length v = unat d3"
    using build_varbinds_Inr[OF _ 4] ok(1) by (auto simp: pdu_ok_def)
  have len: "unat (dl - 4) = unat dl - 4" "4 \<le> unat dl - 4" using d h f by auto
  have "insert_length h2 dl ASN_SEQUENCE_CONSTRUCTOR (of_nat (length v)) =
      (seq_header ASN_SEQUENCE_CONSTRUCTOR (length v), dl - 4)" by (rule insert_length_fits[OF h(1)])
  moreover have "insert_length h1 (dl - 4) (ucast (command pdu)) (of_nat (length (f @ h2 @ v))) =
      (seq_header (ucast (command pdu)) (length (f @ h2 @ v)), dl - 4 - 4)"
    using len by (intro insert_length_fits) simp
  ultimately show "w = pdu_fwd pdu" using w h(6) f v by (simp add: pdu_fwd_def Let_def add.assoc)
  then show "unat dl' + length w = unat dl" using f v d h by (simp add: pdu_fwd_def Let_def)
qed

lemma pdu_fwd_at:
  assumes "bytes_at m p (pdu_fwd pdu)" "length (pdu_fwd pdu) \<le> 0xFFFF"
  shows "pdu_at m p pdu (p + length (pdu_fwd pdu))"
proof -
  define f v where fv: "f = fields_enc pdu" "v = varlist_fwd (variables pdu)"
  define S where S: "S = seq_header ASN_SEQUENCE_CONSTRUCTOR (length v)"
  define H where H: "H = seq_header (ucast (command pdu)) (length f + 4 + length v)"
  have e: "pdu_fwd pdu = H @ f @ S @ v" by (simp add: pdu_fwd_def Let_def fv S H)
  have l4: "length H = 4" "length S = 4" by (simp_all add: H S)
  have at: "bytes_at m p H" "bytes_at m (p + 4) f" "bytes_at m (p + 4 + length f) S"
      "bytes_at m (p + 4 + length f + 4) v"
    using assms(1) by (simp_all add: e bytes_at_append l4)
  have l: "length f + 8 + length v \<le> 0xFFFF" using assms(2) by (simp add: e l4)
  have "header_at m p (ucast (command pdu)) (p + 4) (length f + 4 + length v)"
    using at(1) l unfolding H by (intro seq_header_at) auto
  moreover have "header_at m (p + 4 + length f) ASN_SEQUENCE_CONSTRUCTOR (p + 4 + length f + 4) (length v)"
    using at(3) l unfolding S by (intro seq_header_at) auto
  moreover have "varbinds_at m (p + 4 + length f + 4) (variables pdu) (p + 4 + length f + 4 + length v)"
    using varlist_fwd_at[OF at(4)[unfolded fv]] l by (simp add: fv)
  ultimately show ?thesis
    unfolding pdu_at_def e fv(1)[symmetric] using at(2) l4
    by (intro exI[of _ "p + 4"] exI[of _ "p + 4 + length f + 4"] exI[of _ "length v"]) (simp add: add.assoc add.commute[of 4])
qed

section \<open>It succeeds when the encoding fits\<close>

definition succeeds :: "u8 list \<times> (asn_error + u32) \<Rightarrow> bool" where
  "succeeds r \<longleftrightarrow> (\<exists>w dl. r = (w, Inr dl))"

lemma succeedsE: "succeeds r \<Longrightarrow> (\<And>w dl. r = (w, Inr dl) \<Longrightarrow> P) \<Longrightarrow> P"
  by (auto simp: succeeds_def)

text \<open>One object of a sequence of objects, with room for it and for the \<open>n\<close> bytes after it.\<close>

lemma tlv_bind_fits:
  assumes "length payload \<le> 0xFFFF" "length (tlv type payload) + n \<le> unat dl"
    and "\<And>dl'. n \<le> unat dl' \<Longrightarrow> succeeds (k dl')"
  shows "succeeds (wbind (build_tlv dl type payload) k)"
proof -
  have "n \<le> unat (dl - of_nat (length (tlv type payload)))"
    using assms(2) u32_sub_nat[of "length (tlv type payload)" dl] by simp
  then obtain w d where "k (dl - of_nat (length (tlv type payload))) = (w, Inr d)"
    using assms(3) succeeds_def by blast
  then show ?thesis using build_tlv_fits[of payload type dl] assms(1,2) by (simp add: succeeds_def)
qed

lemma tlv_fits:
  "length payload \<le> 0xFFFF \<Longrightarrow> length (tlv type payload) \<le> unat dl \<Longrightarrow> succeeds (build_tlv dl type payload)"
  using build_tlv_fits[of payload type dl] by (simp add: succeeds_def)

lemma build_fields_fits:
  assumes "length (fields_enc pdu) \<le> unat dl" "command pdu = SNMP_MSG_TRAP \<Longrightarrow> objid_ok (enterprise pdu)"
    and "length (agent_addr pdu) = 4"
  shows "succeeds (build_fields dl pdu)"
proof -
  have s: "asn_build_string d ASN_IPADDRESS (Some (agent_addr pdu)) 4 = build_tlv d ASN_IPADDRESS (agent_addr pdu)" for d
    using asn_build_string_tlv[of "agent_addr pdu" d ASN_IPADDRESS] assms(3) by simp
  have l: "length (int_payload x) \<le> 0xFFFF" "length (uint_payload 4 x) \<le> 0xFFFF" for x :: u32
    using int_payload_len(2)[of x] uint_payload_len(2)[of 4 x] by auto
  show ?thesis
  proof (cases "command pdu = SNMP_MSG_TRAP")
    case False
    then show ?thesis
      using assms(1) unfolding build_fields_def asn_build_int_tlv
      by (auto simp: fields_enc_def add.assoc intro!: tlv_bind_fits tlv_fits l)
  next
    case True
    note o = assms(2)[OF True]
    have "length (objid_payload (enterprise pdu)) \<le> 0xFFFF" using objid_payload_len[OF o] by simp
    then show ?thesis
      using assms(1,3) True
      unfolding build_fields_def asn_build_int_tlv asn_build_unsigned_int_tlv asn_build_objid_tlv[OF o] s
      by (auto simp: fields_enc_def add.assoc intro!: tlv_bind_fits tlv_fits l)
  qed
qed

lemma build_var_op_fits:
  assumes ok: "var_ok vp" and "4 + length (var_contents vp) \<le> unat dl"
  shows "succeeds (snmp_build_var_op buf dl vp)"
proof -
  have o: "objid_ok (name vp)" "val_ok (vtype vp) (val vp) (val_len vp)" using ok by (auto simp: var_ok_def)
  have "unat (dl - 4) = unat dl - 4" using u32_sub_nat[of 4 dl] assms(2) by simp
  moreover have "length (objid_payload (name vp)) \<le> 0xFFFF" using objid_payload_len[OF o(1)] by simp
  ultimately have "succeeds (wbind (asn_build_objid (dl - 4) ASN_OBJECT_ID (name vp))
      (\<lambda>dl. build_var_val dl (vtype vp) (val vp) (val_len vp)))"
    using assms(2) val_payload_len[OF o(2)] unfolding asn_build_objid_tlv[OF o(1)] build_var_val_tlv[OF o(2)]
    by (intro tlv_bind_fits[where n = "length (val_enc (vtype vp) (val vp))"])
      (auto simp: var_contents_def val_enc_def intro!: tlv_fits)
  then show ?thesis
    using assms(2)
    by (auto simp: snmp_build_var_op_def succeeds_def Let_def word_less_nat_alt not_less split: prod.splits)
qed

lemma build_varbinds_fits:
  "\<forall>vp\<in>set vps. var_ok vp \<Longrightarrow> length (varlist_fwd vps) \<le> unat dl \<Longrightarrow> succeeds (build_varbinds buf dl vps)"
proof (induction vps arbitrary: buf dl)
  case (Cons vp vps)
  have l: "4 + length (var_contents vp) + length (varlist_fwd vps) \<le> unat dl"
    using Cons.prems(2) by (simp add: varlist_fwd_def)
  then obtain w dl1 where 1: "snmp_build_var_op buf dl vp = (w, Inr dl1)"
    using build_var_op_fits[of vp dl buf] Cons.prems(1) by (auto elim: succeedsE)
  have "length (varlist_fwd vps) \<le> unat dl1"
    using build_var_op_Inr[OF _ 1] Cons.prems(1) l by auto
  then have "succeeds (build_varbinds (drop (length w) buf) dl1 vps)" using Cons by auto
  then show ?case using 1 by (auto simp: succeeds_def split: prod.splits)
qed (simp add: succeeds_def)

lemma snmp_pdu_build_fits:
  assumes ok: "pdu_ok pdu" "length (agent_addr pdu) = 4" and fit: "length (pdu_fwd pdu) \<le> unat dl"
  shows "succeeds (snmp_pdu_build buf dl pdu)"
proof -
  have l: "8 + length (fields_enc pdu) + length (varlist_fwd (variables pdu)) \<le> unat dl"
    using fit by (simp add: pdu_fwd_def Let_def)
  have d1: "unat (dl - 4) = unat dl - 4" using u32_sub_nat[of 4 dl] l by simp
  have o: "command pdu = SNMP_MSG_TRAP \<Longrightarrow> objid_ok (enterprise pdu)" using ok(1) by (simp add: pdu_ok_def)
  have "succeeds (build_fields (dl - 4) pdu)" using l d1 by (intro build_fields_fits o ok(2)) simp
  then obtain f d2 where 2: "build_fields (dl - 4) pdu = (f, Inr d2)" by (rule succeedsE)
  note f = build_fields_Inr[OF 2 o ok(2)]
  have d2: "4 \<le> unat d2" "unat (d2 - 4) = unat d2 - 4" using f l d1 u32_sub_nat[of 4 d2] by auto
  have "length (varlist_fwd (variables pdu)) \<le> unat (d2 - 4)" using d2 f l d1 by auto
  then have v: "succeeds (build_varbinds (drop (length (h1 @ f @ h2)) buf) (d2 - 4) (variables pdu))" for h1 h2
    using ok(1) by (intro build_varbinds_fits) (auto simp: pdu_ok_def)
  have "\<not> dl < 4" "\<not> d2 < 4" using l d2(1) by (auto simp: word_less_nat_alt)
  then show ?thesis
    using 2 v[of "[ucast (command pdu), 0x82, 0, 0]" "[ASN_SEQUENCE_CONSTRUCTOR, 0x82, 0, 0]"]
    by (auto simp: snmp_pdu_build_def asn_build_sequence_def succeeds_def Let_def split: prod.splits)
qed

end
