(* ===== verification/Client.thy ===== *)
theory Client
  imports Pdu
begin

unbundle bit_operations_syntax

text \<open>
  What the command line tools need to make a request: the counters behind request
  and message identifiers (\<^verbatim>\<open>snmplib/snmp_api.c\<close>), \<^verbatim>\<open>snmp_pdu_create\<close> and
  \<^verbatim>\<open>snmp_add_null_var\<close> (\<^verbatim>\<open>snmplib/snmp_client.c\<close>). Memory for a request is assumed to be there; the exchange
  with the agent is a parameter, called \<open>net\<close> in the clients.
\<close>

section \<open>Identifiers\<close>

text \<open>
  The globals \<^verbatim>\<open>Reqid\<close> and \<^verbatim>\<open>Msgid\<close>, the option \<^verbatim>\<open>NETSNMP_DS_LIB_16BIT_IDS\<close>, and what the outside world
  keeps between two exchanges.
\<close>

record 'w client =
  Reqid :: u32
  Msgid :: u32
  ids16 :: bool
  world :: 'w

text \<open>The returned identifier and the new value of the counter.\<close>

definition next_id :: "bool \<Rightarrow> u32 \<Rightarrow> u32 \<times> u32" where
  "next_id short counter =
     (let retVal = 1 + counter;
          retVal = (if retVal = 0 then 2 else retVal);
          masked = retVal AND (if short then 0x7fff else 0x7fffffff)
      in if masked = 0 then (2, 2) else (masked, retVal))"

definition snmp_get_next_reqid :: "'w client \<Rightarrow> u32 \<times> 'w client" where
  "snmp_get_next_reqid c = (case next_id (ids16 c) (Reqid c) of (r, n) \<Rightarrow> (r, c\<lparr>Reqid := n\<rparr>))"

definition snmp_get_next_msgid :: "'w client \<Rightarrow> u32 \<times> 'w client" where
  "snmp_get_next_msgid c = (case next_id (ids16 c) (Msgid c) of (r, n) \<Rightarrow> (r, c\<lparr>Msgid := n\<rparr>))"

section \<open>Requests\<close>

definition SNMP_DEFAULT_VERSION :: u32 where "SNMP_DEFAULT_VERSION = - 1"
definition SNMP_DEFAULT_ERRSTAT :: u32 where "SNMP_DEFAULT_ERRSTAT = - 1"
definition SNMP_DEFAULT_ERRINDEX :: u32 where "SNMP_DEFAULT_ERRINDEX = - 1"
definition SNMP_DEFAULT_SECMODEL :: u32 where "SNMP_DEFAULT_SECMODEL = - 1"

definition snmp_pdu_create :: "u32 \<Rightarrow> 'w client \<Rightarrow> pdu \<times> 'w client" where
  "snmp_pdu_create cmd c =
     (case snmp_get_next_reqid c of (rid, c) \<Rightarrow>
      case snmp_get_next_msgid c of (mid, c) \<Rightarrow>
       (\<lparr>version = SNMP_DEFAULT_VERSION, command = cmd, reqid = rid, msgid = mid, transid = 0, sessid = 0,
         errstat = SNMP_DEFAULT_ERRSTAT, errindex = SNMP_DEFAULT_ERRINDEX, timestamp = 0, flags = 0,
         securityModel = SNMP_DEFAULT_SECMODEL, securityLevel = 0, msgParseModel = 0, variables = [], community = [],
         enterprise = [], trap_type = 0, specific_type = 0, agent_addr = [0, 0, 0, 0], contextEngineID = [],
         contextName = [], securityEngineID = [], securityName = []\<rparr>, c))"

text \<open>
  A value of length zero is the empty string in the variable's own buffer; the new variable goes to the end
  of the list.
\<close>

definition null_var :: "oid \<Rightarrow> variable_list" where
  "null_var objid = \<lparr>name = objid, vtype = ASN_NULL, val = StringVal [0], val_len = 0\<rparr>"

definition snmp_add_null_var :: "pdu \<Rightarrow> oid \<Rightarrow> pdu" where
  "snmp_add_null_var p objid = p\<lparr>variables := variables p @ [null_var objid]\<rparr>"

text \<open>What \<^verbatim>\<open>snmp_synch_response\<close> returns and stores through \<^verbatim>\<open>response\<close>.\<close>

datatype reply = STAT_SUCCESS pdu | STAT_ERROR | STAT_TIMEOUT

section \<open>Facts\<close>

lemma next_id_nonzero: "fst (next_id short n) \<noteq> 0"
  by (simp add: next_id_def Let_def)

lemma next_id_positive: "\<not> bit (fst (next_id short n)) 31"
  by (simp add: next_id_def Let_def bit_simps)

lemma snmp_pdu_create_simps [simp]:
  "command (fst (snmp_pdu_create cmd c)) = cmd" "variables (fst (snmp_pdu_create cmd c)) = []"
  "reqid (fst (snmp_pdu_create cmd c)) = fst (next_id (ids16 c) (Reqid c))"
  "world (snd (snmp_pdu_create cmd c)) = world c" "ids16 (snd (snmp_pdu_create cmd c)) = ids16 c"
  "Reqid (snd (snmp_pdu_create cmd c)) = snd (next_id (ids16 c) (Reqid c))"
  by (simp_all add: snmp_pdu_create_def snmp_get_next_reqid_def snmp_get_next_msgid_def split: prod.splits)

lemma snmp_add_null_var_simps [simp]:
  "command (snmp_add_null_var p n) = command p" "variables (snmp_add_null_var p n) = variables p @ [null_var n]"
  "reqid (snmp_add_null_var p n) = reqid p"
  by (simp_all add: snmp_add_null_var_def)

end
