(* ===== verification/Oid.thy ===== *)
theory Oid
  imports Snmp_Prelude "HOL-Library.List_Lexorder" "HOL-Library.Sublist"
begin

text \<open>
  Object identifiers: the comparison functions of \<^verbatim>\<open>snmplib/snmp_api.c\<close>. An
  object identifier is the list of its subidentifiers; the C functions get a
  pointer and a length, the model a list. (The C loops count the length down in
  an \<^verbatim>\<open>int\<close>; an array of subidentifiers has fewer than \<open>2 ^ 31\<close> elements.)
\<close>

section \<open>The comparison functions\<close>

text \<open>
  \<open>oid_loop\<close> is the loop \<^verbatim>\<open>while (len-- > 0)\<close> of all the comparisons: \<open>Some\<close> of
  the result and of the value of \<^verbatim>\<open>len\<close> at an early return, \<open>None\<close> when the first \<open>len\<close>
  subidentifiers agree.
\<close>

fun oid_loop :: "nat \<Rightarrow> oid \<Rightarrow> oid \<Rightarrow> (int \<times> nat) option" where
  "oid_loop (Suc len) (x # name1) (y # name2) =
     (if x \<noteq> y then if x < y then Some (- 1, len) else Some (1, len)
      else oid_loop len name1 name2)"
| "oid_loop _ _ _ = None"

definition snmp_oid_ncompare :: "oid \<Rightarrow> oid \<Rightarrow> nat \<Rightarrow> int" where
  "snmp_oid_ncompare name1 name2 max_len =
     (let len1 = length name1; len2 = length name2;
          min_len = (if len1 < len2 then len1 else len2);
          min_len = (if min_len > max_len then max_len else min_len)
      in case oid_loop min_len name1 name2 of
           Some (r, _) \<Rightarrow> r
         | None \<Rightarrow> if min_len \<noteq> max_len
                   then if len1 < len2 then - 1 else if len2 < len1 then 1 else 0
                   else 0)"

definition snmp_oid_compare :: "oid \<Rightarrow> oid \<Rightarrow> int" where
  "snmp_oid_compare name1 name2 =
     (let len1 = length name1; len2 = length name2;
          len = (if len1 < len2 then len1 else len2)
      in case oid_loop len name1 name2 of
           Some (r, _) \<Rightarrow> r
         | None \<Rightarrow> if len1 < len2 then - 1 else if len2 < len1 then 1 else 0)"

text \<open>The result and \<^verbatim>\<open>*offpt\<close>; \<^verbatim>\<open>len\<close> is \<open>- 1\<close> after a loop that ran to its end.\<close>

definition netsnmp_oid_compare_ll :: "oid \<Rightarrow> oid \<Rightarrow> int \<times> nat" where
  "netsnmp_oid_compare_ll name1 name2 =
     (let len1 = length name1; len2 = length name2;
          initlen = (if len1 < len2 then len1 else len2)
      in case oid_loop initlen name1 name2 of
           Some (r, len) \<Rightarrow> (r, initlen - len)
         | None \<Rightarrow> (if len1 < len2 then - 1 else if len2 < len1 then 1 else 0, initlen + 1))"

definition snmp_oidtree_compare :: "oid \<Rightarrow> oid \<Rightarrow> int" where
  "snmp_oidtree_compare name1 name2 =
     (let len = (if length name1 < length name2 then length name1 else length name2)
      in snmp_oid_compare (take len name1) (take len name2))"

definition snmp_oidsubtree_compare :: "oid \<Rightarrow> oid \<Rightarrow> int" where
  "snmp_oidsubtree_compare name1 name2 =
     (let len = (if length name1 < length name2 then length name1 else length name2)
      in snmp_oid_compare name1 (take len name2))"

definition netsnmp_oid_equals :: "oid \<Rightarrow> oid \<Rightarrow> int" where
  "netsnmp_oid_equals name1 name2 =
     (if length name1 \<noteq> length name2 then 1
      else case oid_loop (length name1) name1 name2 of Some _ \<Rightarrow> 1 | None \<Rightarrow> 0)"

definition netsnmp_oid_is_subtree :: "oid \<Rightarrow> oid \<Rightarrow> int" where
  "netsnmp_oid_is_subtree name1 name2 =
     (if length name1 > length name2 then 1
      else if name1 \<noteq> take (length name1) name2 then 1 else 0)"

function find_prefix_loop :: "nat \<Rightarrow> nat \<Rightarrow> oid \<Rightarrow> oid \<Rightarrow> int" where
  "find_prefix_loop i min_size name1 name2 =
     (if i < min_size then
        if name1 ! i \<noteq> name2 ! i then int i + 1 else find_prefix_loop (Suc i) min_size name1 name2
      else int min_size)"
  by pat_completeness auto
termination
  by (relation "measure (\<lambda>(i, min_size, _). min_size - i)") auto

declare find_prefix_loop.simps [simp del]

text \<open>\<open>None\<close> is a NULL pointer.\<close>

definition netsnmp_oid_find_prefix :: "oid option \<Rightarrow> oid option \<Rightarrow> int" where
  "netsnmp_oid_find_prefix in_name1 in_name2 =
     (case (in_name1, in_name2) of
        (Some name1, Some name2) \<Rightarrow>
          if name1 = [] \<or> name2 = [] then - 1
          else if name1 ! 0 \<noteq> name2 ! 0 then 0
          else find_prefix_loop 0 (min (length name1) (length name2)) name1 name2
      | _ \<Rightarrow> - 1)"

section \<open>Correctness\<close>

text \<open>\<open>List_Lexorder\<close> orders lists lexicographically, a proper prefix first.\<close>

definition oid_order :: "oid \<Rightarrow> oid \<Rightarrow> int" where
  "oid_order a b = (if a < b then - 1 else if a = b then 0 else 1)"

lemma oid_loop_order:
  "case oid_loop (min (length a) (length b)) a b of
     Some (r, len) \<Rightarrow> r = oid_order a b \<and> r \<noteq> 0
   | None \<Rightarrow> oid_order a b = (if length a < length b then - 1 else if length b < length a then 1 else 0)"
proof (induction a arbitrary: b)
  case Nil
  then show ?case by (cases b) (auto simp: oid_order_def)
next
  case (Cons x xs)
  show ?case
  proof (cases b)
    case Nil
    then show ?thesis by (simp add: oid_order_def)
  next
    case b: (Cons y ys)
    show ?thesis
    proof (cases "x = y")
      case True
      then have o: "oid_order (x # xs) b = oid_order xs ys"
        and l: "oid_loop (min (length (x # xs)) (length b)) (x # xs) b =
          oid_loop (min (length xs) (length ys)) xs ys"
        and n: "length (x # xs) < length b \<longleftrightarrow> length xs < length ys"
          "length b < length (x # xs) \<longleftrightarrow> length ys < length xs"
        by (simp_all add: b oid_order_def)
      show ?thesis unfolding o l n by (rule Cons.IH)
    qed (auto simp: b oid_order_def)
  qed
qed

lemma snmp_oid_compare_order: "snmp_oid_compare a b = oid_order a b"
proof -
  have "(if length a < length b then length a else length b) = min (length a) (length b)" by simp
  then show ?thesis
    using oid_loop_order[of a b] by (auto simp: snmp_oid_compare_def Let_def split: option.splits)
qed


lemma min_if: "(if a < b then a else b) = min a (b :: nat)"
  by simp

lemma netsnmp_oid_compare_ll_fst: "fst (netsnmp_oid_compare_ll a b) = oid_order a b"
  using oid_loop_order[of a b]
  by (auto simp: netsnmp_oid_compare_ll_def Let_def min_if split: option.splits)

lemma oid_loop_offset:
  "length a \<ge> n \<Longrightarrow> length b \<ge> n \<Longrightarrow>
   case oid_loop n a b of
     Some (r, len) \<Rightarrow> length (longest_common_prefix (take n a) (take n b)) + len + 1 = n
   | None \<Rightarrow> take n a = take n b"
proof (induction n arbitrary: a b)
  case (Suc n)
  then obtain x xs y ys where ab: "a = x # xs" "b = y # ys" by (cases a; cases b) auto
  show ?case
  proof (cases "x = y")
    case True
    with Suc.IH[of xs ys] Suc.prems show ?thesis by (auto simp: ab split: option.splits)
  qed (simp add: ab)
qed simp

lemma lcp_take:
  "length (longest_common_prefix (take (min (length a) (length b)) a) (take (min (length a) (length b)) b)) =
     length (longest_common_prefix a b)"
proof (induction a arbitrary: b)
  case (Cons x xs)
  then show ?case by (cases b) auto
qed simp

lemma lcp_same: "longest_common_prefix a a = a"
  by (induction a) auto

lemma netsnmp_oid_compare_ll_snd:
  "snd (netsnmp_oid_compare_ll a b) = length (longest_common_prefix a b) + 1"
proof -
  let ?n = "min (length a) (length b)"
  have l: "case oid_loop ?n a b of
     Some (r, len) \<Rightarrow> length (longest_common_prefix a b) + len + 1 = ?n
   | None \<Rightarrow> length (longest_common_prefix a b) = ?n"
    using oid_loop_offset[of ?n a b] lcp_take[of a b]
    by (auto simp: lcp_same split: option.splits)
  then show ?thesis
    by (auto simp: netsnmp_oid_compare_ll_def Let_def min_if split: option.splits)
qed

lemma oid_loop_take: "oid_loop n (take n a) (take n b) = oid_loop n a b"
proof (induction n a b rule: oid_loop.induct)
  case (1 len x name1 y name2)
  then show ?case by simp
qed auto

lemma snmp_oid_ncompare_spec: "snmp_oid_ncompare a b n = oid_order (take n a) (take n b)"
proof -
  let ?m = "min (min (length a) (length b)) n"
  have len: "min (length (take n a)) (length (take n b)) = ?m" by auto
  have loop: "oid_loop ?m (take n a) (take n b) = oid_loop ?m a b"
    using oid_loop_take[of ?m a b] oid_loop_take[of ?m "take n a" "take n b"] by (simp add: min.commute)
  have m: "(if (if length a < length b then length a else length b) > n then n
            else if length a < length b then length a else length b) = ?m" by auto
  show ?thesis
    using oid_loop_order[of "take n a" "take n b"]
    unfolding snmp_oid_ncompare_def Let_def m len loop
    by (auto split: option.splits if_splits)
qed

lemma oid_order_zero [simp]: "oid_order a b = 0 \<longleftrightarrow> a = b"
  by (auto simp: oid_order_def)

lemma netsnmp_oid_equals_spec: "netsnmp_oid_equals a b = 0 \<longleftrightarrow> a = b"
  using oid_loop_order[of a b]
  by (auto simp: netsnmp_oid_equals_def split: option.splits)

lemma prefix_iff_take: "prefix a b \<longleftrightarrow> length a \<le> length b \<and> take (length a) b = a"
  by (metis append_eq_conv_conj prefix_def prefix_length_le take_is_prefix)

lemma netsnmp_oid_is_subtree_spec: "netsnmp_oid_is_subtree a b = 0 \<longleftrightarrow> prefix a b"
  by (auto simp: netsnmp_oid_is_subtree_def prefix_iff_take)

lemma snmp_oidtree_compare_zero: "snmp_oidtree_compare a b = 0 \<longleftrightarrow> prefix a b \<or> prefix b a"
  by (auto simp: snmp_oidtree_compare_def snmp_oid_compare_order Let_def prefix_iff_take split: if_splits)

lemma subtree_convex:
  "prefix r a \<Longrightarrow> prefix r b \<Longrightarrow> a \<le> x \<Longrightarrow> x \<le> b \<Longrightarrow> prefix r (x :: oid)"
proof (induction r arbitrary: a b x)
  case (Cons c r)
  obtain u where u: "a = (c # r) @ u" using Cons.prems(1) by (rule prefixE)
  obtain v where v: "b = (c # r) @ v" using Cons.prems(2) by (rule prefixE)
  define a' b' where "a' = r @ u" and "b' = r @ v"
  have ab: "a = c # a'" "b = c # b'" "prefix r a'" "prefix r b'"
    by (simp_all add: u v a'_def b'_def)
  obtain x' where x: "x = c # x'"
    using Cons.prems(3,4) unfolding ab(1,2) by (cases x) (auto dest: order.strict_trans)
  have "a' \<le> x'" "x' \<le> b'" using Cons.prems(3,4) ab(1,2) x by simp_all
  with ab(3,4) have "prefix r x'" by (rule Cons.IH)
  then show ?case by (simp add: x)
qed simp

lemma lcp_nth: "i < length (longest_common_prefix a b) \<Longrightarrow> a ! i = b ! i"
proof (induction a b arbitrary: i rule: longest_common_prefix.induct)
  case (1 x xs y ys)
  then show ?case by (cases i) (auto split: if_splits)
qed auto

lemma lcp_differ:
  "length (longest_common_prefix a b) < min (length a) (length b) \<Longrightarrow>
     a ! length (longest_common_prefix a b) \<noteq> b ! length (longest_common_prefix a b)"
  by (induction a b rule: longest_common_prefix.induct) auto

lemma prefix_iff_lcp: "prefix a b \<or> prefix b a \<longleftrightarrow> length (longest_common_prefix a b) = min (length a) (length b)"
  by (induction a b rule: longest_common_prefix.induct) auto

lemma find_prefix_loop_spec:
  assumes "i \<le> length (longest_common_prefix a b)"
  shows "find_prefix_loop i (min (length a) (length b)) a b =
     (if length (longest_common_prefix a b) < min (length a) (length b)
      then int (length (longest_common_prefix a b)) + 1 else int (min (length a) (length b)))"
  using assms
proof (induction i "min (length a) (length b)" a b rule: find_prefix_loop.induct)
  case (1 i a b)
  let ?k = "length (longest_common_prefix a b)" and ?n = "min (length a) (length b)"
  have kn: "?k \<le> ?n"
    by (simp add: longest_common_prefix_prefix1 longest_common_prefix_prefix2 prefix_length_le)
  have eq: "i < ?k \<Longrightarrow> a ! i = b ! i"
    by (rule lcp_nth)
  have ne: "?k < ?n \<Longrightarrow> a ! ?k \<noteq> b ! ?k"
    by (rule lcp_differ)
  show ?case
  proof (cases "i < ?k")
    case True
    then show ?thesis
      using "1.hyps" eq kn by (subst find_prefix_loop.simps) simp
  next
    case False
    with "1.prems" have "i = ?k" by simp
    then show ?thesis using ne kn by (subst find_prefix_loop.simps) auto
  qed
qed


section \<open>The ordering contract\<close>

text \<open>
  What a client of a comparison function relies on: the sign of the result is
  a total order. The sorted containers and the subtree registry of the agent
  take the comparison as a function pointer and need exactly these laws.
\<close>

locale comparator =
  fixes cmp :: "'a \<Rightarrow> 'a \<Rightarrow> int"
  assumes cmp_zero: "cmp a b = 0 \<longleftrightarrow> a = b"
    and cmp_flip: "cmp a b < 0 \<longleftrightarrow> 0 < cmp b a"
    and cmp_trans: "cmp a b < 0 \<Longrightarrow> cmp b c < 0 \<Longrightarrow> cmp a c < 0"
begin

lemma cmp_refl: "cmp a a = 0"
  by (simp add: cmp_zero)

lemma cmp_cases: "cmp a b < 0 \<or> a = b \<or> cmp b a < 0"
  using cmp_zero[of a b] cmp_flip[of b a] by linarith

lemma cmp_irrefl: "\<not> cmp a a < 0"
  by (simp add: cmp_refl)

lemma cmp_asym: "cmp a b < 0 \<Longrightarrow> \<not> cmp b a < 0"
  using cmp_flip[of a b] by linarith

lemma sorted_wrt_cmp_distinct: "sorted_wrt (\<lambda>a b. cmp a b < 0) xs \<Longrightarrow> distinct xs"
  by (induction xs) (auto simp: cmp_irrefl)

end

interpretation oid_cmp: comparator snmp_oid_compare
  unfolding snmp_oid_compare_order
  by unfold_locales (auto simp: oid_order_def split: if_splits)

interpretation oid_cmp_ll: comparator "\<lambda>a b. fst (netsnmp_oid_compare_ll a b)"
  unfolding netsnmp_oid_compare_ll_fst
  by unfold_locales (auto simp: oid_order_def split: if_splits)

text \<open>\<^verbatim>\<open>memcmp\<close> of areas of the same length is the lexicographic order.\<close>

lemma memcmp_order: "length a = length b \<Longrightarrow> memcmp a b = (if a < b then - 1 else if a = b then 0 else 1)"
  by (induction a b rule: list_induct2) auto

end
