(* ===== verification/Walk.thy ===== *)
theory Walk
  imports Client Oid
begin

unbundle bit_operations_syntax

text \<open>
  The tools the collector polls with: \<^verbatim>\<open>apps/snmpwalk.c\<close> and \<^verbatim>\<open>apps/snmpbulkwalk.c\<close>. A walk asks for the successor
  of a name again and again and prints what it gets, until the answers leave the
  subtree. Reading the command line and printing are not modelled; the model
  keeps the list of printed variables. The agent and the network are the parameter \<open>net\<close>, which maps a state of
  the world and a request to an outcome of \<^verbatim>\<open>snmp_synch_response\<close> and a new state.
\<close>

section \<open>State and options\<close>

text \<open>
  The locals of \<^verbatim>\<open>main\<close>: \<^verbatim>\<open>name\<close>, \<^verbatim>\<open>running\<close>, \<^verbatim>\<open>exitval\<close>, whether \<^verbatim>\<open>status\<close> is \<^verbatim>\<open>STAT_SUCCESS\<close>,
  and the variables printed so far, whose number is \<^verbatim>\<open>numprinted\<close>.
\<close>

record walk =
  wname :: oid
  running :: bool
  exitval :: int
  succeeded :: bool
  printed :: "variable_list list"

record walk_opts =
  include_requested :: bool
  dont_get_requested :: bool
  dont_check :: bool
  end_name :: "oid option"
  non_reps :: u32
  reps :: u32

definition walk_start :: "oid \<Rightarrow> walk" where
  "walk_start root = \<lparr>wname = root, running = True, exitval = 0, succeeded = False, printed = []\<rparr>"

definition SNMP_ERR_NOERROR :: u32 where "SNMP_ERR_NOERROR = 0"
definition SNMP_ERR_NOSUCHNAME :: u32 where "SNMP_ERR_NOSUCHNAME = 2"

definition is_exception :: "u8 \<Rightarrow> bool" where
  "is_exception t \<longleftrightarrow> t = SNMP_ENDOFMIBVIEW \<or> t = SNMP_NOSUCHOBJECT \<or> t = SNMP_NOSUCHINSTANCE"

section \<open>Subidentifiers in memory\<close>

text \<open>
  The subtree tests compare memory: the least significant octet of a
  subidentifier comes first (\<^verbatim>\<open>WORDS_BIGENDIAN\<close> is not set). The sign of \<^verbatim>\<open>memcmp\<close> is that of the
  first pair of different bytes.
\<close>

definition le_octets :: "u32 \<Rightarrow> u8 list" where
  "le_octets x = [ucast x, ucast (drop_bit 8 x), ucast (drop_bit 16 x), ucast (drop_bit 24 x)]"

definition oid_memory :: "oid \<Rightarrow> u8 list" where
  "oid_memory xs = concat (map le_octets xs)"

section \<open>The loop over the variables of an answer\<close>

text \<open>\<^verbatim>\<open>snmpwalk\<close>: a variable at or behind \<^verbatim>\<open>end_oid\<close> is not part of the walk.\<close>

definition past_end :: "oid \<Rightarrow> oid \<Rightarrow> bool" where
  "past_end end_oid n \<longleftrightarrow>
     length n < length end_oid \<or> memcmp (oid_memory end_oid) (oid_memory (take (length end_oid) n)) \<le> 0"

definition check_increasing :: "bool \<Rightarrow> variable_list \<Rightarrow> walk \<Rightarrow> walk" where
  "check_increasing check vp st =
     (if check \<and> snmp_oid_compare (wname st) (name vp) \<ge> 0 then st\<lparr>running := False, exitval := 1\<rparr> else st)"

definition print_variable :: "variable_list \<Rightarrow> walk \<Rightarrow> walk" where
  "print_variable vp st = st\<lparr>printed := printed st @ [vp]\<rparr>"

definition walk_var :: "bool \<Rightarrow> oid \<Rightarrow> variable_list \<Rightarrow> walk \<Rightarrow> walk" where
  "walk_var check end_oid vp st =
     (if past_end end_oid (name vp) then st\<lparr>running := False\<rparr>
      else let st = print_variable vp st in
        if is_exception (vtype vp) then st\<lparr>running := False\<rparr>
        else (check_increasing check vp st)\<lparr>wname := name vp\<rparr>)"

fun walk_vars :: "bool \<Rightarrow> oid \<Rightarrow> variable_list list \<Rightarrow> walk \<Rightarrow> walk" where
  "walk_vars check end_oid [] st = st"
| "walk_vars check end_oid (vp # vps) st = walk_vars check end_oid vps (walk_var check end_oid vp st)"

text \<open>
  \<^verbatim>\<open>snmpbulkwalk\<close>: the subtree is that of the root, names are compared with the name that was asked for, and only the
  last name is kept.
\<close>

definition outside_root :: "oid \<Rightarrow> oid \<Rightarrow> bool" where
  "outside_root root n \<longleftrightarrow>
     length n < length root \<or> memcmp (oid_memory root) (oid_memory (take (length root) n)) \<noteq> 0"

definition bulkwalk_var :: "bool \<Rightarrow> oid \<Rightarrow> bool \<Rightarrow> variable_list \<Rightarrow> walk \<Rightarrow> walk" where
  "bulkwalk_var check root is_last vp st =
     (if outside_root root (name vp) then st\<lparr>running := False\<rparr>
      else let st = print_variable vp st in
        if is_exception (vtype vp) then st\<lparr>running := False\<rparr>
        else let st = check_increasing check vp st in
          if is_last then st\<lparr>wname := name vp\<rparr> else st)"

fun bulkwalk_vars :: "bool \<Rightarrow> oid \<Rightarrow> variable_list list \<Rightarrow> walk \<Rightarrow> walk" where
  "bulkwalk_vars check root [] st = st"
| "bulkwalk_vars check root (vp # vps) st = bulkwalk_vars check root vps (bulkwalk_var check root (vps = []) vp st)"

section \<open>One exchange and the loop\<close>

text \<open>\<open>each\<close> is the loop over the variables. An error in the answer ends the walk; \<^verbatim>\<open>noSuchName\<close> is the end of the MIB.\<close>

definition walk_reply :: "(variable_list list \<Rightarrow> walk \<Rightarrow> walk) \<Rightarrow> reply \<Rightarrow> walk \<Rightarrow> walk" where
  "walk_reply each r st =
     (case r of
        STAT_SUCCESS response \<Rightarrow>
          let st = st\<lparr>succeeded := True\<rparr> in
          if errstat response = SNMP_ERR_NOERROR then each (variables response) st
          else if errstat response = SNMP_ERR_NOSUCHNAME then st\<lparr>running := False\<rparr>
          else st\<lparr>running := False, exitval := 2\<rparr>
      | STAT_TIMEOUT \<Rightarrow> st\<lparr>succeeded := False, running := False, exitval := 1\<rparr>
      | STAT_ERROR \<Rightarrow> st\<lparr>succeeded := False, running := False, exitval := 1\<rparr>)"

definition exchange ::
  "('w \<Rightarrow> pdu \<Rightarrow> reply \<times> 'w) \<Rightarrow> pdu \<times> 'w client \<Rightarrow> reply \<times> 'w client" where
  "exchange net pc =
     (case pc of (p, c) \<Rightarrow> case net (world c) p of (r, w) \<Rightarrow> (r, c\<lparr>world := w\<rparr>))"

definition getnext_request :: "oid \<Rightarrow> 'w client \<Rightarrow> pdu \<times> 'w client" where
  "getnext_request n c =
     (case snmp_pdu_create SNMP_MSG_GETNEXT c of (p, c) \<Rightarrow> (snmp_add_null_var p n, c))"

definition getbulk_request :: "u32 \<Rightarrow> u32 \<Rightarrow> oid \<Rightarrow> 'w client \<Rightarrow> pdu \<times> 'w client" where
  "getbulk_request nonreps maxreps n c =
     (case snmp_pdu_create SNMP_MSG_GETBULK c of
        (p, c) \<Rightarrow> (snmp_add_null_var (p\<lparr>errstat := nonreps, errindex := maxreps\<rparr>) n, c))"

definition get_request :: "oid \<Rightarrow> 'w client \<Rightarrow> pdu \<times> 'w client" where
  "get_request n c = (case snmp_pdu_create SNMP_MSG_GET c of (p, c) \<Rightarrow> (snmp_add_null_var p n, c))"

text \<open>\<open>None\<close> is a walk that never ends.\<close>

partial_function (option) walk_loop ::
  "('w \<Rightarrow> pdu \<Rightarrow> reply \<times> 'w) \<Rightarrow> (oid \<Rightarrow> 'w client \<Rightarrow> pdu \<times> 'w client) \<Rightarrow>
   (variable_list list \<Rightarrow> walk \<Rightarrow> walk) \<Rightarrow> 'w client \<Rightarrow> walk \<Rightarrow> ('w client \<times> walk) option" where
  "walk_loop net request each c st =
     (if running st then
        (case exchange net (request (wname st) c) of
           (r, c) \<Rightarrow> walk_loop net request each c (walk_reply each r st))
      else Some (c, st))"

declare walk_loop.simps [code]

definition snmp_get_and_print ::
  "('w \<Rightarrow> pdu \<Rightarrow> reply \<times> 'w) \<Rightarrow> oid \<Rightarrow> 'w client \<Rightarrow> walk \<Rightarrow> 'w client \<times> walk" where
  "snmp_get_and_print net theoid c st =
     (case exchange net (get_request theoid c) of
        (STAT_SUCCESS response, c) \<Rightarrow>
          (c, if errstat response = SNMP_ERR_NOERROR then fold print_variable (variables response) st else st)
      | (_, c) \<Rightarrow> (c, st))"

section \<open>The programs\<close>

text \<open>Without an explicit end the walk ends at the next sibling of the root; \<^verbatim>\<open>end_oid[end_len-1]\<close> needs one subidentifier.\<close>

definition walk_end :: "walk_opts \<Rightarrow> oid \<Rightarrow> asn_error + oid" where
  "walk_end opts root =
     (case end_name opts of
        Some e \<Rightarrow> Inr e
      | None \<Rightarrow> if root = [] then Inl OutOfBounds else Inr (root[length root - 1 := last root + 1]))"

definition walk_first ::
  "('w \<Rightarrow> pdu \<Rightarrow> reply \<times> 'w) \<Rightarrow> walk_opts \<Rightarrow> oid \<Rightarrow> 'w client \<Rightarrow> 'w client \<times> walk" where
  "walk_first net opts root c =
     (if include_requested opts then snmp_get_and_print net root c (walk_start root) else (c, walk_start root))"

definition snmpwalk ::
  "('w \<Rightarrow> pdu \<Rightarrow> reply \<times> 'w) \<Rightarrow> walk_opts \<Rightarrow> oid \<Rightarrow> 'w client \<Rightarrow> (asn_error + 'w client \<times> walk) option" where
  "snmpwalk net opts root c =
     (case walk_end opts root of
        Inl e \<Rightarrow> Some (Inl e)
      | Inr end_oid \<Rightarrow>
          (case walk_first net opts root c of (c, st) \<Rightarrow>
           (case walk_loop net getnext_request (walk_vars (\<not> dont_check opts) end_oid) c st of
              None \<Rightarrow> None
            | Some (c, st) \<Rightarrow>
                Some (Inr (if printed st = [] \<and> succeeded st \<and> \<not> dont_get_requested opts
                           then snmp_get_and_print net root c st else (c, st))))))"

definition snmpbulkwalk ::
  "('w \<Rightarrow> pdu \<Rightarrow> reply \<times> 'w) \<Rightarrow> walk_opts \<Rightarrow> oid \<Rightarrow> 'w client \<Rightarrow> ('w client \<times> walk) option" where
  "snmpbulkwalk net opts root c =
     (case walk_first net opts root c of (c, st) \<Rightarrow>
      (case walk_loop net (getbulk_request (non_reps opts) (reps opts))
              (bulkwalk_vars (\<not> dont_check opts) root) c st of
         None \<Rightarrow> None
       | Some (c, st) \<Rightarrow>
           Some (if printed st = [] \<and> succeeded st then snmp_get_and_print net root c st else (c, st))))"

section \<open>The walk ends\<close>

text \<open>
  The contract of a loop over variables that makes a walk end: when it does not stop the walk, the name to ask for next
  is behind the one asked for. There are finitely many names of at most 128 subidentifiers.
\<close>

definition short_names :: "variable_list list \<Rightarrow> bool" where
  "short_names vps \<longleftrightarrow> (\<forall>vp\<in>set vps. length (name vp) \<le> MAX_OID_LEN)"

definition answers_something :: "('w \<Rightarrow> pdu \<Rightarrow> reply \<times> 'w) \<Rightarrow> bool" where
  "answers_something net \<longleftrightarrow> (\<forall>w p. case fst (net w p) of
     STAT_SUCCESS response \<Rightarrow> errstat response = SNMP_ERR_NOERROR \<longrightarrow>
       variables response \<noteq> [] \<and> short_names (variables response)
   | _ \<Rightarrow> True)"

definition names_behind :: "oid \<Rightarrow> nat" where
  "names_behind n = card {x :: oid. length x \<le> MAX_OID_LEN \<and> n < x}"

lemma names_behind_less:
  assumes "n < n'" "length n' \<le> MAX_OID_LEN"
  shows "names_behind n' < names_behind n"
proof -
  have "finite {x :: oid. set x \<subseteq> UNIV \<and> length x \<le> MAX_OID_LEN}" by (intro finite_lists_length_le) simp
  then have "finite {x :: oid. length x \<le> MAX_OID_LEN \<and> n < x}" by (rule rev_finite_subset) auto
  then show ?thesis unfolding names_behind_def using assms by (intro psubset_card_mono) auto
qed

locale walk_progress =
  fixes each :: "variable_list list \<Rightarrow> walk \<Rightarrow> walk"
  assumes progress: "vps \<noteq> [] \<Longrightarrow> short_names vps \<Longrightarrow> running (each vps st) \<Longrightarrow>
    wname st < wname (each vps st) \<and> length (wname (each vps st)) \<le> MAX_OID_LEN"
begin

lemma reply_progress:
  assumes "answers_something net" "net w p = (r, w')" "running (walk_reply each r st)"
  shows "names_behind (wname (walk_reply each r st)) < names_behind (wname st)"
proof -
  have r: "case r of STAT_SUCCESS response \<Rightarrow> errstat response = SNMP_ERR_NOERROR \<longrightarrow>
       variables response \<noteq> [] \<and> short_names (variables response) | _ \<Rightarrow> True"
    using assms(1) unfolding answers_something_def
    by (elim allE[of _ w] allE[of _ p]) (simp add: assms(2))
  with assms(3) obtain response where s: "r = STAT_SUCCESS response" "errstat response = SNMP_ERR_NOERROR"
    by (auto simp: walk_reply_def Let_def split: reply.splits if_splits)
  have e: "walk_reply each r st = each (variables response) (st\<lparr>succeeded := True\<rparr>)"
    by (simp add: walk_reply_def s)
  show ?thesis
    using progress[of "variables response" "st\<lparr>succeeded := True\<rparr>"] assms(3) r
    unfolding e by (intro names_behind_less) (auto simp: s)
qed

lemma walk_ends:
  assumes "answers_something net"
  shows "\<exists>c' st'. walk_loop net request each c st = Some (c', st')"
proof (induction "names_behind (wname st)" arbitrary: c st rule: less_induct)
  case less
  obtain p c1 where p: "request (wname st) c = (p, c1)" by fastforce
  obtain r w' where r: "net (world c1) p = (r, w')" by fastforce
  let ?st = "walk_reply each r st"
  have "\<exists>c' st'. walk_loop net request each (c1\<lparr>world := w'\<rparr>) ?st = Some (c', st')"
  proof (cases "running ?st")
    case True
    then show ?thesis using reply_progress[OF assms r] by (intro less.hyps)
  qed (simp add: walk_loop.simps)
  then show ?case
    by (cases "running st") (simp_all add: walk_loop.simps[of _ _ _ c] exchange_def p r)
qed

end

lemma check_increasing_simps [simp]:
  "wname (check_increasing check vp st) = wname st" "printed (check_increasing check vp st) = printed st"
  "succeeded (check_increasing check vp st) = succeeded st"
  by (simp_all add: check_increasing_def)

lemma running_check: "running (check_increasing check vp st) \<longleftrightarrow> running st \<and> (check \<longrightarrow> wname st < name vp)"
  by (auto simp: check_increasing_def snmp_oid_compare_order oid_order_def)

lemma print_variable_simps [simp]:
  "wname (print_variable vp st) = wname st" "running (print_variable vp st) = running st"
  "exitval (print_variable vp st) = exitval st" "succeeded (print_variable vp st) = succeeded st"
  "printed (print_variable vp st) = printed st @ [vp]"
  by (simp_all add: print_variable_def)

text \<open>When a variable does not stop the walk.\<close>

lemma running_walk_var:
  "running (walk_var check end_oid vp st) \<longleftrightarrow> running st \<and> \<not> past_end end_oid (name vp) \<and>
     \<not> is_exception (vtype vp) \<and> (check \<longrightarrow> wname st < name vp)"
  by (auto simp: walk_var_def Let_def running_check)

lemma running_bulkwalk_var:
  "running (bulkwalk_var check root is_last vp st) \<longleftrightarrow> running st \<and> \<not> outside_root root (name vp) \<and>
     \<not> is_exception (vtype vp) \<and> (check \<longrightarrow> wname st < name vp)"
  by (auto simp: bulkwalk_var_def Let_def running_check)

lemma wname_walk_var: "running (walk_var check end_oid vp st) \<Longrightarrow> wname (walk_var check end_oid vp st) = name vp"
  unfolding running_walk_var by (simp add: walk_var_def Let_def)

lemma wname_bulkwalk_var: "running (bulkwalk_var check root is_last vp st) \<Longrightarrow>
    wname (bulkwalk_var check root is_last vp st) = (if is_last then name vp else wname st)"
  unfolding running_bulkwalk_var by (simp add: bulkwalk_var_def Let_def)

lemma walk_vars_stopped: "running (walk_vars check end_oid vps st) \<Longrightarrow> running st"
  by (induction vps arbitrary: st) (force simp: running_walk_var)+

lemma bulkwalk_vars_stopped: "running (bulkwalk_vars check root vps st) \<Longrightarrow> running st"
  by (induction vps arbitrary: st) (force simp: running_bulkwalk_var)+

interpretation snmpwalk_progress: walk_progress "walk_vars True end_oid" for end_oid
proof
  fix vps :: "variable_list list" and st :: walk
  assume "vps \<noteq> []" "short_names vps" "running (walk_vars True end_oid vps st)"
  then show "wname st < wname (walk_vars True end_oid vps st) \<and>
    length (wname (walk_vars True end_oid vps st)) \<le> MAX_OID_LEN"
  proof (induction vps arbitrary: st)
    case (Cons vp vps)
    let ?st = "walk_var True end_oid vp st"
    have r: "running ?st" using Cons.prems(3) walk_vars_stopped by simp
    then have lt: "wname st < name vp" "wname ?st = name vp" by (simp_all add: running_walk_var wname_walk_var)
    have s: "short_names vps" "length (name vp) \<le> MAX_OID_LEN" using Cons.prems(2) by (auto simp: short_names_def)
    show ?case
    proof (cases "vps = []")
      case False
      then have "wname ?st < wname (walk_vars True end_oid vps ?st) \<and>
          length (wname (walk_vars True end_oid vps ?st)) \<le> MAX_OID_LEN"
        using Cons.IH[OF False s(1), of ?st] Cons.prems(3) by simp
      then show ?thesis using lt by (auto intro: less_trans)
    qed (use lt s in simp)
  qed simp
qed

interpretation snmpbulkwalk_progress: walk_progress "bulkwalk_vars True root" for root
proof
  fix vps :: "variable_list list" and st :: walk
  assume "vps \<noteq> []" "short_names vps" "running (bulkwalk_vars True root vps st)"
  then show "wname st < wname (bulkwalk_vars True root vps st) \<and>
    length (wname (bulkwalk_vars True root vps st)) \<le> MAX_OID_LEN"
  proof (induction vps arbitrary: st)
    case (Cons vp vps)
    let ?st = "bulkwalk_var True root (vps = []) vp st"
    have r: "running ?st" using Cons.prems(3) bulkwalk_vars_stopped by simp
    then have lt: "wname st < name vp" by (simp add: running_bulkwalk_var)
    have s: "short_names vps" "length (name vp) \<le> MAX_OID_LEN" using Cons.prems(2) by (auto simp: short_names_def)
    show ?case
    proof (cases "vps = []")
      case True
      then show ?thesis using lt s wname_bulkwalk_var[OF r] by simp
    next
      case False
      then show ?thesis using Cons.IH[OF False s(1), of ?st] Cons.prems(3) wname_bulkwalk_var[OF r] by simp
    qed
  qed simp
qed

text \<open>Nothing in the loops stops a walk whose agent answers without any variable.\<close>

lemma walk_empty_answer:
  assumes "each [] = id"
  shows "walk_loop (\<lambda>w p. (STAT_SUCCESS (p\<lparr>errstat := SNMP_ERR_NOERROR, variables := []\<rparr>), w)) request each c
    (st\<lparr>running := True\<rparr>) = None"
proof (rule ccontr)
  let ?net = "\<lambda>w p. (STAT_SUCCESS (p\<lparr>errstat := SNMP_ERR_NOERROR, variables := []\<rparr>), w)"
  assume "walk_loop ?net request each c (st\<lparr>running := True\<rparr>) \<noteq> None"
  then obtain y where y: "walk_loop ?net request each c (st\<lparr>running := True\<rparr>) = Some y" by auto
  have "net = ?net \<longrightarrow> ev = each \<longrightarrow> \<not> running s"
    if "walk_loop net request ev c s = Some y" for net ev c s y
    using that
  proof (rule walk_loop.raw_induct[where P = "\<lambda>net rq ev c s y. net = ?net \<longrightarrow> ev = each \<longrightarrow> \<not> running s", rotated])
    fix f net and rq :: "oid \<Rightarrow> 'b client \<Rightarrow> pdu \<times> 'b client" and ev c s y
    assume IH: "\<And>net rq ev c s y. f net rq ev c s = Some y \<Longrightarrow> net = ?net \<longrightarrow> ev = each \<longrightarrow> \<not> running s"
      and eq: "(if running s then case exchange net (rq (wname s) c) of (r, c) \<Rightarrow> f net rq ev c (walk_reply ev r s)
        else Some (c, s)) = Some y"
    show "net = ?net \<longrightarrow> ev = each \<longrightarrow> \<not> running s"
    proof (intro impI notI)
      assume n: "net = ?net" "ev = each" "running s"
      then obtain c' where "f net rq ev c' (s\<lparr>succeeded := True\<rparr>) = Some y"
        using eq assms by (cases "rq (wname s) c") (auto simp: exchange_def walk_reply_def)
      from IH[OF this] n show False by simp
    qed
  qed
  from this[OF y] show False by simp
qed

end
