(* ===== verification/Walk_Subtree.thy ===== *)
theory Walk_Subtree
  imports Walk
begin

text \<open>
  What a walk prints: against an agent that serves a sorted table of variables, both programs print exactly the
  variables strictly below the root, once each and in order.
\<close>

section \<open>The agent\<close>

text \<open>The variables an agent serves, in the order of their names, and those behind a name.\<close>

definition mib_ok :: "variable_list list \<Rightarrow> bool" where
  "mib_ok mib \<longleftrightarrow> sorted_wrt (\<lambda>a b. name a < name b) mib \<and>
     (\<forall>v\<in>set mib. \<not> is_exception (vtype v) \<and> length (name v) \<le> MAX_OID_LEN)"

definition successors :: "variable_list list \<Rightarrow> oid \<Rightarrow> variable_list list" where
  "successors mib n = filter (\<lambda>v. n < name v) mib"

text \<open>
  The answer of RFC 3416 to \<^verbatim>\<open>GETNEXT\<close> and \<^verbatim>\<open>GETBULK\<close> for one name: as many successors as the agent likes, at least
  one, and \<^verbatim>\<open>endOfMibView\<close> with the last name when there are no more.
\<close>

definition last_name :: "variable_list list \<Rightarrow> oid \<Rightarrow> oid" where
  "last_name mib n = (if successors mib n = [] then n else name (last (successors mib n)))"

definition next_answer :: "variable_list list \<Rightarrow> oid \<Rightarrow> variable_list list \<Rightarrow> bool" where
  "next_answer mib n vps \<longleftrightarrow> vps \<noteq> [] \<and>
     (\<exists>k es. vps = take k (successors mib n) @ es \<and> (es \<noteq> [] \<longrightarrow> length (successors mib n) \<le> k) \<and>
       (\<forall>e\<in>set es. vtype e = SNMP_ENDOFMIBVIEW \<and> name e = last_name mib n))"

text \<open>An SNMPv1 agent returns the error \<^verbatim>\<open>noSuchName\<close> at the end. \<open>legal\<close> restricts the number of variables.\<close>

definition serves ::
  "(variable_list list \<Rightarrow> bool) \<Rightarrow> u32 \<Rightarrow> variable_list list \<Rightarrow> ('w \<Rightarrow> pdu \<Rightarrow> reply \<times> 'w) \<Rightarrow> bool" where
  "serves legal cmd mib net \<longleftrightarrow>
     (\<forall>w p n. command p = cmd \<and> variables p = [null_var n] \<longrightarrow>
       (\<exists>r. fst (net w p) = STAT_SUCCESS r \<and>
         (errstat r = SNMP_ERR_NOERROR \<and> next_answer mib n (variables r) \<and> legal (variables r) \<or>
          errstat r = SNMP_ERR_NOSUCHNAME \<and> successors mib n = [])))"

definition serves_get :: "variable_list list \<Rightarrow> ('w \<Rightarrow> pdu \<Rightarrow> reply \<times> 'w) \<Rightarrow> bool" where
  "serves_get mib net \<longleftrightarrow>
     (\<forall>w p n. command p = SNMP_MSG_GET \<and> variables p = [null_var n] \<longrightarrow>
       (\<exists>r. fst (net w p) = STAT_SUCCESS r \<and> (errstat r = SNMP_ERR_NOERROR \<longrightarrow>
         (\<forall>v\<in>set (variables r). is_exception (vtype v) \<or> v \<in> set mib \<and> name v = n))))"

section \<open>Successors\<close>

definition proper :: "variable_list list \<Rightarrow> variable_list list" where
  "proper vps = filter (\<lambda>v. \<not> is_exception (vtype v)) vps"

definition below :: "oid \<Rightarrow> variable_list list \<Rightarrow> variable_list list" where
  "below root vps = filter (\<lambda>v. prefix root (name v)) vps"

lemma proper_append [simp]: "proper (a @ b) = proper a @ proper b"
  by (simp add: proper_def)

lemma below_append [simp]: "below root (a @ b) = below root a @ below root b"
  by (simp add: below_def)

lemma proper_mib: "mib_ok mib \<Longrightarrow> set vps \<subseteq> set mib \<Longrightarrow> proper vps = vps"
  by (auto simp: proper_def mib_ok_def intro!: filter_True)

lemma set_successors: "set (successors mib n) \<subseteq> set mib" "v \<in> set (successors mib n) \<Longrightarrow> n < name v"
  by (auto simp: successors_def)

lemma successors_sorted: "mib_ok mib \<Longrightarrow> sorted_wrt (\<lambda>a b. name a < name b) (successors mib n)"
  unfolding successors_def mib_ok_def by (intro sorted_wrt_filter) simp

lemma successors_successors:
  assumes "n \<le> n'"
  shows "successors mib n' = successors (successors mib n) n'"
  using assms by (auto simp: successors_def intro!: filter_cong)

lemma sorted_successors_take:
  assumes "sorted_wrt (\<lambda>a b. name a < name b) vps" "take k vps \<noteq> []"
  shows "successors vps (name (last (take k vps))) = drop k vps"
proof -
  define l where "l = last (take k vps)"
  have tk: "take k vps = butlast (take k vps) @ [l]" using assms(2) by (simp add: l_def)
  have s: "sorted_wrt (\<lambda>a b. name a < name b) (take k vps @ drop k vps)" using assms(1) by simp
  have "\<not> name l < name v" if "v \<in> set (take k vps)" for v
    using that s unfolding sorted_wrt_append by (subst (asm) (1 2) tk) (auto simp: sorted_wrt_append)
  moreover have "name l < name v" if "v \<in> set (drop k vps)" for v
    using that s assms(2) unfolding sorted_wrt_append l_def by (metis last_in_set)
  ultimately have "successors (take k vps) (name l) = []" "successors (drop k vps) (name l) = drop k vps"
    by (auto simp: successors_def filter_empty_conv intro!: filter_True)
  then have "successors (take k vps @ drop k vps) (name l) = drop k vps" unfolding successors_def filter_append by simp
  then show ?thesis by (simp add: l_def)
qed

lemma successors_take:
  assumes "mib_ok mib" "take k (successors mib n) \<noteq> []"
  shows "successors mib (name (last (take k (successors mib n)))) = drop k (successors mib n)"
proof -
  have "n < name (last (take k (successors mib n)))"
    using last_in_set[OF assms(2)] by (auto dest!: in_set_takeD intro: set_successors(2))
  then show ?thesis
    using successors_successors[of n _ mib] sorted_successors_take[OF successors_sorted[OF assms(1)] assms(2)]
    by (metis less_imp_le)
qed

text \<open>Behind the first variable outside the subtree there is none inside.\<close>

lemma below_drop:
  assumes "mib_ok mib" "prefix root n" "v \<in> set (take k (successors mib n))" "\<not> prefix root (name v)"
  shows "below root (drop k (successors mib n)) = []"
proof -
  have "\<not> prefix root (name x)" if x: "x \<in> set (drop k (successors mib n))" for x
  proof
    assume p: "prefix root (name x)"
    have "sorted_wrt (\<lambda>a b. name a < name b) (take k (successors mib n) @ drop k (successors mib n))"
      using successors_sorted[OF assms(1)] by simp
    then have "name v < name x" using assms(3) x unfolding sorted_wrt_append by blast
    moreover have "n < name v" using assms(3) by (auto dest: in_set_takeD intro: set_successors(2))
    ultimately have "prefix root (name v)" using subtree_convex[OF assms(2) p, of "name v"] by simp
    with assms(4) show False by simp
  qed
  then show ?thesis by (auto simp: below_def filter_empty_conv)
qed

section \<open>The contract of the loop over variables\<close>

text \<open>\<open>covers\<close> is what the loop needs of the root and the names that are served.\<close>

locale subtree_walk =
  fixes each :: "oid \<Rightarrow> variable_list list \<Rightarrow> walk \<Rightarrow> walk"
    and legal :: "variable_list list \<Rightarrow> bool"
    and covers :: "oid \<Rightarrow> variable_list list \<Rightarrow> bool"
  assumes covers_ok: "covers root mib \<Longrightarrow> mib_ok mib"
    and each_law: "covers root mib \<Longrightarrow> prefix root (wname st) \<Longrightarrow> next_answer mib (wname st) vps \<Longrightarrow> legal vps \<Longrightarrow>
      proper (printed (each root vps st)) = proper (printed st) @ below root (proper vps) \<and>
      exitval (each root vps st) = exitval st \<and>
      (running (each root vps st) \<longleftrightarrow>
        running st \<and> (\<forall>v\<in>set vps. prefix root (name v) \<and> \<not> is_exception (vtype v))) \<and>
      (running (each root vps st) \<longrightarrow> wname (each root vps st) = name (last vps))"
begin

lemma each_answer:
  assumes "prefix root (wname st)" "running st" "next_answer mib (wname st) vps" "legal vps" "covers root mib"
  defines "st' \<equiv> each root vps st"
  shows "running st' \<Longrightarrow> prefix root (wname st') \<and>
      length (successors mib (wname st')) < length (successors mib (wname st)) \<and>
      proper (printed st') @ below root (successors mib (wname st')) =
        proper (printed st) @ below root (successors mib (wname st))"
    and "\<not> running st' \<Longrightarrow> proper (printed st') = proper (printed st) @ below root (successors mib (wname st))"
proof -
  let ?S = "successors mib (wname st)"
  note mib = covers_ok[OF assms(5)]
  note law = each_law[OF assms(5,1,3,4), folded st'_def]
  obtain k es where vps: "vps = take k ?S @ es" "es \<noteq> [] \<Longrightarrow> length ?S \<le> k"
      and es: "\<forall>e\<in>set es. vtype e = SNMP_ENDOFMIBVIEW" and ne: "vps \<noteq> []"
    using assms(3) unfolding next_answer_def by blast
  have exc: "\<forall>e\<in>set es. is_exception (vtype e)" using es by (simp add: is_exception_def)
  have v: "proper vps = take k ?S"
    using proper_mib[OF mib, of "take k ?S"] set_successors(1)[of mib "wname st"] exc
    by (auto simp: vps proper_def dest: in_set_takeD intro!: filter_False)
  have p: "proper (printed st') = proper (printed st) @ below root (take k ?S)"
    using law by (simp add: v)
  have split: "below root ?S = below root (take k ?S) @ below root (drop k ?S)"
    by (metis append_take_drop_id below_append)
  {
    assume r: "running st'"
    then have all: "\<forall>v\<in>set vps. prefix root (name v) \<and> \<not> is_exception (vtype v)"
      using law by simp
    then have "es = []" using exc by (cases es) (auto simp: vps)
    then have vt: "vps = take k ?S" "take k ?S \<noteq> []" using ne vps by auto
    have n: "wname st' = name (last vps)" using law r by simp
    then have s: "successors mib (wname st') = drop k ?S" using successors_take[OF mib vt(2)] by (simp add: vt(1))
    have "prefix root (wname st')" using all last_in_set[OF ne] n by simp
    moreover have "length (drop k ?S) < length ?S" using vt(2) by auto
    ultimately show "prefix root (wname st') \<and> length (successors mib (wname st')) < length ?S \<and>
        proper (printed st') @ below root (successors mib (wname st')) = proper (printed st) @ below root ?S"
      by (simp add: s p split)
  }
  {
    assume "\<not> running st'"
    then obtain v where x: "v \<in> set vps" "\<not> prefix root (name v) \<or> is_exception (vtype v)"
      using law assms(2) by auto
    have "below root (drop k ?S) = []"
    proof (cases "es = []")
      case True
      then have "v \<in> set (take k ?S)" using x(1) vps by simp
      moreover from this have "\<not> is_exception (vtype v)"
        using mib set_successors(1)[of mib "wname st"] by (auto simp: mib_ok_def dest: in_set_takeD)
      ultimately show ?thesis using x(2) by (intro below_drop[OF mib assms(1)]) auto
    next
      case False
      then show ?thesis using vps(2) by (simp add: below_def)
    qed
    then show "proper (printed st') = proper (printed st) @ below root ?S" by (simp add: p split)
  }
qed

lemma walk_prints_subtree:
  assumes "serves legal cmd mib net" "\<And>n c. command (fst (request n c)) = cmd"
    and "\<And>n c. variables (fst (request n c)) = [null_var n]"
    and "covers root mib" "prefix root (wname st)" "running st"
  shows "\<exists>c' st'. walk_loop net request (each root) c st = Some (c', st') \<and> exitval st' = exitval st \<and>
    proper (printed st') = proper (printed st) @ below root (successors mib (wname st))"
  using assms(5,6)
proof (induction "length (successors mib (wname st))" arbitrary: c st rule: less_induct)
  case less
  obtain p c1 where p: "request (wname st) c = (p, c1)" by fastforce
  obtain r w' where r: "net (world c1) p = (r, w')" by fastforce
  have "command p = cmd" "variables p = [null_var (wname st)]" using assms(2,3)[of "wname st" c] p by auto
  then obtain q where q: "r = STAT_SUCCESS q"
      "errstat q = SNMP_ERR_NOERROR \<and> next_answer mib (wname st) (variables q) \<and> legal (variables q) \<or>
       errstat q = SNMP_ERR_NOSUCHNAME \<and> successors mib (wname st) = []"
    using assms(1) unfolding serves_def by (metis r fst_conv)
  let ?st1 = "st\<lparr>succeeded := True\<rparr>"
  let ?st = "walk_reply (each root) r st"
  have "\<exists>c' st'. walk_loop net request (each root) (c1\<lparr>world := w'\<rparr>) ?st = Some (c', st') \<and> exitval st' = exitval st \<and>
    proper (printed st') = proper (printed st) @ below root (successors mib (wname st))"
    using q(2)
  proof (elim disjE conjE)
    assume ok: "errstat q = SNMP_ERR_NOERROR" "next_answer mib (wname st) (variables q)" "legal (variables q)"
    have st: "?st = each root (variables q) ?st1" by (simp add: walk_reply_def q(1) ok(1))
    have pre: "prefix root (wname ?st1)" "running ?st1" "next_answer mib (wname ?st1) (variables q)"
      using less.prems ok(2) by simp_all
    note a = each_answer[OF pre ok(3) assms(4)]
    have ex: "exitval ?st = exitval st" using each_law[OF assms(4) pre(1,3) ok(3)] by (simp add: st)
    show ?thesis
    proof (cases "running ?st")
      case True
      then show ?thesis using a(1) less.hyps[of ?st "c1\<lparr>world := w'\<rparr>"] ex by (simp add: st)
    next
      case False
      then show ?thesis using a(2) ex by (simp add: st walk_loop.simps)
    qed
  next
    assume "errstat q = SNMP_ERR_NOSUCHNAME" "successors mib (wname st) = []"
    then show ?thesis
      by (simp add: walk_reply_def q(1) walk_loop.simps SNMP_ERR_NOERROR_def SNMP_ERR_NOSUCHNAME_def below_def)
  qed
  then show ?case using less.prems by (simp add: walk_loop.simps[of _ _ _ c] exchange_def p r)
qed

end

section \<open>The subtree tests\<close>

lemma le_octets_inj: "le_octets x = le_octets y \<longleftrightarrow> x = y"
proof
  assume "le_octets x = le_octets y"
  then have e: "ucast (drop_bit (8 * k) x) = (ucast (drop_bit (8 * k) y) :: u8)" if "k < 4" for k
    using that by (auto simp: le_octets_def less_Suc_eq numeral_eq_Suc)
  show "x = y"
  proof (rule word_bit_eqI)
    fix n assume n: "n < LENGTH(32)"
    have "bit (ucast (drop_bit (8 * (n div 8)) x) :: u8) (n mod 8) =
        bit (ucast (drop_bit (8 * (n div 8)) y) :: u8) (n mod 8)"
      using e[of "n div 8"] n by simp
    then show "bit x n = bit y n" using n by (simp add: bit_simps)
  qed
qed simp

lemma length_le_octets [simp]: "length (le_octets x) = 4"
  by (simp add: le_octets_def)

lemma oid_memory_simps [simp]: "oid_memory [] = []" "oid_memory (x # xs) = le_octets x @ oid_memory xs"
  by (simp_all add: oid_memory_def)

lemma length_oid_memory [simp]: "length (oid_memory xs) = 4 * length xs"
  by (induction xs) simp_all

lemma oid_memory_inj: "length a = length b \<Longrightarrow> oid_memory a = oid_memory b \<longleftrightarrow> a = b"
  by (induction a b rule: list_induct2) (auto simp: le_octets_inj)

text \<open>Equality does not depend on the order of the octets, so the test of \<^verbatim>\<open>snmpbulkwalk\<close> is the right one.\<close>

lemma outside_root_iff: "outside_root root n \<longleftrightarrow> \<not> prefix root n"
  by (cases "length root \<le> length n")
    (auto simp: outside_root_def prefix_iff_take memcmp_zero oid_memory_inj)

text \<open>
  The order of memory is the order of names only when every subidentifier is a single octet.
\<close>

lemma octet_ucast: "x < 256 \<Longrightarrow> \<exists>a :: u8. (x :: u32) = ucast a"
  by (rule exI[of _ "ucast x"]) (simp add: word_eq_iff_unsigned unsigned_ucast_eq take_bit_eq_mask less_mask_eq)

lemma memcmp_octet:
  assumes "x < 256" "y < 256"
  shows "memcmp (le_octets x) (le_octets y) = (if x = y then 0 else if x < y then - 1 else 1)"
proof -
  obtain a b :: u8 where xy: "x = ucast a" "y = ucast b" using assms octet_ucast by blast
  have "ucast (drop_bit n (ucast c :: u32)) = (0 :: u8)" if "8 \<le> n" for n and c :: u8
    using that by (intro word_bit_eqI) (auto simp: bit_simps dest: bit_imp_le_length)
  then show ?thesis
    by (simp add: le_octets_def xy word_less_nat_alt unsigned_ucast_eq take_bit_word_eq_self word_unat_eq_iff)
qed

definition octets :: "oid \<Rightarrow> bool" where
  "octets xs \<longleftrightarrow> (\<forall>x\<in>set xs. x < 256)"

lemma memcmp_octets:
  "length a = length b \<Longrightarrow> octets a \<Longrightarrow> octets b \<Longrightarrow> memcmp (oid_memory a) (oid_memory b) = oid_order a b"
proof (induction a b rule: list_induct2)
  case (Cons x xs y ys)
  then show ?case
    by (simp add: memcmp_append le_octets_inj memcmp_octet memcmp_zero octets_def oid_order_def)
qed (simp add: oid_order_def)

lemma u32_inc_le:
  assumes "x \<noteq> - 1"
  shows "x + 1 \<le> y \<longleftrightarrow> x < (y :: u32)"
proof -
  have "1 + x \<noteq> 0" using assms by (metis add.commute add_eq_0_iff2)
  then have "unat (x + 1) = Suc (unat x)" using unatSuc[of x] by (simp add: add.commute)
  then show ?thesis by (simp add: word_le_nat_alt word_less_nat_alt Suc_le_eq)
qed

lemma le_take: "a \<le> b \<Longrightarrow> length a \<le> length b \<Longrightarrow> a \<le> take (length a) (b :: oid)"
proof (induction a arbitrary: b)
  case (Cons x xs)
  then show ?case by (cases b) auto
qed simp

lemma next_sibling:
  assumes "length root = length b" "root \<noteq> []" "last root \<noteq> - 1"
  shows "root[length root - 1 := last root + 1] \<le> b \<longleftrightarrow> root < (b :: oid)"
  using assms
proof (induction root b rule: list_induct2)
  case (Cons x xs y ys)
  show ?case
  proof (cases "xs = []")
    case True
    then show ?thesis using Cons u32_inc_le[of x y] by (auto simp: order_le_less)
  next
    case False
    then have "(x # xs)[length (x # xs) - 1 := last (x # xs) + 1] = x # xs[length xs - 1 := last xs + 1]"
      by (cases xs) auto
    then show ?thesis using Cons False by auto
  qed
qed simp

lemma prefix_le: "prefix a b \<Longrightarrow> a \<le> (b :: oid)"
  by (induction a b rule: list_induct2') auto

text \<open>The test of \<^verbatim>\<open>snmpwalk\<close> on names behind the root.\<close>

lemma past_end_iff:
  assumes "octets root" "root \<noteq> []" "last root < 255" "octets (take (length root) n)" "root < n \<or> root = n"
  shows "past_end (root[length root - 1 := last root + 1]) n \<longleftrightarrow> \<not> prefix root n"
proof (cases "length root \<le> length n")
  case True
  let ?e = "root[length root - 1 := last root + 1]" and ?n = "take (length root) n"
  have l: "last root \<noteq> - 1" using assms(3) by auto
  have "last root + 1 < 256"
    using assms(3) u32_inc_le[OF l, of 255] by (auto intro: le_less_trans)
  then have "octets ?e" using assms(1) set_update_subset_insert[of root] unfolding octets_def by fastforce
  moreover note l
  moreover have "root \<le> ?n" using assms(5) True by (intro le_take) auto
  ultimately show ?thesis
    using True assms(2,4) next_sibling[of root ?n] memcmp_octets[of ?e ?n]
    by (auto simp: past_end_def prefix_iff_take oid_order_def split: if_splits)
qed (auto simp: past_end_def dest: prefix_length_le)

section \<open>The two programs\<close>

lemma next_answer_names:
  assumes "next_answer mib n vps" "v \<in> set vps"
  shows "is_exception (vtype v) \<and> (name v = n \<or> (\<exists>u\<in>set mib. n < name u \<and> name v = name u)) \<or> v \<in> set mib \<and> n < name v"
proof -
  obtain k es where vps: "vps = take k (successors mib n) @ es"
      "\<forall>e\<in>set es. vtype e = SNMP_ENDOFMIBVIEW \<and> name e = last_name mib n"
    using assms(1) unfolding next_answer_def by blast
  show ?thesis
  proof (cases "v \<in> set es")
    case True
    have "last_name mib n = n \<or> (\<exists>u\<in>set mib. n < name u \<and> last_name mib n = name u)"
      using last_in_set[of "successors mib n"] by (auto simp: last_name_def successors_def)
    then show ?thesis using True vps(2) by (auto simp: is_exception_def)
  next
    case False
    then show ?thesis using assms(2) vps(1) by (auto simp: successors_def dest: in_set_takeD)
  qed
qed

lemma next_answer_behind: "next_answer mib n vps \<Longrightarrow> v \<in> set vps \<Longrightarrow> is_exception (vtype v) \<or> n < name v"
  by (drule (1) next_answer_names) blast

lemma bulkwalk_var_effect:
  assumes "is_exception (vtype vp) \<or> wname st < name vp"
  shows "proper (printed (bulkwalk_var check root is_last vp st)) = proper (printed st) @ below root (proper [vp])"
    "exitval (bulkwalk_var check root is_last vp st) = exitval st"
    "\<not> is_last \<Longrightarrow> wname (bulkwalk_var check root is_last vp st) = wname st"
  using assms
  by (auto simp: bulkwalk_var_def Let_def outside_root_iff proper_def below_def check_increasing_def
      snmp_oid_compare_order oid_order_def)

lemma bulkwalk_vars_effect:
  assumes "\<forall>v\<in>set vps. is_exception (vtype v) \<or> wname st < name v"
  shows "proper (printed (bulkwalk_vars check root vps st)) = proper (printed st) @ below root (proper vps) \<and>
    exitval (bulkwalk_vars check root vps st) = exitval st \<and>
    (running (bulkwalk_vars check root vps st) \<longleftrightarrow>
      running st \<and> (\<forall>v\<in>set vps. prefix root (name v) \<and> \<not> is_exception (vtype v))) \<and>
    (vps \<noteq> [] \<longrightarrow> running (bulkwalk_vars check root vps st) \<longrightarrow> wname (bulkwalk_vars check root vps st) = name (last vps))"
  using assms
proof (induction vps arbitrary: st)
  case (Cons vp vps)
  let ?st = "bulkwalk_var check root (vps = []) vp st"
  have b: "is_exception (vtype vp) \<or> wname st < name vp" using Cons.prems by simp
  have "\<forall>v\<in>set vps. is_exception (vtype v) \<or> wname ?st < name v"
    using Cons.prems bulkwalk_var_effect(3)[OF b, of "vps = []"] by (cases "vps = []") auto
  note IH = Cons.IH[OF this]
  have r: "running ?st \<longleftrightarrow> running st \<and> prefix root (name vp) \<and> \<not> is_exception (vtype vp)"
    using b by (auto simp: running_bulkwalk_var outside_root_iff)
  have "proper (vp # vps) = proper [vp] @ proper vps" by (simp add: proper_def)
  then show ?case
    using IH r bulkwalk_var_effect(1,2)[OF b, of check root "vps = []"] wname_bulkwalk_var[of check root "vps = []" vp st]
    by (cases "vps = []") auto
qed (simp add: proper_def below_def)

interpretation bulkwalk: subtree_walk "bulkwalk_vars check" "\<lambda>_. True" "\<lambda>_. mib_ok" for check
proof (unfold_locales, assumption)
  fix root mib vps and st :: walk
  assume "next_answer mib (wname st) vps"
  then show "proper (printed (bulkwalk_vars check root vps st)) = proper (printed st) @ below root (proper vps) \<and>
      exitval (bulkwalk_vars check root vps st) = exitval st \<and>
      (running (bulkwalk_vars check root vps st) \<longleftrightarrow>
        running st \<and> (\<forall>v\<in>set vps. prefix root (name v) \<and> \<not> is_exception (vtype v))) \<and>
      (running (bulkwalk_vars check root vps st) \<longrightarrow> wname (bulkwalk_vars check root vps st) = name (last vps))"
    using bulkwalk_vars_effect[of vps st check root] next_answer_behind[of mib "wname st" vps]
    by (auto simp: next_answer_def)
qed

text \<open>What \<^verbatim>\<open>snmpwalk\<close> needs on top: its end is the next sibling of the root, in the order of memory.\<close>

definition octet_names :: "oid \<Rightarrow> variable_list list \<Rightarrow> bool" where
  "octet_names root mib \<longleftrightarrow> mib_ok mib \<and> root \<noteq> [] \<and> octets root \<and> last root < 255 \<and>
     (\<forall>v\<in>set mib. octets (take (length root) (name v)))"

lemma walk_var_effect:
  fixes check :: bool
  assumes "octet_names root mib" "prefix root (wname st)" "next_answer mib (wname st) [vp]"
  defines "st' \<equiv> walk_var check (root[length root - 1 := last root + 1]) vp st"
  shows "proper (printed st') = proper (printed st) @ below root (proper [vp]) \<and> exitval st' = exitval st \<and>
    (running st' \<longleftrightarrow> running st \<and> prefix root (name vp) \<and> \<not> is_exception (vtype vp)) \<and>
    (running st' \<longrightarrow> wname st' = name vp)"
proof -
  note a = next_answer_names[OF assms(3), of vp, simplified]
  have le: "root \<le> wname st" using assms(2) by (rule prefix_le)
  have "octets (take (length root) (name vp)) \<and> (root < name vp \<or> root = name vp)"
    using a le assms(1,2) by (auto simp: octet_names_def prefix_iff_take intro: le_less_trans)
  then have p: "past_end (root[length root - 1 := last root + 1]) (name vp) \<longleftrightarrow> \<not> prefix root (name vp)"
    using assms(1) by (intro past_end_iff) (auto simp: octet_names_def)
  have lt: "is_exception (vtype vp) \<or> wname st < name vp" using a by blast
  show ?thesis
    using p lt unfolding st'_def
    by (auto simp: walk_var_def Let_def proper_def below_def check_increasing_def snmp_oid_compare_order oid_order_def)
qed

interpretation walk: subtree_walk "\<lambda>root. walk_vars check (root[length root - 1 := last root + 1])"
  "\<lambda>vps. length vps = 1" octet_names for check
proof (unfold_locales, simp add: octet_names_def)
  fix root mib and vps :: "variable_list list" and st :: walk
  let ?each = "walk_vars check (root[length root - 1 := last root + 1])"
  assume a: "octet_names root mib" "prefix root (wname st)" "next_answer mib (wname st) vps" "length vps = 1"
  then obtain vp where "vps = [vp]" by (auto simp: length_Suc_conv)
  then show "proper (printed (?each vps st)) = proper (printed st) @ below root (proper vps) \<and>
      exitval (?each vps st) = exitval st \<and>
      (running (?each vps st) \<longleftrightarrow>
        running st \<and> (\<forall>v\<in>set vps. prefix root (name v) \<and> \<not> is_exception (vtype v))) \<and>
      (running (?each vps st) \<longrightarrow> wname (?each vps st) = name (last vps))"
    using walk_var_effect[OF a(1,2), of vp check] a(3) by simp
qed

section \<open>Around the loop\<close>

lemma request_simps [simp]:
  "command (fst (getnext_request n c)) = SNMP_MSG_GETNEXT" "variables (fst (getnext_request n c)) = [null_var n]"
  "command (fst (get_request n c)) = SNMP_MSG_GET" "variables (fst (get_request n c)) = [null_var n]"
  "command (fst (getbulk_request a b n c)) = SNMP_MSG_GETBULK"
  "variables (fst (getbulk_request a b n c)) = [null_var n]"
  using snmp_pdu_create_simps(1,2)[of SNMP_MSG_GETNEXT c] snmp_pdu_create_simps(1,2)[of SNMP_MSG_GET c]
    snmp_pdu_create_simps(1,2)[of SNMP_MSG_GETBULK c]
  by (simp_all add: getnext_request_def get_request_def getbulk_request_def case_prod_beta)

lemma fold_print_variable: "printed (fold print_variable vps st) = printed st @ vps"
  "exitval (fold print_variable vps st) = exitval st"
  by (induction vps arbitrary: st) auto

lemma get_and_print:
  assumes "serves_get mib net" "snmp_get_and_print net n c st = (c', st')"
  shows "exitval st' = exitval st"
    and "\<exists>vps. printed st' = printed st @ vps \<and> set (proper vps) \<subseteq> {v \<in> set mib. name v = n}"
proof -
  obtain p c1 where p: "get_request n c = (p, c1)" by fastforce
  have pq: "command p = SNMP_MSG_GET" "variables p = [null_var n]" using request_simps(3,4)[of n c] by (simp_all add: p)
  then obtain r w where r: "net (world c1) p = (STAT_SUCCESS r, w)" and
    g: "errstat r = SNMP_ERR_NOERROR \<longrightarrow>
      (\<forall>v\<in>set (variables r). is_exception (vtype v) \<or> v \<in> set mib \<and> name v = n)"
    using assms(1) unfolding serves_get_def by (metis prod.collapse)
  then have st: "st' = (if errstat r = SNMP_ERR_NOERROR then fold print_variable (variables r) st else st)"
    using assms(2) by (simp add: snmp_get_and_print_def exchange_def p)
  then show "exitval st' = exitval st" by (simp add: fold_print_variable)
  show "\<exists>vps. printed st' = printed st @ vps \<and> set (proper vps) \<subseteq> {v \<in> set mib. name v = n}"
    using g st by (intro exI[of _ "if errstat r = SNMP_ERR_NOERROR then variables r else []"])
      (auto simp: fold_print_variable proper_def)
qed

definition subtree_of :: "oid \<Rightarrow> variable_list list \<Rightarrow> variable_list list" where
  "subtree_of root mib = filter (\<lambda>v. strict_prefix root (name v)) mib"

lemma below_successors: "below root (successors mib root) = subtree_of root mib"
  unfolding below_def successors_def subtree_of_def filter_filter
  by (intro filter_cong) (auto simp: strict_prefix_def order_less_le dest: prefix_le)

text \<open>What is printed in the end: the subtree, or when it is empty at most the variable named by the root.\<close>

definition walk_result :: "oid \<Rightarrow> variable_list list \<Rightarrow> walk \<Rightarrow> bool" where
  "walk_result root mib st \<longleftrightarrow> exitval st = 0 \<and>
     (if subtree_of root mib = [] then set (proper (printed st)) \<subseteq> {v \<in> set mib. name v = root}
      else proper (printed st) = subtree_of root mib)"

lemma walk_result_get:
  assumes "proper (printed st) = subtree_of root mib" "exitval st = 0" "serves_get mib net"
    and "(c', st') = (if printed st = [] \<and> Q then snmp_get_and_print net root c st else (c, st))"
  shows "walk_result root mib st'"
proof (cases "printed st = [] \<and> Q")
  case True
  then have e: "snmp_get_and_print net root c st = (c', st')" using assms(4) by simp
  have "subtree_of root mib = []" using True assms(1) by (simp add: proper_def)
  then show ?thesis using get_and_print[OF assms(3) e] True assms(2) by (auto simp: walk_result_def)
qed (use assms in \<open>auto simp: walk_result_def\<close>)

end
