(* ===== verification/Array_Sort.thy ===== *)
theory Array_Sort
  imports Oid "HOL-Library.Multiset"
begin

text \<open>
  The sorting routine of the sorted containers, \<^verbatim>\<open>array_qsort\<close> of \<^verbatim>\<open>snmplib/container_binary_array.c\<close>. The comparison function is an
  argument, as in the code. Indices are integers because \<^verbatim>\<open>j\<close> can pass below the first element.
\<close>

section \<open>The code\<close>

function scan_up :: "('a \<Rightarrow> 'a \<Rightarrow> int) \<Rightarrow> 'a list \<Rightarrow> 'a \<Rightarrow> int \<Rightarrow> int \<Rightarrow> int" where
  "scan_up f data mid final i =
     (if f (data ! nat i) mid < 0 \<and> i < final then scan_up f data mid final (i + 1) else i)"
  by pat_completeness auto
termination
  by (relation "measure (\<lambda>(f, data, mid, final, i). nat (final - i))") auto

function scan_down :: "('a \<Rightarrow> 'a \<Rightarrow> int) \<Rightarrow> 'a list \<Rightarrow> 'a \<Rightarrow> int \<Rightarrow> int \<Rightarrow> int" where
  "scan_down f data mid first j =
     (if f mid (data ! nat j) < 0 \<and> j > first then scan_down f data mid first (j - 1) else j)"
  by pat_completeness auto
termination
  by (relation "measure (\<lambda>(f, data, mid, first, j). nat (j - first))") auto

declare scan_up.simps [simp del] scan_down.simps [simp del]

lemma scan_up_ge: "i \<le> scan_up f data mid final i"
proof (induction f data mid final i rule: scan_up.induct)
  case (1 f data mid final i)
  then show ?case by (subst scan_up.simps) force
qed

lemma scan_down_le: "scan_down f data mid first j \<le> j"
proof (induction f data mid first j rule: scan_down.induct)
  case (1 f data mid first j)
  then show ?case by (subst scan_down.simps) force
qed

definition swap :: "'a list \<Rightarrow> int \<Rightarrow> int \<Rightarrow> 'a list" where
  "swap data i j = data[nat i := data ! nat j, nat j := data ! nat i]"

text \<open>The \<^verbatim>\<open>do\<close> loop: the data and the values of \<^verbatim>\<open>i\<close> and \<^verbatim>\<open>j\<close> after it.\<close>

function part_loop ::
  "('a \<Rightarrow> 'a \<Rightarrow> int) \<Rightarrow> 'a \<Rightarrow> int \<Rightarrow> int \<Rightarrow> 'a list \<Rightarrow> int \<Rightarrow> int \<Rightarrow> 'a list \<times> int \<times> int" where
  "part_loop f mid first final data i0 j0 =
     (let i = scan_up f data mid final i0; j = scan_down f data mid first j0 in
      if i < j then
        let data = swap data i j in
        if i + 1 \<le> j - 1 then part_loop f mid first final data (i + 1) (j - 1) else (data, i + 1, j - 1)
      else if i = j then (data, i + 1, j - 1)
      else (data, i, j))"
  by pat_completeness auto
termination
  apply (relation "measure (\<lambda>(f, mid, first, final, data, i, j). nat (j - i))")
   apply simp
  subgoal for f mid first final data i0 j0
    using scan_up_ge[of i0 f data mid final] scan_down_le[of f data mid first j0] by simp
  done

declare part_loop.simps [simp del]

lemma scan_up_le: "i \<le> final \<Longrightarrow> scan_up f data mid final i \<le> final"
proof (induction f data mid final i rule: scan_up.induct)
  case (1 f data mid final i)
  then show ?case by (subst scan_up.simps) auto
qed

lemma scan_down_ge: "first \<le> j \<Longrightarrow> first \<le> scan_down f data mid first j"
proof (induction f data mid first j rule: scan_down.induct)
  case (1 f data mid first j)
  then show ?case by (subst scan_down.simps) auto
qed

text \<open>Both parts are shorter than the whole, for any comparison function.\<close>

lemma part_loop_bounds:
  assumes "part_loop f mid first final data i0 j0 = (data', i, j)" "first \<le> i0" "i0 \<le> final" "first \<le> j0" "j0 \<le> final"
  shows "first < i \<and> i \<le> final + 1 \<and> first - 1 \<le> j \<and> j < final \<and> j < i"
  using assms
proof (induction f mid first final data i0 j0 rule: part_loop.induct)
  case (1 f mid first final data i0 j0)
  define i1 j1 where ij: "i1 = scan_up f data mid final i0" "j1 = scan_down f data mid first j0"
  have b: "i0 \<le> i1" "i1 \<le> final" "first \<le> j1" "j1 \<le> j0"
    using "1.prems" by (auto simp: ij intro: scan_up_ge scan_up_le scan_down_le scan_down_ge)
  show ?case
  proof (cases "i1 < j1 \<and> i1 + 1 \<le> j1 - 1")
    case True
    then have "part_loop f mid first final (swap data i1 j1) (i1 + 1) (j1 - 1) = (data', i, j)"
      using "1.prems"(1) by (subst (asm) part_loop.simps) (simp add: ij Let_def)
    then show ?thesis using "1.IH"[OF ij(1) ij(2) _ refl] True "1.prems" b by simp
  next
    case False
    then have "(i1 < j1 \<or> i1 = j1) \<and> i = i1 + 1 \<and> j = j1 - 1 \<and> j < i \<or> i1 > j1 \<and> i = i1 \<and> j = j1"
      using "1.prems"(1) by (subst (asm) part_loop.simps) (auto simp: ij Let_def split: if_splits)
    then show ?thesis using "1.prems" b by linarith
  qed
qed

lemma part_loop_inverted: "final < first \<Longrightarrow> part_loop f mid first final data first final = (data, first, final)"
  by (subst part_loop.simps) (simp add: scan_up.simps[of f data mid final first] scan_down.simps[of f data mid first final])

lemma part_loop_shorter:
  assumes "(data', i, j) = part_loop f mid first final data first final"
  shows "first < j \<Longrightarrow> j < final" "i < final \<Longrightarrow> first < i"
  using assms part_loop_bounds[of f mid first final data first final data' i j]
    part_loop_inverted[of final first f mid data] by (cases "final < first"; auto)+

function array_qsort :: "('a \<Rightarrow> 'a \<Rightarrow> int) \<Rightarrow> 'a list \<Rightarrow> int \<Rightarrow> int \<Rightarrow> 'a list" where
  "array_qsort f data first final =
     (case part_loop f (data ! nat ((first + final) div 2)) first final data first final of
        (data, i, j) \<Rightarrow>
          let data = (if j > first then array_qsort f data first j else data)
          in if i < final then array_qsort f data i final else data)"
  by pat_completeness auto
termination
  apply (relation "measure (\<lambda>(f, data, first, final). nat (final - first))")
    apply simp
  subgoal premises prems using prems by (auto dest: part_loop_shorter(1))
  subgoal premises prems using prems by (auto dest: part_loop_shorter(2))
  done

declare array_qsort.simps [simp del]

section \<open>Rearrangements of a range\<close>

text \<open>What exchanging elements inside a range can do to an array.\<close>

inductive rearranged :: "int \<Rightarrow> int \<Rightarrow> 'a list \<Rightarrow> 'a list \<Rightarrow> bool" for a b :: int and xs :: "'a list" where
  same: "rearranged a b xs xs"
| exchange: "rearranged a b xs ys \<Longrightarrow> a \<le> i \<Longrightarrow> i \<le> b \<Longrightarrow> a \<le> j \<Longrightarrow> j \<le> b \<Longrightarrow> rearranged a b xs (swap ys i j)"

lemma length_swap [simp]: "length (swap xs i j) = length xs"
  by (simp add: swap_def)

lemma swap_nth:
  "0 \<le> i \<Longrightarrow> 0 \<le> j \<Longrightarrow> 0 \<le> k \<Longrightarrow> nat i < length xs \<Longrightarrow> nat j < length xs \<Longrightarrow>
     swap xs i j ! nat k = (if k = j then xs ! nat i else if k = i then xs ! nat j else xs ! nat k)"
  by (auto simp: swap_def nth_list_update nat_eq_iff)

lemma rearranged_length: "rearranged a b xs ys \<Longrightarrow> length ys = length xs"
  by (induction rule: rearranged.induct) simp_all

lemma rearranged_trans: "rearranged a b ys zs \<Longrightarrow> rearranged a b xs ys \<Longrightarrow> rearranged a b xs zs"
  by (induction rule: rearranged.induct) (auto intro: rearranged.exchange)

lemma rearranged_mono: "rearranged a b xs ys \<Longrightarrow> a' \<le> a \<Longrightarrow> b \<le> b' \<Longrightarrow> rearranged a' b' xs ys"
  by (induction rule: rearranged.induct) (auto intro: rearranged.intros)

lemma rearranged_mset:
  "rearranged a b xs ys \<Longrightarrow> 0 \<le> a \<Longrightarrow> nat b < length xs \<Longrightarrow> mset ys = mset xs"
proof (induction rule: rearranged.induct)
  case (exchange ys i j)
  moreover have "nat i < length ys" "nat j < length ys" using exchange rearranged_length[OF exchange.hyps(1)] by auto
  ultimately show ?case by (simp add: swap_def mset_swap)
qed simp

lemma rearranged_outside:
  "rearranged a b xs ys \<Longrightarrow> 0 \<le> a \<Longrightarrow> nat b < length xs \<Longrightarrow> 0 \<le> k \<Longrightarrow> k < a \<or> b < k \<Longrightarrow> ys ! nat k = xs ! nat k"
proof (induction rule: rearranged.induct)
  case (exchange ys i j)
  then show ?case using rearranged_length[OF exchange.hyps(1)] by (subst swap_nth) auto
qed simp

lemma rearranged_all:
  "rearranged a b xs ys \<Longrightarrow> 0 \<le> a \<Longrightarrow> nat b < length xs \<Longrightarrow> (\<And>k. a \<le> k \<Longrightarrow> k \<le> b \<Longrightarrow> P (xs ! nat k)) \<Longrightarrow>
     a \<le> k \<Longrightarrow> k \<le> b \<Longrightarrow> P (ys ! nat k)"
proof (induction arbitrary: k rule: rearranged.induct)
  case (exchange ys i j)
  then show ?case using rearranged_length[OF exchange.hyps(1)] by (subst swap_nth) auto
qed simp

section \<open>The order of keys\<close>

text \<open>
  What the containers need of a comparison function: a total preorder. Unlike in \<open>comparator\<close>, different
  entries may have equal keys.
\<close>

locale key_order =
  fixes cmp :: "'a \<Rightarrow> 'a \<Rightarrow> int"
  assumes flip: "cmp a b < 0 \<longleftrightarrow> 0 < cmp b a"
    and le_trans: "cmp a b \<le> 0 \<Longrightarrow> cmp b c \<le> 0 \<Longrightarrow> cmp a c \<le> 0"
begin

lemma le_refl: "cmp a a \<le> 0"
  using flip[of a a] by linarith

lemma not_less: "\<not> cmp a b < 0 \<longleftrightarrow> cmp b a \<le> 0"
  using flip[of a b] by linarith

lemma less_le: "cmp a b < 0 \<Longrightarrow> cmp a b \<le> 0"
  by simp

lemma zero_flip: "cmp a b = 0 \<longleftrightarrow> cmp b a = 0"
  using flip[of a b] flip[of b a] by linarith

lemma less_le_trans: "cmp a b < 0 \<Longrightarrow> cmp b c \<le> 0 \<Longrightarrow> cmp a c < 0"
  using le_trans[of b c a] flip[of a c] flip[of a b] by linarith

lemma le_less_trans: "cmp a b \<le> 0 \<Longrightarrow> cmp b c < 0 \<Longrightarrow> cmp a c < 0"
  using le_trans[of c a b] flip[of a c] flip[of b c] by linarith

definition sorted_range :: "int \<Rightarrow> int \<Rightarrow> 'a list \<Rightarrow> bool" where
  "sorted_range a b xs \<longleftrightarrow> (\<forall>k l. a \<le> k \<longrightarrow> k \<le> l \<longrightarrow> l \<le> b \<longrightarrow> cmp (xs ! nat k) (xs ! nat l) \<le> 0)"

lemma scan_up_below: "i \<le> k \<Longrightarrow> k < scan_up cmp data mid final i \<Longrightarrow> cmp (data ! nat k) mid < 0"
proof (induction cmp data mid final i rule: scan_up.induct)
  case (1 f data mid final i)
  then show ?case by (subst (asm) scan_up.simps) (cases "k = i"; force split: if_splits)
qed

lemma scan_down_above: "k \<le> j \<Longrightarrow> scan_down cmp data mid first j < k \<Longrightarrow> cmp mid (data ! nat k) < 0"
proof (induction cmp data mid first j rule: scan_down.induct)
  case (1 f data mid first j)
  then show ?case by (subst (asm) scan_down.simps) (cases "k = j"; force split: if_splits)
qed

lemma scan_up_stops:
  "i \<le> k \<Longrightarrow> k \<le> final \<Longrightarrow> \<not> cmp (data ! nat k) mid < 0 \<Longrightarrow> \<not> cmp (data ! nat (scan_up cmp data mid final i)) mid < 0"
proof (induction cmp data mid final i rule: scan_up.induct)
  case (1 f data mid final i)
  then show ?case by (subst scan_up.simps) (cases "k = i"; auto)
qed

lemma scan_down_stops:
  "k \<le> j \<Longrightarrow> first \<le> k \<Longrightarrow> \<not> cmp mid (data ! nat k) < 0 \<Longrightarrow> \<not> cmp mid (data ! nat (scan_down cmp data mid first j)) < 0"
proof (induction cmp data mid first j rule: scan_down.induct)
  case (1 f data mid first j)
  then show ?case by (subst scan_down.simps) (cases "k = j"; auto)
qed

text \<open>The state of the partition: at most \<open>mid\<close> on the left of \<open>i\<close>, at least \<open>mid\<close> on the right of \<open>j\<close>.\<close>

definition parted :: "'a \<Rightarrow> int \<Rightarrow> int \<Rightarrow> int \<Rightarrow> int \<Rightarrow> 'a list \<Rightarrow> bool" where
  "parted mid first final i j xs \<longleftrightarrow>
     (\<forall>k. first \<le> k \<longrightarrow> k < i \<longrightarrow> cmp (xs ! nat k) mid \<le> 0) \<and> (\<forall>k. j < k \<longrightarrow> k \<le> final \<longrightarrow> cmp mid (xs ! nat k) \<le> 0)"

lemma parted_scan:
  assumes "parted mid first final i0 j0 xs"
    and "i1 = scan_up cmp xs mid final i0" "j1 = scan_down cmp xs mid first j0"
  shows "parted mid first final i1 j1 xs"
  using assms scan_up_below[of i0 _ xs mid final] scan_down_above[of _ j0 xs mid first]
  unfolding parted_def by (metis less_le not_le)

lemma parted_swap:
  assumes "parted mid first final i j xs" "first \<le> i" "i < j" "j \<le> final" "0 \<le> first" "nat final < length xs"
    and "cmp (xs ! nat j) mid \<le> 0" "cmp mid (xs ! nat i) \<le> 0"
  shows "parted mid first final (i + 1) (j - 1) (swap xs i j)"
proof -
  have n: "swap xs i j ! nat k = (if k = j then xs ! nat i else if k = i then xs ! nat j else xs ! nat k)"
    if "first \<le> k" "k \<le> final" for k using that assms by (intro swap_nth) auto
  show ?thesis using assms unfolding parted_def by (auto simp: n)
qed

lemma parted_widen:
  assumes "parted mid first final i i xs" "cmp (xs ! nat i) mid \<le> 0" "cmp mid (xs ! nat i) \<le> 0"
  shows "parted mid first final (i + 1) (i - 1) xs"
  unfolding parted_def
proof (intro conjI allI impI)
  fix k assume "first \<le> k" "k < i + 1"
  then show "cmp (xs ! nat k) mid \<le> 0" using assms by (cases "k = i") (auto simp: parted_def)
next
  fix k assume "i - 1 < k" "k \<le> final"
  then show "cmp mid (xs ! nat k) \<le> 0" using assms by (cases "k = i") (auto simp: parted_def)
qed

lemma part_loop_correct:
  assumes "part_loop cmp mid first final data i0 j0 = (data', i, j)" "parted mid first final i0 j0 data"
    and "0 \<le> first" "nat final < length data" "first \<le> i0" "j0 \<le> final"
    and "i0 \<le> k1" "k1 \<le> final" "\<not> cmp (data ! nat k1) mid < 0"
    and "k2 \<le> j0" "first \<le> k2" "\<not> cmp mid (data ! nat k2) < 0"
  shows "rearranged first final data data' \<and> parted mid first final i j data'"
  using assms
proof (induction "nat (j0 - i0)" arbitrary: data i0 j0 k1 k2 rule: less_induct)
  case less
  define i1 j1 where ij: "i1 = scan_up cmp data mid final i0" "j1 = scan_down cmp data mid first j0"
  have b: "i0 \<le> i1" "i1 \<le> final" "first \<le> j1" "j1 \<le> j0"
    using less.prems by (auto simp: ij intro: scan_up_ge scan_up_le scan_down_le scan_down_ge)
  have p: "parted mid first final i1 j1 data" using parted_scan[OF less.prems(2) ij] .
  have s: "cmp mid (data ! nat i1) \<le> 0" "cmp (data ! nat j1) mid \<le> 0"
    using scan_up_stops[OF less.prems(7-9)] scan_down_stops[OF less.prems(10-12)] by (simp_all add: ij not_less)
  note eq = less.prems(1)[unfolded part_loop.simps[of cmp mid first final data], folded ij]
  consider "i1 < j1" | "i1 = j1" | "j1 < i1" by linarith
  then show ?case
  proof cases
    case 1
    let ?d = "swap data i1 j1"
    have n: "?d ! nat i1 = data ! nat j1" "?d ! nat j1 = data ! nat i1"
      using 1 b less.prems by (auto simp: swap_nth)
    have r: "rearranged first final data ?d"
      using 1 b less.prems by (intro rearranged.intros) auto
    have q: "parted mid first final (i1 + 1) (j1 - 1) ?d"
      using p 1 b s less.prems by (intro parted_swap) auto
    show ?thesis
    proof (cases "i1 + 1 \<le> j1 - 1")
      case True
      then have "part_loop cmp mid first final ?d (i1 + 1) (j1 - 1) = (data', i, j)" using eq 1 by (simp add: Let_def)
      then have "rearranged first final ?d data' \<and> parted mid first final i j data'"
        using q 1 b s less.prems True n by (intro less.hyps[where ?i0.0 = "i1 + 1" and ?j0.0 = "j1 - 1" and data = ?d and ?k1.0 = j1 and ?k2.0 = i1]) (auto simp: not_less)
      then show ?thesis using r by (auto intro: rearranged_trans)
    qed (use eq 1 q r in \<open>auto simp: Let_def\<close>)
  next
    case 2
    then have "data' = data" "i = i1 + 1" "j = j1 - 1" using eq by (auto simp: Let_def)
    moreover have "parted mid first final (i1 + 1) (j1 - 1) data"
      using parted_widen[of mid first final i1 data] p s 2 by simp
    ultimately show ?thesis by (simp add: rearranged.same)
  next
    case 3
    then show ?thesis using eq p by (auto simp: Let_def intro: rearranged.same)
  qed
qed

lemma parted_rearranged:
  assumes "parted mid first final i j xs" "rearranged a b xs ys" "first \<le> a \<and> b < i \<and> b \<le> j \<or> j < a \<and> i \<le> a \<and> b \<le> final"
    and "0 \<le> first" "0 \<le> a" "nat b < length xs" "- 1 \<le> j"
  shows "parted mid first final i j ys"
proof -
  have o: "0 \<le> k \<Longrightarrow> k < a \<or> b < k \<Longrightarrow> ys ! nat k = xs ! nat k" for k
    using assms(2,5,6) by (rule rearranged_outside)
  have l: "cmp (ys ! nat k) mid \<le> 0" if "first \<le> a" "b < i" "a \<le> k" "k \<le> b" for k
    using rearranged_all[OF assms(2,5,6), where P = "\<lambda>x. cmp x mid \<le> 0"] that assms(1) by (force simp: parted_def)
  have r: "cmp mid (ys ! nat k) \<le> 0" if "j < a" "b \<le> final" "a \<le> k" "k \<le> b" for k
    using rearranged_all[OF assms(2,5,6), where P = "\<lambda>x. cmp mid x \<le> 0"] that assms(1) by (force simp: parted_def)
  show ?thesis unfolding parted_def
  proof (intro conjI allI impI)
    fix k assume k: "first \<le> k" "k < i"
    show "cmp (ys ! nat k) mid \<le> 0"
      using k o[of k] l[of k] assms(1,3,4) by (cases "a \<le> k \<and> k \<le> b") (auto simp: parted_def)
  next
    fix k assume k: "j < k" "k \<le> final"
    show "cmp mid (ys ! nat k) \<le> 0"
      using k o[of k] r[of k] assms by (cases "a \<le> k \<and> k \<le> b") (auto simp: parted_def)
  qed
qed

lemma sorted_range_outside:
  assumes "sorted_range a b xs" "rearranged c d xs ys" "0 \<le> a" "0 \<le> c" "nat d < length xs" "b < c \<or> d < a"
  shows "sorted_range a b ys"
  using assms(1,3,6) rearranged_outside[OF assms(2,4,5)] unfolding sorted_range_def by auto

lemma sorted_range_join:
  assumes "sorted_range first j xs" "sorted_range i final xs" "parted mid first final i j xs"
  shows "sorted_range first final xs"
  unfolding sorted_range_def
proof (intro allI impI)
  fix k l assume kl: "first \<le> k" "k \<le> l" "l \<le> final"
  consider "l \<le> j" | "i \<le> k" | "k < i" "j < l" by linarith
  then show "cmp (xs ! nat k) (xs ! nat l) \<le> 0"
  proof cases
    case 3
    then show ?thesis using assms(3) kl le_trans[of _ mid] by (simp add: parted_def)
  qed (use assms kl in \<open>auto simp: sorted_range_def\<close>)
qed

lemma sorted_range_short: "b \<le> a \<Longrightarrow> sorted_range a b xs"
  unfolding sorted_range_def by (metis le_refl order_antisym order_trans)

theorem array_qsort_correct:
  assumes "0 \<le> first" "first \<le> final" "nat final < length data"
  shows "rearranged first final data (array_qsort cmp data first final) \<and>
    sorted_range first final (array_qsort cmp data first final)"
  using assms
proof (induction "nat (final - first)" arbitrary: data first final rule: less_induct)
  case less
  define m where "m = (first + final) div 2"
  obtain d1 i j where p: "part_loop cmp (data ! nat m) first final data first final = (d1, i, j)" by (metis prod_cases3)
  have m: "first \<le> m" "m \<le> final" using less.prems by (auto simp: m_def)
  have b: "first < i \<and> i \<le> final + 1 \<and> first - 1 \<le> j \<and> j < final \<and> j < i"
    using part_loop_bounds[OF p] less.prems by simp
  have c: "rearranged first final data d1 \<and> parted (data ! nat m) first final i j d1"
    using less.prems m le_refl by (intro part_loop_correct[OF p, where ?k1.0 = m and ?k2.0 = m]) (auto simp: parted_def not_less)
  note l1 = rearranged_length[OF conjunct1[OF c]]
  have nj: "nat j < length d1" using b less.prems l1 by (cases "0 \<le> j") (auto simp: nat_less_iff)
  define d2 where "d2 = (if j > first then array_qsort cmp d1 first j else d1)"
  have d2: "rearranged first j d1 d2 \<and> sorted_range first j d2"
  proof (cases "first < j")
    case True
    then show ?thesis using less.hyps[of j first d1] less.prems b l1 nj by (simp add: d2_def)
  qed (simp add: d2_def rearranged.same sorted_range_short)
  note l2 = rearranged_length[OF conjunct1[OF d2]]
  define d3 where "d3 = (if i < final then array_qsort cmp d2 i final else d2)"
  have d3: "rearranged i final d2 d3 \<and> sorted_range i final d3"
  proof (cases "i < final")
    case True
    then show ?thesis using less.hyps[of final i d2] less.prems b l1 l2 by (simp add: d3_def)
  qed (simp add: d3_def rearranged.same sorted_range_short)
  have e: "array_qsort cmp data first final = d3"
    using p by (subst array_qsort.simps) (simp add: d3_def d2_def m_def Let_def)
  have "parted (data ! nat m) first final i j d2"
    by (rule parted_rearranged[OF conjunct2[OF c] conjunct1[OF d2]]) (use b less.prems(1) nj in simp_all)
  then have "parted (data ! nat m) first final i j d3"
    by (rule parted_rearranged[OF _ conjunct1[OF d3]]) (use b less.prems(1,3) l1 l2 in simp_all)
  moreover have "sorted_range first j d3"
    by (rule sorted_range_outside[OF conjunct2[OF d2] conjunct1[OF d3]]) (use b less.prems(1,3) l1 l2 in simp_all)
  ultimately have "sorted_range first final d3" using sorted_range_join[OF _ conjunct2[OF d3]] by blast
  moreover have "rearranged first final d1 d2" "rearranged first final d2 d3"
    using d2 d3 b rearranged_mono[of first j d1 d2 first final] rearranged_mono[of i final d2 d3 first final] by auto
  then have "rearranged first final data d3" using c rearranged_trans by blast
  ultimately show ?case by (simp add: e)
qed

lemma array_qsort_sorts:
  assumes "data \<noteq> []"
  defines "d \<equiv> array_qsort cmp data 0 (int (length data) - 1)"
  shows "mset d = mset data" "sorted_wrt (\<lambda>a b. cmp a b \<le> 0) d"
proof -
  have n: "nat (int (length data) - 1) < length data" "0 < length data" using assms(1) by (auto simp: nat_less_iff)
  have c: "rearranged 0 (int (length data) - 1) data d \<and> sorted_range 0 (int (length data) - 1) d"
    unfolding d_def using n by (intro array_qsort_correct) auto
  then show "mset d = mset data" using rearranged_mset[OF conjunct1[OF c]] n(1) by simp
  show "sorted_wrt (\<lambda>a b. cmp a b \<le> 0) d" unfolding sorted_wrt_iff_nth_less
  proof (intro allI impI)
    fix k l assume "k < l" "l < length d"
    then show "cmp (d ! k) (d ! l) \<le> 0"
      using c rearranged_length[OF conjunct1[OF c]] unfolding sorted_range_def
      by (elim conjE allE[of _ "int k"] allE[of _ "int l"]) simp
  qed
qed

end

sublocale comparator \<subseteq> key_order cmp
proof
  show "cmp a b < 0 \<longleftrightarrow> 0 < cmp b a" for a b by (rule cmp_flip)
  show "cmp a c \<le> 0" if "cmp a b \<le> 0" "cmp b c \<le> 0" for a b c
    using that cmp_trans[of a b c] cmp_zero by (metis order_le_less)
qed

end
