(* ===== verification/Binary_Array.thy ===== *)
theory Binary_Array
  imports Array_Sort
begin

unbundle bit_operations_syntax

text \<open>
  The sorted containers of the library: \<^verbatim>\<open>snmplib/container_binary_array.c\<close> and the calls on a chain of containers of
  \<^verbatim>\<open>snmplib/container.c\<close>. A container is a table that is sorted only when
  somebody looks something up. The model's \<open>data\<close> are the first \<^verbatim>\<open>count\<close> slots of the table, the others are never
  read; a pointer to an entry is the entry. Tables have fewer than \<open>2 ^ 30\<close> entries, so the sizes do
  not wrap around.
\<close>

section \<open>The table\<close>

definition CONTAINER_KEY_ALLOW_DUPLICATES :: u32 where "CONTAINER_KEY_ALLOW_DUPLICATES = 1"
definition CONTAINER_KEY_UNSORTED :: u32 where "CONTAINER_KEY_UNSORTED = 2"

record 'a container =
  compare :: "'a \<Rightarrow> 'a \<Rightarrow> int"
  ncompare :: "'a \<Rightarrow> 'a \<Rightarrow> int"
  insert_filter :: "('a \<Rightarrow> bool) option"
  sync :: u32
  max_size :: nat
  tflags :: u32
  dirty :: bool
  data :: "'a list"

text \<open>The result says whether the table is sorted.\<close>

definition Sort_Array :: "'a container \<Rightarrow> int \<times> 'a container" where
  "Sort_Array c =
     (if tflags c AND CONTAINER_KEY_UNSORTED \<noteq> 0 then (0, c)
      else if dirty c then
        (1, c\<lparr>data := (if length (data c) > 1
                       then array_qsort (compare c) (data c) 0 (int (length (data c)) - 1) else data c),
              dirty := False, sync := sync c + 1\<rparr>)
      else (1, c))"

definition sort_dirty :: "'a container \<Rightarrow> 'a container" where
  "sort_dirty c = (if dirty c then snd (Sort_Array c) else c)"

text \<open>The loop of \<^verbatim>\<open>binary_search\<close>: \<^verbatim>\<open>first\<close>, \<^verbatim>\<open>middle\<close> and \<^verbatim>\<open>result\<close> after it.\<close>

function search_loop ::
  "('a \<Rightarrow> 'a \<Rightarrow> int) \<Rightarrow> 'a \<Rightarrow> 'a list \<Rightarrow> nat \<Rightarrow> nat \<Rightarrow> nat \<Rightarrow> int \<Rightarrow> nat \<times> nat \<times> int" where
  "search_loop cmp val xs len first middle result =
     (if len > 0 then
        let half = len div 2; middle = first + half; result = cmp (xs ! middle) val in
        if result < 0 then search_loop cmp val xs (len - half - 1) (middle + 1) middle result
        else if result = 0 then (middle, middle, result)
        else search_loop cmp val xs half first middle result
      else (first, middle, result))"
  by pat_completeness auto
termination
  by (relation "measure (\<lambda>(cmp, val, xs, len, _). len)") auto

declare search_loop.simps [simp del]

definition binary_search :: "'a \<Rightarrow> 'a container \<Rightarrow> bool \<Rightarrow> int \<times> 'a container" where
  "binary_search val c exact =
     (if data c = [] then (- 1, c)
      else let c = sort_dirty c in
        (case search_loop (compare c) val (data c) (length (data c)) 0 0 0 of
           (first, middle, result) \<Rightarrow>
             if first \<ge> length (data c) then (- 1, c)
             else let result = (if first \<noteq> middle then compare c (data c ! first) val else result) in
               if result = 0 then
                 if \<not> exact then (if first + 1 = length (data c) then - 1 else int first + 1, c) else (int first, c)
               else if exact then (- 1, c) else (int first, c)))"

text \<open>\<open>None\<close> is a NULL pointer, as a result and as a key.\<close>

definition netsnmp_binary_array_get :: "'a container \<Rightarrow> 'a option \<Rightarrow> bool \<Rightarrow> 'a option \<times> 'a container" where
  "netsnmp_binary_array_get c key exact =
     (if data c = [] then (None, c)
      else let c = sort_dirty c in
        case key of
          None \<Rightarrow> (Some (data c ! 0), c)
        | Some k \<Rightarrow> (case binary_search k c exact of
            (index, c) \<Rightarrow> if index = - 1 then (None, c) else (Some (data c ! nat index), c)))"

text \<open>The return code and \<^verbatim>\<open>*save\<close>.\<close>

definition netsnmp_binary_array_remove :: "'a container \<Rightarrow> 'a \<Rightarrow> int \<times> 'a option \<times> 'a container" where
  "netsnmp_binary_array_remove c key =
     (if data c = [] then (0, None, c)
      else let c = sort_dirty c in
        (case binary_search key c True of
           (index, c) \<Rightarrow>
             if index = - 1 then (- 1, None, c)
             else (0, Some (data c ! nat index),
                   c\<lparr>data := take (nat index) (data c) @ drop (nat index + 1) (data c)\<rparr>)))"

definition netsnmp_binary_array_insert :: "(nat \<Rightarrow> bool) \<Rightarrow> 'a container \<Rightarrow> 'a \<Rightarrow> int \<times> 'a container" where
  "netsnmp_binary_array_insert alloc c entry =
     (case (if tflags c AND CONTAINER_KEY_ALLOW_DUPLICATES = 0 then netsnmp_binary_array_get c (Some entry) True
            else (None, c)) of
        (Some _, c) \<Rightarrow> (- 1, c)
      | (None, c) \<Rightarrow>
          let new_max = (if 2 * max_size c = 0 then 10 else 2 * max_size c);
              full = (max_size c \<le> length (data c))
          in if full \<and> \<not> alloc (4 * new_max) then (- 1, c)
             else (0, c\<lparr>max_size := (if full then new_max else max_size c), data := data c @ [entry], dirty := True\<rparr>))"

definition netsnmp_binary_array_count :: "'a container \<Rightarrow> nat" where
  "netsnmp_binary_array_count c = length (data c)"

text \<open>The entries a callback is called with, in order.\<close>

definition netsnmp_binary_array_for_each :: "'a container \<Rightarrow> bool \<Rightarrow> 'a list \<times> 'a container" where
  "netsnmp_binary_array_for_each c srt = (let c = (if srt then sort_dirty c else c) in (data c, c))"

definition netsnmp_binary_array_clear :: "'a container \<Rightarrow> 'a list \<times> 'a container" where
  "netsnmp_binary_array_clear c = (data c, c\<lparr>data := [], dirty := False, sync := sync c + 1\<rparr>)"

definition netsnmp_binary_array_options_set :: "'a container \<Rightarrow> bool \<Rightarrow> u32 \<Rightarrow> u32 \<times> 'a container" where
  "netsnmp_binary_array_options_set c setting fl =
     (if setting then (fl, c\<lparr>tflags := fl\<rparr>) else (if tflags c AND fl = fl then 1 else 0, c))"

section \<open>Subsets\<close>

function start_loop :: "('a \<Rightarrow> 'a \<Rightarrow> int) \<Rightarrow> 'a \<Rightarrow> 'a list \<Rightarrow> nat \<Rightarrow> nat \<Rightarrow> nat" where
  "start_loop cmp val xs len first =
     (if len > 0 then
        let half = len div 2; middle = first + half in
        if cmp (xs ! middle) val < 0 then start_loop cmp val xs (len - half - 1) (middle + 1)
        else start_loop cmp val xs half first
      else first)"
  by pat_completeness auto
termination
  by (relation "measure (\<lambda>(cmp, val, xs, len, _). len)") auto

declare start_loop.simps [simp del]

definition binary_search_for_start :: "'a \<Rightarrow> 'a container \<Rightarrow> int \<times> 'a container" where
  "binary_search_for_start val c =
     (if data c = [] then (- 1, c)
      else let c = sort_dirty c; first = start_loop (ncompare c) val (data c) (length (data c)) 0 in
        if first \<ge> length (data c) \<or> ncompare c (data c ! first) val \<noteq> 0 then (- 1, c) else (int first, c))"

text \<open>The loop that looks for the end of the subset: how many entries behind \<^verbatim>\<open>start\<close> match.\<close>

fun match_run :: "('a \<Rightarrow> 'a \<Rightarrow> int) \<Rightarrow> 'a \<Rightarrow> 'a list \<Rightarrow> nat" where
  "match_run cmp key [] = 0"
| "match_run cmp key (x # xs) = (if cmp x key \<noteq> 0 then 0 else Suc (match_run cmp key xs))"

definition netsnmp_binary_array_get_subset ::
  "(nat \<Rightarrow> bool) \<Rightarrow> 'a container \<Rightarrow> 'a option \<Rightarrow> 'a list option \<times> 'a container" where
  "netsnmp_binary_array_get_subset alloc c key =
     (case key of
        None \<Rightarrow> (None, c)
      | Some k \<Rightarrow>
          if data c = [] then (None, c)
          else (case binary_search_for_start k (sort_dirty c) of
            (start, c) \<Rightarrow>
              if start = - 1 then (None, c)
              else let len = match_run (ncompare c) k (drop (nat start + 1) (data c)) + 1 in
                if alloc (4 * len) then (Some (take len (drop (nat start) (data c))), c) else (None, c)))"

section \<open>Iterators\<close>

record 'a iterator =
  isync :: u32
  pos :: nat

definition ba_iterator_reset :: "'a container \<Rightarrow> 'a iterator \<Rightarrow> 'a iterator \<times> 'a container" where
  "ba_iterator_reset c it = (let c = sort_dirty c in (it\<lparr>isync := sync c, pos := 0\<rparr>, c))"

definition ba_iterator_position :: "'a container \<Rightarrow> 'a iterator \<Rightarrow> nat \<Rightarrow> 'a option" where
  "ba_iterator_position c it p =
     (if sync c \<noteq> isync it then None else if p \<ge> length (data c) then None else Some (data c ! p))"

definition ba_iterator_first :: "'a container \<Rightarrow> 'a iterator \<Rightarrow> 'a option" where
  "ba_iterator_first c it = ba_iterator_position c it 0"

definition ba_iterator_curr :: "'a container \<Rightarrow> 'a iterator \<Rightarrow> 'a option" where
  "ba_iterator_curr c it = ba_iterator_position c it (pos it)"

definition ba_iterator_next :: "'a container \<Rightarrow> 'a iterator \<Rightarrow> 'a option \<times> 'a iterator" where
  "ba_iterator_next c it = (let it = it\<lparr>pos := pos it + 1\<rparr> in (ba_iterator_position c it (pos it), it))"

text \<open>With an empty table the position wraps around to a number behind every entry.\<close>

definition ba_iterator_last :: "'a container \<Rightarrow> 'a iterator \<Rightarrow> 'a option" where
  "ba_iterator_last c it =
     ba_iterator_position c it (if data c = [] then 2 ^ 32 - 1 else length (data c) - 1)"

section \<open>Chains of containers\<close>

text \<open>
  A container may have further indices of the same entries behind it. \<^verbatim>\<open>CONTAINER_INSERT\<close> skips those whose filter
  refuses the entry and takes the entry out again when a later one fails; \<^verbatim>\<open>CONTAINER_REMOVE\<close>
  starts at the last one.
\<close>

definition filtered :: "'a container \<Rightarrow> 'a \<Rightarrow> bool" where
  "filtered x k = (case insert_filter x of None \<Rightarrow> False | Some f \<Rightarrow> f k)"

fun CONTAINER_INSERT :: "(nat \<Rightarrow> bool) \<Rightarrow> 'a container list \<Rightarrow> 'a \<Rightarrow> int \<times> 'a container list" where
  "CONTAINER_INSERT alloc [] k = (0, [])"
| "CONTAINER_INSERT alloc (x # xs) k =
     (if filtered x k then (case CONTAINER_INSERT alloc xs k of (rc, xs) \<Rightarrow> (rc, x # xs))
      else (case netsnmp_binary_array_insert alloc x k of
        (rc, x) \<Rightarrow>
          if rc \<noteq> 0 then (rc, x # xs)
          else (case CONTAINER_INSERT alloc xs k of
            (rc, xs) \<Rightarrow> if rc \<noteq> 0 then (rc, snd (snd (netsnmp_binary_array_remove x k)) # xs) else (rc, x # xs))))"

fun CONTAINER_REMOVE :: "'a container list \<Rightarrow> 'a \<Rightarrow> int \<times> 'a container list" where
  "CONTAINER_REMOVE [] k = (0, [])"
| "CONTAINER_REMOVE (x # xs) k =
     (case CONTAINER_REMOVE xs k of
        (rc, xs) \<Rightarrow> (case netsnmp_binary_array_remove x k of
          (rc2, _, x) \<Rightarrow> (if rc2 \<noteq> 0 \<and> insert_filter x = None then rc2 else rc, x # xs)))"

section \<open>The invariant\<close>

definition unique_keys :: "('a \<Rightarrow> 'a \<Rightarrow> int) \<Rightarrow> 'a list \<Rightarrow> bool" where
  "unique_keys cmp xs \<longleftrightarrow> distinct xs \<and> (\<forall>a\<in>set xs. \<forall>b\<in>set xs. cmp a b = 0 \<longrightarrow> a = b)"

text \<open>A sorted container without duplicates, which is what \<^verbatim>\<open>netsnmp_container_get_binary_array\<close> makes.\<close>

definition ba_inv :: "'a container \<Rightarrow> bool" where
  "ba_inv c \<longleftrightarrow> key_order (compare c) \<and> tflags c = 0 \<and> unique_keys (compare c) (data c) \<and>
     length (data c) \<le> max_size c \<and> (\<not> dirty c \<longrightarrow> sorted_wrt (\<lambda>a b. compare c a b < 0) (data c))"

text \<open>What lookups leave alone: only the order of the entries may change.\<close>

definition same_entries :: "'a container \<Rightarrow> 'a container \<Rightarrow> bool" where
  "same_entries c c' \<longleftrightarrow> mset (data c') = mset (data c) \<and> compare c' = compare c \<and> ncompare c' = ncompare c \<and>
     insert_filter c' = insert_filter c \<and> max_size c' = max_size c \<and> tflags c' = tflags c"

lemma same_entries_refl [simp]: "same_entries c c"
  by (simp add: same_entries_def)

lemma same_entries_set: "same_entries c c' \<Longrightarrow> set (data c') = set (data c)"
  by (auto simp: same_entries_def dest: mset_eq_setD)

lemma sorted_strict:
  assumes "key_order cmp" "sorted_wrt (\<lambda>a b. cmp a b \<le> 0) xs" "unique_keys cmp xs"
  shows "sorted_wrt (\<lambda>a b. cmp a b < 0) xs"
  using assms(2,3)
proof (induction xs)
  case (Cons x xs)
  then show ?case by (auto simp: unique_keys_def order_le_less)
qed simp

lemma sort_dirty_data:
  assumes "key_order (compare c)" "tflags c = 0" "dirty c"
  shows "mset (data (sort_dirty c)) = mset (data c)"
    "sorted_wrt (\<lambda>a b. compare c a b \<le> 0) (data (sort_dirty c))"
proof -
  show "mset (data (sort_dirty c)) = mset (data c)"
    using assms key_order.array_qsort_sorts(1)[OF assms(1), of "data c"]
    by (cases "data c = []") (auto simp: sort_dirty_def Sort_Array_def)
  show "sorted_wrt (\<lambda>a b. compare c a b \<le> 0) (data (sort_dirty c))"
  proof (cases "length (data c) > 1")
    case True
    then show ?thesis
      using assms key_order.array_qsort_sorts(2)[OF assms(1), of "data c"]
      by (cases "data c = []") (auto simp: sort_dirty_def Sort_Array_def)
  next
    case False
    then have "length (data c) \<le> 1" by simp
    then show ?thesis using assms by (cases "data c") (auto simp: sort_dirty_def Sort_Array_def)
  qed
qed

lemma sort_dirty_inv:
  assumes "ba_inv c"
  shows "ba_inv (sort_dirty c)" "same_entries c (sort_dirty c)" "\<not> dirty (sort_dirty c)"
proof -
  have k: "key_order (compare c)" "tflags c = 0" using assms by (simp_all add: ba_inv_def)
  have f: "compare (sort_dirty c) = compare c" "tflags (sort_dirty c) = 0" "max_size (sort_dirty c) = max_size c"
      "ncompare (sort_dirty c) = ncompare c" "insert_filter (sort_dirty c) = insert_filter c"
    using k(2) by (simp_all add: sort_dirty_def Sort_Array_def)
  show d: "\<not> dirty (sort_dirty c)" using k(2) by (simp add: sort_dirty_def Sort_Array_def)
  show e: "same_entries c (sort_dirty c)"
  proof (cases "dirty c")
    case True
    then show ?thesis using f sort_dirty_data(1)[OF k True] by (simp add: same_entries_def k(2))
  qed (simp add: sort_dirty_def)
  have m: "mset (data (sort_dirty c)) = mset (data c)" using e by (simp add: same_entries_def)
  have u: "unique_keys (compare c) (data (sort_dirty c))"
    using assms mset_eq_setD[OF m] mset_eq_imp_distinct_iff[OF m] by (simp add: ba_inv_def unique_keys_def)
  have "sorted_wrt (\<lambda>a b. compare c a b < 0) (data (sort_dirty c))"
  proof (cases "dirty c")
    case True
    then show ?thesis using sorted_strict[OF k(1) sort_dirty_data(2)[OF k True] u] by simp
  next
    case False
    then show ?thesis using assms by (simp add: ba_inv_def sort_dirty_def)
  qed
  then show "ba_inv (sort_dirty c)"
    using assms f u mset_eq_length[OF m] by (simp add: ba_inv_def)
qed

section \<open>Searching\<close>

context key_order
begin

text \<open>How the loop can end: on an equal key, or between the smaller and the greater keys.\<close>

definition searched :: "'a \<Rightarrow> 'a list \<Rightarrow> nat \<times> nat \<times> int \<Rightarrow> bool" where
  "searched val xs r = (case r of (f, m, res) \<Rightarrow>
     res = 0 \<and> f = m \<and> f < length xs \<and> cmp (xs ! f) val = 0 \<or>
     f \<le> length xs \<and> (\<forall>k<f. cmp (xs ! k) val < 0) \<and> (\<forall>k<length xs. f \<le> k \<longrightarrow> 0 < cmp (xs ! k) val) \<and>
       (f = m \<longrightarrow> res = cmp (xs ! m) val))"

lemma sorted_nth: "sorted_wrt (\<lambda>a b. cmp a b < 0) xs \<Longrightarrow> k < l \<Longrightarrow> l < length xs \<Longrightarrow> cmp (xs ! k) (xs ! l) < 0"
  by (simp add: sorted_wrt_iff_nth_less)

lemma sorted_nth_le: "sorted_wrt (\<lambda>a b. cmp a b < 0) xs \<Longrightarrow> k \<le> l \<Longrightarrow> l < length xs \<Longrightarrow> cmp (xs ! k) (xs ! l) \<le> 0"
  using sorted_nth[of xs k l] le_refl by (cases "k = l") auto

lemma search_loop_spec:
  assumes "sorted_wrt (\<lambda>a b. cmp a b < 0) xs" "first + len \<le> length xs"
    and "\<forall>k<first. cmp (xs ! k) val < 0" "\<forall>k<length xs. first + len \<le> k \<longrightarrow> 0 < cmp (xs ! k) val"
    and "0 < len \<or> (first = middle \<longrightarrow> result = cmp (xs ! middle) val)"
  shows "searched val xs (search_loop cmp val xs len first middle result)"
  using assms
proof (induction len arbitrary: first middle result rule: less_induct)
  case (less len)
  show ?case
  proof (cases "len = 0")
    case True
    then show ?thesis using less.prems by (subst search_loop.simps) (simp add: searched_def)
  next
    case False
    define mid where "mid = first + len div 2"
    have m: "first \<le> mid" "mid < length xs" "mid < first + len" using False less.prems(2) by (auto simp: mid_def)
    consider "cmp (xs ! mid) val < 0" | "cmp (xs ! mid) val = 0" | "0 < cmp (xs ! mid) val" by linarith
    then show ?thesis
    proof cases
      case 1
      have "\<forall>k<mid + 1. cmp (xs ! k) val < 0"
        using le_less_trans[OF sorted_nth_le[OF less.prems(1) _ m(2)] 1] by auto
      then have "searched val xs (search_loop cmp val xs (len - len div 2 - 1) (mid + 1) mid (cmp (xs ! mid) val))"
        using False less.prems(1,2,4) by (intro less.IH) (auto simp: mid_def)
      then show ?thesis using 1 False by (subst search_loop.simps) (simp add: mid_def Let_def)
    next
      case 2
      then show ?thesis using False m by (subst search_loop.simps) (simp add: mid_def Let_def searched_def)
    next
      case 3
      have "0 < cmp (xs ! k) val" if "k < length xs" "mid \<le> k" for k
        using that 3 less_le_trans[of val "xs ! mid" "xs ! k"] sorted_nth_le[OF less.prems(1) that(2,1)]
        by (simp add: flip)
      then have "searched val xs (search_loop cmp val xs (len div 2) first mid (cmp (xs ! mid) val))"
        using False less.prems(1-3) m by (intro less.IH) (auto simp: mid_def)
      then show ?thesis using 3 False by (subst search_loop.simps) (simp add: mid_def Let_def)
    qed
  qed
qed

end

text \<open>The index that \<^verbatim>\<open>binary_search\<close> returns on a sorted table.\<close>

lemma binary_search_cases:
  assumes "ba_inv c" "binary_search val c exact = (i, c')"
  defines "cmp \<equiv> compare c" and "xs \<equiv> data c'"
  shows "ba_inv c' \<and> same_entries c c' \<and>
    (i = - 1 \<and> (\<forall>x\<in>set xs. if exact then cmp x val \<noteq> 0 else cmp x val \<le> 0) \<or>
     0 \<le> i \<and> nat i < length xs \<and>
       (if exact then cmp (xs ! nat i) val = 0
        else 0 < cmp (xs ! nat i) val \<and> (\<forall>k<nat i. cmp (xs ! k) val \<le> 0)))"
proof (cases "data c = []")
  case True
  then show ?thesis using assms by (simp add: binary_search_def)
next
  case False
  note s = sort_dirty_inv[OF assms(1)]
  have ko: "key_order cmp" and cc: "compare (sort_dirty c) = cmp" using assms(1) s(2) by (auto simp: cmp_def ba_inv_def same_entries_def)
  obtain f m r where l: "search_loop cmp val (data (sort_dirty c)) (length (data (sort_dirty c))) 0 0 0 = (f, m, r)"
    by (metis prod_cases3)
  have c': "c' = sort_dirty c" and i: "i = (if f \<ge> length xs then - 1
      else let r = (if f \<noteq> m then cmp (xs ! f) val else r) in
        if r = 0 then if \<not> exact then if f + 1 = length xs then - 1 else int f + 1 else int f
        else if exact then - 1 else int f)"
    using assms(2) False by (auto simp: binary_search_def Let_def cc l xs_def split: if_splits)
  have ne: "xs \<noteq> []" using False s(2) by (auto simp: xs_def c' same_entries_def)
  have so: "sorted_wrt (\<lambda>a b. cmp a b < 0) xs" using s(1,3) by (simp add: ba_inv_def xs_def c' cc)
  have "key_order.searched cmp val xs (f, m, r)"
    using key_order.search_loop_spec[OF ko so, of 0 "length xs" val 0 0] ne l by (simp add: xs_def c')
  then consider "r = 0" "f = m" "f < length xs" "cmp (xs ! f) val = 0"
    | "f \<le> length xs" "\<forall>k<f. cmp (xs ! k) val < 0" "\<forall>k<length xs. f \<le> k \<longrightarrow> 0 < cmp (xs ! k) val"
      "f = m \<longrightarrow> r = cmp (xs ! m) val"
    unfolding key_order.searched_def[OF ko] by auto
  then show ?thesis
  proof cases
    case 1
    have up: "0 < cmp (xs ! k) val" if "f < k" "k < length xs" for k
      using key_order.sorted_nth[OF ko so that] 1(4) that
        key_order.less_le_trans[OF ko] key_order.flip[OF ko] key_order.zero_flip[OF ko]
      by (metis order_refl key_order.le_less_trans[OF ko])
    have dn: "cmp (xs ! k) val \<le> 0" if "k \<le> f" for k
      using key_order.le_trans[OF ko key_order.sorted_nth_le[OF ko so that 1(3)]] 1(4) by simp
    have "i = (if exact then int f else if f + 1 = length xs then - 1 else int f + 1)" using i 1 by auto
    moreover have "\<forall>x\<in>set xs. cmp x val \<le> 0" if "f + 1 = length xs"
      unfolding all_set_conv_all_nth using that dn by simp
    ultimately show ?thesis using 1 up[of "Suc f"] dn s c' by (auto simp: nat_add_distrib less_Suc_eq_le)
  next
    case 2
    define r' where "r' = (if f \<noteq> m then cmp (xs ! f) val else r)"
    have "f < length xs \<Longrightarrow> 0 < r'" using 2(3,4) by (auto simp: r'_def)
    then have "i = (if exact \<or> f = length xs then - 1 else int f)"
      using i[folded r'_def] 2(1) by (cases "f = length xs") (auto simp: Let_def)
    moreover have "\<forall>x\<in>set xs. cmp x val \<noteq> 0"
      unfolding all_set_conv_all_nth using 2 by (metis less_irrefl not_le)
    moreover have "\<forall>x\<in>set xs. cmp x val \<le> 0" if "f = length xs"
      unfolding all_set_conv_all_nth using that 2(2) by (auto intro: less_imp_le)
    ultimately show ?thesis using 2 s c' by (auto intro: less_imp_le)
  qed
qed

text \<open>Looking up an entry, exactly and the next one.\<close>

lemma get_exact:
  assumes "ba_inv c" "netsnmp_binary_array_get c (Some k) True = (r, c')"
  shows "ba_inv c' \<and> same_entries c c' \<and>
    (case r of None \<Rightarrow> \<forall>x\<in>set (data c). compare c x k \<noteq> 0 | Some x \<Rightarrow> x \<in> set (data c) \<and> compare c x k = 0)"
proof (cases "data c = []")
  case False
  note s = sort_dirty_inv[OF assms(1)]
  obtain i c1 where b: "binary_search k (sort_dirty c) True = (i, c1)" by fastforce
  note r = binary_search_cases[OF s(1) b]
  have c: "compare (sort_dirty c) = compare c" "set (data c1) = set (data c)" "same_entries c c1"
    using s(2) r same_entries_set[of "sort_dirty c" c1] same_entries_set[OF s(2)] by (auto simp: same_entries_def)
  show ?thesis using assms(2) False r c by (auto simp: netsnmp_binary_array_get_def b split: if_splits)
qed (use assms in \<open>auto simp: netsnmp_binary_array_get_def\<close>)

lemma get_next:
  assumes "ba_inv c" "netsnmp_binary_array_get c (Some k) False = (r, c')"
  shows "ba_inv c' \<and> same_entries c c' \<and>
    (case r of None \<Rightarrow> \<forall>x\<in>set (data c). compare c x k \<le> 0
     | Some x \<Rightarrow> x \<in> set (data c) \<and> 0 < compare c x k \<and>
         (\<forall>y\<in>set (data c). 0 < compare c y k \<longrightarrow> compare c x y \<le> 0))"
proof (cases "data c = []")
  case False
  note s = sort_dirty_inv[OF assms(1)]
  obtain i c1 where b: "binary_search k (sort_dirty c) False = (i, c1)" by fastforce
  note r = binary_search_cases[OF s(1) b, simplified]
  have c: "compare (sort_dirty c) = compare c" "compare c1 = compare c" "set (data c1) = set (data c)" "same_entries c c1"
    using s(2) r same_entries_set[of "sort_dirty c" c1] same_entries_set[OF s(2)] by (auto simp: same_entries_def)
  have eq: "r = (if i = - 1 then None else Some (data c1 ! nat i))" "c' = c1"
    using assms(2) False by (auto simp: netsnmp_binary_array_get_def b split: if_splits)
  have "\<not> dirty c1" using b s(3) by (auto simp: binary_search_def Let_def sort_dirty_def split: if_splits prod.splits)
  then have so: "sorted_wrt (\<lambda>a b. compare c a b < 0) (data c1)" using r c by (simp add: ba_inv_def)
  have "compare c (data c1 ! nat i) y \<le> 0"
    if "i \<noteq> - 1" and y: "y \<in> set (data c1)" "0 < compare c y k" for y
  proof -
    obtain l where l: "l < length (data c1)" "y = data c1 ! l" using y(1) by (auto simp: in_set_conv_nth)
    have "\<not> l < nat i" using that(1) r y(2) l c(1) by force
    then show ?thesis
      using key_order.sorted_nth_le[OF _ so, of "nat i" l] l assms(1) by (simp add: ba_inv_def)
  qed
  then show ?thesis using r c eq by (auto split: if_splits)
qed (use assms in \<open>auto simp: netsnmp_binary_array_get_def\<close>)

section \<open>Insertion and removal\<close>

lemma insert_cases:
  assumes "ba_inv c" "netsnmp_binary_array_insert alloc c e = (rc, c')"
  shows "ba_inv c' \<and> compare c' = compare c \<and> insert_filter c' = insert_filter c \<and>
    (if \<exists>x\<in>set (data c). compare c x e = 0 then rc = - 1 \<and> mset (data c') = mset (data c)
     else rc = 0 \<and> mset (data c') = add_mset e (mset (data c)) \<or>
       rc = - 1 \<and> mset (data c') = mset (data c) \<and> (\<exists>n. \<not> alloc n))"
proof -
  obtain r c1 where g: "netsnmp_binary_array_get c (Some e) True = (r, c1)" by fastforce
  note x = get_exact[OF assms(1) g]
  have t: "tflags c = 0" using assms(1) by (simp add: ba_inv_def)
  have ko: "key_order (compare c)" using assms(1) by (simp add: ba_inv_def)
  have sd: "set (data c1) = set (data c)" using x same_entries_set by blast
  show ?thesis
  proof (cases r)
    case (Some y)
    then show ?thesis using x assms(2) t by (auto simp: netsnmp_binary_array_insert_def g same_entries_def)
  next
    case None
    define c2 where "c2 = c1\<lparr>max_size := (if max_size c1 \<le> length (data c1)
      then if 2 * max_size c1 = 0 then 10 else 2 * max_size c1 else max_size c1), data := data c1 @ [e], dirty := True\<rparr>"
    have n: "\<forall>y\<in>set (data c). compare c y e \<noteq> 0" using x None by simp
    then have n': "\<forall>y\<in>set (data c). compare c e y \<noteq> 0" using key_order.zero_flip[OF ko] by blast
    have "e \<notin> set (data c)" using n key_order.le_refl[OF ko, of e] key_order.flip[OF ko, of e e] by force
    then have "unique_keys (compare c) (data c1 @ [e])"
      using x n n' sd by (auto simp: ba_inv_def unique_keys_def same_entries_def)
    then have inv: "ba_inv c2" using x by (auto simp: ba_inv_def c2_def same_entries_def)
    have "rc = 0 \<and> c' = c2 \<or> rc = - 1 \<and> c' = c1 \<and> (\<exists>n. \<not> alloc n)"
      using assms(2) t None by (auto simp: netsnmp_binary_array_insert_def g Let_def c2_def split: if_splits)
    then show ?thesis
    proof (elim disjE conjE)
      assume "rc = 0" "c' = c2"
      then show ?thesis using inv x n by (auto simp: c2_def same_entries_def)
    next
      assume "rc = - 1" "c' = c1" "\<exists>n. \<not> alloc n"
      then show ?thesis using x n by (auto simp: same_entries_def)
    qed
  qed
qed

lemma remove_nth_mset: "i < length xs \<Longrightarrow> add_mset (xs ! i) (mset (take i xs @ drop (i + 1) xs)) = mset xs"
  using id_take_nth_drop[of i xs] by (metis add.commute mset_append mset.simps(2) plus_1_eq_Suc union_mset_add_mset_right)

lemma sorted_wrt_remove:
  assumes "sorted_wrt R xs"
  shows "sorted_wrt R (take i xs @ drop (i + 1) xs)"
proof -
  have s: "sorted_wrt R (take i xs @ drop i xs)" using assms by simp
  have "set (drop (i + 1) xs) \<subseteq> set (drop i xs)" by (rule set_drop_subset_set_drop) simp
  then show ?thesis using s assms unfolding sorted_wrt_append by (auto intro: sorted_wrt_drop)
qed

lemma set_add_mset_list: "mset ys = add_mset e (mset xs) \<Longrightarrow> set ys = Set.insert e (set xs)"
  by (metis list.set(2) mset.simps(2) mset_eq_setD)

lemma unique_keys_shrink:
  assumes "mset ys = add_mset x (mset xs)" "unique_keys cmp ys"
  shows "unique_keys cmp xs"
proof -
  have m: "mset ys = mset (x # xs)" using assms(1) by simp
  show ?thesis
    using assms(2) mset_eq_imp_distinct_iff[OF m] mset_eq_setD[OF m] by (auto simp: unique_keys_def)
qed

lemma remove_cases:
  assumes "ba_inv c" "netsnmp_binary_array_remove c k = (rc, save, c')"
  shows "ba_inv c' \<and> compare c' = compare c \<and> insert_filter c' = insert_filter c \<and>
    (case save of
       Some x \<Rightarrow> rc = 0 \<and> compare c x k = 0 \<and> mset (data c) = add_mset x (mset (data c'))
     | None \<Rightarrow> (\<forall>x\<in>set (data c). compare c x k \<noteq> 0) \<and> mset (data c') = mset (data c) \<and>
         rc = (if data c = [] then 0 else - 1))"
proof (cases "data c = []")
  case False
  note s = sort_dirty_inv[OF assms(1)]
  obtain i c1 where b: "binary_search k (sort_dirty c) True = (i, c1)" by fastforce
  note r = binary_search_cases[OF s(1) b]
  have c: "compare (sort_dirty c) = compare c" "same_entries c c1" "set (data c1) = set (data c)"
    using s(2) r same_entries_set[of "sort_dirty c" c1] same_entries_set[OF s(2)] by (auto simp: same_entries_def)
  show ?thesis
  proof (cases "i = - 1")
    case True
    then show ?thesis
      using assms(2) False r c by (auto simp: netsnmp_binary_array_remove_def b same_entries_def)
  next
    case i: False
    define xs where "xs = take (nat i) (data c1) @ drop (nat i + 1) (data c1)"
    have res: "rc = 0" "save = Some (data c1 ! nat i)" "c' = c1\<lparr>data := xs\<rparr>"
      using assms(2) False i by (auto simp: netsnmp_binary_array_remove_def b xs_def)
    have n: "nat i < length (data c1)" "compare c (data c1 ! nat i) k = 0" using r i c(1) by auto
    have m: "mset (data c1) = add_mset (data c1 ! nat i) (mset xs)"
      unfolding xs_def by (rule remove_nth_mset[OF n(1), symmetric])
    have u: "unique_keys (compare c) xs"
      using unique_keys_shrink[OF m, of "compare c"] r c by (auto simp: ba_inv_def same_entries_def)
    have "sorted_wrt R (data c1) \<Longrightarrow> sorted_wrt R xs" for R
      unfolding xs_def by (rule sorted_wrt_remove)
    then have "ba_inv c'" using r c u by (auto simp: res ba_inv_def xs_def same_entries_def)
    then show ?thesis using res c m n(2) by (auto simp: same_entries_def)
  qed
qed (use assms in \<open>auto simp: netsnmp_binary_array_remove_def\<close>)

section \<open>The contract of a keyed store\<close>

datatype 'a operation = Insert 'a | Remove 'a | Find 'a | FindNext 'a

datatype 'a outcome = Code int | Entry "'a option"

text \<open>
  What an operation may do to a set of entries, by the keys: insertion refuses a key that is there, a lookup
  finds the entry with the key or the one with the next greater key. (Removing from an empty store succeeds.)
\<close>

definition allowed :: "('a \<Rightarrow> 'a \<Rightarrow> int) \<Rightarrow> 'a operation \<Rightarrow> 'a set \<Rightarrow> 'a outcome \<Rightarrow> 'a set \<Rightarrow> bool" where
  "allowed cmp op S r S' =
     (case op of
        Insert e \<Rightarrow> if \<exists>x\<in>S. cmp x e = 0 then r = Code (- 1) \<and> S' = S else r = Code 0 \<and> S' = Set.insert e S
      | Remove k \<Rightarrow> if \<exists>x\<in>S. cmp x k = 0 then r = Code 0 \<and> S' = {x \<in> S. cmp x k \<noteq> 0}
          else r = Code (if S = {} then 0 else - 1) \<and> S' = S
      | Find k \<Rightarrow> S' = S \<and> (if \<exists>x\<in>S. cmp x k = 0 then \<exists>x\<in>S. cmp x k = 0 \<and> r = Entry (Some x) else r = Entry None)
      | FindNext k \<Rightarrow> S' = S \<and> (if \<exists>x\<in>S. 0 < cmp x k
          then \<exists>x\<in>S. 0 < cmp x k \<and> (\<forall>y\<in>S. 0 < cmp y k \<longrightarrow> cmp x y \<le> 0) \<and> r = Entry (Some x) else r = Entry None))"

fun allowed_run ::
  "('a \<Rightarrow> 'a \<Rightarrow> int) \<Rightarrow> 'a operation list \<Rightarrow> 'a set \<Rightarrow> 'a outcome list \<Rightarrow> 'a set \<Rightarrow> bool" where
  "allowed_run cmp (op # ops) S (r # rs) S' \<longleftrightarrow> (\<exists>S1. allowed cmp op S r S1 \<and> allowed_run cmp ops S1 rs S')"
| "allowed_run cmp [] S [] S' \<longleftrightarrow> S' = S"
| "allowed_run cmp _ _ _ _ \<longleftrightarrow> False"

fun run :: "('a operation \<Rightarrow> 'c \<Rightarrow> 'a outcome \<times> 'c) \<Rightarrow> 'a operation list \<Rightarrow> 'c \<Rightarrow> 'a outcome list \<times> 'c" where
  "run step [] c = ([], c)"
| "run step (op # ops) c =
     (case step op c of (r, c) \<Rightarrow> case run step ops c of (rs, c) \<Rightarrow> (r # rs, c))"

locale keyed_store =
  fixes step :: "'a operation \<Rightarrow> 'c \<Rightarrow> 'a outcome \<times> 'c"
    and inv :: "'c \<Rightarrow> bool"
    and entries :: "'c \<Rightarrow> 'a set"
    and order :: "'c \<Rightarrow> 'a \<Rightarrow> 'a \<Rightarrow> int"
  assumes step_law: "inv c \<Longrightarrow> step op c = (r, c') \<Longrightarrow>
    inv c' \<and> order c' = order c \<and> allowed (order c) op (entries c) r (entries c')"
begin

lemma run_refines:
  "inv c \<Longrightarrow> run step ops c = (rs, c') \<Longrightarrow>
     inv c' \<and> order c' = order c \<and> allowed_run (order c) ops (entries c) rs (entries c')"
proof (induction ops arbitrary: c rs)
  case (Cons op ops)
  obtain r c1 where s: "step op c = (r, c1)" by fastforce
  obtain rs1 c2 where t: "run step ops c1 = (rs1, c2)" by fastforce
  have "rs = r # rs1" "c' = c2" using Cons.prems(2) by (simp_all add: s t)
  then show ?case using step_law[OF Cons.prems(1) s] Cons.IH[of c1 rs1] t by auto
qed simp

end

text \<open>The operations of the container through its function pointers (\<^verbatim>\<open>_ba_insert\<close> and so on).\<close>

definition ba_step :: "(nat \<Rightarrow> bool) \<Rightarrow> 'a operation \<Rightarrow> 'a container \<Rightarrow> 'a outcome \<times> 'a container" where
  "ba_step alloc op c =
     (case op of
        Insert e \<Rightarrow> (case netsnmp_binary_array_insert alloc c e of (rc, c) \<Rightarrow> (Code rc, c))
      | Remove k \<Rightarrow> (case netsnmp_binary_array_remove c k of (rc, _, c) \<Rightarrow> (Code rc, c))
      | Find k \<Rightarrow> (case netsnmp_binary_array_get c (Some k) True of (r, c) \<Rightarrow> (Entry r, c))
      | FindNext k \<Rightarrow> (case netsnmp_binary_array_get c (Some k) False of (r, c) \<Rightarrow> (Entry r, c)))"

lemma remove_allowed:
  assumes "ba_inv c" "netsnmp_binary_array_remove c k = (rc, save, c')"
  shows "allowed (compare c) (Remove k) (set (data c)) (Code rc) (set (data c'))"
proof (cases save)
  case None
  then have n: "\<forall>x\<in>set (data c). compare c x k \<noteq> 0" "mset (data c') = mset (data c)"
      "rc = (if data c = [] then 0 else - 1)"
    using remove_cases[OF assms] by simp_all
  then show ?thesis using mset_eq_setD[OF n(2)] by (simp add: allowed_def)
next
  case (Some x)
  then have x: "rc = 0" "compare c x k = 0" "mset (data c) = mset (x # data c')" using remove_cases[OF assms] by auto
  note s = mset_eq_setD[OF x(3)]
  have u: "unique_keys (compare c) (data c)" "key_order (compare c)" using assms(1) by (auto simp: ba_inv_def)
  have d: "x \<notin> set (data c')" using u(1) mset_eq_imp_distinct_iff[OF x(3)] by (auto simp: unique_keys_def)
  have "y = x" if "y \<in> set (data c)" "compare c y k = 0" for y
  proof -
    have "compare c k x = 0" using x(2) key_order.zero_flip[OF u(2)] by blast
    then have "compare c y x \<le> 0" "compare c x y \<le> 0"
      using key_order.le_trans[OF u(2), of y k x] key_order.le_trans[OF u(2), of x k y] that(2) x(2)
        key_order.zero_flip[OF u(2), of y k] by auto
    then have "compare c y x = 0" using key_order.flip[OF u(2), of y x] by linarith
    then show ?thesis using u(1) that(1) s by (auto simp: unique_keys_def)
  qed
  then have "set (data c') = {y \<in> set (data c). compare c y k \<noteq> 0}" using s d x(2) by auto
  then show ?thesis using x s by (auto simp: allowed_def)
qed

interpretation ba: keyed_store "ba_step (\<lambda>_. True)" ba_inv "\<lambda>c. set (data c)" compare
proof
  fix c c' :: "'a container" and op r
  assume i: "ba_inv c" and st: "ba_step (\<lambda>_. True) op c = (r, c')"
  show "ba_inv c' \<and> compare c' = compare c \<and> allowed (compare c) op (set (data c)) r (set (data c'))"
  proof (cases op)
    case (Insert e)
    then obtain rc where g: "netsnmp_binary_array_insert (\<lambda>_. True) c e = (rc, c')" "r = Code rc"
      using st by (auto simp: ba_step_def split: prod.splits)
    then show ?thesis using insert_cases[OF i g(1)] Insert
      by (auto simp: allowed_def dest: set_add_mset_list mset_eq_setD split: if_splits)
  next
    case (Remove k)
    then obtain rc sv where g: "netsnmp_binary_array_remove c k = (rc, sv, c')" "r = Code rc"
      using st by (auto simp: ba_step_def split: prod.splits)
    then show ?thesis using remove_cases[OF i g(1)] remove_allowed[OF i g(1)] Remove by simp
  next
    case (Find k)
    then obtain x where g: "netsnmp_binary_array_get c (Some k) True = (x, c')" "r = Entry x"
      using st by (auto simp: ba_step_def split: prod.splits)
    then show ?thesis using get_exact[OF i g(1)] same_entries_set[of c c'] Find
      by (auto simp: allowed_def same_entries_def split: option.splits)
  next
    case (FindNext k)
    then obtain x where g: "netsnmp_binary_array_get c (Some k) False = (x, c')" "r = Entry x"
      using st by (auto simp: ba_step_def split: prod.splits)
    then show ?thesis using get_next[OF i g(1)] same_entries_set[of c c'] FindNext
      by (auto simp: allowed_def same_entries_def split: option.splits)
  qed
qed

end
