(* ===== verification/Container.thy ===== *)
theory Container
  imports Binary_Array
begin

text \<open>
  Containers in use: making one, the index comparisons of \<^verbatim>\<open>snmplib/container.c\<close>, subsets by a partial
  key, and insertion into a chain of containers, which happens everywhere or nowhere.
\<close>

section \<open>Index containers\<close>

text \<open>\<^verbatim>\<open>netsnmp_index\<close> is the first part of every entry of such a container.\<close>

record netsnmp_index =
  oids :: oid

definition netsnmp_compare_netsnmp_index :: "'m netsnmp_index_scheme \<Rightarrow> 'm netsnmp_index_scheme \<Rightarrow> int" where
  "netsnmp_compare_netsnmp_index lhs rhs = snmp_oid_compare (oids lhs) (oids rhs)"

definition netsnmp_ncompare_netsnmp_index :: "'m netsnmp_index_scheme \<Rightarrow> 'm netsnmp_index_scheme \<Rightarrow> int" where
  "netsnmp_ncompare_netsnmp_index lhs rhs = snmp_oid_ncompare (oids lhs) (oids rhs) (length (oids rhs))"

definition netsnmp_container_get_binary_array :: "('a \<Rightarrow> 'a \<Rightarrow> int) \<Rightarrow> ('a \<Rightarrow> 'a \<Rightarrow> int) \<Rightarrow> 'a container" where
  "netsnmp_container_get_binary_array cmp ncmp =
     \<lparr>compare = cmp, ncompare = ncmp, insert_filter = None, sync = 0, max_size = 0, tflags = 0, dirty = False, data = []\<rparr>"

interpretation index_order: key_order netsnmp_compare_netsnmp_index
  by unfold_locales (auto simp: netsnmp_compare_netsnmp_index_def snmp_oid_compare_order oid_order_def split: if_splits)

lemma new_container_inv: "key_order cmp \<Longrightarrow> ba_inv (netsnmp_container_get_binary_array cmp ncmp)"
  by (simp add: ba_inv_def netsnmp_container_get_binary_array_def unique_keys_def)

section \<open>Subsets\<close>

text \<open>A comparison with a partial key cuts a sorted table into three runs.\<close>

definition partial_key :: "('a \<Rightarrow> 'a \<Rightarrow> int) \<Rightarrow> ('a \<Rightarrow> 'a \<Rightarrow> int) \<Rightarrow> 'a \<Rightarrow> bool" where
  "partial_key cmp ncmp key \<longleftrightarrow> (\<forall>a b. cmp a b < 0 \<longrightarrow>
     (ncmp b key < 0 \<longrightarrow> ncmp a key < 0) \<and> (0 < ncmp a key \<longrightarrow> 0 < ncmp b key))"

lemma take_less: "a < b \<Longrightarrow> take n a \<le> take n (b :: oid)"
proof (induction a arbitrary: b n)
  case (Cons x xs)
  then obtain y ys where b: "b = y # ys" by (cases b) auto
  show ?case
  proof (cases n)
    case (Suc m)
    then show ?thesis using Cons b by (auto simp: order_le_less)
  qed simp
qed simp

lemma index_partial_key:
  fixes key :: "'m netsnmp_index_scheme"
  shows "partial_key netsnmp_compare_netsnmp_index netsnmp_ncompare_netsnmp_index key"
  unfolding partial_key_def
proof (intro allI impI)
  fix a b :: "'m netsnmp_index_scheme"
  let ?n = "length (oids key)"
  assume "netsnmp_compare_netsnmp_index a b < 0"
  then have "take ?n (oids a) \<le> take ?n (oids b)"
    by (intro take_less) (auto simp: netsnmp_compare_netsnmp_index_def snmp_oid_compare_order oid_order_def split: if_splits)
  then show "(netsnmp_ncompare_netsnmp_index b key < 0 \<longrightarrow> netsnmp_ncompare_netsnmp_index a key < 0) \<and>
      (0 < netsnmp_ncompare_netsnmp_index a key \<longrightarrow> 0 < netsnmp_ncompare_netsnmp_index b key)"
    by (auto simp: netsnmp_ncompare_netsnmp_index_def snmp_oid_ncompare_spec oid_order_def split: if_splits)
qed

lemma index_ncompare_zero: "netsnmp_ncompare_netsnmp_index x key = 0 \<longleftrightarrow> prefix (oids key) (oids x)"
  by (auto simp: netsnmp_ncompare_netsnmp_index_def snmp_oid_ncompare_spec prefix_iff_take dest: arg_cong[of _ _ length])

lemma start_loop_spec:
  assumes "first + len \<le> length xs" "\<forall>k<first. ncmp (xs ! k) key < 0"
    and "\<forall>k<length xs. first + len \<le> k \<longrightarrow> \<not> ncmp (xs ! k) key < 0"
    and mono: "\<And>k l. k < l \<Longrightarrow> l < length xs \<Longrightarrow> ncmp (xs ! l) key < 0 \<Longrightarrow> ncmp (xs ! k) key < 0"
  defines "n0 \<equiv> start_loop ncmp key xs len first"
  shows "n0 \<le> length xs \<and> (\<forall>k<n0. ncmp (xs ! k) key < 0) \<and> (\<forall>k<length xs. n0 \<le> k \<longrightarrow> \<not> ncmp (xs ! k) key < 0)"
  using assms(1-3) unfolding n0_def
proof (induction len arbitrary: first rule: less_induct)
  case (less len)
  show ?case
  proof (cases "len = 0")
    case True
    then show ?thesis using less.prems by (simp add: start_loop.simps)
  next
    case False
    define mid where "mid = first + len div 2"
    have m: "mid < length xs" "mid < first + len" using False less.prems(1) by (auto simp: mid_def)
    show ?thesis
    proof (cases "ncmp (xs ! mid) key < 0")
      case True
      then have u: "\<forall>k<mid + 1. ncmp (xs ! k) key < 0" using mono[of _ mid] m by (auto simp: less_Suc_eq)
      have e: "start_loop ncmp key xs len first = start_loop ncmp key xs (len - len div 2 - 1) (mid + 1)"
        using True False by (subst start_loop.simps) (simp add: mid_def Let_def)
      show ?thesis unfolding e using less.prems False m u by (intro less.IH) (auto simp: mid_def)
    next
      case c: False
      then have u: "\<forall>k<length xs. mid \<le> k \<longrightarrow> \<not> ncmp (xs ! k) key < 0"
        using mono[of mid] by (metis order_le_less)
      have e: "start_loop ncmp key xs len first = start_loop ncmp key xs (len div 2) first"
        using c False by (subst start_loop.simps) (simp add: mid_def Let_def)
      show ?thesis unfolding e using less.prems False m u by (intro less.IH) (auto simp: mid_def)
    qed
  qed
qed

lemma match_run_takeWhile: "take (match_run ncmp key xs) xs = takeWhile (\<lambda>x. ncmp x key = 0) xs"
  by (induction xs) auto

lemma takeWhile_sorted_filter:
  assumes "sorted_wrt R xs" "\<And>a b. a \<in> set xs \<Longrightarrow> R a b \<Longrightarrow> P b \<Longrightarrow> P a"
  shows "takeWhile P xs = filter P xs"
  using assms
proof (induction xs)
  case (Cons x xs)
  show ?case
  proof (cases "P x")
    case False
    then have "\<forall>y\<in>set xs. \<not> P y" using Cons.prems by auto
    then show ?thesis using False by simp
  qed (use Cons in auto)
qed simp

text \<open>The subset is exactly the entries that match the partial key, in order.\<close>

lemma subset_run:
  assumes "sorted_wrt (\<lambda>a b. cmp a b < 0) xs" "partial_key cmp ncmp key"
  defines "n \<equiv> start_loop ncmp key xs (length xs) 0"
  shows "filter (\<lambda>x. ncmp x key = 0) xs = takeWhile (\<lambda>x. ncmp x key = 0) (drop n xs)" "n \<le> length xs"
proof -
  have mono: "ncmp (xs ! k) key < 0" if "k < l" "l < length xs" "ncmp (xs ! l) key < 0" for k l
    using assms(2) sorted_wrt_nth_less[OF assms(1) that(1,2)] that(3) by (auto simp: partial_key_def)
  have s: "n \<le> length xs" "\<forall>k<n. ncmp (xs ! k) key < 0" "\<forall>k<length xs. n \<le> k \<longrightarrow> \<not> ncmp (xs ! k) key < 0"
    using start_loop_spec[of 0 "length xs" xs ncmp key] mono by (auto simp: n_def)
  then show "n \<le> length xs" by simp
  have "\<forall>x\<in>set (take n xs). ncmp x key \<noteq> 0" using s(1,2) by (force simp: in_set_conv_nth)
  then have "filter (\<lambda>x. ncmp x key = 0) (take n xs) = []" by (simp add: filter_empty_conv)
  then have "filter (\<lambda>x. ncmp x key = 0) (take n xs @ drop n xs) = filter (\<lambda>x. ncmp x key = 0) (drop n xs)"
    unfolding filter_append by simp
  moreover have "\<not> ncmp x key < 0" if "x \<in> set (drop n xs)" for x
    using that s(3) by (auto simp: in_set_conv_nth)
  then have "takeWhile (\<lambda>x. ncmp x key = 0) (drop n xs) = filter (\<lambda>x. ncmp x key = 0) (drop n xs)"
    using assms(2) by (intro takeWhile_sorted_filter[where R = "\<lambda>a b. cmp a b < 0"] sorted_wrt_drop assms(1))
      (force simp: partial_key_def)
  ultimately show "filter (\<lambda>x. ncmp x key = 0) xs = takeWhile (\<lambda>x. ncmp x key = 0) (drop n xs)" by simp
qed

lemma get_subset_matches:
  assumes "ba_inv c" "partial_key (compare c) (ncompare c) key"
  defines "S \<equiv> filter (\<lambda>x. ncompare c x key = 0) (data (sort_dirty c))"
  shows "fst (netsnmp_binary_array_get_subset (\<lambda>_. True) c (Some key)) = (if S = [] then None else Some S)"
proof (cases "data c = []")
  case True
  then show ?thesis
    using sort_dirty_inv(2)[OF assms(1)] by (simp add: netsnmp_binary_array_get_subset_def S_def same_entries_def)
next
  case False
  note s = sort_dirty_inv[OF assms(1)]
  define d where "d = data (sort_dirty c)"
  define n where "n = start_loop (ncompare c) key d (length d) 0"
  have nc: "ncompare (sort_dirty c) = ncompare c" "compare (sort_dirty c) = compare c" using s(2) by (auto simp: same_entries_def)
  have ne: "d \<noteq> []" using False s(2) by (auto simp: d_def same_entries_def)
  have dd: "sort_dirty (sort_dirty c) = sort_dirty c" using s(3) by (simp add: sort_dirty_def)
  have so: "sorted_wrt (\<lambda>a b. compare c a b < 0) d" using s(1,3) nc by (simp add: ba_inv_def d_def)
  note r = subset_run[OF so assms(2), folded n_def]
  have S: "S = takeWhile (\<lambda>x. ncompare c x key = 0) (drop n d)" using r(1) by (simp add: S_def d_def)
  have b: "binary_search_for_start key (sort_dirty c) =
      (if n \<ge> length d \<or> ncompare c (d ! n) key \<noteq> 0 then - 1 else int n, sort_dirty c)"
    using ne by (simp add: binary_search_for_start_def dd d_def n_def nc Let_def)
  show ?thesis
  proof (cases "n \<ge> length d \<or> ncompare c (d ! n) key \<noteq> 0")
    case True
    then have "S = []" unfolding S by (cases "drop n d") (auto simp: Cons_nth_drop_Suc[symmetric] nth_via_drop)
    then show ?thesis using True False b by (simp add: netsnmp_binary_array_get_subset_def)
  next
    case F: False
    then have dr: "drop n d = d ! n # drop (n + 1) d" by (simp add: Cons_nth_drop_Suc)
    have "take (match_run (ncompare c) key (drop (n + 1) d) + 1) (drop n d) = S"
      unfolding S dr using F by (simp add: match_run_takeWhile)
    then show ?thesis
      using F False b S dr by (auto simp: netsnmp_binary_array_get_subset_def nc d_def Let_def)
  qed
qed

section \<open>Chains\<close>

text \<open>What happens to each container of a chain: the entry is added, or its entries stay as they were.\<close>

definition inserted :: "bool \<Rightarrow> 'a \<Rightarrow> 'a container \<Rightarrow> 'a container \<Rightarrow> bool" where
  "inserted ok k x x' \<longleftrightarrow> ba_inv x' \<and> compare x' = compare x \<and> insert_filter x' = insert_filter x \<and>
     mset (data x') = (if ok \<and> \<not> filtered x k then add_mset k (mset (data x)) else mset (data x))"

lemma insert_then_remove:
  assumes "ba_inv x" "netsnmp_binary_array_insert alloc x k = (0, x1)"
  shows "inserted False k x (snd (snd (netsnmp_binary_array_remove x1 k)))"
proof -
  have i: "ba_inv x1" "compare x1 = compare x" "insert_filter x1 = insert_filter x"
      "mset (data x1) = add_mset k (mset (data x))"
    using insert_cases[OF assms] by (auto split: if_splits)
  obtain rc sv x2 where r: "netsnmp_binary_array_remove x1 k = (rc, sv, x2)" by (metis prod_cases3)
  note c = remove_cases[OF i(1) r]
  have ko: "key_order (compare x)" "unique_keys (compare x) (data x1)" using assms(1) i(1,2) by (auto simp: ba_inv_def)
  have k: "k \<in> set (data x1)" using set_add_mset_list[OF i(4)] by simp
  have kk: "compare x k k = 0" using key_order.le_refl[OF ko(1), of k] key_order.flip[OF ko(1), of k k] by linarith
  obtain y where y: "sv = Some y" using c k kk i(2) by (cases sv) auto
  then have "y \<in> set (data x1)" "compare x y k = 0" using c i(2) set_add_mset_list[of "data x1" y "data x2"] by auto
  then have "y = k" using ko(2) k by (auto simp: unique_keys_def)
  then show ?thesis using c y i by (simp add: inserted_def r)
qed

lemma insert_chain:
  assumes "\<forall>x\<in>set xs. ba_inv x" "CONTAINER_INSERT alloc xs k = (rc, xs')"
  shows "list_all2 (inserted (rc = 0) k) xs xs' \<and>
    (rc = 0 \<longleftrightarrow> (\<forall>x\<in>set xs. filtered x k \<or> fst (netsnmp_binary_array_insert alloc x k) = 0))"
  using assms
proof (induction xs arbitrary: rc xs')
  case (Cons x xs)
  obtain rc1 xs1 where r: "CONTAINER_INSERT alloc xs k = (rc1, xs1)" by fastforce
  have pre: "\<forall>x\<in>set xs. ba_inv x" using Cons.prems(1) by simp
  note IH = conjunct1[OF Cons.IH[OF pre r]] conjunct2[OF Cons.IH[OF pre r]]
  have inv: "ba_inv x" using Cons.prems(1) by simp
  have same: "list_all2 (inserted False k) xs xs"
    using Cons.prems(1) by (auto simp: list_all2_same inserted_def)
  show ?case
  proof (cases "filtered x k")
    case True
    then have "rc = rc1" "xs' = x # xs1" using Cons.prems(2) by (auto simp: r)
    moreover have "inserted (rc1 = 0) k x x" using True inv by (simp add: inserted_def)
    ultimately show ?thesis using IH True by simp
  next
    case F: False
    obtain rc2 x1 where i: "netsnmp_binary_array_insert alloc x k = (rc2, x1)" by fastforce
    note ic = insert_cases[OF inv i]
    show ?thesis
    proof (cases "rc2 = 0")
      case False
      then have "rc = rc2" "xs' = x1 # xs" using Cons.prems(2) F by (auto simp: i)
      moreover have "inserted False k x x1" using ic False by (auto simp: inserted_def split: if_splits)
      ultimately show ?thesis using same False F i by simp
    next
      case ok: True
      then have e: "rc = rc1" "xs' = (if rc1 \<noteq> 0 then snd (snd (netsnmp_binary_array_remove x1 k)) else x1) # xs1"
        using Cons.prems(2) F by (auto simp: i r split: if_splits)
      show ?thesis
      proof (cases "rc1 = 0")
        case True
        moreover have "inserted True k x x1" using ic ok F by (auto simp: inserted_def split: if_splits)
        ultimately show ?thesis using e ok IH F i by simp
      next
        case False
        then have n: "\<not> (\<forall>x\<in>set xs. filtered x k \<or> fst (netsnmp_binary_array_insert alloc x k) = 0)"
          using IH(2) by blast
        have "list_all2 (inserted False k) xs xs1" using IH(1) False by simp
        with n show ?thesis using e insert_then_remove[OF inv i[unfolded ok]] False by simp
      qed
    qed
  qed
qed simp

end
