(* ===== verification/Vacm.thy ===== *)
theory Vacm
  imports Oid
begin

unbundle bit_operations_syntax

text \<open>
  View-based access control: \<^verbatim>\<open>snmplib/vacm.c\<close> and the decision of \<^verbatim>\<open>agent/mibgroup/mibII/vacm_conf.c\<close>. A view is a list of
  families of subtrees, each included or excluded; the longest family that matches a name decides. The
  code keeps the length of a string in its first byte and the length of a subtree in its first subidentifier; the
  model's strings and subtrees are without them, and they are put back where the code compares them.
\<close>

section \<open>Tables\<close>

type_synonym cstring = "u8 list"

definition VACM_MAX_STRING :: nat where "VACM_MAX_STRING = 32"
definition VACM_MAX_VIEWS :: int where "VACM_MAX_VIEWS = 8"
definition SNMP_VIEW_INCLUDED :: int where "SNMP_VIEW_INCLUDED = 1"
definition SNMP_VIEW_EXCLUDED :: int where "SNMP_VIEW_EXCLUDED = 2"
definition SNMP_SEC_MODEL_ANY :: int where "SNMP_SEC_MODEL_ANY = 0"
definition CONTEXT_MATCH_EXACT :: int where "CONTEXT_MATCH_EXACT = 1"
definition CONTEXT_MATCH_PREFIX :: int where "CONTEXT_MATCH_PREFIX = 2"
definition CONTEXTNAMEINDEXLEN :: nat where "CONTEXTNAMEINDEXLEN = 32"

datatype vacm_result = VACM_SUCCESS | VACM_NOSECNAME | VACM_NOGROUP | VACM_NOACCESS | VACM_NOVIEW | VACM_NOTINVIEW
  | VACM_NOSUCHCONTEXT | VACM_SUBTREE_UNKNOWN

datatype view_mode = VACM_MODE_FIND | VACM_MODE_IGNORE_MASK | VACM_MODE_CHECK_SUBTREE

record vacm_groupEntry =
  g_securityModel :: int
  g_securityName :: cstring
  g_groupName :: cstring

record vacm_accessEntry =
  a_groupName :: cstring
  contextPrefix :: cstring
  a_securityModel :: int
  a_securityLevel :: int
  contextMatch :: int
  views :: "cstring list"

record vacm_viewEntry =
  viewName :: cstring
  viewSubtree :: oid
  viewMask :: "u8 list"
  viewType :: int

definition counted :: "cstring \<Rightarrow> u8 list" where
  "counted s = of_nat (length s) # s"

section \<open>Matching a family\<close>

definition VIEW_MASK :: "u8 list \<Rightarrow> nat \<Rightarrow> u8 \<Rightarrow> u8" where
  "VIEW_MASK vmask idx mbit = (if idx \<ge> length vmask then mbit else vmask ! idx AND mbit)"

text \<open>The loop over the positions, up to the end of the shorter name; \<^verbatim>\<open>mask\<close> runs through the bits of an octet.\<close>

fun match_loop :: "u8 list \<Rightarrow> bool \<Rightarrow> u8 \<Rightarrow> nat \<Rightarrow> oid \<Rightarrow> oid \<Rightarrow> bool" where
  "match_loop vmask ignore mbit maskpos (x # xs) (y # ys) =
     (if (ignore \<or> VIEW_MASK vmask maskpos mbit \<noteq> 0) \<and> x \<noteq> y then False
      else if mbit = 1 then match_loop vmask ignore 0x80 (maskpos + 1) xs ys
      else match_loop vmask ignore (drop_bit 1 mbit) maskpos xs ys)"
| "match_loop vmask ignore mbit maskpos _ _ = True"

definition family_match :: "vacm_viewEntry \<Rightarrow> bool \<Rightarrow> oid \<Rightarrow> bool" where
  "family_match vp ignore n = match_loop (viewMask vp) ignore 0x80 0 n (viewSubtree vp)"

definition better :: "vacm_viewEntry \<Rightarrow> vacm_viewEntry option \<Rightarrow> bool" where
  "better vp vpret =
     (case vpret of
        None \<Rightarrow> True
      | Some r \<Rightarrow> length (viewSubtree vp) > length (viewSubtree r) \<or>
          length (viewSubtree vp) = length (viewSubtree r) \<and> snmp_oid_compare (viewSubtree vp) (viewSubtree r) > 0)"

fun view_get_loop ::
  "vacm_viewEntry list \<Rightarrow> cstring \<Rightarrow> oid \<Rightarrow> view_mode \<Rightarrow> vacm_viewEntry option \<Rightarrow> nat \<Rightarrow> vacm_viewEntry option \<times> nat" where
  "view_get_loop [] view n mode vpret count = (vpret, count)"
| "view_get_loop (vp # vps) view n mode vpret count =
     (if memcmp (counted view) (counted (viewName vp)) = 0 \<and> length n \<ge> length (viewSubtree vp) \<and>
         family_match vp (mode = VACM_MODE_IGNORE_MASK) n
      then view_get_loop vps view n mode
        (if mode = VACM_MODE_CHECK_SUBTREE then Some vp else if better vp vpret then Some vp else vpret) (count + 1)
      else view_get_loop vps view n mode vpret count)"

definition netsnmp_view_get ::
  "vacm_viewEntry list \<Rightarrow> cstring \<Rightarrow> oid \<Rightarrow> view_mode \<Rightarrow> vacm_viewEntry option" where
  "netsnmp_view_get head view n mode =
     (if length view \<ge> VACM_MAX_STRING then None
      else (case view_get_loop head view n mode None 0 of
        (vpret, count) \<Rightarrow> if mode = VACM_MODE_CHECK_SUBTREE \<and> count > 1 then None else vpret))"

section \<open>Checking a whole subtree\<close>

text \<open>\<open>None\<close> is the early return of \<^verbatim>\<open>VACM_SUBTREE_UNKNOWN\<close>.\<close>

fun subtree_loop ::
  "vacm_viewEntry list \<Rightarrow> cstring \<Rightarrow> oid \<Rightarrow> vacm_viewEntry option \<Rightarrow> vacm_viewEntry option \<Rightarrow>
   (vacm_viewEntry option \<times> vacm_viewEntry option) option" where
  "subtree_loop [] view n vpShorter vpLonger = Some (vpShorter, vpLonger)"
| "subtree_loop (vp # vps) view n vpShorter vpLonger =
     (if memcmp (counted view) (counted (viewName vp)) = 0 \<and> family_match vp False n then
        if length n \<ge> length (viewSubtree vp) then
          subtree_loop vps view n (if better vp vpShorter then Some vp else vpShorter) vpLonger
        else (case vpLonger of
            Some l \<Rightarrow> if viewType l \<noteq> viewType vp then None else subtree_loop vps view n vpShorter vpLonger
          | None \<Rightarrow> subtree_loop vps view n vpShorter (Some vp))
      else subtree_loop vps view n vpShorter vpLonger)"

definition netsnmp_view_subtree_check :: "vacm_viewEntry list \<Rightarrow> cstring \<Rightarrow> oid \<Rightarrow> vacm_result" where
  "netsnmp_view_subtree_check head view n =
     (if length view \<ge> VACM_MAX_STRING then VACM_NOTINVIEW
      else (case subtree_loop head view n None None of
        None \<Rightarrow> VACM_SUBTREE_UNKNOWN
      | Some (vpShorter, vpLonger) \<Rightarrow>
          if (case vpLonger of
                None \<Rightarrow> False
              | Some l \<Rightarrow> (case vpShorter of
                  None \<Rightarrow> viewType l \<noteq> SNMP_VIEW_EXCLUDED
                | Some s \<Rightarrow> viewType l \<noteq> viewType s))
          then VACM_SUBTREE_UNKNOWN
          else (case vpShorter of
              Some s \<Rightarrow> if viewType s \<noteq> SNMP_VIEW_EXCLUDED then VACM_SUCCESS else VACM_NOTINVIEW
            | None \<Rightarrow> VACM_NOTINVIEW)))"

section \<open>Creating and destroying entries\<close>

definition view_before :: "vacm_viewEntry \<Rightarrow> vacm_viewEntry \<Rightarrow> bool" where
  "view_before lp vp =
     (let cmp = memcmp (counted (viewName lp)) (counted (viewName vp));
          cmp2 = snmp_oid_compare (of_nat (length (viewSubtree lp)) # viewSubtree lp)
            (of_nat (length (viewSubtree vp)) # viewSubtree vp)
      in \<not> (cmp = 0 \<and> cmp2 > 0) \<and> \<not> cmp > 0)"

fun link_after :: "('e \<Rightarrow> bool) \<Rightarrow> 'e \<Rightarrow> 'e list \<Rightarrow> 'e list" where
  "link_after before e [] = [e]"
| "link_after before e (l # ls) = (if before l then l # link_after before e ls else e # l # ls)"

definition netsnmp_view_create ::
  "vacm_viewEntry list \<Rightarrow> cstring \<Rightarrow> oid \<Rightarrow> vacm_viewEntry option \<times> vacm_viewEntry list" where
  "netsnmp_view_create head view n =
     (if length view \<ge> VACM_MAX_STRING then (None, head)
      else let vp = \<lparr>viewName = view, viewSubtree = n, viewMask = [], viewType = 0\<rparr>
        in (Some vp, link_after (\<lambda>lp. view_before lp vp) vp head))"

definition vacm_getGroupEntry :: "vacm_groupEntry list \<Rightarrow> int \<Rightarrow> cstring \<Rightarrow> vacm_groupEntry option" where
  "vacm_getGroupEntry groupList model secname =
     (if length secname \<ge> VACM_MAX_STRING then None
      else List.find (\<lambda>vp. (model = g_securityModel vp \<or> g_securityModel vp = SNMP_SEC_MODEL_ANY) \<and>
        memcmp (counted (g_securityName vp)) (counted secname) = 0) groupList)"

definition group_before :: "vacm_groupEntry \<Rightarrow> vacm_groupEntry \<Rightarrow> bool" where
  "group_before lg gp \<longleftrightarrow> \<not> g_securityModel lg > g_securityModel gp \<and>
     \<not> (g_securityModel lg = g_securityModel gp \<and> memcmp (counted (g_securityName lg)) (counted (g_securityName gp)) > 0)"

definition vacm_createGroupEntry ::
  "vacm_groupEntry list \<Rightarrow> int \<Rightarrow> cstring \<Rightarrow> vacm_groupEntry option \<times> vacm_groupEntry list" where
  "vacm_createGroupEntry groupList model secname =
     (if length secname \<ge> VACM_MAX_STRING then (None, groupList)
      else let gp = \<lparr>g_securityModel = model, g_securityName = secname, g_groupName = []\<rparr>
        in (Some gp, link_after (\<lambda>lg. group_before lg gp) gp groupList))"

text \<open>The first entry of a list that satisfies a test is unlinked.\<close>

fun unlink_first :: "('e \<Rightarrow> bool) \<Rightarrow> 'e list \<Rightarrow> 'e list" where
  "unlink_first P [] = []"
| "unlink_first P (l # ls) = (if P l then ls else l # unlink_first P ls)"

definition vacm_destroyGroupEntry :: "vacm_groupEntry list \<Rightarrow> int \<Rightarrow> cstring \<Rightarrow> vacm_groupEntry list" where
  "vacm_destroyGroupEntry groupList model secname =
     unlink_first (\<lambda>vp. g_securityModel vp = model \<and> g_securityName vp = secname) groupList"

text \<open>The subtree to destroy is given with its length in front, as it is stored.\<close>

definition netsnmp_view_destroy :: "vacm_viewEntry list \<Rightarrow> cstring \<Rightarrow> oid \<Rightarrow> vacm_viewEntry list" where
  "netsnmp_view_destroy head view n =
     unlink_first (\<lambda>vp. viewName vp = view \<and> of_nat (length (viewSubtree vp)) # viewSubtree vp = n) head"

definition context_matches :: "vacm_accessEntry \<Rightarrow> cstring \<Rightarrow> bool" where
  "context_matches vp context =
     (contextMatch vp = CONTEXT_MATCH_EXACT \<and> length context = length (contextPrefix vp) \<and>
        memcmp (counted (contextPrefix vp)) (counted context) = 0 \<or>
      contextMatch vp = CONTEXT_MATCH_PREFIX \<and> length context \<ge> length (contextPrefix vp) \<and>
        memcmp (contextPrefix vp) (take (length (contextPrefix vp)) context) = 0)"

definition vacm_getAccessEntry ::
  "vacm_accessEntry list \<Rightarrow> cstring \<Rightarrow> cstring \<Rightarrow> int \<Rightarrow> int \<Rightarrow> vacm_accessEntry option" where
  "vacm_getAccessEntry accessList grp context model level =
     (if length grp \<ge> VACM_MAX_STRING \<or> length context \<ge> VACM_MAX_STRING then None
      else List.find (\<lambda>vp. (model = a_securityModel vp \<or> a_securityModel vp = SNMP_SEC_MODEL_ANY) \<and>
        level \<ge> a_securityLevel vp \<and> memcmp (counted (a_groupName vp)) (counted grp) = 0 \<and>
        context_matches vp context) accessList)"

definition access_before :: "vacm_accessEntry \<Rightarrow> vacm_accessEntry \<Rightarrow> bool" where
  "access_before lp vp =
     (let cmp = memcmp (counted (a_groupName lp)) (counted (a_groupName vp))
      in if cmp > 0 then False else if cmp < 0 then True
      else let cmp = memcmp (counted (contextPrefix lp)) (counted (contextPrefix vp))
      in if cmp > 0 then False else if cmp < 0 then True
      else if a_securityModel lp > a_securityModel vp then False
      else if a_securityModel lp < a_securityModel vp then True
      else \<not> a_securityLevel lp > a_securityLevel vp)"

definition vacm_createAccessEntry ::
  "vacm_accessEntry list \<Rightarrow> cstring \<Rightarrow> cstring \<Rightarrow> int \<Rightarrow> int \<Rightarrow> vacm_accessEntry option \<times> vacm_accessEntry list" where
  "vacm_createAccessEntry accessList grp context model level =
     (if length grp \<ge> VACM_MAX_STRING \<or> length context \<ge> VACM_MAX_STRING then (None, accessList)
      else let vp = \<lparr>a_groupName = grp, contextPrefix = context, a_securityModel = model, a_securityLevel = level,
          contextMatch = 0, views = replicate (nat VACM_MAX_VIEWS) []\<rparr>
        in (Some vp, link_after (\<lambda>lp. access_before lp vp) vp accessList))"

definition vacm_destroyAccessEntry ::
  "vacm_accessEntry list \<Rightarrow> cstring \<Rightarrow> cstring \<Rightarrow> int \<Rightarrow> int \<Rightarrow> vacm_accessEntry list" where
  "vacm_destroyAccessEntry accessList grp context model level =
     unlink_first (\<lambda>vp. a_securityModel vp = model \<and> a_securityLevel vp = level \<and> a_groupName vp = grp \<and>
       contextPrefix vp = context) accessList"

section \<open>The decision\<close>

record vacm_store =
  groupList :: "vacm_groupEntry list"
  accessList :: "vacm_accessEntry list"
  viewList :: "vacm_viewEntry list"

text \<open>
  \<^verbatim>\<open>vacm_check_view_contents\<close> once the security name of the sender is known (\<open>None\<close> when there is none);
  \<open>known\<close> says for which contexts the agent has a registry, \<open>dne_ok\<close> is the flag
  \<^verbatim>\<open>VACM_CHECK_VIEW_CONTENTS_DNE_CONTEXT_OK\<close> that allows others. A NULL name only checks the set-up.
\<close>

definition vacm_check_view_contents ::
  "vacm_store \<Rightarrow> (cstring \<Rightarrow> bool) \<Rightarrow> cstring option \<Rightarrow> cstring \<Rightarrow> int \<Rightarrow> int \<Rightarrow> oid option \<Rightarrow> bool \<Rightarrow> int \<Rightarrow> bool \<Rightarrow> vacm_result" where
  "vacm_check_view_contents st known sn contextName model level nameopt check_subtree viewtype dne_ok =
     (case sn of
        None \<Rightarrow> VACM_NOSECNAME
      | Some sn \<Rightarrow>
          if length contextName > CONTEXTNAMEINDEXLEN then VACM_NOSUCHCONTEXT
          else if \<not> dne_ok \<and> \<not> known contextName then VACM_NOSUCHCONTEXT
          else (case vacm_getGroupEntry (groupList st) model sn of
            None \<Rightarrow> VACM_NOGROUP
          | Some gp \<Rightarrow> (case vacm_getAccessEntry (accessList st) (g_groupName gp) contextName model level of
            None \<Rightarrow> VACM_NOACCESS
          | Some ap \<Rightarrow> (case nameopt of
            None \<Rightarrow> VACM_SUCCESS
          | Some n \<Rightarrow>
              if viewtype < 0 \<or> viewtype \<ge> VACM_MAX_VIEWS then VACM_NOACCESS
              else let vn = views ap ! nat viewtype in
                if check_subtree then netsnmp_view_subtree_check (viewList st) vn n
                else (case netsnmp_view_get (viewList st) vn n VACM_MODE_FIND of
                  None \<Rightarrow> VACM_NOVIEW
                | Some vp \<Rightarrow> if viewType vp = SNMP_VIEW_EXCLUDED then VACM_NOTINVIEW else VACM_SUCCESS)))))"

section \<open>Masks\<close>

text \<open>Position \<open>i\<close> of a family has to agree when its bit of the mask is set; a mask is extended with ones.\<close>

definition significant :: "u8 list \<Rightarrow> nat \<Rightarrow> bool" where
  "significant vmask i \<longleftrightarrow> length vmask \<le> i div 8 \<or> bit (vmask ! (i div 8)) (7 - i mod 8)"

lemma mask_bit:
  assumes "r < 8"
  shows "VIEW_MASK vmask p (push_bit (7 - r) 1) \<noteq> 0 \<longleftrightarrow> significant vmask (8 * p + r)"
proof -
  have "push_bit (7 - r) (1 :: u8) \<noteq> 0" by (simp add: push_bit_eq_0_iff assms)
  moreover have "(w AND push_bit (7 - r) 1 \<noteq> 0) = bit w (7 - r)" for w :: u8
    using and_exp_eq_0_iff_not_bit[of w "7 - r"] by (simp add: push_bit_eq_mult)
  ultimately show ?thesis using assms by (simp add: VIEW_MASK_def significant_def)
qed

lemma mask_step: "r < 8 \<Longrightarrow> push_bit (7 - r) (1 :: u8) = 1 \<longleftrightarrow> r = 7"
  "r < 7 \<Longrightarrow> drop_bit 1 (push_bit (7 - r) (1 :: u8)) = push_bit (7 - Suc r) 1"
proof -
  assume "r < 8"
  then have "r \<in> {0, 1, 2, 3, 4, 5, 6, 7}" by auto
  then show "push_bit (7 - r) (1 :: u8) = 1 \<longleftrightarrow> r = 7" by (auto simp: push_bit_eq_mult)
next
  assume "r < 7"
  then have "r \<in> {0, 1, 2, 3, 4, 5, 6}" by auto
  then show "drop_bit 1 (push_bit (7 - r) (1 :: u8)) = push_bit (7 - Suc r) 1" by auto
qed

lemma match_loop_spec:
  "r < 8 \<Longrightarrow> match_loop vmask ignore (push_bit (7 - r) 1) p xs ys \<longleftrightarrow>
     (\<forall>k<min (length xs) (length ys). ignore \<or> significant vmask (8 * p + r + k) \<longrightarrow> xs ! k = ys ! k)"
proof (induction xs arbitrary: ys r p)
  case (Cons x xs)
  show ?case
  proof (cases ys)
    case (Cons y ys')
    define Q where "Q i \<longleftrightarrow> ignore \<or> significant vmask i" for i
    have all: "(\<forall>k<min (length (x # xs)) (length ys). Q (8 * p + r + k) \<longrightarrow> (x # xs) ! k = ys ! k) \<longleftrightarrow>
        (Q (8 * p + r) \<longrightarrow> x = y) \<and> (\<forall>k<min (length xs) (length ys'). Q (8 * p + r + Suc k) \<longrightarrow> xs ! k = ys' ! k)"
      unfolding Cons by (auto simp: less_Suc_eq_0_disj)
    have q: "ignore \<or> VIEW_MASK vmask p (push_bit (7 - r) 1) \<noteq> 0 \<longleftrightarrow> Q (8 * p + r)"
      using mask_bit[OF Cons.prems, of vmask p] by (simp add: Q_def)
    let ?rest = "\<forall>k<min (length xs) (length ys'). Q (8 * p + r + Suc k) \<longrightarrow> xs ! k = ys' ! k"
    have "match_loop vmask ignore (push_bit (7 - r) 1) p (x # xs) ys \<longleftrightarrow> (Q (8 * p + r) \<longrightarrow> x = y) \<and> ?rest"
    proof (cases "r = 7")
      case True
      have "match_loop vmask ignore 0x80 (p + 1) xs ys' \<longleftrightarrow> ?rest"
        using Cons.IH[of 0 "p + 1" ys'] True by (simp add: Q_def push_bit_eq_mult add.assoc)
      then show ?thesis using q True by (auto simp: Cons)
    next
      case False
      then have r: "r < 7" using Cons.prems by simp
      have "match_loop vmask ignore (push_bit (7 - Suc r) 1) p xs ys' \<longleftrightarrow> ?rest"
        using Cons.IH[of "Suc r" p ys'] r by (simp add: Q_def)
      then show ?thesis
        unfolding Cons match_loop.simps(1) mask_step(1)[OF Cons.prems] mask_step(2)[OF r] using q False by auto
    qed
    then show ?thesis using all unfolding Q_def by blast
  qed simp
qed simp

lemma family_match_iff:
  "length (viewSubtree vp) \<le> length n \<Longrightarrow> family_match vp ignore n \<longleftrightarrow>
     (\<forall>i<length (viewSubtree vp). ignore \<or> significant (viewMask vp) i \<longrightarrow> n ! i = viewSubtree vp ! i)"
  using match_loop_spec[of 0 "viewMask vp" ignore 0 n "viewSubtree vp"]
  by (simp add: family_match_def push_bit_eq_mult min_absorb2)

text \<open>A family of the view covers a name when it agrees with it in every significant position.\<close>

definition family_covers :: "cstring \<Rightarrow> oid \<Rightarrow> vacm_viewEntry \<Rightarrow> bool" where
  "family_covers view n vp \<longleftrightarrow> viewName vp = view \<and> length (viewSubtree vp) \<le> length n \<and>
     (\<forall>i<length (viewSubtree vp). significant (viewMask vp) i \<longrightarrow> n ! i = viewSubtree vp ! i)"

section \<open>The best match\<close>

text \<open>Names of views are shorter than 32 bytes, so the counting byte determines their length.\<close>

definition vacm_ok :: "vacm_viewEntry list \<Rightarrow> bool" where
  "vacm_ok head \<longleftrightarrow> (\<forall>vp\<in>set head. length (viewName vp) < VACM_MAX_STRING)"

lemma counted_eq:
  assumes "length a < VACM_MAX_STRING" "length b < VACM_MAX_STRING"
  shows "memcmp (counted a) (counted b) = 0 \<longleftrightarrow> a = b"
proof (cases "length a = length b")
  case True
  then show ?thesis by (simp add: counted_def memcmp_zero)
next
  case False
  have "unat (of_nat k :: u8) = k" if "k < 32" for k using that by (simp add: unat_of_nat take_bit_nat_eq_self)
  then have "(of_nat (length a) :: u8) \<noteq> of_nat (length b)"
    using False assms by (metis VACM_MAX_STRING_def)
  then show ?thesis using False by (auto simp: counted_def)
qed

definition candidate :: "cstring \<Rightarrow> oid \<Rightarrow> vacm_viewEntry \<Rightarrow> bool" where
  "candidate view n vp \<longleftrightarrow> viewName vp = view \<and> length (viewSubtree vp) \<le> length n \<and> family_match vp False n"

lemma candidate_covers: "candidate view n vp \<longleftrightarrow> family_covers view n vp"
  using family_match_iff[of vp n False] by (auto simp: candidate_def family_covers_def)

definition best :: "vacm_viewEntry option \<Rightarrow> vacm_viewEntry list \<Rightarrow> vacm_viewEntry option" where
  "best acc vps = fold (\<lambda>vp r. if better vp r then Some vp else r) vps acc"

lemma best_simps [simp]: "best acc [] = acc" "best acc (vp # vps) = best (if better vp acc then Some vp else acc) vps"
  by (simp_all add: best_def)

definition at_most :: "vacm_viewEntry \<Rightarrow> vacm_viewEntry \<Rightarrow> bool" where
  "at_most u v \<longleftrightarrow> length (viewSubtree u) < length (viewSubtree v) \<or>
     length (viewSubtree u) = length (viewSubtree v) \<and> viewSubtree u \<le> viewSubtree v"

lemma better_Some: "better u (Some v) \<longleftrightarrow> \<not> at_most u v"
  by (auto simp: better_def at_most_def snmp_oid_compare_order oid_order_def)

lemma at_most_trans: "at_most u v \<Longrightarrow> at_most v w \<Longrightarrow> at_most u w"
  by (auto simp: at_most_def)

lemma at_most_refl: "at_most u u"
  by (simp add: at_most_def)

lemma at_most_total: "\<not> at_most u v \<Longrightarrow> at_most v u"
  by (auto simp: at_most_def)

lemma best_Some:
  "\<exists>v. best (Some a) vps = Some v \<and> (v = a \<or> v \<in> set vps) \<and> at_most a v \<and> (\<forall>u\<in>set vps. at_most u v)"
proof (induction vps arbitrary: a)
  case (Cons vp vps)
  show ?case
  proof (cases "at_most vp a")
    case True
    then show ?thesis using Cons.IH[of a] by (auto simp: better_Some intro: at_most_trans)
  next
    case False
    then show ?thesis using Cons.IH[of vp] by (auto simp: better_Some intro: at_most_trans dest: at_most_total)
  qed
qed (simp add: at_most_refl)

lemma best_None:
  "case best None vps of None \<Rightarrow> vps = [] | Some v \<Rightarrow> v \<in> set vps \<and> (\<forall>u\<in>set vps. at_most u v)"
proof (cases vps)
  case (Cons vp vps')
  then show ?thesis using best_Some[of vp vps'] by (auto simp: better_def)
qed simp

lemma view_get_loop_best:
  assumes "vacm_ok vps" "length view < VACM_MAX_STRING"
  shows "fst (view_get_loop vps view n VACM_MODE_FIND acc c) = best acc (filter (candidate view n) vps)"
  using assms(1)
proof (induction vps arbitrary: acc c)
  case (Cons vp vps)
  then have "memcmp (counted view) (counted (viewName vp)) = 0 \<longleftrightarrow> viewName vp = view"
    using assms(2) counted_eq[of view "viewName vp"] by (auto simp: vacm_ok_def)
  then show ?case using Cons by (auto simp: candidate_def vacm_ok_def)
qed simp

lemma view_get_best:
  "vacm_ok head \<Longrightarrow> length view < VACM_MAX_STRING \<Longrightarrow>
     netsnmp_view_get head view n VACM_MODE_FIND = best None (filter (candidate view n) head)"
  using view_get_loop_best[of head view n None 0] by (cases "view_get_loop head view n VACM_MODE_FIND None 0") (simp add: netsnmp_view_get_def)

section \<open>Subtrees\<close>

lemma match_loop_append: "length ys \<le> length xs \<Longrightarrow> match_loop m i b p (xs @ zs) ys = match_loop m i b p xs ys"
proof (induction m i b p xs ys rule: match_loop.induct)
  case (1 m i b p x xs y ys)
  then show ?case by auto
qed auto

lemma match_loop_prefix: "match_loop m i b p (xs @ zs) ys \<Longrightarrow> match_loop m i b p xs ys"
proof (induction m i b p xs ys rule: match_loop.induct)
  case (1 m i b p x xs y ys)
  then show ?case by (auto split: if_splits)
qed auto

text \<open>The families that are longer than the subtree and may cut into it.\<close>

definition cuts :: "cstring \<Rightarrow> oid \<Rightarrow> vacm_viewEntry \<Rightarrow> bool" where
  "cuts view n vp \<longleftrightarrow> viewName vp = view \<and> length n < length (viewSubtree vp) \<and> family_match vp False n"

lemma candidate_extension:
  assumes "prefix n x"
  shows "candidate view x vp \<longleftrightarrow> candidate view n vp \<or> candidate view x vp \<and> cuts view n vp"
proof -
  obtain z where x: "x = n @ z" using assms by (auto elim: prefixE)
  show ?thesis
    using match_loop_append[of "viewSubtree vp" n "viewMask vp" False "0x80" 0 z]
      match_loop_prefix[of "viewMask vp" False "0x80" 0 n z "viewSubtree vp"]
    by (auto simp: candidate_def cuts_def family_match_def x)
qed

lemma subtree_loop_result:
  assumes "vacm_ok vps" "length view < VACM_MAX_STRING" "subtree_loop vps view n sh lo = Some (sh', lo')"
  shows "sh' = best sh (filter (candidate view n) vps) \<and> (lo \<noteq> None \<longrightarrow> lo' = lo) \<and>
    (\<forall>vp\<in>set vps. cuts view n vp \<longrightarrow> (\<exists>l. lo' = Some l \<and> viewType l = viewType vp))"
  using assms(1,3)
proof (induction vps arbitrary: sh lo)
  case (Cons vp vps)
  have ok: "vacm_ok vps" "memcmp (counted view) (counted (viewName vp)) = 0 \<longleftrightarrow> viewName vp = view"
    using Cons.prems(1) assms(2) counted_eq[of view "viewName vp"] by (auto simp: vacm_ok_def)
  show ?case
  proof (cases "viewName vp = view \<and> family_match vp False n")
    case False
    then show ?thesis using Cons.IH[OF ok(1)] Cons.prems(2) ok(2) by (auto simp: candidate_def cuts_def)
  next
    case m: True
    show ?thesis
    proof (cases "length n \<ge> length (viewSubtree vp)")
      case True
      then have "candidate view n vp" "\<not> cuts view n vp" using m by (auto simp: candidate_def cuts_def)
      then show ?thesis using Cons.IH[OF ok(1)] Cons.prems(2) ok(2) m True by auto
    next
      case False
      then have c: "\<not> candidate view n vp" "cuts view n vp" using m by (auto simp: candidate_def cuts_def)
      show ?thesis
      proof (cases lo)
        case None
        then show ?thesis using Cons.IH[OF ok(1), of sh "Some vp"] Cons.prems(2) ok(2) m False c by auto
      next
        case (Some l)
        then show ?thesis using Cons.IH[OF ok(1), of sh lo] Cons.prems(2) ok(2) m False c by (auto split: if_splits)
      qed
    qed
  qed
qed simp

text \<open>When the check gives an answer, every name of the subtree has a best match of that kind.\<close>

definition in_view :: "vacm_viewEntry list \<Rightarrow> cstring \<Rightarrow> oid \<Rightarrow> bool" where
  "in_view head view x \<longleftrightarrow> (case netsnmp_view_get head view x VACM_MODE_FIND of
     None \<Rightarrow> False | Some vp \<Rightarrow> viewType vp \<noteq> SNMP_VIEW_EXCLUDED)"

lemma subtree_check_sound:
  assumes ok: "vacm_ok head" "length view < VACM_MAX_STRING" and x: "prefix n x"
    and known: "netsnmp_view_subtree_check head view n \<noteq> VACM_SUBTREE_UNKNOWN"
  shows "in_view head view x \<longleftrightarrow> netsnmp_view_subtree_check head view n = VACM_SUCCESS"
proof -
  obtain sh lo where l: "subtree_loop head view n None None = Some (sh, lo)"
    using known ok(2) by (auto simp: netsnmp_view_subtree_check_def split: option.splits)
  note r = subtree_loop_result[OF ok l]
  have agree: "case lo of None \<Rightarrow> True | Some l \<Rightarrow>
      (case sh of None \<Rightarrow> viewType l = SNMP_VIEW_EXCLUDED | Some s \<Rightarrow> viewType l = viewType s)"
    using known ok(2) by (auto simp: netsnmp_view_subtree_check_def l split: option.splits if_splits)
  have suc: "netsnmp_view_subtree_check head view n = VACM_SUCCESS \<longleftrightarrow>
      (case sh of None \<Rightarrow> False | Some s \<Rightarrow> viewType s \<noteq> SNMP_VIEW_EXCLUDED)"
    using known ok(2) by (auto simp: netsnmp_view_subtree_check_def l split: option.splits if_splits)
  define C where "C = filter (candidate view x) head"
  have g: "netsnmp_view_get head view x VACM_MODE_FIND = best None C" using view_get_best[OF ok] by (simp add: C_def)
  show ?thesis
  proof (cases "\<exists>w\<in>set C. cuts view n w")
    case True
    then obtain w v where w: "w \<in> set C" "cuts view n w" "best None C = Some v" "v \<in> set C" "at_most w v"
      using best_None[of C] by (fastforce split: option.splits)
    then have "length n < length (viewSubtree v)" by (auto simp: cuts_def at_most_def)
    moreover have "candidate view x v" using w(4) by (simp add: C_def)
    ultimately have "cuts view n v"
      using candidate_extension[OF x, of view v] by (auto simp: candidate_def)
    then obtain l where "lo = Some l" "viewType l = viewType v" using r w(4) by (auto simp: C_def)
    then show ?thesis using agree w(3) by (auto simp: in_view_def g suc split: option.splits)
  next
    case False
    then have "C = filter (candidate view n) head"
      unfolding C_def using candidate_extension[OF x, of view] by (auto intro!: filter_cong)
    then show ?thesis using r by (simp add: in_view_def g suc)
  qed
qed

text \<open>Either the decision is made before the view is looked at, or the view of an access entry makes it.\<close>

lemma view_decision_cases:
  fixes st known sn ctx model level n viewtype dne x
  defines "check \<equiv> \<lambda>m b. vacm_check_view_contents st known sn ctx model level (Some m) b viewtype dne"
  obtains "check n True \<noteq> VACM_SUCCESS" "check n True \<noteq> VACM_NOTINVIEW"
    | ap where "ap \<in> set (accessList st)" "0 \<le> viewtype" "viewtype < VACM_MAX_VIEWS"
      "check n True = netsnmp_view_subtree_check (viewList st) (views ap ! nat viewtype) n"
      "check x False = VACM_SUCCESS \<longleftrightarrow> in_view (viewList st) (views ap ! nat viewtype) x"
proof (cases "\<exists>s gp ap. sn = Some s \<and> \<not> length ctx > CONTEXTNAMEINDEXLEN \<and> (dne \<or> known ctx) \<and>
    vacm_getGroupEntry (groupList st) model s = Some gp \<and>
    vacm_getAccessEntry (accessList st) (g_groupName gp) ctx model level = Some ap \<and> 0 \<le> viewtype \<and> viewtype < VACM_MAX_VIEWS")
  case True
  then obtain s gp ap where h: "sn = Some s" "\<not> length ctx > CONTEXTNAMEINDEXLEN" "dne \<or> known ctx"
    "vacm_getGroupEntry (groupList st) model s = Some gp"
    "vacm_getAccessEntry (accessList st) (g_groupName gp) ctx model level = Some ap" "0 \<le> viewtype" "viewtype < VACM_MAX_VIEWS"
    by blast
  have "ap \<in> set (accessList st)" using h(5) by (auto simp: vacm_getAccessEntry_def find_Some_iff split: if_splits)
  then show ?thesis
    using h by (intro that(2)) (auto simp: check_def vacm_check_view_contents_def in_view_def split: option.splits)
next
  case False
  then show ?thesis
    by (intro that(1)) (auto simp: check_def vacm_check_view_contents_def not_le split: option.splits if_splits)
qed

end
