(* ===== verification/Vacm_Tables.thy ===== *)
theory Vacm_Tables
  imports Vacm "HOL-Library.Product_Lexorder" "HOL-Library.Multiset"
begin

text \<open>
  The tables of access control as sorted lists: the loops that link a new entry keep the order of its key, and the
  first entry that a lookup finds is the one with the least key.
\<close>

section \<open>A sorted table\<close>

lemma length_link_after [simp]: "length (link_after P e ls) = Suc (length ls)"
  by (induction ls) auto

text \<open>What the loops that create an entry need of their test, on entries whose strings are short enough (\<open>ok\<close>).\<close>

locale key_table =
  fixes key :: "'e \<Rightarrow> 'k::linorder"
    and ok :: "'e \<Rightarrow> bool"
    and before :: "'e \<Rightarrow> 'e \<Rightarrow> bool"
  assumes before_key: "ok l \<Longrightarrow> ok e \<Longrightarrow> before l e \<longleftrightarrow> key l \<le> key e"
begin

lemma link_set: "set (link_after P e ls) = insert e (set ls)"
  by (induction ls) auto

lemma link_mset: "mset (link_after P e ls) = add_mset e (mset ls)"
  by (induction ls) auto

lemma link_sorted:
  assumes "\<forall>l\<in>set ls. ok l" "ok e" "sorted (map key ls)"
  shows "sorted (map key (link_after (\<lambda>l. before l e) e ls))"
  using assms by (induction ls) (auto simp: link_set before_key)

lemma unlink_in: "l \<in> set (unlink_first P ls) \<Longrightarrow> l \<in> set ls"
  by (induction ls) (auto split: if_splits)

lemma unlink_sorted: "sorted (map key ls) \<Longrightarrow> sorted (map key (unlink_first P ls))"
  by (induction ls) (auto dest: unlink_in)

lemma update_sorted:
  assumes "sorted (map key ls)" "i < length ls" "key e = key (ls ! i)"
  shows "sorted (map key (ls[i := e]))"
  using assms by (metis list_update_id map_update nth_map)

lemma find_least:
  assumes "sorted (map key ls)" "List.find P ls = Some v" "u \<in> set ls" "P u"
  shows "key v \<le> key u"
proof -
  obtain i where i: "i < length ls" "v = ls ! i" "\<forall>j<i. \<not> P (ls ! j)" using assms(2) by (auto simp: find_Some_iff)
  obtain k where k: "k < length ls" "u = ls ! k" using assms(3) by (auto simp: in_set_conv_nth)
  then have "i \<le> k" using i(3) assms(4) by (meson not_le)
  then show ?thesis using assms(1) i k by (auto simp: sorted_iff_nth_mono)
qed

end

section \<open>The order of counted strings\<close>

definition short :: "cstring \<Rightarrow> bool" where
  "short s \<longleftrightarrow> length s < VACM_MAX_STRING"

lemma memcmp_counted:
  assumes "short a" "short b"
  shows "memcmp (counted a) (counted b) =
    (if counted a < counted b then - 1 else if counted a = counted b then 0 else 1)"
proof (cases "length a = length b")
  case True
  then show ?thesis using memcmp_order[of "counted a" "counted b"] by (simp add: counted_def)
next
  case False
  have "unat (of_nat k :: u8) = k" if "k < 32" for k using that by (simp add: unat_of_nat take_bit_nat_eq_self)
  then have "(of_nat (length a) :: u8) \<noteq> of_nat (length b)"
    using False assms by (metis VACM_MAX_STRING_def short_def)
  then show ?thesis by (simp add: counted_def)
qed

lemma counted_less: "short a \<Longrightarrow> short b \<Longrightarrow> counted a < counted b \<longleftrightarrow> length a < length b \<or> length a = length b \<and> a < b"
proof -
  assume "short a" "short b"
  moreover have "unat (of_nat k :: u8) = k" if "k < 32" for k using that by (simp add: unat_of_nat take_bit_nat_eq_self)
  ultimately have u: "unat (of_nat (length a) :: u8) = length a" "unat (of_nat (length b) :: u8) = length b"
    by (simp_all add: VACM_MAX_STRING_def short_def)
  then have "(of_nat (length a) :: u8) < of_nat (length b) \<longleftrightarrow> length a < length b" by (simp add: word_less_nat_alt)
  moreover have "(of_nat (length a) :: u8) = of_nat (length b) \<longleftrightarrow> length a = length b" using u by metis
  ultimately show ?thesis by (auto simp: counted_def)
qed

section \<open>The three tables\<close>

definition view_key :: "vacm_viewEntry \<Rightarrow> u8 list \<times> oid" where
  "view_key vp = (counted (viewName vp), of_nat (length (viewSubtree vp)) # viewSubtree vp)"

definition group_key :: "vacm_groupEntry \<Rightarrow> int \<times> u8 list" where
  "group_key gp = (g_securityModel gp, counted (g_securityName gp))"

definition access_key :: "vacm_accessEntry \<Rightarrow> u8 list \<times> u8 list \<times> int \<times> int" where
  "access_key ap = (counted (a_groupName ap), counted (contextPrefix ap), a_securityModel ap, a_securityLevel ap)"

definition view_short :: "vacm_viewEntry \<Rightarrow> bool" where "view_short vp = short (viewName vp)"
definition group_short :: "vacm_groupEntry \<Rightarrow> bool" where "group_short gp = short (g_securityName gp)"
definition access_short :: "vacm_accessEntry \<Rightarrow> bool" where
  "access_short ap \<longleftrightarrow> short (a_groupName ap) \<and> short (contextPrefix ap)"

interpretation view_table: key_table view_key view_short view_before
  by unfold_locales
    (auto simp: view_before_def view_key_def view_short_def memcmp_counted snmp_oid_compare_order oid_order_def Let_def
      split: if_splits)

interpretation group_table: key_table group_key group_short group_before
  by unfold_locales (auto simp: group_before_def group_key_def group_short_def memcmp_counted split: if_splits)

interpretation access_table: key_table access_key access_short access_before
  by unfold_locales
    (auto simp: access_before_def access_key_def access_short_def memcmp_counted Let_def split: if_splits)

section \<open>The life of the tables\<close>

text \<open>
  A store is reached from the empty one by the operations of \<^verbatim>\<open>vacm.c\<close> and by what their callers do with the entry
  they get: they fill in the fields that are not part of the key.
\<close>

inductive vacm_reachable :: "vacm_store \<Rightarrow> bool" where
  start: "vacm_reachable \<lparr>groupList = [], accessList = [], viewList = []\<rparr>"
| create_view: "vacm_reachable st \<Longrightarrow> vacm_reachable (st\<lparr>viewList := snd (netsnmp_view_create (viewList st) v n)\<rparr>)"
| destroy_view: "vacm_reachable st \<Longrightarrow> vacm_reachable (st\<lparr>viewList := netsnmp_view_destroy (viewList st) v n\<rparr>)"
| fill_view: "vacm_reachable st \<Longrightarrow> i < length (viewList st) \<Longrightarrow>
    vacm_reachable (st\<lparr>viewList := (viewList st)[i := (viewList st ! i)\<lparr>viewMask := vmask, viewType := t\<rparr>]\<rparr>)"
| create_group: "vacm_reachable st \<Longrightarrow> vacm_reachable (st\<lparr>groupList := snd (vacm_createGroupEntry (groupList st) m s)\<rparr>)"
| destroy_group: "vacm_reachable st \<Longrightarrow> vacm_reachable (st\<lparr>groupList := vacm_destroyGroupEntry (groupList st) m s\<rparr>)"
| fill_group: "vacm_reachable st \<Longrightarrow> i < length (groupList st) \<Longrightarrow>
    vacm_reachable (st\<lparr>groupList := (groupList st)[i := (groupList st ! i)\<lparr>g_groupName := g\<rparr>]\<rparr>)"
| create_access: "vacm_reachable st \<Longrightarrow>
    vacm_reachable (st\<lparr>accessList := snd (vacm_createAccessEntry (accessList st) g c m l)\<rparr>)"
| destroy_access: "vacm_reachable st \<Longrightarrow>
    vacm_reachable (st\<lparr>accessList := vacm_destroyAccessEntry (accessList st) g c m l\<rparr>)"
| fill_access: "vacm_reachable st \<Longrightarrow> i < length (accessList st) \<Longrightarrow> length vs = 8 \<Longrightarrow> \<forall>v\<in>set vs. short v \<Longrightarrow>
    vacm_reachable (st\<lparr>accessList := (accessList st)[i := (accessList st ! i)\<lparr>contextMatch := x, views := vs\<rparr>]\<rparr>)"

definition tables_ok :: "vacm_store \<Rightarrow> bool" where
  "tables_ok st \<longleftrightarrow> sorted (map view_key (viewList st)) \<and> sorted (map group_key (groupList st)) \<and>
     sorted (map access_key (accessList st)) \<and> (\<forall>vp\<in>set (viewList st). view_short vp) \<and>
     (\<forall>gp\<in>set (groupList st). group_short gp) \<and>
     (\<forall>ap\<in>set (accessList st). access_short ap \<and> length (views ap) = 8 \<and> (\<forall>v\<in>set (views ap). short v))"

lemma set_updateD: "x \<in> set (xs[i := y]) \<Longrightarrow> x = y \<or> x \<in> set xs"
  using set_update_subset_insert by fastforce

lemma tables_ok_views:
  "tables_ok st \<Longrightarrow> sorted (map view_key vs) \<Longrightarrow> \<forall>vp\<in>set vs. view_short vp \<Longrightarrow> tables_ok (st\<lparr>viewList := vs\<rparr>)"
  by (simp add: tables_ok_def)

lemma tables_ok_groups:
  "tables_ok st \<Longrightarrow> sorted (map group_key gs) \<Longrightarrow> \<forall>gp\<in>set gs. group_short gp \<Longrightarrow> tables_ok (st\<lparr>groupList := gs\<rparr>)"
  by (simp add: tables_ok_def)

lemma tables_ok_accesses:
  "tables_ok st \<Longrightarrow> sorted (map access_key as) \<Longrightarrow>
     \<forall>ap\<in>set as. access_short ap \<and> length (views ap) = 8 \<and> (\<forall>v\<in>set (views ap). short v) \<Longrightarrow>
     tables_ok (st\<lparr>accessList := as\<rparr>)"
  by (simp add: tables_ok_def)

lemma vacm_reachable_ok: "vacm_reachable st \<Longrightarrow> tables_ok st"
proof (induction rule: vacm_reachable.induct)
  case start
  show ?case by (simp add: tables_ok_def)
next
  case (create_view st v n)
  let ?vp = "\<lparr>viewName = v, viewSubtree = n, viewMask = [], viewType = 0\<rparr>"
  show ?case
    using create_view.IH view_table.link_sorted[of "viewList st" ?vp]
    by (intro tables_ok_views) (auto simp: netsnmp_view_create_def Let_def view_table.link_set tables_ok_def view_short_def short_def)
next
  case (destroy_view st v n)
  then show ?case
    by (intro tables_ok_views)
      (auto simp: netsnmp_view_destroy_def tables_ok_def dest: view_table.unlink_in intro: view_table.unlink_sorted)
next
  case (fill_view st i vmask t)
  then show ?case
    by (intro tables_ok_views view_table.update_sorted)
      (auto simp: tables_ok_def view_key_def view_short_def dest!: set_updateD)
next
  case (create_group st m s)
  let ?gp = "\<lparr>g_securityModel = m, g_securityName = s, g_groupName = []\<rparr>"
  show ?case
    using create_group.IH group_table.link_sorted[of "groupList st" ?gp]
    by (intro tables_ok_groups) (auto simp: vacm_createGroupEntry_def Let_def group_table.link_set tables_ok_def group_short_def short_def)
next
  case (destroy_group st m s)
  then show ?case
    by (intro tables_ok_groups)
      (auto simp: vacm_destroyGroupEntry_def tables_ok_def dest: group_table.unlink_in intro: group_table.unlink_sorted)
next
  case (fill_group st i g)
  then show ?case
    by (intro tables_ok_groups group_table.update_sorted)
      (auto simp: tables_ok_def group_key_def group_short_def dest!: set_updateD)
next
  case (create_access st g c m l)
  let ?ap = "\<lparr>a_groupName = g, contextPrefix = c, a_securityModel = m, a_securityLevel = l, contextMatch = 0,
    views = replicate (nat VACM_MAX_VIEWS) []\<rparr>"
  show ?case
    using create_access.IH access_table.link_sorted[of "accessList st" ?ap]
    by (intro tables_ok_accesses)
      (auto simp: vacm_createAccessEntry_def Let_def access_table.link_set tables_ok_def access_short_def short_def
        VACM_MAX_VIEWS_def VACM_MAX_STRING_def split: if_splits)
next
  case (destroy_access st g c m l)
  then show ?case
    by (intro tables_ok_accesses)
      (auto simp: vacm_destroyAccessEntry_def tables_ok_def dest: access_table.unlink_in intro: access_table.unlink_sorted)
next
  case (fill_access st i vs x)
  then show ?case
    by (intro tables_ok_accesses access_table.update_sorted)
      (auto simp: tables_ok_def access_key_def access_short_def dest!: set_updateD)
qed

section \<open>Lookups\<close>

text \<open>An access entry applies to a request; this is the set step 1 of the selection in the MIB starts with.\<close>

definition applies :: "cstring \<Rightarrow> cstring \<Rightarrow> int \<Rightarrow> int \<Rightarrow> vacm_accessEntry \<Rightarrow> bool" where
  "applies grp context model level ap \<longleftrightarrow> a_groupName ap = grp \<and>
     (a_securityModel ap = model \<or> a_securityModel ap = SNMP_SEC_MODEL_ANY) \<and> a_securityLevel ap \<le> level \<and>
     (contextMatch ap = CONTEXT_MATCH_EXACT \<and> contextPrefix ap = context \<or>
      contextMatch ap = CONTEXT_MATCH_PREFIX \<and> prefix (contextPrefix ap) context)"

lemma context_matches_iff:
  "context_matches ap context \<longleftrightarrow> contextMatch ap = CONTEXT_MATCH_EXACT \<and> contextPrefix ap = context \<or>
     contextMatch ap = CONTEXT_MATCH_PREFIX \<and> prefix (contextPrefix ap) context"
proof -
  have "length context = length p \<and> memcmp (counted p) (counted context) = 0 \<longleftrightarrow> p = context" for p
  proof (cases "length p = length context")
    case True
    then show ?thesis using memcmp_zero[OF True] by (simp add: counted_def)
  qed auto
  moreover have "length context \<ge> length p \<and> memcmp p (take (length p) context) = 0 \<longleftrightarrow> prefix p context" for p
    using memcmp_zero[of p "take (length p) context"] unfolding prefix_iff_take by (cases "length p \<le> length context") auto
  ultimately show ?thesis by (simp add: context_matches_def)
qed

lemma getAccessEntry_find:
  assumes "tables_ok st" "short grp" "short context"
  shows "vacm_getAccessEntry (accessList st) grp context model level =
    List.find (applies grp context model level) (accessList st)"
proof -
  have "memcmp (counted (a_groupName ap)) (counted grp) = 0 \<longleftrightarrow> a_groupName ap = grp" if "ap \<in> set (accessList st)" for ap
    using assms that counted_eq[of "a_groupName ap" grp] by (auto simp: tables_ok_def access_short_def short_def)
  then show ?thesis
    using assms(2,3) by (auto simp: vacm_getAccessEntry_def short_def applies_def context_matches_iff intro!: find_cong)
qed

lemma getAccessEntry_least:
  assumes "tables_ok st" "short grp" "short context"
  shows "case vacm_getAccessEntry (accessList st) grp context model level of
      None \<Rightarrow> \<forall>u\<in>set (accessList st). \<not> applies grp context model level u
    | Some ap \<Rightarrow> ap \<in> set (accessList st) \<and> applies grp context model level ap \<and>
        (\<forall>u\<in>set (accessList st). applies grp context model level u \<longrightarrow> access_key ap \<le> access_key u)"
proof (cases "List.find (applies grp context model level) (accessList st)")
  case None
  then have "\<forall>u\<in>set (accessList st). \<not> applies grp context model level u" by (auto simp: find_None_iff)
  then show ?thesis unfolding getAccessEntry_find[OF assms] None by simp
next
  case (Some ap)
  have "sorted (map access_key (accessList st))" using assms(1) by (simp add: tables_ok_def)
  note least = access_table.find_least[OF this Some]
  from Some have "ap \<in> set (accessList st)" "applies grp context model level ap" by (auto simp: find_Some_iff)
  with least show ?thesis unfolding getAccessEntry_find[OF assms] Some by simp
qed

text \<open>Entries of one group: shorter prefixes come first, then smaller models, then lower levels.\<close>

lemma access_key_order:
  assumes "short (contextPrefix a)" "short (contextPrefix b)" "a_groupName a = a_groupName b"
  shows "access_key a \<le> access_key b \<longleftrightarrow>
    length (contextPrefix a) < length (contextPrefix b) \<or>
    length (contextPrefix a) = length (contextPrefix b) \<and>
      (contextPrefix a < contextPrefix b \<or> contextPrefix a = contextPrefix b \<and>
        (a_securityModel a < a_securityModel b \<or>
         a_securityModel a = a_securityModel b \<and> a_securityLevel a \<le> a_securityLevel b))"
  using counted_less[OF assms(1,2)] assms(3) by (auto simp: access_key_def counted_def)

text \<open>Two prefixes of the same context are equal when they have the same length.\<close>

lemma applies_same_length:
  "applies g c m l a \<Longrightarrow> applies g c m l b \<Longrightarrow> length (contextPrefix a) = length (contextPrefix b) \<Longrightarrow>
     contextPrefix a = contextPrefix b"
proof -
  assume a: "applies g c m l a" "applies g c m l b" "length (contextPrefix a) = length (contextPrefix b)"
  then have "prefix (contextPrefix a) c" "prefix (contextPrefix b) c" by (auto simp: applies_def)
  then have "contextPrefix a = take (length (contextPrefix a)) c" "contextPrefix b = take (length (contextPrefix b)) c"
    by (simp_all add: prefix_iff_take)
  with a(3) show ?thesis by metis
qed

lemma applies_order:
  assumes "tables_ok st" "a \<in> set (accessList st)" "b \<in> set (accessList st)" "applies g c m l a" "applies g c m l b"
  shows "access_key a \<le> access_key b \<longleftrightarrow>
    length (contextPrefix a) < length (contextPrefix b) \<or>
    length (contextPrefix a) = length (contextPrefix b) \<and>
      (a_securityModel a < a_securityModel b \<or>
       a_securityModel a = a_securityModel b \<and> a_securityLevel a \<le> a_securityLevel b)"
proof -
  have "short (contextPrefix a)" "short (contextPrefix b)" "a_groupName a = a_groupName b"
    using assms by (auto simp: tables_ok_def access_short_def applies_def)
  note o = access_key_order[OF this]
  show ?thesis using applies_same_length[OF assms(4,5)] by (auto simp: o)
qed

end
