(* ===== verification/Scapi.thy ===== *)
theory Scapi
  imports Oid
begin

unbundle bit_operations_syntax

text \<open>
  The interface to the cryptographic library (\<^verbatim>\<open>snmplib/scapi.c\<close>), in the configuration that uses OpenSSL. What OpenSSL
  computes is a parameter: the record \<open>openssl\<close> has its digests, its keyed digests and the two ciphers, as functions of the key,
  the initialisation vector and the text; the encryption with DES gives the next vector too. A key, a message or a
  digest is the list of its bytes; NULL pointers are not passed. \<open>None\<close> is an error return.
\<close>

datatype evp_md = EVP_md5 | EVP_sha1

record openssl =
  EVP_Digest :: "evp_md \<Rightarrow> u8 list \<Rightarrow> u8 list"
  HMAC :: "evp_md \<Rightarrow> u8 list \<Rightarrow> u8 list \<Rightarrow> u8 list"
  DES_ncbc_encrypt :: "u8 list \<Rightarrow> u8 list \<Rightarrow> u8 list \<Rightarrow> u8 list \<times> u8 list"
  DES_cbc_decrypt :: "u8 list \<Rightarrow> u8 list \<Rightarrow> u8 list \<Rightarrow> u8 list"
  AES_cfb128_encrypt :: "u8 list \<Rightarrow> u8 list \<Rightarrow> u8 list \<Rightarrow> u8 list"
  AES_cfb128_decrypt :: "u8 list \<Rightarrow> u8 list \<Rightarrow> u8 list \<Rightarrow> u8 list"

definition USM_LENGTH_OID_TRANSFORM :: nat where "USM_LENGTH_OID_TRANSFORM = 10"
definition USM_MD5_AND_SHA_AUTH_LEN :: nat where "USM_MD5_AND_SHA_AUTH_LEN = 12"
definition SNMP_MAXBUF :: nat where "SNMP_MAXBUF = 4096"
definition SNMP_MAXBUF_SMALL :: nat where "SNMP_MAXBUF_SMALL = 512"

definition usmNoAuthProtocol :: oid where "usmNoAuthProtocol = [1, 3, 6, 1, 6, 3, 10, 1, 1, 1]"
definition usmHMACMD5AuthProtocol :: oid where "usmHMACMD5AuthProtocol = [1, 3, 6, 1, 6, 3, 10, 1, 1, 2]"
definition usmHMACSHA1AuthProtocol :: oid where "usmHMACSHA1AuthProtocol = [1, 3, 6, 1, 6, 3, 10, 1, 1, 3]"
definition usmNoPrivProtocol :: oid where "usmNoPrivProtocol = [1, 3, 6, 1, 6, 3, 10, 1, 2, 1]"
definition usmDESPrivProtocol :: oid where "usmDESPrivProtocol = [1, 3, 6, 1, 6, 3, 10, 1, 2, 2]"
definition usmAESPrivProtocol :: oid where "usmAESPrivProtocol = [1, 3, 6, 1, 6, 3, 10, 1, 2, 4]"

lemmas protocol_defs = usmNoAuthProtocol_def usmHMACMD5AuthProtocol_def usmHMACSHA1AuthProtocol_def usmNoPrivProtocol_def
  usmDESPrivProtocol_def usmAESPrivProtocol_def

definition ISTRANSFORM :: "oid \<Rightarrow> oid \<Rightarrow> bool" where
  "ISTRANSFORM ttype toid \<longleftrightarrow>
     snmp_oid_compare (take USM_LENGTH_OID_TRANSFORM ttype) (take USM_LENGTH_OID_TRANSFORM toid) = 0"

lemma ISTRANSFORM_iff:
  "length ttype = 10 \<Longrightarrow> length toid = 10 \<Longrightarrow> ISTRANSFORM ttype toid \<longleftrightarrow> ttype = toid"
  by (simp add: ISTRANSFORM_def USM_LENGTH_OID_TRANSFORM_def snmp_oid_compare_order)

definition BYTESIZE :: "nat \<Rightarrow> nat" where
  "BYTESIZE bitsize = (bitsize + 7) div 8"

definition sc_get_properlength :: "oid \<Rightarrow> nat option" where
  "sc_get_properlength hashtype =
     (if ISTRANSFORM hashtype usmHMACMD5AuthProtocol then Some (BYTESIZE 128)
      else if ISTRANSFORM hashtype usmHMACSHA1AuthProtocol then Some (BYTESIZE 160)
      else None)"

definition sc_get_proper_priv_length :: "oid \<Rightarrow> nat" where
  "sc_get_proper_priv_length privtype =
     (let properlength = (if ISTRANSFORM privtype usmDESPrivProtocol then BYTESIZE 64 else 0)
      in if ISTRANSFORM privtype usmAESPrivProtocol then BYTESIZE 128 else properlength)"

definition sc_hash :: "openssl \<Rightarrow> oid \<Rightarrow> u8 list \<Rightarrow> nat \<Rightarrow> u8 list option" where
  "sc_hash ssl hashtype buf MAC_len =
     (if buf = [] then None
      else case sc_get_properlength hashtype of
        None \<Rightarrow> None
      | Some ret \<Rightarrow>
          if MAC_len < ret then None
          else if ISTRANSFORM hashtype usmHMACMD5AuthProtocol then Some (EVP_Digest ssl EVP_md5 buf)
          else if ISTRANSFORM hashtype usmHMACSHA1AuthProtocol then Some (EVP_Digest ssl EVP_sha1 buf)
          else None)"

text \<open>
  The test \<^verbatim>\<open>buf_len != properlength\<close> of the code leaves by \<^verbatim>\<open>QUITFUN(rval, ...)\<close> with a successful \<^verbatim>\<open>rval\<close>, which does
  not leave at all.
\<close>

definition sc_generate_keyed_hash :: "openssl \<Rightarrow> oid \<Rightarrow> u8 list \<Rightarrow> u8 list \<Rightarrow> nat \<Rightarrow> u8 list option" where
  "sc_generate_keyed_hash ssl authtype key message maclen =
     (if key = [] \<or> message = [] \<or> maclen = 0 \<or> length authtype \<noteq> USM_LENGTH_OID_TRANSFORM then None
      else case sc_get_properlength authtype of
        None \<Rightarrow> None
      | Some properlength \<Rightarrow>
          if length key < properlength then None
          else if ISTRANSFORM authtype usmHMACMD5AuthProtocol then Some (take maclen (HMAC ssl EVP_md5 key message))
          else if ISTRANSFORM authtype usmHMACSHA1AuthProtocol then Some (take maclen (HMAC ssl EVP_sha1 key message))
          else None)"

text \<open>The digest is compared in its first 12 bytes; a digest is at least as long (16 or 20 bytes).\<close>

definition sc_check_keyed_hash :: "openssl \<Rightarrow> oid \<Rightarrow> u8 list \<Rightarrow> u8 list \<Rightarrow> u8 list \<Rightarrow> bool" where
  "sc_check_keyed_hash ssl authtype key message MAC =
     (if key = [] \<or> message = [] \<or> MAC = [] \<or> length authtype \<noteq> USM_LENGTH_OID_TRANSFORM then False
      else if length MAC \<noteq> USM_MD5_AND_SHA_AUTH_LEN then False
      else case sc_generate_keyed_hash ssl authtype key message SNMP_MAXBUF_SMALL of
        None \<Rightarrow> False
      | Some buf \<Rightarrow>
          if length MAC > length message then False
          else memcmp (take (length MAC) buf) MAC = 0)"

definition sc_decrypt :: "openssl \<Rightarrow> oid \<Rightarrow> u8 list \<Rightarrow> u8 list \<Rightarrow> u8 list \<Rightarrow> nat \<Rightarrow> u8 list option" where
  "sc_decrypt ssl privtype key iv ciphertext ptlen =
     (if ciphertext = [] \<or> ptlen = 0 \<or> ptlen < length ciphertext \<or> length privtype \<noteq> USM_LENGTH_OID_TRANSFORM then None
      else if \<not> ISTRANSFORM privtype usmDESPrivProtocol \<and> \<not> ISTRANSFORM privtype usmAESPrivProtocol then None
      else let properlength = (if ISTRANSFORM privtype usmAESPrivProtocol then BYTESIZE 128 else BYTESIZE 64);
               properlength_iv = (if ISTRANSFORM privtype usmAESPrivProtocol then BYTESIZE 128 else BYTESIZE 64)
      in if length key < properlength \<or> length iv < properlength_iv then None
      else if ISTRANSFORM privtype usmDESPrivProtocol then Some (DES_cbc_decrypt ssl (take 8 key) iv ciphertext)
      else Some (AES_cfb128_decrypt ssl (take properlength key) iv ciphertext))"

text \<open>
  For DES the text is filled up to a multiple of eight bytes, each of which holds the number of bytes that were added; the last
  block is encrypted by a second call.
\<close>

definition sc_encrypt :: "openssl \<Rightarrow> oid \<Rightarrow> u8 list \<Rightarrow> u8 list \<Rightarrow> u8 list \<Rightarrow> nat \<Rightarrow> u8 list option" where
  "sc_encrypt ssl privtype key iv plaintext ctlen =
     (if key = [] \<or> iv = [] \<or> plaintext = [] \<or> ctlen = 0 \<or> length privtype \<noteq> USM_LENGTH_OID_TRANSFORM then None
      else if length plaintext > ctlen then None
      else if \<not> ISTRANSFORM privtype usmDESPrivProtocol \<and> \<not> ISTRANSFORM privtype usmAESPrivProtocol then None
      else let properlength = (if ISTRANSFORM privtype usmAESPrivProtocol then BYTESIZE 128 else BYTESIZE 64);
               properlength_iv = (if ISTRANSFORM privtype usmAESPrivProtocol then BYTESIZE 128 else BYTESIZE 64)
      in if length key < properlength \<or> length iv < properlength_iv then None
      else if ISTRANSFORM privtype usmDESPrivProtocol then
        let pad_size = BYTESIZE 64;
            pad = pad_size - length plaintext mod pad_size;
            plast = length plaintext - (pad_size - pad);
            pad = (if pad = pad_size then 0 else pad)
        in if length plaintext + pad > ctlen then None
        else (case DES_ncbc_encrypt ssl (take 8 key) iv (take plast plaintext) of
          (ciphertext, my_iv) \<Rightarrow>
            if pad > 0
            then Some (ciphertext @ fst (DES_ncbc_encrypt ssl (take 8 key) my_iv (drop plast plaintext @ replicate pad (of_nat pad))))
            else Some ciphertext)
      else Some (AES_cfb128_encrypt ssl (take properlength key) iv plaintext))"

section \<open>What the functions promise\<close>

lemma sc_get_properlength_cases:
  "sc_get_properlength t = Some n \<Longrightarrow> length t = 10 \<Longrightarrow>
     t = usmHMACMD5AuthProtocol \<and> n = 16 \<or> t = usmHMACSHA1AuthProtocol \<and> n = 20"
  by (auto simp: sc_get_properlength_def ISTRANSFORM_iff protocol_defs BYTESIZE_def split: if_splits)

text \<open>The digest OpenSSL computes for an authentication protocol.\<close>

definition keyed_digest :: "openssl \<Rightarrow> oid \<Rightarrow> u8 list \<Rightarrow> u8 list \<Rightarrow> u8 list" where
  "keyed_digest ssl t key msg = HMAC ssl (if t = usmHMACMD5AuthProtocol then EVP_md5 else EVP_sha1) key msg"

text \<open>The documented lengths of the digests of OpenSSL.\<close>

definition digest_lengths :: "openssl \<Rightarrow> bool" where
  "digest_lengths ssl \<longleftrightarrow> (\<forall>key msg. length (HMAC ssl EVP_md5 key msg) = 16 \<and> length (HMAC ssl EVP_sha1 key msg) = 20)"

lemma sc_check_keyed_hash_iff:
  assumes "digest_lengths ssl"
  shows "sc_check_keyed_hash ssl t key msg mac \<longleftrightarrow>
    (t = usmHMACMD5AuthProtocol \<and> 16 \<le> length key \<or> t = usmHMACSHA1AuthProtocol \<and> 20 \<le> length key) \<and>
    12 \<le> length msg \<and> mac = take 12 (keyed_digest ssl t key msg)"
proof -
  have l: "12 \<le> length (keyed_digest ssl t key msg)" "length (keyed_digest ssl t key msg) \<le> 512"
    using assms by (auto simp: digest_lengths_def keyed_digest_def)
  have z: "memcmp a b = 0 \<longleftrightarrow> b = a" if "length a = 12" "length b = 12" for a b
    using memcmp_zero[of a b] that by auto
  show ?thesis
  proof (cases "length t = 10 \<and> length mac = 12 \<and> key \<noteq> [] \<and> msg \<noteq> []")
    case True
    then show ?thesis
      using l z[of "take 12 (keyed_digest ssl t key msg)" mac]
      by (auto simp: sc_check_keyed_hash_def sc_generate_keyed_hash_def sc_get_properlength_def ISTRANSFORM_iff
          USM_LENGTH_OID_TRANSFORM_def USM_MD5_AND_SHA_AUTH_LEN_def SNMP_MAXBUF_SMALL_def BYTESIZE_def keyed_digest_def
          protocol_defs min_def split: if_splits)
  next
    case False
    then show ?thesis
      using l by (auto simp: sc_check_keyed_hash_def USM_LENGTH_OID_TRANSFORM_def USM_MD5_AND_SHA_AUTH_LEN_def protocol_defs)
  qed
qed

section \<open>Decryption inverts encryption\<close>

text \<open>
  What the ciphers of OpenSSL promise: decryption inverts encryption, texts keep their length, and the encryption with DES
  of two parts, with the vector the first part left, is the encryption of both.
\<close>

definition ciphers_ok :: "openssl \<Rightarrow> bool" where
  "ciphers_ok ssl \<longleftrightarrow>
     (\<forall>key iv p. length key = 16 \<longrightarrow> length iv = 16 \<longrightarrow>
        length (AES_cfb128_encrypt ssl key iv p) = length p \<and>
        AES_cfb128_decrypt ssl key iv (AES_cfb128_encrypt ssl key iv p) = p) \<and>
     (\<forall>key iv p. length key = 8 \<longrightarrow> length iv = 8 \<longrightarrow> 8 dvd length p \<longrightarrow>
        length (fst (DES_ncbc_encrypt ssl key iv p)) = length p \<and>
        DES_cbc_decrypt ssl key iv (fst (DES_ncbc_encrypt ssl key iv p)) = p) \<and>
     (\<forall>key iv p q. length key = 8 \<longrightarrow> length iv = 8 \<longrightarrow> 8 dvd length p \<longrightarrow> 8 dvd length q \<longrightarrow>
        fst (DES_ncbc_encrypt ssl key iv (p @ q)) =
          fst (DES_ncbc_encrypt ssl key iv p) @ fst (DES_ncbc_encrypt ssl key (snd (DES_ncbc_encrypt ssl key iv p)) q))"

lemma ciphers_DES:
  assumes "ciphers_ok ssl" "length key = 8" "length iv = 8" "8 dvd length p"
  shows "length (fst (DES_ncbc_encrypt ssl key iv p)) = length p"
    "DES_cbc_decrypt ssl key iv (fst (DES_ncbc_encrypt ssl key iv p)) = p"
    "8 dvd length q \<Longrightarrow> fst (DES_ncbc_encrypt ssl key iv (p @ q)) =
      fst (DES_ncbc_encrypt ssl key iv p) @ fst (DES_ncbc_encrypt ssl key (snd (DES_ncbc_encrypt ssl key iv p)) q)"
  using assms by (simp_all add: ciphers_ok_def)

lemma ciphers_AES:
  assumes "ciphers_ok ssl" "length key = 16" "length iv = 16"
  shows "length (AES_cfb128_encrypt ssl key iv p) = length p"
    "AES_cfb128_decrypt ssl key iv (AES_cfb128_encrypt ssl key iv p) = p"
  using assms by (simp_all add: ciphers_ok_def)

lemma aes_not_des: "ISTRANSFORM t usmAESPrivProtocol \<Longrightarrow> \<not> ISTRANSFORM t usmDESPrivProtocol" if "length t = 10"
  using that by (auto simp: ISTRANSFORM_iff protocol_defs)

definition des_padding :: "u8 list \<Rightarrow> u8 list" where
  "des_padding p = (let n = length p mod 8 in if n = 0 then [] else replicate (8 - n) (of_nat (8 - n)))"

lemma sc_encrypt_des:
  assumes "sc_encrypt ssl t key iv p n = Some ct" "ISTRANSFORM t usmDESPrivProtocol" "ciphers_ok ssl" "length iv = 8"
  shows "ct = fst (DES_ncbc_encrypt ssl (take 8 key) iv (p @ des_padding p)) \<and> length t = 10 \<and> 8 \<le> length key \<and> p \<noteq> []"
proof -
  have "length t = 10" using assms(1) by (auto simp: sc_encrypt_def USM_LENGTH_OID_TRANSFORM_def split: if_splits)
  then have t: "\<not> ISTRANSFORM t usmAESPrivProtocol" using aes_not_des assms(2) by blast
  let ?k = "length p - length p mod 8"
  have k: "8 dvd ?k" "?k \<le> length p" "8 dvd length (p @ des_padding p)"
    by (auto simp: dvd_minus_mod des_padding_def Let_def) presburger
  have s: "ct = fst (DES_ncbc_encrypt ssl (take 8 key) iv (take ?k p)) @ (if length p mod 8 = 0 then []
      else fst (DES_ncbc_encrypt ssl (take 8 key) (snd (DES_ncbc_encrypt ssl (take 8 key) iv (take ?k p))) (drop ?k p @ des_padding p)))"
    "8 \<le> length key" "p \<noteq> []"
    using assms(1,2) t
    by (auto simp: sc_encrypt_def Let_def BYTESIZE_def des_padding_def split: if_splits prod.splits)
  have l: "8 dvd length (drop ?k p @ des_padding p)"
    by (auto simp: des_padding_def Let_def)
  show ?thesis
  proof (cases "length p mod 8 = 0")
    case True
    then show ?thesis using s by (simp add: des_padding_def \<open>length t = 10\<close>)
  next
    case False
    have j: "take ?k p @ drop ?k p @ des_padding p = p @ des_padding p" by (metis append_assoc append_take_drop_id)
    have "fst (DES_ncbc_encrypt ssl (take 8 key) iv (p @ des_padding p)) = ct"
      using ciphers_DES(3)[OF assms(3) _ assms(4), of "take 8 key" "take ?k p" "drop ?k p @ des_padding p", unfolded j] s(1,2) False k l
      by simp
    then show ?thesis using s \<open>length t = 10\<close> by simp
  qed
qed

lemma sc_decrypt_encrypt:
  assumes "sc_encrypt ssl t key iv p n = Some ct" "ciphers_ok ssl" "length ct \<le> room"
    and "ISTRANSFORM t usmDESPrivProtocol \<Longrightarrow> length iv = 8" "ISTRANSFORM t usmAESPrivProtocol \<Longrightarrow> length iv = 16"
  shows "sc_decrypt ssl t key iv ct room = Some (p @ (if ISTRANSFORM t usmDESPrivProtocol then des_padding p else []))"
    "ISTRANSFORM t usmDESPrivProtocol \<Longrightarrow> 8 dvd length ct" "ct \<noteq> []"
proof -
  have e: "length t = 10" "p \<noteq> []" "ISTRANSFORM t usmDESPrivProtocol \<or> ISTRANSFORM t usmAESPrivProtocol"
    using assms(1) by (auto simp: sc_encrypt_def USM_LENGTH_OID_TRANSFORM_def split: if_splits)
  have "sc_decrypt ssl t key iv ct room = Some (p @ (if ISTRANSFORM t usmDESPrivProtocol then des_padding p else [])) \<and>
    (ISTRANSFORM t usmDESPrivProtocol \<longrightarrow> 8 dvd length ct) \<and> ct \<noteq> []"
  proof (cases "ISTRANSFORM t usmDESPrivProtocol")
    case True
    note d = sc_encrypt_des[OF assms(1) True assms(2) assms(4)[OF True]]
    have l: "8 dvd length (p @ des_padding p)" by (auto simp: des_padding_def Let_def) presburger
    then have "length ct = length (p @ des_padding p)" "DES_cbc_decrypt ssl (take 8 key) iv ct = p @ des_padding p"
      using ciphers_DES(1,2)[OF assms(2) _ assms(4)[OF True], of "take 8 key"] d by auto
    moreover have "0 < length ct" "0 < room" using calculation(1) e(2) assms(3) by (cases p; simp)+
    ultimately show ?thesis
      using True d l assms(3,4) aes_not_des[OF e(1)]
      by (auto simp: sc_decrypt_def Let_def BYTESIZE_def USM_LENGTH_OID_TRANSFORM_def)
  next
    case False
    then have a: "ISTRANSFORM t usmAESPrivProtocol" using e(3) by blast
    have c: "ct = AES_cfb128_encrypt ssl (take 16 key) iv p" "16 \<le> length key"
      using assms(1) a False by (auto simp: sc_encrypt_def Let_def BYTESIZE_def split: if_splits)
    then have "length ct = length p" "AES_cfb128_decrypt ssl (take 16 key) iv ct = p"
      using ciphers_AES[OF assms(2) _ assms(5)[OF a], of "take 16 key"] by auto
    moreover have "0 < length ct" "0 < room" using calculation(1) e(2) assms(3) by (cases p; simp)+
    ultimately show ?thesis
      using a False c(2) e(1) assms(3,5)
      by (auto simp: sc_decrypt_def Let_def BYTESIZE_def USM_LENGTH_OID_TRANSFORM_def)
  qed
  then show "sc_decrypt ssl t key iv ct room = Some (p @ (if ISTRANSFORM t usmDESPrivProtocol then des_padding p else []))"
    "ISTRANSFORM t usmDESPrivProtocol \<Longrightarrow> 8 dvd length ct" "ct \<noteq> []" by blast+
qed

lemma sc_encrypt_length:
  assumes "sc_encrypt ssl t key iv p n = Some ct" "ciphers_ok ssl"
    and "ISTRANSFORM t usmDESPrivProtocol \<Longrightarrow> length iv = 8" "ISTRANSFORM t usmAESPrivProtocol \<Longrightarrow> length iv = 16"
  shows "length ct \<le> length p + 8"
proof (cases "ISTRANSFORM t usmDESPrivProtocol")
  case True
  note d = sc_encrypt_des[OF assms(1) True assms(2) assms(3)[OF True]]
  have "8 dvd length (p @ des_padding p)" "length (des_padding p) \<le> 8" by (auto simp: des_padding_def Let_def) presburger
  then show ?thesis using ciphers_DES(1)[OF assms(2) _ assms(3)[OF True], of "take 8 key" "p @ des_padding p"] d by simp
next
  case False
  then have a: "ISTRANSFORM t usmAESPrivProtocol" using assms(1) by (auto simp: sc_encrypt_def split: if_splits)
  have "ct = AES_cfb128_encrypt ssl (take 16 key) iv p" "16 \<le> length key"
    using assms(1) a False by (auto simp: sc_encrypt_def Let_def BYTESIZE_def split: if_splits)
  then show ?thesis using ciphers_AES(1)[OF assms(2) _ assms(4)[OF a], of "take 16 key"] by simp
qed

end
