(* ===== verification/Engine_Time.thy ===== *)
theory Engine_Time
  imports Scapi
begin

text \<open>
  The clocks of other engines (\<^verbatim>\<open>snmplib/lcd_time.c\<close>): a hash table of 23 lists with the boots and the time an engine
  last told, and the local time at which it did. An engine ID that is NULL or has length 0 is the empty list. \<open>now\<close> is the value of
  \<^verbatim>\<open>snmpv3_local_snmpEngineTime()\<close>. The build defines \<^verbatim>\<open>LCD_TIME_SYNC_OPT\<close>.
\<close>

section \<open>The hash table\<close>

definition ETIMELIST_SIZE :: nat where "ETIMELIST_SIZE = 23"
definition ENGINETIME_MAX :: u32 where "ENGINETIME_MAX = 2147483647"
definition ENGINEBOOT_MAX :: u32 where "ENGINEBOOT_MAX = 2147483647"

record enginetime =
  et_engineID :: "u8 list"
  engineTime :: u32
  engineBoot :: u32
  lastReceivedEngineTime :: u32
  authenticatedFlag :: bool

type_synonym etimelist = "enginetime list list"

definition empty_etimelist :: etimelist where
  "empty_etimelist = replicate ETIMELIST_SIZE []"

text \<open>The loop over the digest adds every fourth byte.\<close>

function additive :: "u8 list \<Rightarrow> u32" where
  "additive [] = 0"
| "additive (b # bs) = ucast b + additive (drop 3 bs)"
  by pat_completeness auto
termination by (relation "measure length") auto

definition hash_engineID :: "openssl \<Rightarrow> u8 list \<Rightarrow> nat option" where
  "hash_engineID ssl engineID =
     (if engineID = [] then None
      else case sc_hash ssl usmHMACMD5AuthProtocol engineID SNMP_MAXBUF of
        None \<Rightarrow> None
      | Some buf \<Rightarrow> Some (unat (additive buf) mod ETIMELIST_SIZE))"

definition search_enginetime_list :: "openssl \<Rightarrow> etimelist \<Rightarrow> u8 list \<Rightarrow> enginetime option" where
  "search_enginetime_list ssl et engineID =
     (if engineID = [] then None
      else case hash_engineID ssl engineID of
        None \<Rightarrow> None
      | Some rval \<Rightarrow> List.find (\<lambda>e. length engineID = length (et_engineID e) \<and> memcmp (et_engineID e) engineID = 0) (et ! rval))"

section \<open>Reading a clock\<close>

text \<open>The estimate of the time and the boots now, from what the engine told \<open>timediff\<close> seconds ago.\<close>

definition estimate :: "u32 \<Rightarrow> u32 \<Rightarrow> u32 \<Rightarrow> u32 \<times> u32" where
  "estimate boot time timediff =
     (if sint timediff > sint (ENGINETIME_MAX - time)
      then (if boot < ENGINEBOOT_MAX then boot + 1 else boot, timediff - (ENGINETIME_MAX - time))
      else (boot, time + timediff))"

text \<open>Boots and time; on an error (\<open>None\<close>) the code has set both to 0.\<close>

definition get_enginetime :: "openssl \<Rightarrow> u32 \<Rightarrow> etimelist \<Rightarrow> u8 list \<Rightarrow> bool \<Rightarrow> (u32 \<times> u32) option" where
  "get_enginetime ssl now et engineID authenticated =
     (if engineID = [] then None
      else case search_enginetime_list ssl et engineID of
        None \<Rightarrow> None
      | Some e \<Rightarrow>
          if \<not> authenticated \<or> authenticatedFlag e
          then Some (estimate (engineBoot e) (engineTime e) (now - lastReceivedEngineTime e))
          else Some (estimate 0 0 0))"

definition get_enginetime_ex :: "openssl \<Rightarrow> u32 \<Rightarrow> etimelist \<Rightarrow> u8 list \<Rightarrow> bool \<Rightarrow> (u32 \<times> u32 \<times> u32) option" where
  "get_enginetime_ex ssl now et engineID authenticated =
     (if engineID = [] then None
      else case search_enginetime_list ssl et engineID of
        None \<Rightarrow> None
      | Some e \<Rightarrow>
          (let (boot, time, timediff) =
             (if \<not> authenticated \<or> authenticatedFlag e
              then (engineBoot e, engineTime e, now - lastReceivedEngineTime e) else (0, 0, 0));
             (engineboot, engine_time) = estimate boot time timediff
           in Some (engineboot, engine_time, time)))"

section \<open>Setting a clock\<close>

definition set_times :: "u32 \<Rightarrow> u32 \<Rightarrow> u32 \<Rightarrow> bool \<Rightarrow> enginetime \<Rightarrow> enginetime" where
  "set_times now boot time authenticated e =
     (if authenticated \<or> \<not> authenticatedFlag e
      then e\<lparr>authenticatedFlag := authenticated, engineTime := time, engineBoot := boot, lastReceivedEngineTime := now\<rparr>
      else e)"

definition new_record :: "u8 list \<Rightarrow> enginetime" where
  "new_record engineID = \<lparr>et_engineID = engineID, engineTime = 0, engineBoot = 0, lastReceivedEngineTime = 0,
     authenticatedFlag = False\<rparr>"

text \<open>The record that a search finds is changed in place: it is the first of its list with the engine ID.\<close>

fun change_first :: "('e \<Rightarrow> bool) \<Rightarrow> ('e \<Rightarrow> 'e) \<Rightarrow> 'e list \<Rightarrow> 'e list" where
  "change_first P f [] = []"
| "change_first P f (e # es) = (if P e then f e # es else e # change_first P f es)"

text \<open>\<open>None\<close> is \<^verbatim>\<open>SNMPERR_GENERR\<close>; the table is not changed then.\<close>

definition set_enginetime :: "openssl \<Rightarrow> u32 \<Rightarrow> etimelist \<Rightarrow> u8 list \<Rightarrow> u32 \<Rightarrow> u32 \<Rightarrow> bool \<Rightarrow> etimelist option" where
  "set_enginetime ssl now et engineID boot time authenticated =
     (if engineID = [] then Some et
      else case hash_engineID ssl engineID of
        None \<Rightarrow> None
      | Some iindex \<Rightarrow>
          (case search_enginetime_list ssl et engineID of
             Some _ \<Rightarrow> Some (et[iindex := change_first (\<lambda>e. et_engineID e = engineID) (set_times now boot time authenticated)
               (et ! iindex)])
           | None \<Rightarrow> Some (et[iindex := set_times now boot time authenticated (new_record engineID) # et ! iindex])))"

definition free_enginetime :: "openssl \<Rightarrow> etimelist \<Rightarrow> u8 list \<Rightarrow> etimelist" where
  "free_enginetime ssl et engineID =
     (case hash_engineID ssl engineID of None \<Rightarrow> et | Some rval \<Rightarrow> et[rval := []])"

definition free_etimelist :: "etimelist \<Rightarrow> etimelist" where
  "free_etimelist et = map (\<lambda>_. []) et"

definition ISENGINEKNOWN :: "openssl \<Rightarrow> u32 \<Rightarrow> etimelist \<Rightarrow> u8 list \<Rightarrow> bool" where
  "ISENGINEKNOWN ssl now et engineID \<longleftrightarrow> get_enginetime ssl now et engineID True \<noteq> None"

definition ENSURE_ENGINE_RECORD :: "openssl \<Rightarrow> u32 \<Rightarrow> etimelist \<Rightarrow> u8 list \<Rightarrow> etimelist option" where
  "ENSURE_ENGINE_RECORD ssl now et engineID = set_enginetime ssl now et engineID 0 0 False"

section \<open>The table as a map\<close>

lemma hash_total: "engineID \<noteq> [] \<Longrightarrow> \<exists>i<ETIMELIST_SIZE. hash_engineID ssl engineID = Some i"
  by (simp add: hash_engineID_def sc_hash_def sc_get_properlength_def ISTRANSFORM_iff protocol_defs BYTESIZE_def
      SNMP_MAXBUF_def ETIMELIST_SIZE_def)

text \<open>Every record is in the list its engine ID hashes to, and no engine has two records.\<close>

definition etimes_ok :: "openssl \<Rightarrow> etimelist \<Rightarrow> bool" where
  "etimes_ok ssl et \<longleftrightarrow> length et = ETIMELIST_SIZE \<and>
     (\<forall>i<ETIMELIST_SIZE. distinct (map et_engineID (et ! i)) \<and>
        (\<forall>e\<in>set (et ! i). hash_engineID ssl (et_engineID e) = Some i))"

lemma search_iff:
  "search_enginetime_list ssl et engineID =
     (if engineID = [] then None
      else case hash_engineID ssl engineID of None \<Rightarrow> None
        | Some i \<Rightarrow> List.find (\<lambda>e. et_engineID e = engineID) (et ! i))"
proof -
  have "(length engineID = length (et_engineID e) \<and> memcmp (et_engineID e) engineID = 0) \<longleftrightarrow> et_engineID e = engineID" for e
    using memcmp_zero[of "et_engineID e" engineID] by (cases "length engineID = length (et_engineID e)") auto
  then have "(\<lambda>e. length engineID = length (et_engineID e) \<and> memcmp (et_engineID e) engineID = 0) = (\<lambda>e. et_engineID e = engineID)"
    by (intro ext)
  then show ?thesis unfolding search_enginetime_list_def by (rule arg_cong)
qed

lemma find_change_first:
  "distinct (map k es) \<Longrightarrow> (\<And>e. k (f e) = k e) \<Longrightarrow>
     List.find (\<lambda>e. k e = b) (change_first (\<lambda>e. k e = a) f es) =
       (if a = b then map_option f (List.find (\<lambda>e. k e = b) es) else List.find (\<lambda>e. k e = b) es)"
  by (induction es) auto

lemma map_change_first: "(\<And>e. k (f e) = k e) \<Longrightarrow> map k (change_first P f es) = map k es"
  by (induction es) auto

lemma set_change_first: "e \<in> set (change_first P f es) \<Longrightarrow> e \<in> set es \<or> (\<exists>e'\<in>set es. e = f e')"
  by (induction es) (auto split: if_splits)

lemma set_times_id [simp]: "et_engineID (set_times now b t a e) = et_engineID e"
  by (simp add: set_times_def)

lemma new_record_id [simp]: "et_engineID (new_record engineID) = engineID"
  by (simp add: new_record_def)

lemma set_enginetime_ok:
  assumes "etimes_ok ssl et" "set_enginetime ssl now et engineID b t a = Some et'"
  shows "etimes_ok ssl et'"
proof (cases "engineID = []")
  case False
  obtain i where i: "i < ETIMELIST_SIZE" "hash_engineID ssl engineID = Some i" using hash_total[OF False] by blast
  have l: "length et = ETIMELIST_SIZE" using assms(1) by (simp add: etimes_ok_def)
  define bucket where "bucket = (if search_enginetime_list ssl et engineID = None
    then set_times now b t a (new_record engineID) # et ! i
    else change_first (\<lambda>e. et_engineID e = engineID) (set_times now b t a) (et ! i))"
  have et': "et' = et[i := bucket]"
    using assms(2) False i by (auto simp: set_enginetime_def bucket_def split: option.splits)
  have d: "distinct (map et_engineID (et ! i))" and h: "\<forall>e\<in>set (et ! i). hash_engineID ssl (et_engineID e) = Some i"
    using assms(1) i(1) by (auto simp: etimes_ok_def)
  have "distinct (map et_engineID bucket)"
    using d False i(2) by (auto simp: bucket_def map_change_first search_iff find_None_iff)
  moreover have "\<forall>e\<in>set bucket. hash_engineID ssl (et_engineID e) = Some i"
    using h i(2) by (auto simp: bucket_def dest: set_change_first)
  ultimately show ?thesis
    using assms(1) i(1) l by (auto simp: etimes_ok_def et' nth_list_update)
qed (use assms in \<open>simp add: set_enginetime_def\<close>)

text \<open>Setting a clock is an update of the map from engine IDs to records.\<close>

lemma set_enginetime_search:
  assumes "etimes_ok ssl et" "engineID \<noteq> []"
  shows "\<exists>et'. set_enginetime ssl now et engineID b t a = Some et' \<and>
    search_enginetime_list ssl et' = (search_enginetime_list ssl et)(engineID \<mapsto>
      set_times now b t a (case search_enginetime_list ssl et engineID of None \<Rightarrow> new_record engineID | Some e \<Rightarrow> e))"
proof -
  obtain i where i: "i < ETIMELIST_SIZE" "hash_engineID ssl engineID = Some i" using hash_total[OF assms(2)] by blast
  have l: "length et = ETIMELIST_SIZE" and d: "distinct (map et_engineID (et ! i))"
    using assms(1) i(1) by (auto simp: etimes_ok_def)
  obtain et' where e: "set_enginetime ssl now et engineID b t a = Some et'"
    using i(2) assms(2) by (cases "search_enginetime_list ssl et engineID") (auto simp: set_enginetime_def)
  have "search_enginetime_list ssl et' x = ((search_enginetime_list ssl et)(engineID \<mapsto>
      set_times now b t a (case search_enginetime_list ssl et engineID of None \<Rightarrow> new_record engineID | Some e \<Rightarrow> e))) x" for x
  proof (cases "x = [] \<or> hash_engineID ssl x \<noteq> Some i")
    case True
    then have "search_enginetime_list ssl et' x = search_enginetime_list ssl et x"
      using e i assms(2) by (auto simp: set_enginetime_def search_iff split: option.splits)
    moreover have "x \<noteq> engineID" using True i(2) assms(2) by auto
    ultimately show ?thesis by simp
  next
    case False
    then show ?thesis
      using e i assms(2) d l find_change_first[OF d, of "set_times now b t a" x engineID]
      by (auto simp: set_enginetime_def search_iff split: option.splits)
  qed
  then show ?thesis using e by blast
qed

section \<open>The contract\<close>

text \<open>What the security model relies on: a store of clocks whose updates are updates of a map.\<close>

locale engine_clocks =
  fixes inv :: "'s \<Rightarrow> bool"
    and look :: "'s \<Rightarrow> u8 list \<Rightarrow> enginetime option"
    and put :: "u32 \<Rightarrow> 's \<Rightarrow> u8 list \<Rightarrow> u32 \<Rightarrow> u32 \<Rightarrow> bool \<Rightarrow> 's option"
  assumes put_look: "inv s \<Longrightarrow> engineID \<noteq> [] \<Longrightarrow> \<exists>s'. put now s engineID b t a = Some s' \<and>
      look s' = (look s)(engineID \<mapsto> set_times now b t a
        (case look s engineID of None \<Rightarrow> new_record engineID | Some e \<Rightarrow> e))"
    and put_nil: "put now s [] b t a = Some s"
    and put_inv: "inv s \<Longrightarrow> put now s engineID b t a = Some s' \<Longrightarrow> inv s'"
begin

lemma put_works: "inv s \<Longrightarrow> \<exists>s'. put now s engineID b t a = Some s'"
  using put_look[of s engineID now b t a] put_nil by (cases "engineID = []") auto

lemma put_other:
  assumes "inv s" "put now s engineID b t a = Some s'" "x \<noteq> engineID"
  shows "look s' x = look s x"
  using assms put_look[of s engineID now b t a] put_nil by (cases "engineID = []") auto

lemma put_this:
  assumes "inv s" "put now s engineID b t a = Some s'" "engineID \<noteq> []"
  shows "look s' engineID = Some (set_times now b t a
    (case look s engineID of None \<Rightarrow> new_record engineID | Some e \<Rightarrow> e))"
  using assms put_look[of s engineID now b t a] by auto

text \<open>An unauthenticated time never replaces an authenticated one.\<close>

lemma put_unauthenticated:
  assumes "inv s" "put now s engineID b t False = Some s'" "look s x = Some e" "authenticatedFlag e"
  shows "look s' x = Some e"
proof (cases "x = engineID \<and> engineID \<noteq> []")
  case True
  then show ?thesis using put_this[OF assms(1,2)] assms(3,4) by (simp add: set_times_def)
next
  case False
  then show ?thesis using put_other[OF assms(1,2)] put_nil assms by (cases "engineID = []") auto
qed

end

interpretation clocks: engine_clocks "etimes_ok ssl" "search_enginetime_list ssl" "set_enginetime ssl" for ssl
proof
  show "\<exists>s'. set_enginetime ssl now s engineID b t a = Some s' \<and> search_enginetime_list ssl s' =
      (search_enginetime_list ssl s)(engineID \<mapsto> set_times now b t a
        (case search_enginetime_list ssl s engineID of None \<Rightarrow> new_record engineID | Some e \<Rightarrow> e))"
    if "etimes_ok ssl s" "engineID \<noteq> []" for s engineID now b t a
    using set_enginetime_search[OF that] .
qed (simp_all add: set_enginetime_def[of _ _ _ "[]"] set_enginetime_ok)

lemma empty_etimelist_ok: "etimes_ok ssl empty_etimelist"
  by (simp add: etimes_ok_def empty_etimelist_def)

lemma empty_etimelist_search: "search_enginetime_list ssl empty_etimelist engineID = None"
  using hash_total[of engineID ssl] by (cases "engineID = []") (auto simp: search_iff empty_etimelist_def)

text \<open>\<^verbatim>\<open>free_enginetime\<close> forgets every engine with the same hash.\<close>

lemma free_enginetime_search:
  assumes "length et = ETIMELIST_SIZE" "x \<noteq> []"
  shows "search_enginetime_list ssl (free_enginetime ssl et engineID) x =
    (if hash_engineID ssl x = hash_engineID ssl engineID then None else search_enginetime_list ssl et x)"
proof -
  obtain i where "i < ETIMELIST_SIZE" "hash_engineID ssl x = Some i" using hash_total[OF assms(2)] by blast
  then show ?thesis
    using assms by (cases "hash_engineID ssl engineID") (auto simp: free_enginetime_def search_iff)
qed

end
