(* ===== verification/Usm.thy ===== *)
theory Usm
  imports Engine_Time Var_Op
begin

unbundle bit_operations_syntax

text \<open>
  The user-based security model for incoming messages (\<^verbatim>\<open>snmplib/snmpusm.c\<close>): users, the security parameters of a message,
  the check that a message is timely, and the whole of \<^verbatim>\<open>usm_process_in_msg\<close>. Memory for the state reference that is kept for the
  answer is assumed to be available.
\<close>

section \<open>Counters\<close>

definition MAX_STATS :: nat where "MAX_STATS = 43"
definition STAT_USMSTATSUNSUPPORTEDSECLEVELS :: nat where "STAT_USMSTATSUNSUPPORTEDSECLEVELS = 3"
definition STAT_USMSTATSNOTINTIMEWINDOWS :: nat where "STAT_USMSTATSNOTINTIMEWINDOWS = 4"
definition STAT_USMSTATSUNKNOWNUSERNAMES :: nat where "STAT_USMSTATSUNKNOWNUSERNAMES = 5"
definition STAT_USMSTATSUNKNOWNENGINEIDS :: nat where "STAT_USMSTATSUNKNOWNENGINEIDS = 6"
definition STAT_USMSTATSWRONGDIGESTS :: nat where "STAT_USMSTATSWRONGDIGESTS = 7"
definition STAT_USMSTATSDECRYPTIONERRORS :: nat where "STAT_USMSTATSDECRYPTIONERRORS = 8"
definition STAT_SNMPINASNPARSEERRS :: nat where "STAT_SNMPINASNPARSEERRS = 14"

lemmas stat_defs = MAX_STATS_def STAT_USMSTATSUNSUPPORTEDSECLEVELS_def STAT_USMSTATSNOTINTIMEWINDOWS_def
  STAT_USMSTATSUNKNOWNUSERNAMES_def STAT_USMSTATSUNKNOWNENGINEIDS_def STAT_USMSTATSWRONGDIGESTS_def
  STAT_USMSTATSDECRYPTIONERRORS_def STAT_SNMPINASNPARSEERRS_def

definition snmp_increment_statistic :: "nat \<Rightarrow> (nat \<Rightarrow> u32) \<Rightarrow> nat \<Rightarrow> u32" where
  "snmp_increment_statistic which statistics =
     (if which < MAX_STATS then statistics(which := statistics which + 1) else statistics)"

section \<open>Users\<close>

definition RS_ACTIVE :: int where "RS_ACTIVE = 1"
definition SNMP_SEC_LEVEL_NOAUTH :: int where "SNMP_SEC_LEVEL_NOAUTH = 1"
definition SNMP_SEC_LEVEL_AUTHNOPRIV :: int where "SNMP_SEC_LEVEL_AUTHNOPRIV = 2"
definition SNMP_SEC_LEVEL_AUTHPRIV :: int where "SNMP_SEC_LEVEL_AUTHPRIV = 3"

lemmas level_defs = SNMP_SEC_LEVEL_NOAUTH_def SNMP_SEC_LEVEL_AUTHNOPRIV_def SNMP_SEC_LEVEL_AUTHPRIV_def

text \<open>The fields the message processing uses; an engine ID that is NULL is \<open>None\<close>.\<close>

record usmUser =
  user_engineID :: "u8 list option"
  user_name :: "u8 list"
  authProtocol :: oid
  authKey :: "u8 list"
  privProtocol :: oid
  privKey :: "u8 list"
  userStatus :: int

definition usm_get_user_from_list ::
  "u8 list option \<Rightarrow> u8 list \<Rightarrow> usmUser list \<Rightarrow> bool \<Rightarrow> usmUser \<Rightarrow> usmUser option" where
  "usm_get_user_from_list engineID nm puserList use_default noNameUser =
     (case List.find (\<lambda>ptr. user_name ptr = nm \<and>
        (case (user_engineID ptr, engineID) of
           (None, None) \<Rightarrow> True
         | (Some a, Some b) \<Rightarrow> length a = length b \<and> memcmp a b = 0
         | _ \<Rightarrow> False)) puserList of
        Some ptr \<Rightarrow> Some ptr
      | None \<Rightarrow> if use_default \<and> nm = [] then Some noNameUser else None)"

definition idlen :: "u8 list option \<Rightarrow> nat" where
  "idlen x = (case x of None \<Rightarrow> 0 | Some i \<Rightarrow> length i)"

text \<open>The engine IDs of two users are the same, given that both are NULL or none is.\<close>

definition same_engine :: "usmUser \<Rightarrow> usmUser \<Rightarrow> bool" where
  "same_engine nptr user \<longleftrightarrow> idlen (user_engineID nptr) = idlen (user_engineID user) \<and>
     (user_engineID nptr = None \<and> user_engineID user = None \<or>
      (case (user_engineID nptr, user_engineID user) of (Some a, Some b) \<Rightarrow> memcmp a b = 0 | _ \<Rightarrow> False))"

text \<open>The tests that end the loop because the new user belongs in front of \<^verbatim>\<open>nptr\<close>.\<close>

definition user_after :: "usmUser \<Rightarrow> usmUser \<Rightarrow> bool" where
  "user_after nptr user \<longleftrightarrow>
     idlen (user_engineID nptr) > idlen (user_engineID user) \<or>
     user_engineID user = None \<and> user_engineID nptr \<noteq> None \<or>
     idlen (user_engineID nptr) = idlen (user_engineID user) \<and>
       (case (user_engineID nptr, user_engineID user) of (Some a, Some b) \<Rightarrow> memcmp a b > 0 | _ \<Rightarrow> False) \<or>
     \<not> (user_engineID nptr = None \<and> user_engineID user \<noteq> None) \<and> same_engine nptr user \<and>
       (length (user_name nptr) > length (user_name user) \<or>
        length (user_name nptr) = length (user_name user) \<and> memcmp (user_name nptr) (user_name user) > 0)"

fun usm_add_user_to_list :: "usmUser \<Rightarrow> usmUser list \<Rightarrow> usmUser list" where
  "usm_add_user_to_list user [] = [user]"
| "usm_add_user_to_list user (nptr # ns) =
     (if user_after nptr user then user # nptr # ns
      else if \<not> (user_engineID nptr = None \<and> user_engineID user \<noteq> None) \<and> same_engine nptr user \<and>
        length (user_name nptr) = length (user_name user) \<and> memcmp (user_name nptr) (user_name user) = 0
      then user # ns
      else nptr # usm_add_user_to_list user ns)"

definition usm_check_secLevel :: "int \<Rightarrow> usmUser \<Rightarrow> int" where
  "usm_check_secLevel level user =
     (if userStatus user \<noteq> RS_ACTIVE then - 1
      else if level = SNMP_SEC_LEVEL_AUTHPRIV \<and> netsnmp_oid_equals (privProtocol user) usmNoPrivProtocol = 0 then 1
      else if (level = SNMP_SEC_LEVEL_AUTHPRIV \<or> level = SNMP_SEC_LEVEL_AUTHNOPRIV) \<and>
        netsnmp_oid_equals (authProtocol user) usmNoAuthProtocol = 0 then 1
      else 0)"

section \<open>The security parameters\<close>

datatype usm_error =
    SNMPERR_USM_GENERICERROR
  | SNMPERR_USM_UNKNOWNSECURITYNAME
  | SNMPERR_USM_UNSUPPORTEDSECURITYLEVEL
  | SNMPERR_USM_AUTHENTICATIONFAILURE
  | SNMPERR_USM_PARSEERROR
  | SNMPERR_USM_UNKNOWNENGINEID
  | SNMPERR_USM_NOTINTIMEWINDOW
  | SNMPERR_USM_DECRYPTIONERROR
  | SNMPERR_USM_ENCRYPTIONERROR
  | SNMPERR_TOO_LONG
  | SNMPERR_MALLOC
  | MemoryFault             \<comment> \<open>an access outside the readable memory (undefined behaviour in C)\<close>

record security_parameters =
  msgEngineID :: "u8 list"
  boots_uint :: u32
  time_uint :: u32
  msgUserName :: "u8 list"
  signature :: "u8 list"
  salt :: "u8 list"
  data_ptr :: nat
  blanked :: "u8 list"      \<comment> \<open>the memory after the signature was set to zero\<close>

text \<open>An error of a decoder becomes the return value \<open>code\<close>.\<close>

definition usm_try :: "usm_error \<Rightarrow> asn_error + 'a \<Rightarrow> usm_error + 'a" where
  "usm_try code r = (case r of Inl OutOfBounds \<Rightarrow> Inl MemoryFault | Inl _ \<Rightarrow> Inl code | Inr v \<Rightarrow> Inr v)"

definition memset_zero :: "u8 list \<Rightarrow> nat \<Rightarrow> nat \<Rightarrow> u8 list" where
  "memset_zero m p n = take p m @ replicate n 0 @ drop (p + n) m"

text \<open>
  A return of -1 is \<open>SNMPERR_USM_PARSEERROR\<close>, of -2 \<open>SNMPERR_USM_DECRYPTIONERROR\<close>, which is what the caller makes of them.
  The last four arguments are the sizes of the buffers for the strings.
\<close>

definition usm_parse_security_parameters ::
  "u8 list \<Rightarrow> nat \<Rightarrow> u32 \<Rightarrow> u32 \<Rightarrow> u32 \<Rightarrow> u32 \<Rightarrow> u32 \<Rightarrow> usm_error + security_parameters" where
  "usm_parse_security_parameters m secParams remaining secEngineIDLen secNameLen signature_length salt_length =
     ebind (usm_try SNMPERR_USM_PARSEERROR (asn_parse_sequence m secParams remaining ASN_OCTET_STR)) (\<lambda>(p, octet_string_length, _).
     ebind (usm_try SNMPERR_USM_PARSEERROR (asn_parse_sequence m p octet_string_length ASN_SEQUENCE_CONSTRUCTOR)) (\<lambda>(p, len, _).
     ebind (usm_try SNMPERR_USM_PARSEERROR (asn_parse_string m p len secEngineIDLen)) (\<lambda>(p, len, t, eid, eidlen).
     if t \<noteq> ASN_OCTET_STR then Inl SNMPERR_USM_PARSEERROR else
     ebind (usm_try SNMPERR_USM_PARSEERROR (asn_parse_int m p len 4)) (\<lambda>(p, len, t, boots).
     if t \<noteq> ASN_INTEGER then Inl SNMPERR_USM_PARSEERROR else
     ebind (usm_try SNMPERR_USM_PARSEERROR (asn_parse_int m p len 4)) (\<lambda>(p, len, t, time).
     if t \<noteq> ASN_INTEGER then Inl SNMPERR_USM_PARSEERROR else
     if boots > ENGINEBOOT_MAX \<or> time > ENGINETIME_MAX then Inl SNMPERR_USM_PARSEERROR else
     ebind (usm_try SNMPERR_USM_PARSEERROR (asn_parse_string m p len secNameLen)) (\<lambda>(p, len, t, nm, nmlen).
     if secNameLen < nmlen + 1 then Inl SNMPERR_USM_PARSEERROR else
     if nmlen > 32 then Inl SNMPERR_USM_PARSEERROR else
     if t \<noteq> ASN_OCTET_STR then Inl SNMPERR_USM_PARSEERROR else
     ebind (usm_try SNMPERR_USM_PARSEERROR (asn_parse_string m p len signature_length)) (\<lambda>(p, len, t, sig, siglen).
     if t \<noteq> ASN_OCTET_STR then Inl SNMPERR_USM_PARSEERROR else
     let m' = (if siglen \<noteq> 0 then memset_zero m (p - unat siglen) (unat siglen) else m) in
     ebind (usm_try SNMPERR_USM_DECRYPTIONERROR (asn_parse_string m' p len salt_length)) (\<lambda>(p, len, t, slt, sltlen).
     if t \<noteq> ASN_OCTET_STR then Inl SNMPERR_USM_DECRYPTIONERROR else
     Inr \<lparr>msgEngineID = take (unat eidlen) eid, boots_uint = boots, time_uint = time, msgUserName = take (unat nmlen) nm,
       signature = take (unat siglen) sig, salt = take (unat sltlen) slt, data_ptr = p, blanked = m'\<rparr>))))))))"

section \<open>State\<close>

record usm =
  etimelist :: etimelist
  userList :: "usmUser list"
  noNameUser :: usmUser
  salt_integer :: u32
  salt_integer64_1 :: u32
  salt_integer64_2 :: u32
  statistics :: "nat \<Rightarrow> u32"

text \<open>The local engine: its ID, its boots and its time now.\<close>

record local_engine =
  myID :: "u8 list"
  myBoots :: u32
  myTime :: u32

definition count_error :: "nat \<Rightarrow> usm \<Rightarrow> usm" where
  "count_error which st = st\<lparr>statistics := snmp_increment_statistic which (statistics st)\<rparr>"

section \<open>Timeliness\<close>

definition USM_MAX_ID_LENGTH :: nat where "USM_MAX_ID_LENGTH = 1024"
definition USM_TIME_WINDOW :: u32 where "USM_TIME_WINDOW = 150"

definition time_distance :: "u32 \<Rightarrow> u32 \<Rightarrow> u32" where
  "time_distance a b = (if a > b then a - b else b - a)"

text \<open>\<open>None\<close> is a return of 0.\<close>

definition usm_check_and_update_timeliness ::
  "openssl \<Rightarrow> local_engine \<Rightarrow> usm \<Rightarrow> u8 list \<Rightarrow> u32 \<Rightarrow> u32 \<Rightarrow> usm_error option \<times> usm" where
  "usm_check_and_update_timeliness ssl me st secEngineID boots time =
     (if length (myID me) > USM_MAX_ID_LENGTH \<or> myID me = [] then (Some SNMPERR_USM_GENERICERROR, st)
      else if length secEngineID = length (myID me) \<and> memcmp secEngineID (myID me) = 0 then
        if boots = ENGINEBOOT_MAX \<or> boots \<noteq> myBoots me \<or> time_distance (myTime me) time > USM_TIME_WINDOW
        then (Some SNMPERR_USM_NOTINTIMEWINDOW, count_error STAT_USMSTATSNOTINTIMEWINDOWS st)
        else (None, st)
      else (case get_enginetime_ex ssl (myTime me) (etimelist st) secEngineID True of
          None \<Rightarrow> (Some SNMPERR_USM_GENERICERROR, st)
        | Some (theirBoots, theirTime, theirLastTime) \<Rightarrow>
            if theirBoots = ENGINEBOOT_MAX \<or> theirBoots > boots then (Some SNMPERR_USM_NOTINTIMEWINDOW, st)
            else if theirBoots = boots \<and> time < theirLastTime then
              if time_distance theirTime time > USM_TIME_WINDOW then (Some SNMPERR_USM_NOTINTIMEWINDOW, st) else (None, st)
            else (case set_enginetime ssl (myTime me) (etimelist st) secEngineID boots time True of
                None \<Rightarrow> (Some SNMPERR_USM_GENERICERROR, st)
              | Some et \<Rightarrow> (None, st\<lparr>etimelist := et\<rparr>))))"

section \<open>Processing a message\<close>

definition SNMP_SESS_AUTHORITATIVE :: int where "SNMP_SESS_AUTHORITATIVE = 1"
definition SNMP_SESS_UNKNOWNAUTH :: int where "SNMP_SESS_UNKNOWNAUTH = 2"
definition SNMP_MSG_FLAG_RPRT_BIT :: u8 where "SNMP_MSG_FLAG_RPRT_BIT = 0x04"

text \<open>
  The arguments of the handler. \<open>wholeMsg\<close> is the readable memory from the start of the message on and \<open>msg_addr\<close> its address;
  the session is its \<^verbatim>\<open>isAuthoritative\<close>, \<open>None\<close> for a NULL session; the last three are the sizes of buffers.
\<close>

record usm_in =
  maxMsgSize :: u32
  secParams :: nat
  secLevel :: int
  wholeMsg :: "u8 list"
  msg_addr :: u32
  wholeMsgLen :: u32
  sess_auth :: "int option"
  msg_flags :: u8
  id_room :: u32
  name_room :: u32
  scoped_room :: u32

text \<open>The scoped PDU is in the message, at a position and with a length, or it was decrypted.\<close>

datatype scoped_pdu = InMessage nat u32 | Decrypted "u8 list"

record usm_out =
  secEngineID :: "u8 list"
  secName :: "u8 list"
  scopedPdu :: scoped_pdu
  message :: "u8 list"
  maxSizeResponse :: u32
  user_used :: usmUser      \<comment> \<open>whose protocols and keys are kept in the state reference\<close>

definition engine_must_be_known :: "usm_in \<Rightarrow> bool" where
  "engine_must_be_known i =
     (case sess_auth i of
        Some a \<Rightarrow> a = SNMP_SESS_AUTHORITATIVE \<or> a = SNMP_SESS_UNKNOWNAUTH \<and> msg_flags i AND SNMP_MSG_FLAG_RPRT_BIT \<noteq> 0
      | None \<Rightarrow> msg_flags i AND SNMP_MSG_FLAG_RPRT_BIT \<noteq> 0)"

definition use_default_user :: "usm_in \<Rightarrow> bool" where
  "use_default_user i = (case sess_auth i of Some a \<Rightarrow> a \<noteq> SNMP_SESS_AUTHORITATIVE | None \<Rightarrow> False)"

definition authenticated_level :: "usm_in \<Rightarrow> bool" where
  "authenticated_level i \<longleftrightarrow> secLevel i = SNMP_SEC_LEVEL_AUTHNOPRIV \<or> secLevel i = SNMP_SEC_LEVEL_AUTHPRIV"

text \<open>The record of the engine: it has to be there, or it is made.\<close>

definition find_engine :: "openssl \<Rightarrow> local_engine \<Rightarrow> usm_in \<Rightarrow> u8 list \<Rightarrow> usm \<Rightarrow> usm_error option \<times> usm" where
  "find_engine ssl me i eid st =
     (if engine_must_be_known i then
        if ISENGINEKNOWN ssl (myTime me) (etimelist st) eid then (None, st)
        else (Some SNMPERR_USM_UNKNOWNENGINEID, count_error STAT_USMSTATSUNKNOWNENGINEIDS st)
      else (case ENSURE_ENGINE_RECORD ssl (myTime me) (etimelist st) eid of
          None \<Rightarrow> (Some SNMPERR_USM_GENERICERROR, st)
        | Some et \<Rightarrow> (None, st\<lparr>etimelist := et\<rparr>)))"

text \<open>The initialisation vector: for DES the salt and bytes 8 to 15 of the key; without a cipher it is left as it was.\<close>

definition make_iv :: "usmUser \<Rightarrow> security_parameters \<Rightarrow> u8 list option" where
  "make_iv user sp =
     (if ISTRANSFORM (privProtocol user) usmAESPrivProtocol
      then Some (be_bytes 4 (boots_uint sp) @ be_bytes 4 (time_uint sp) @ salt sp)
      else if ISTRANSFORM (privProtocol user) usmDESPrivProtocol then
        if length (privKey user) < 16 \<or> length (salt sp) < 8 then None
        else Some (map2 (XOR) (take 8 (salt sp)) (take 8 (drop 8 (privKey user))))
      else Some (replicate 16 0))"

definition decrypt_scoped ::
  "openssl \<Rightarrow> usm_in \<Rightarrow> usmUser \<Rightarrow> security_parameters \<Rightarrow> usm \<Rightarrow> (usm_error + u8 list \<times> nat) \<times> usm" where
  "decrypt_scoped ssl i user sp st =
     (case asn_parse_sequence (blanked sp) (data_ptr sp) (wholeMsgLen i - of_nat (data_ptr sp)) ASN_OCTET_STR of
        Inl OutOfBounds \<Rightarrow> (Inl MemoryFault, st)
      | Inl _ \<Rightarrow> (Inl SNMPERR_USM_PARSEERROR, count_error STAT_SNMPINASNPARSEERRS st)
      | Inr (value_ptr, remaining, _) \<Rightarrow>
          if ISTRANSFORM (privProtocol user) usmDESPrivProtocol \<and> remaining mod 8 \<noteq> 0
          then (Inl SNMPERR_USM_DECRYPTIONERROR, count_error STAT_USMSTATSDECRYPTIONERRORS st)
          else (case (make_iv user sp, rds (blanked sp) value_ptr (unat remaining)) of
              (Some iv, Inr ciphertext) \<Rightarrow>
                (case sc_decrypt ssl (privProtocol user) (privKey user) iv ciphertext (unat (scoped_room i)) of
                   None \<Rightarrow> (Inl SNMPERR_USM_DECRYPTIONERROR, count_error STAT_USMSTATSDECRYPTIONERRORS st)
                 | Some plain \<Rightarrow> (Inr (plain, value_ptr), st))
            | _ \<Rightarrow> (Inl MemoryFault, st)))"

text \<open>
  The part after the credentials of the message have been checked. \<^verbatim>\<open>end_of_overhead\<close> stays NULL when a message was decrypted with
  AES.
\<close>

definition finish_message ::
  "openssl \<Rightarrow> usm_in \<Rightarrow> usmUser \<Rightarrow> security_parameters \<Rightarrow> usm \<Rightarrow> (usm_error + usm_out) \<times> usm" where
  "finish_message ssl i user sp st =
     (let out = (\<lambda>scoped end_of_overhead. \<lparr>secEngineID = msgEngineID sp, secName = msgUserName sp, scopedPdu = scoped,
            message = blanked sp, maxSizeResponse = maxMsgSize i - (end_of_overhead - msg_addr i), user_used = user\<rparr>)
      in if secLevel i = SNMP_SEC_LEVEL_AUTHPRIV then
        (case decrypt_scoped ssl i user sp st of
           (Inl e, st) \<Rightarrow> (Inl e, st)
         | (Inr (plain, value_ptr), st) \<Rightarrow>
             (Inr (out (Decrypted plain) (if ISTRANSFORM (privProtocol user) usmDESPrivProtocol
               then msg_addr i + of_nat value_ptr else 0)), st))
      else (Inr (out (InMessage (data_ptr sp) (wholeMsgLen i - of_nat (data_ptr sp))) (msg_addr i + of_nat (data_ptr sp))), st))"

definition check_timely ::
  "openssl \<Rightarrow> local_engine \<Rightarrow> usm_in \<Rightarrow> security_parameters \<Rightarrow> usm \<Rightarrow> usm_error option \<times> usm" where
  "check_timely ssl me i sp st =
     (if authenticated_level i
      then usm_check_and_update_timeliness ssl me st (msgEngineID sp) (boots_uint sp) (time_uint sp)
      else (None, case set_enginetime ssl (myTime me) (etimelist st) (msgEngineID sp) (boots_uint sp) (time_uint sp) False of
          None \<Rightarrow> st | Some et \<Rightarrow> st\<lparr>etimelist := et\<rparr>))"

text \<open>The bytes of the message are the first \<open>wholeMsgLen\<close> of the memory.\<close>

definition whole_message :: "usm_in \<Rightarrow> security_parameters \<Rightarrow> u8 list" where
  "whole_message i sp = take (unat (wholeMsgLen i)) (blanked sp)"

text \<open>
  The length that is left for the parameters is computed from the first bytes of the parameters and of the message, where their
  addresses are meant.
\<close>

definition message_parameters :: "usm_in \<Rightarrow> usm_error + security_parameters" where
  "message_parameters i =
     (if secParams i \<ge> length (wholeMsg i) then Inl MemoryFault
      else let remaining = wholeMsgLen i - (ucast (wholeMsg i ! secParams i) - ucast (wholeMsg i ! 0))
      in usm_parse_security_parameters (wholeMsg i) (secParams i) remaining (id_room i) (name_room i) 16 16)"

definition usm_process_in_msg ::
  "openssl \<Rightarrow> local_engine \<Rightarrow> usm_in \<Rightarrow> usm \<Rightarrow> (usm_error + usm_out) \<times> usm" where
  "usm_process_in_msg ssl me i st =
     (case message_parameters i of
        Inl SNMPERR_USM_DECRYPTIONERROR \<Rightarrow> (Inl SNMPERR_USM_DECRYPTIONERROR, count_error STAT_USMSTATSDECRYPTIONERRORS st)
      | Inl MemoryFault \<Rightarrow> (Inl MemoryFault, st)
      | Inl _ \<Rightarrow> (Inl SNMPERR_USM_PARSEERROR, count_error STAT_SNMPINASNPARSEERRS st)
      | Inr sp \<Rightarrow>
        if secLevel i = SNMP_SEC_LEVEL_AUTHPRIV \<and> length (salt sp) \<noteq> 8
        then (Inl SNMPERR_USM_DECRYPTIONERROR, count_error STAT_USMSTATSDECRYPTIONERRORS st)
        else (case find_engine ssl me i (msgEngineID sp) st of
          (Some e, st) \<Rightarrow> (Inl e, st)
        | (None, st) \<Rightarrow>
          (case usm_get_user_from_list (Some (msgEngineID sp)) (msgUserName sp) (userList st) (use_default_user i) (noNameUser st) of
            None \<Rightarrow> (Inl SNMPERR_USM_UNKNOWNSECURITYNAME, count_error STAT_USMSTATSUNKNOWNUSERNAMES st)
          | Some user \<Rightarrow>
            if usm_check_secLevel (secLevel i) user = 1
            then (Inl SNMPERR_USM_UNSUPPORTEDSECURITYLEVEL, count_error STAT_USMSTATSUNSUPPORTEDSECLEVELS st)
            else if authenticated_level i \<and>
              \<not> sc_check_keyed_hash ssl (authProtocol user) (authKey user) (whole_message i sp) (signature sp)
            then (Inl SNMPERR_USM_AUTHENTICATIONFAILURE, count_error STAT_USMSTATSWRONGDIGESTS st)
            else (case check_timely ssl me i sp st of
              (Some e, st) \<Rightarrow> (Inl e, st)
            | (None, st) \<Rightarrow> finish_message ssl i user sp st))))"

end
