(* ===== verification/Usm_Safety.thy ===== *)
theory Usm_Safety
  imports Usm "HOL-Library.Product_Lexorder"
begin

text \<open>
  What the processing of incoming messages guarantees: an accepted message at an authenticated level carries the right digest and
  is timely, authenticated clocks never go back, and every refusal is counted.
\<close>

section \<open>What a message can change\<close>

lemma count_error_simps [simp]:
  "etimelist (count_error k st) = etimelist st" "userList (count_error k st) = userList st"
  "noNameUser (count_error k st) = noNameUser st"
  by (simp_all add: count_error_def)

text \<open>Outcomes of the handler, in the order of its steps.\<close>

lemma process_outcomes:
  assumes "usm_process_in_msg ssl me i st = (r, st')"
  obtains (refused) e k where "r = Inl e" "st' = st \<or> st' = count_error k st"
  | (engine) e and sp :: security_parameters where "find_engine ssl me i (msgEngineID sp) st = (Some e, st')" "r = Inl e"
  | (credentials) e k st1 and sp :: security_parameters where "find_engine ssl me i (msgEngineID sp) st = (None, st1)" "r = Inl e" "st' = count_error k st1"
  | (verified) st1 user and sp :: security_parameters where
      "find_engine ssl me i (msgEngineID sp) st = (None, st1)"
      "message_parameters i = Inr sp"
      "usm_get_user_from_list (Some (msgEngineID sp)) (msgUserName sp) (userList st1) (use_default_user i) (noNameUser st1) = Some user"
      "usm_check_secLevel (secLevel i) user \<noteq> 1"
      "authenticated_level i \<Longrightarrow> sc_check_keyed_hash ssl (authProtocol user) (authKey user) (whole_message i sp) (signature sp)"
      "(case check_timely ssl me i sp st1 of (Some e, st2) \<Rightarrow> (Inl e, st2) | (None, st2) \<Rightarrow> finish_message ssl i user sp st2) = (r, st')"
proof -
  show thesis
  proof (cases "message_parameters i")
    case (Inl e)
    then show ?thesis using assms refused by (cases e) (auto simp: usm_process_in_msg_def)
  next
    case (Inr sp)
    note p = assms[unfolded usm_process_in_msg_def Inr]
    show ?thesis
    proof (cases "secLevel i = SNMP_SEC_LEVEL_AUTHPRIV \<and> length (salt sp) \<noteq> 8")
      case True
      then show ?thesis using p refused by auto
    next
      case s: False
      obtain f st1 where f: "find_engine ssl me i (msgEngineID sp) st = (f, st1)" by fastforce
      show ?thesis
      proof (cases f)
        case (Some e)
        then show ?thesis using p s f engine[of sp e] by auto
      next
        case None
        show ?thesis
        proof (cases "usm_get_user_from_list (Some (msgEngineID sp)) (msgUserName sp) (userList st1) (use_default_user i) (noNameUser st1)")
          case u: None
          show ?thesis using p s u credentials[OF f[unfolded None]] by (auto simp: f None)
        next
          case u: (Some user)
          show ?thesis
          proof (cases "usm_check_secLevel (secLevel i) user = 1 \<or> authenticated_level i \<and>
              \<not> sc_check_keyed_hash ssl (authProtocol user) (authKey user) (whole_message i sp) (signature sp)")
            case True
            then show ?thesis
              using p s u credentials[OF f[unfolded None]] by (auto simp: f None split: if_splits)
          next
            case False
            then show ?thesis using p s u verified[OF f[unfolded None] Inr u] by (auto simp: f None)
          qed
        qed
      qed
    qed
  qed
qed

section \<open>Clocks\<close>

text \<open>Boots first, then time.\<close>

definition stamp :: "enginetime \<Rightarrow> u32 \<times> u32" where
  "stamp e = (engineBoot e, engineTime e)"

text \<open>The authenticated clock of an engine is kept, and it does not go back.\<close>

definition clock_kept :: "openssl \<Rightarrow> usm \<Rightarrow> usm \<Rightarrow> bool" where
  "clock_kept ssl st st' \<longleftrightarrow> (\<forall>x e. search_enginetime_list ssl (etimelist st) x = Some e \<and> authenticatedFlag e \<longrightarrow>
     (\<exists>e'. search_enginetime_list ssl (etimelist st') x = Some e' \<and> authenticatedFlag e' \<and> stamp e \<le> stamp e'))"

lemma clock_kept_refl: "etimelist st' = etimelist st \<Longrightarrow> clock_kept ssl st st'"
  by (auto simp: clock_kept_def)

lemma clock_kept_trans: "clock_kept ssl a b \<Longrightarrow> clock_kept ssl b c \<Longrightarrow> clock_kept ssl a c"
  unfolding clock_kept_def by (meson order_trans)

lemma clock_kept_unauthenticated:
  assumes "etimes_ok ssl (etimelist st)" "set_enginetime ssl now (etimelist st) x b t False = Some et"
  shows "clock_kept ssl st (st\<lparr>etimelist := et\<rparr>)"
  using clocks.put_unauthenticated[OF assms] by (auto simp: clock_kept_def)

lemma find_engine_effect:
  assumes "find_engine ssl me i eid st = (r, st')" "etimes_ok ssl (etimelist st)"
  shows "etimes_ok ssl (etimelist st')" "clock_kept ssl st st'"
    "userList st' = userList st" "noNameUser st' = noNameUser st"
    "search_enginetime_list ssl (etimelist st) x = Some e \<Longrightarrow> authenticatedFlag e \<Longrightarrow>
       search_enginetime_list ssl (etimelist st') x = Some e"
  using assms clocks.put_inv[OF assms(2)] clocks.put_unauthenticated[OF assms(2)] clock_kept_unauthenticated[OF assms(2)]
  by (auto simp: find_engine_def ENSURE_ENGINE_RECORD_def clock_kept_refl split: if_splits option.splits)

lemma boots_estimate: "fst (estimate b t d) = b \<or> fst (estimate b t d) = b + 1 \<and> b < b + 1"
proof (cases "b < ENGINEBOOT_MAX")
  case True
  then have "unat b < 2147483647" by (simp add: word_less_nat_alt ENGINEBOOT_MAX_def)
  then have "unat (b + 1) = Suc (unat b)" by (simp add: unat_word_ariths)
  then have "b < b + 1" by (simp add: word_less_nat_alt)
  then show ?thesis by (simp add: estimate_def)
qed (simp add: estimate_def)

lemma boots_not_less: "b \<le> fst (estimate b t d)"
  using boots_estimate[of b t d] by (auto intro: less_imp_le)

text \<open>A message that is found timely: for the local engine, and for another one.\<close>

definition remote :: "local_engine \<Rightarrow> u8 list \<Rightarrow> bool" where
  "remote me eid \<longleftrightarrow> myID me \<noteq> [] \<and> length (myID me) \<le> USM_MAX_ID_LENGTH \<and> eid \<noteq> myID me"

lemma local_test: "(length a = length b \<and> memcmp a b = 0) \<longleftrightarrow> a = b"
  using memcmp_zero[of a b] by (cases "length a = length b") auto

lemma timely_local:
  assumes "usm_check_and_update_timeliness ssl me st eid b t = (None, st')" "eid = myID me"
  shows "b = myBoots me \<and> b \<noteq> ENGINEBOOT_MAX \<and> time_distance (myTime me) t \<le> USM_TIME_WINDOW \<and> st' = st"
  using assms memcmp_zero[of "myID me" "myID me"] by (auto simp: usm_check_and_update_timeliness_def not_less split: if_splits)

lemma timely_remote:
  assumes "usm_check_and_update_timeliness ssl me st eid b t = (None, st')" "remote me eid"
  obtains e est last where "eid \<noteq> []" "search_enginetime_list ssl (etimelist st) eid = Some e"
    "est = (if authenticatedFlag e then estimate (engineBoot e) (engineTime e) (myTime me - lastReceivedEngineTime e) else estimate 0 0 0)"
    "last = (if authenticatedFlag e then engineTime e else 0)"
    "fst est \<noteq> ENGINEBOOT_MAX" "fst est \<le> b"
    "fst est = b \<and> t < last \<and> time_distance (snd est) t \<le> USM_TIME_WINDOW \<and> st' = st \<or>
     \<not> (fst est = b \<and> t < last) \<and>
       (\<exists>et. set_enginetime ssl (myTime me) (etimelist st) eid b t True = Some et \<and> st' = st\<lparr>etimelist := et\<rparr>)"
proof -
  have r: "\<not> (length (myID me) > USM_MAX_ID_LENGTH \<or> myID me = [])" "\<not> (length eid = length (myID me) \<and> memcmp eid (myID me) = 0)"
    using assms(2) by (auto simp: remote_def local_test)
  from assms(1) r obtain tb tt tl where g: "get_enginetime_ex ssl (myTime me) (etimelist st) eid True = Some (tb, tt, tl)"
    by (auto simp: usm_check_and_update_timeliness_def split: option.splits)
  then obtain e where e: "eid \<noteq> []" "search_enginetime_list ssl (etimelist st) eid = Some e"
    by (auto simp: get_enginetime_ex_def split: if_splits option.splits)
  define est where "est = (if authenticatedFlag e then estimate (engineBoot e) (engineTime e) (myTime me - lastReceivedEngineTime e)
    else estimate 0 0 0)"
  have t: "tb = fst est" "tt = snd est" "tl = (if authenticatedFlag e then engineTime e else 0)"
    using g e by (auto simp: get_enginetime_ex_def est_def split: prod.splits)
  note c = assms(1)[unfolded usm_check_and_update_timeliness_def if_not_P[OF r(1)] if_not_P[OF r(2)] g option.case prod.case]
  show ?thesis
    using c by (intro that[OF e est_def refl]) (auto simp: t not_less split: if_splits option.splits)
qed

text \<open>The check of timeliness moves a clock only forward.\<close>

lemma timeliness_effect:
  assumes "usm_check_and_update_timeliness ssl me st eid b t = (r, st')" "etimes_ok ssl (etimelist st)"
  shows "etimes_ok ssl (etimelist st') \<and> clock_kept ssl st st'"
proof (cases "r = None \<and> remote me eid")
  case True
  then have "usm_check_and_update_timeliness ssl me st eid b t = (None, st')" "remote me eid" using assms(1) by auto
  then obtain e est last where h: "eid \<noteq> []" "search_enginetime_list ssl (etimelist st) eid = Some e"
    "est = (if authenticatedFlag e then estimate (engineBoot e) (engineTime e) (myTime me - lastReceivedEngineTime e) else estimate 0 0 0)"
    "last = (if authenticatedFlag e then engineTime e else 0)" "fst est \<le> b"
    "st' = st \<or> \<not> (fst est = b \<and> t < last) \<and>
       (\<exists>et. set_enginetime ssl (myTime me) (etimelist st) eid b t True = Some et \<and> st' = st\<lparr>etimelist := et\<rparr>)"
    by (elim timely_remote) auto
  from h(6) show ?thesis
  proof (elim disjE conjE exE)
    fix et assume n: "\<not> (fst est = b \<and> t < last)" and et: "set_enginetime ssl (myTime me) (etimelist st) eid b t True = Some et"
      and st': "st' = st\<lparr>etimelist := et\<rparr>"
    have "stamp e \<le> (b, t)" if a: "authenticatedFlag e"
    proof -
      have "engineBoot e \<le> fst est" using boots_not_less a by (simp add: h(3))
      then show ?thesis
        using h(3-5) n a boots_estimate[of "engineBoot e" "engineTime e" "myTime me - lastReceivedEngineTime e"]
        by (auto simp: stamp_def not_less)
    qed
    moreover have "search_enginetime_list ssl et eid = Some (set_times (myTime me) b t True e)"
      using clocks.put_this[OF assms(2) et h(1)] h(2) by simp
    moreover have "stamp (set_times (myTime me) b t True e) = (b, t)" "authenticatedFlag (set_times (myTime me) b t True e)"
      by (simp_all add: stamp_def set_times_def)
    ultimately have "\<exists>e'. search_enginetime_list ssl et x = Some e' \<and> authenticatedFlag e' \<and> stamp e0 \<le> stamp e'"
      if "search_enginetime_list ssl (etimelist st) x = Some e0" "authenticatedFlag e0" for x e0
      using that h(2) clocks.put_other[OF assms(2) et, of x] by (cases "x = eid") auto
    then have "clock_kept ssl st st'" by (simp add: clock_kept_def st')
    then show ?thesis using clocks.put_inv[OF assms(2) et] by (simp add: st')
  qed (use assms(2) clock_kept_refl in auto)
next
  case False
  have "etimelist st' = etimelist st"
  proof (cases "r = None")
    case True
    then have "\<not> remote me eid" using False by simp
    then show ?thesis
      using assms(1) timely_local[of ssl me st eid b t st'] True
      by (auto simp: remote_def usm_check_and_update_timeliness_def)
  next
    case False
    then show ?thesis
      using assms(1) by (auto simp: usm_check_and_update_timeliness_def split: if_splits option.splits)
  qed
  then show ?thesis using assms(2) clock_kept_refl by auto
qed

lemma check_timely_effect:
  assumes "check_timely ssl me i sp st = (r, st')" "etimes_ok ssl (etimelist st)"
  shows "etimes_ok ssl (etimelist st') \<and> clock_kept ssl st st'"
proof (cases "authenticated_level i")
  case True
  then show ?thesis using assms timeliness_effect by (auto simp: check_timely_def)
next
  case False
  then show ?thesis
    using assms clocks.put_inv[OF assms(2)] clock_kept_unauthenticated[OF assms(2)] clock_kept_refl[of st st]
    by (auto simp: check_timely_def split: option.splits)
qed

lemma decrypt_scoped_etimelist: "decrypt_scoped ssl i user sp st = (r, st') \<Longrightarrow> etimelist st' = etimelist st"
  by (auto simp: decrypt_scoped_def split: sum.splits asn_error.splits if_splits option.splits)

lemma finish_message_etimelist: "finish_message ssl i user sp st = (r, st') \<Longrightarrow> etimelist st' = etimelist st"
  using decrypt_scoped_etimelist[of ssl i user sp st]
  by (auto simp: finish_message_def Let_def split: prod.splits sum.splits if_splits)

lemma process_effect:
  assumes "usm_process_in_msg ssl me i st = (r, st')" "etimes_ok ssl (etimelist st)"
  shows "etimes_ok ssl (etimelist st') \<and> clock_kept ssl st st'"
  using assms(1)
proof (cases rule: process_outcomes)
  case (refused e k)
  then show ?thesis using assms(2) clock_kept_refl by auto
next
  case (engine e sp)
  then show ?thesis using find_engine_effect[OF _ assms(2)] by blast
next
  case (credentials e k st1 sp)
  note f = find_engine_effect[OF credentials(1) assms(2)]
  then show ?thesis
    using clock_kept_trans[OF f(2) clock_kept_refl[of st' st1]] by (simp add: credentials(3))
next
  case (verified st1 user sp)
  note f = find_engine_effect[OF verified(1) assms(2)]
  obtain c st2 where c: "check_timely ssl me i sp st1 = (c, st2)" by fastforce
  note t = check_timely_effect[OF c f(1)]
  have "etimelist st' = etimelist st2"
    using verified(6) finish_message_etimelist[of ssl i user sp st2] by (cases c) (auto simp: c)
  then show ?thesis
    using t clock_kept_trans[OF f(2) clock_kept_trans[of ssl st1 st2 st']] clock_kept_refl[of st' st2] by auto
qed

text \<open>A run: messages arrive one after the other, each at some local time.\<close>

definition process_all :: "openssl \<Rightarrow> (local_engine \<times> usm_in) list \<Rightarrow> usm \<Rightarrow> usm" where
  "process_all ssl msgs st = fold (\<lambda>(me, i) st. snd (usm_process_in_msg ssl me i st)) msgs st"

lemma process_all_effect:
  "etimes_ok ssl (etimelist st) \<Longrightarrow>
     etimes_ok ssl (etimelist (process_all ssl msgs st)) \<and> clock_kept ssl st (process_all ssl msgs st)"
proof (induction msgs arbitrary: st)
  case Nil
  then show ?case by (simp add: process_all_def clock_kept_refl)
next
  case (Cons m msgs)
  obtain me i r st1 where m: "m = (me, i)" "usm_process_in_msg ssl me i st = (r, st1)" by (metis prod.exhaust)
  note e = process_effect[OF m(2) Cons.prems]
  then show ?case
    using Cons.IH[of st1] m clock_kept_trans[of ssl st st1] by (auto simp: process_all_def)
qed

section \<open>Accepted messages\<close>

lemma finish_message_out:
  "finish_message ssl i user sp st = (Inr out, st') \<Longrightarrow>
     user_used out = user \<and> secEngineID out = msgEngineID sp \<and> secName out = msgUserName sp \<and> message out = blanked sp"
  by (auto simp: finish_message_def Let_def split: prod.splits sum.splits if_splits)

lemma process_accepted:
  assumes "usm_process_in_msg ssl me i st = (Inr out, st')" "etimes_ok ssl (etimelist st)"
  obtains sp st1 st2 where "message_parameters i = Inr sp" "secEngineID out = msgEngineID sp" "secName out = msgUserName sp"
    "usm_get_user_from_list (Some (secEngineID out)) (secName out) (userList st) (use_default_user i) (noNameUser st) = Some (user_used out)"
    "authenticated_level i \<Longrightarrow>
       sc_check_keyed_hash ssl (authProtocol (user_used out)) (authKey (user_used out)) (whole_message i sp) (signature sp)"
    "find_engine ssl me i (msgEngineID sp) st = (None, st1)" "check_timely ssl me i sp st1 = (None, st2)"
    "etimelist st' = etimelist st2"
  using assms(1)
proof (cases rule: process_outcomes)
  case (verified st1 user sp)
  note f = find_engine_effect[OF verified(1) assms(2)]
  obtain st2 where t: "check_timely ssl me i sp st1 = (None, st2)" "finish_message ssl i user sp st2 = (Inr out, st')"
    using verified(6) by (auto split: prod.splits option.splits)
  note o = finish_message_out[OF t(2)]
  show ?thesis
    using verified(3,5) o f(3,4) finish_message_etimelist[OF t(2)] by (intro that[OF verified(2) _ _ _ _ verified(1) t(1)]) auto
qed auto

text \<open>An authenticated record gives the same estimate before and after the record of the engine was looked for.\<close>

lemma accepted_old_message:
  assumes "usm_process_in_msg ssl me i st = (Inr out, st')" "etimes_ok ssl (etimelist st)" "authenticated_level i"
    and sp: "message_parameters i = Inr sp" and r: "remote me (msgEngineID sp)"
    and e: "search_enginetime_list ssl (etimelist st) (msgEngineID sp) = Some e" "authenticatedFlag e"
    and old: "(boots_uint sp, time_uint sp) < stamp e"
  shows "boots_uint sp = engineBoot e \<and>
    time_distance (snd (estimate (engineBoot e) (engineTime e) (myTime me - lastReceivedEngineTime e))) (time_uint sp) \<le> USM_TIME_WINDOW"
  using assms(1,2)
proof (cases rule: process_accepted)
  case (1 sp' st1 st2)
  have [simp]: "sp' = sp" using 1(1) sp by simp
  note f = find_engine_effect[OF 1(6) assms(2)]
  have e1: "search_enginetime_list ssl (etimelist st1) (msgEngineID sp) = Some e" using f(5) e by simp
  have c: "usm_check_and_update_timeliness ssl me st1 (msgEngineID sp) (boots_uint sp) (time_uint sp) = (None, st2)"
    using 1(7) assms(3) by (simp add: check_timely_def)
  define est where "est = estimate (engineBoot e) (engineTime e) (myTime me - lastReceivedEngineTime e)"
  from c r have h: "fst est \<le> boots_uint sp"
    "fst est = boots_uint sp \<and> time_uint sp < engineTime e \<and> time_distance (snd est) (time_uint sp) \<le> USM_TIME_WINDOW \<or>
     \<not> (fst est = boots_uint sp \<and> time_uint sp < engineTime e)"
    by (elim timely_remote; use e1 e(2) in \<open>auto simp: est_def\<close>)+
  have b: "engineBoot e \<le> fst est" using boots_not_less by (simp add: est_def)
  with old h(1) have "boots_uint sp = engineBoot e" "time_uint sp < engineTime e" "fst est = boots_uint sp"
    by (auto simp: stamp_def)
  then show ?thesis using h(2) by (auto simp: est_def)
qed

lemma get_user_in:
  "usm_get_user_from_list eid nm us d u0 = Some user \<Longrightarrow> user \<in> insert u0 (set us)"
  by (auto simp: usm_get_user_from_list_def find_Some_iff split: option.splits if_splits)

text \<open>
  A message that does not authenticate leaves every authenticated clock as it is, stamp and all.
\<close>

lemma unauthenticated_keeps_clocks:
  assumes "usm_process_in_msg ssl me i st = (r, st')" "etimes_ok ssl (etimelist st)"
    and no: "\<not> authenticated_level i \<or> (\<forall>sp. \<forall>user\<in>insert (noNameUser st) (set (userList st)). message_parameters i = Inr sp \<longrightarrow>
      \<not> sc_check_keyed_hash ssl (authProtocol user) (authKey user) (whole_message i sp) (signature sp))"
    and e: "search_enginetime_list ssl (etimelist st) x = Some e" "authenticatedFlag e"
  shows "search_enginetime_list ssl (etimelist st') x = Some e"
  using assms(1)
proof (cases rule: process_outcomes)
  case (refused e k)
  then show ?thesis using e by auto
next
  case (engine e sp)
  then show ?thesis using find_engine_effect(5)[OF engine(1) assms(2)] e by blast
next
  case (credentials e k st1 sp)
  then show ?thesis using find_engine_effect(5)[OF credentials(1) assms(2)] e by simp
next
  case (verified st1 user sp)
  note f = find_engine_effect[OF verified(1) assms(2)]
  have "user \<in> insert (noNameUser st) (set (userList st))" using get_user_in[OF verified(3)] f(3,4) by simp
  then have a: "\<not> authenticated_level i" using no verified(2,5) by blast
  obtain c st2 where c: "check_timely ssl me i sp st1 = (c, st2)" by fastforce
  have "etimelist st' = etimelist st2"
    using verified(6) finish_message_etimelist[of ssl i user sp st2 r st'] by (cases c) (auto simp: c)
  moreover have "search_enginetime_list ssl (etimelist st2) x = Some e"
    using c a clocks.put_unauthenticated[OF f(1) _ f(5)[OF e] e(2)] f(5)[OF e]
    by (auto simp: check_timely_def split: option.splits)
  ultimately show ?thesis by simp
qed

section \<open>Counted errors\<close>

definition error_counter :: "bool \<Rightarrow> usm_error \<Rightarrow> nat option" where
  "error_counter local e = (case e of
      SNMPERR_USM_UNKNOWNSECURITYNAME \<Rightarrow> Some STAT_USMSTATSUNKNOWNUSERNAMES
    | SNMPERR_USM_UNSUPPORTEDSECURITYLEVEL \<Rightarrow> Some STAT_USMSTATSUNSUPPORTEDSECLEVELS
    | SNMPERR_USM_AUTHENTICATIONFAILURE \<Rightarrow> Some STAT_USMSTATSWRONGDIGESTS
    | SNMPERR_USM_PARSEERROR \<Rightarrow> Some STAT_SNMPINASNPARSEERRS
    | SNMPERR_USM_UNKNOWNENGINEID \<Rightarrow> Some STAT_USMSTATSUNKNOWNENGINEIDS
    | SNMPERR_USM_DECRYPTIONERROR \<Rightarrow> Some STAT_USMSTATSDECRYPTIONERRORS
    | SNMPERR_USM_NOTINTIMEWINDOW \<Rightarrow> if local then Some STAT_USMSTATSNOTINTIMEWINDOWS else None
    | _ \<Rightarrow> None)"

text \<open>The counters after a refusal with an error, and after a success.\<close>

definition counted_once :: "nat option \<Rightarrow> usm \<Rightarrow> usm \<Rightarrow> bool" where
  "counted_once k st st' \<longleftrightarrow> statistics st' =
     (case k of None \<Rightarrow> statistics st | Some k \<Rightarrow> (statistics st)(k := statistics st k + 1))"

lemma counted_once_simps [simp]:
  "counted_once None st st' \<longleftrightarrow> statistics st' = statistics st"
  "k < MAX_STATS \<Longrightarrow> counted_once (Some k) st (count_error k st)"
  by (simp_all add: counted_once_def count_error_def snmp_increment_statistic_def)

lemma counted_once_from: "statistics st1 = statistics st \<Longrightarrow> counted_once k st1 st' \<Longrightarrow> counted_once k st st'"
  by (simp add: counted_once_def split: option.splits)

lemma find_engine_counted:
  "find_engine ssl me i eid st = (r, st') \<Longrightarrow>
     counted_once (case r of None \<Rightarrow> None | Some e \<Rightarrow> error_counter l e) st st'"
  by (auto simp: find_engine_def error_counter_def stat_defs split: if_splits option.splits)

lemma timeliness_counted:
  "usm_check_and_update_timeliness ssl me st eid b t = (r, st') \<Longrightarrow>
     counted_once (case r of None \<Rightarrow> None | Some e \<Rightarrow> error_counter (eid = myID me) e) st st'"
  by (auto simp: usm_check_and_update_timeliness_def error_counter_def stat_defs local_test
      split: if_splits option.splits)

lemma check_timely_counted:
  "check_timely ssl me i sp st = (r, st') \<Longrightarrow>
     counted_once (case r of None \<Rightarrow> None | Some e \<Rightarrow> error_counter (msgEngineID sp = myID me) e) st st'"
  using timeliness_counted[of ssl me st "msgEngineID sp" "boots_uint sp" "time_uint sp"]
  by (auto simp: check_timely_def split: if_splits option.splits)

lemma finish_message_counted:
  "finish_message ssl i user sp st = (r, st') \<Longrightarrow>
     counted_once (case r of Inr _ \<Rightarrow> None | Inl e \<Rightarrow> error_counter l e) st st'"
  by (auto simp: finish_message_def decrypt_scoped_def error_counter_def stat_defs Let_def
      split: sum.splits asn_error.splits if_splits option.splits)

lemma parameters_error: "message_parameters i = Inl e \<Longrightarrow>
  e \<in> {MemoryFault, SNMPERR_USM_PARSEERROR, SNMPERR_USM_DECRYPTIONERROR}"
proof -
  have t: "e \<in> {MemoryFault, c}" if "usm_try c r = Inl e" for c r and e :: usm_error
    using that by (auto simp: usm_try_def split: sum.splits asn_error.splits)
  assume "message_parameters i = Inl e"
  then show ?thesis
    by (auto simp: message_parameters_def usm_parse_security_parameters_def ebind_eq_Inl Let_def dest!: t split: if_splits prod.splits)
qed

definition is_local :: "local_engine \<Rightarrow> usm_in \<Rightarrow> bool" where
  "is_local me i = (case message_parameters i of Inr sp \<Rightarrow> msgEngineID sp = myID me | Inl _ \<Rightarrow> False)"

lemma process_counted:
  assumes "usm_process_in_msg ssl me i st = (r, st')"
  shows "counted_once (case r of Inr _ \<Rightarrow> None | Inl e \<Rightarrow> error_counter (is_local me i) e) st st'"
proof (cases "message_parameters i")
  case (Inl e)
  then show ?thesis
    using assms parameters_error[OF Inl] by (auto simp: usm_process_in_msg_def error_counter_def stat_defs)
next
  case (Inr sp)
  then have l: "is_local me i \<longleftrightarrow> msgEngineID sp = myID me" by (simp add: is_local_def)
  note p = assms[unfolded usm_process_in_msg_def Inr]
  obtain f st1 where f: "find_engine ssl me i (msgEngineID sp) st = (f, st1)" by fastforce
  note fc = find_engine_counted[OF f, of "is_local me i"]
  obtain c st2 where c: "check_timely ssl me i sp st1 = (c, st2)" by fastforce
  note cc = check_timely_counted[OF c]
  show ?thesis
  proof (cases f)
    case None
    then have s1: "statistics st1 = statistics st" using fc by simp
    then have e: "counted_once (Some k) st (count_error k st1)" if "k < MAX_STATS" for k
      using counted_once_from[OF _ counted_once_simps(2)[OF that]] by blast
    show ?thesis
    proof (cases c)
      case c0: None
      then have s2: "statistics st2 = statistics st" using cc s1 by simp
      show ?thesis
        using p f c None c0 e l counted_once_from[OF s2 finish_message_counted]
        by (auto simp: error_counter_def stat_defs split: if_splits option.splits)
    next
      case (Some x)
      then show ?thesis
        using p f c None e l counted_once_from[OF s1 cc]
        by (auto simp: error_counter_def stat_defs split: if_splits option.splits)
    qed
  next
    case (Some x)
    then show ?thesis using p f fc by (auto simp: error_counter_def stat_defs split: if_splits)
  qed
qed

section \<open>The list of users\<close>

text \<open>The order of the list: by engine ID (NULL first, then by length), then by name (by length first).\<close>

definition user_key :: "usmUser \<Rightarrow> nat \<times> bool \<times> u8 list \<times> nat \<times> u8 list" where
  "user_key u = (idlen (user_engineID u), user_engineID u \<noteq> None, case user_engineID u of None \<Rightarrow> [] | Some a \<Rightarrow> a,
     length (user_name u), user_name u)"

lemma user_key_eq: "user_key u = user_key v \<longleftrightarrow> user_engineID u = user_engineID v \<and> user_name u = user_name v"
  by (auto simp: user_key_def split: option.splits)

lemma user_after_key: "user_after nptr user \<longleftrightarrow> user_key user < user_key nptr"
proof (cases "user_engineID nptr"; cases "user_engineID user")
  fix a b assume "user_engineID nptr = Some a" "user_engineID user = Some b"
  then show ?thesis
    using memcmp_order[of a b] memcmp_order[of "user_name nptr" "user_name user"]
    by (auto simp: user_after_def same_engine_def user_key_def idlen_def split: if_splits)
qed (use memcmp_order[of "user_name nptr" "user_name user"] in
    \<open>auto simp: user_after_def same_engine_def user_key_def idlen_def split: if_splits\<close>)

lemma same_user_key:
  "\<not> (user_engineID nptr = None \<and> user_engineID user \<noteq> None) \<and> same_engine nptr user \<and>
     length (user_name nptr) = length (user_name user) \<and> memcmp (user_name nptr) (user_name user) = 0 \<longleftrightarrow>
   user_key nptr = user_key user"
proof (cases "user_engineID nptr"; cases "user_engineID user")
  fix a b assume "user_engineID nptr = Some a" "user_engineID user = Some b"
  then show ?thesis
    using memcmp_zero[of a b] memcmp_zero[of "user_name nptr" "user_name user"]
    by (auto simp: same_engine_def user_key_eq idlen_def)
qed (use memcmp_zero[of "user_name nptr" "user_name user"] in \<open>auto simp: same_engine_def user_key_eq idlen_def\<close>)

lemma add_user_simps:
  "usm_add_user_to_list user (nptr # ns) =
     (if user_key user < user_key nptr then user # nptr # ns
      else if user_key nptr = user_key user then user # ns
      else nptr # usm_add_user_to_list user ns)"
  unfolding usm_add_user_to_list.simps(2) same_user_key user_after_key ..

lemma add_user_set: "set (usm_add_user_to_list u us) \<subseteq> insert u (set us)"
  by (induction us) (auto simp: add_user_simps simp del: usm_add_user_to_list.simps(2))

lemma add_user_sorted:
  "sorted_wrt (<) (map user_key us) \<Longrightarrow> sorted_wrt (<) (map user_key (usm_add_user_to_list u us))"
proof (induction us)
  case (Cons v us)
  then show ?case
    using add_user_set[of u us] by (auto simp: add_user_simps subset_iff simp del: usm_add_user_to_list.simps(2))
qed simp

definition find_user :: "u8 list option \<Rightarrow> u8 list \<Rightarrow> usmUser list \<Rightarrow> usmUser option" where
  "find_user eid nm us = List.find (\<lambda>u. user_engineID u = eid \<and> user_name u = nm) us"

lemma get_user_find:
  "usm_get_user_from_list eid nm us d u0 =
     (case find_user eid nm us of Some u \<Rightarrow> Some u | None \<Rightarrow> if d \<and> nm = [] then Some u0 else None)"
proof -
  have "(user_name u = nm \<and> (case (user_engineID u, eid) of (None, None) \<Rightarrow> True
      | (Some a, Some b) \<Rightarrow> length a = length b \<and> memcmp a b = 0 | _ \<Rightarrow> False)) \<longleftrightarrow> user_engineID u = eid \<and> user_name u = nm" for u
    by (auto simp: local_test split: option.splits)
  then have "(\<lambda>u. user_name u = nm \<and> (case (user_engineID u, eid) of (None, None) \<Rightarrow> True
      | (Some a, Some b) \<Rightarrow> length a = length b \<and> memcmp a b = 0 | _ \<Rightarrow> False)) = (\<lambda>u. user_engineID u = eid \<and> user_name u = nm)"
    by (intro ext)
  then show ?thesis unfolding usm_get_user_from_list_def find_user_def by (rule arg_cong)
qed

lemma find_add_user:
  "find_user eid nm (usm_add_user_to_list u us) =
     (if user_engineID u = eid \<and> user_name u = nm then Some u else find_user eid nm us)"
  by (induction us) (auto simp: find_user_def add_user_simps user_key_eq simp del: usm_add_user_to_list.simps(2))

end
