(* ===== verification/Usm_Out.thy ===== *)
theory Usm_Out
  imports Usm_Safety Pdu
begin

unbundle bit_operations_syntax

text \<open>
  Outgoing messages in the user-based security model: \<^verbatim>\<open>usm_rgenerate_out_msg\<close> of \<^verbatim>\<open>snmplib/snmpusm.c\<close>, which puts the
  security parameters and the header in front of the scoped PDU in a growing buffer, encrypts and signs.
\<close>

section \<open>Salts\<close>

text \<open>
  The vector, the salt of the message and the next state. The bytes of \<^verbatim>\<open>priv_salt\<close> are those the key has after its first eight;
  \<^verbatim>\<open>priv_salt_length\<close> is what the caller says of their number. A return of -1 is \<open>SNMPERR_USM_GENERICERROR\<close>.
\<close>

definition usm_set_salt :: "local_engine \<Rightarrow> u8 list \<Rightarrow> u32 \<Rightarrow> usm \<Rightarrow> usm_error + u8 list \<times> u8 list \<times> usm" where
  "usm_set_salt me priv_salt priv_salt_length st =
     (if priv_salt_length < 8 then Inl SNMPERR_USM_GENERICERROR
      else let iv = be_bytes 4 (myBoots me) @ be_bytes 4 (salt_integer st)
      in if length priv_salt < 8 then Inl MemoryFault
      else Inr (map2 (XOR) iv (take 8 priv_salt), iv, st\<lparr>salt_integer := salt_integer st + 1\<rparr>))"

definition usm_set_aes_iv :: "u32 \<Rightarrow> u32 \<Rightarrow> usm \<Rightarrow> u8 list \<times> u8 list \<times> usm" where
  "usm_set_aes_iv boots time st =
     (let slt = be_bytes 4 (salt_integer64_1 st) @ be_bytes 4 (salt_integer64_2 st);
          s2 = salt_integer64_2 st + 1
      in (be_bytes 4 boots @ be_bytes 4 time @ slt, slt, st\<lparr>salt_integer64_2 := (if s2 = 0 then s2 + 1 else s2)\<rparr>))"

section \<open>The user of a message\<close>

text \<open>What is kept of a request for the answer, or taken from the user for a request.\<close>

record usmStateReference =
  usr_name :: "u8 list"
  usr_engine_id :: "u8 list"
  usr_auth_protocol :: oid
  usr_auth_key :: "u8 list"
  usr_priv_protocol :: oid
  usr_priv_key :: "u8 list"
  usr_sec_level :: int

definition usm_check_secLevel_vs_protocols :: "int \<Rightarrow> oid \<Rightarrow> oid \<Rightarrow> int" where
  "usm_check_secLevel_vs_protocols level auth priv =
     (if level = SNMP_SEC_LEVEL_AUTHPRIV \<and> netsnmp_oid_equals priv usmNoPrivProtocol = 0 then 1
      else if (level = SNMP_SEC_LEVEL_AUTHPRIV \<or> level = SNMP_SEC_LEVEL_AUTHNOPRIV) \<and>
        netsnmp_oid_equals auth usmNoAuthProtocol = 0 then 1
      else 0)"

definition usm_get_user :: "usm \<Rightarrow> u8 list \<Rightarrow> u8 list \<Rightarrow> usmUser option" where
  "usm_get_user st engineID nm = usm_get_user_from_list (Some engineID) nm (userList st) True (noNameUser st)"

definition outgoing_user ::
  "usm \<Rightarrow> usmStateReference option \<Rightarrow> u8 list \<Rightarrow> u8 list \<Rightarrow> int \<Rightarrow> usm_error + usmStateReference" where
  "outgoing_user st ref eid nm level =
     (case ref of
        Some r \<Rightarrow> Inr (if usr_engine_id r = [] then r\<lparr>usr_engine_id := eid\<rparr> else r)
      | None \<Rightarrow>
        (case usm_get_user st eid nm of
           Some u \<Rightarrow> Inr \<lparr>usr_name = nm, usr_engine_id = eid, usr_auth_protocol = authProtocol u, usr_auth_key = authKey u,
             usr_priv_protocol = privProtocol u, usr_priv_key = privKey u, usr_sec_level = level\<rparr>
         | None \<Rightarrow>
             if level \<noteq> SNMP_SEC_LEVEL_NOAUTH then Inl SNMPERR_USM_UNKNOWNSECURITYNAME
             else Inr \<lparr>usr_name = nm, usr_engine_id = eid, usr_auth_protocol = usmNoAuthProtocol, usr_auth_key = [],
               usr_priv_protocol = usmNoPrivProtocol, usr_priv_key = [], usr_sec_level = level\<rparr>))"

section \<open>Building the message\<close>

text \<open>
  The initialisation vector and the salt of a message. The length of the bytes of the key for DES is computed without a sign: for
  a key of fewer than eight bytes it wraps around.
\<close>

definition message_salt ::
  "local_engine \<Rightarrow> usmStateReference \<Rightarrow> u32 \<Rightarrow> u32 \<Rightarrow> usm \<Rightarrow> usm_error + u8 list \<times> u8 list \<times> usm" where
  "message_salt me r boots time st =
     (if ISTRANSFORM (usr_priv_protocol r) usmAESPrivProtocol then
        if usr_priv_key r = [] then Inl SNMPERR_USM_GENERICERROR else Inr (usm_set_aes_iv boots time st)
      else if ISTRANSFORM (usr_priv_protocol r) usmDESPrivProtocol then
        if usr_priv_key r = [] then Inl SNMPERR_USM_GENERICERROR
        else usm_set_salt me (drop 8 (usr_priv_key r)) (of_nat (length (usr_priv_key r)) - 8) st
      else Inr ([], [], st))"

text \<open>
  The encrypted scoped PDU as an octet string at the end of the buffer, and the salt; without privacy the scoped PDU stays where it
  is. The memory for the ciphertext is asked from \<open>alloc\<close>.
\<close>

definition encrypt_scoped ::
  "openssl \<Rightarrow> (nat \<Rightarrow> bool) \<Rightarrow> local_engine \<Rightarrow> usmStateReference \<Rightarrow> u32 \<Rightarrow> u32 \<Rightarrow> u8 list \<Rightarrow> rbuf \<Rightarrow> usm \<Rightarrow>
   (usm_error + u8 list \<times> rbuf) \<times> usm" where
  "encrypt_scoped ssl alloc me r boots time scoped b st =
     (if usr_sec_level r \<noteq> SNMP_SEC_LEVEL_AUTHPRIV then (Inr ([], b), st)
      else if \<not> alloc (length scoped + 64) then (Inl SNMPERR_MALLOC, st)
      else (case message_salt me r boots time st of
          Inl e \<Rightarrow> (Inl e, st)
        | Inr (iv, slt, st) \<Rightarrow>
          (case sc_encrypt ssl (usr_priv_protocol r) (usr_priv_key r) iv scoped (length scoped + 64) of
             None \<Rightarrow> (Inl SNMPERR_USM_ENCRYPTIONERROR, st)
           | Some ciphertext \<Rightarrow>
             (ebind (usm_try SNMPERR_USM_ENCRYPTIONERROR
                (asn_realloc_rbuild_string alloc True ASN_OCTET_STR ciphertext (b\<lparr>offset := 0\<rparr>))) (\<lambda>b. Inr (slt, b)), st))))"

text \<open>The security parameters, from the last to the first; the second result is where the digest belongs.\<close>

definition rbuild_parameters ::
  "(nat \<Rightarrow> bool) \<Rightarrow> usmStateReference \<Rightarrow> u32 \<Rightarrow> u32 \<Rightarrow> u8 list \<Rightarrow> rbuf \<Rightarrow> asn_error + rbuf \<times> nat" where
  "rbuild_parameters alloc r boots time slt b =
     (let sp_offset = offset b;
          authParams = (if usr_sec_level r = SNMP_SEC_LEVEL_AUTHNOPRIV \<or> usr_sec_level r = SNMP_SEC_LEVEL_AUTHPRIV
            then replicate USM_MD5_AND_SHA_AUTH_LEN 0 else [])
      in
      ebind (asn_realloc_rbuild_string alloc True ASN_OCTET_STR slt b) (\<lambda>b.
      ebind (asn_realloc_rbuild_string alloc True ASN_OCTET_STR authParams b) (\<lambda>b.
      let mac_offset = offset b - 2 in
      ebind (asn_realloc_rbuild_string alloc True ASN_OCTET_STR (usr_name r) b) (\<lambda>b.
      ebind (asn_realloc_rbuild_int alloc True ASN_INTEGER time 4 b) (\<lambda>b.
      ebind (asn_realloc_rbuild_int alloc True ASN_INTEGER boots 4 b) (\<lambda>b.
      ebind (asn_realloc_rbuild_string alloc True ASN_OCTET_STR (usr_engine_id r) b) (\<lambda>b.
      ebind (asn_realloc_rbuild_sequence alloc True ASN_SEQUENCE_CONSTRUCTOR (of_nat (offset b - sp_offset)) b) (\<lambda>b.
      ebind (asn_realloc_rbuild_header alloc True ASN_OCTET_STR (of_nat (offset b - sp_offset)) b) (\<lambda>b.
      Inr (b, mac_offset))))))))))"

text \<open>The store of the digest \<^verbatim>\<open>mac_offset\<close> bytes before the end of the buffer.\<close>

definition store_mac :: "u8 list \<Rightarrow> nat \<Rightarrow> rbuf \<Rightarrow> rbuf" where
  "store_mac mac mac_offset b =
     (let start = length (pkt b) - mac_offset
      in b\<lparr>pkt := take start (pkt b) @ mac @ drop (start + length mac) (pkt b)\<rparr>)"

definition sign_message :: "openssl \<Rightarrow> (nat \<Rightarrow> bool) \<Rightarrow> usmStateReference \<Rightarrow> nat \<Rightarrow> rbuf \<Rightarrow> usm_error + rbuf" where
  "sign_message ssl alloc r mac_offset b =
     (if usr_sec_level r = SNMP_SEC_LEVEL_AUTHNOPRIV \<or> usr_sec_level r = SNMP_SEC_LEVEL_AUTHPRIV then
        if \<not> alloc USM_MD5_AND_SHA_AUTH_LEN then Inl SNMPERR_USM_GENERICERROR else
        (case sc_generate_keyed_hash ssl (usr_auth_protocol r) (usr_auth_key r) (contents b) USM_MD5_AND_SHA_AUTH_LEN of
           None \<Rightarrow> Inl SNMPERR_USM_AUTHENTICATIONFAILURE
         | Some temp_sig \<Rightarrow>
             if length temp_sig \<noteq> USM_MD5_AND_SHA_AUTH_LEN then Inl SNMPERR_USM_AUTHENTICATIONFAILURE
             else Inr (store_mac temp_sig mac_offset b))
      else Inr b)"

definition rbuild_message ::
  "(nat \<Rightarrow> bool) \<Rightarrow> usmStateReference \<Rightarrow> u32 \<Rightarrow> u32 \<Rightarrow> u8 list \<Rightarrow> u8 list \<Rightarrow> rbuf \<Rightarrow> asn_error + rbuf \<times> nat" where
  "rbuild_message alloc r boots time slt globalData b =
     ebind (rbuild_parameters alloc r boots time slt b) (\<lambda>(b, mac_offset).
     ebind (ebind (rroom alloc True (length globalData) b) (rcopy globalData)) (\<lambda>b.
     ebind (asn_realloc_rbuild_sequence alloc True ASN_SEQUENCE_CONSTRUCTOR (of_nat (offset b)) b) (\<lambda>b.
     Inr (b, mac_offset))))"

text \<open>The estimate of the clock of the authoritative engine; what it is when nothing is known.\<close>

definition message_clock :: "openssl \<Rightarrow> local_engine \<Rightarrow> usmStateReference \<Rightarrow> usm \<Rightarrow> u32 \<times> u32" where
  "message_clock ssl me r st =
     (case get_enginetime ssl (myTime me) (etimelist st) (usr_engine_id r) False of None \<Rightarrow> (0, 0) | Some bt \<Rightarrow> bt)"

definition usm_rgenerate_out_msg ::
  "openssl \<Rightarrow> (nat \<Rightarrow> bool) \<Rightarrow> local_engine \<Rightarrow> u8 list \<Rightarrow> u8 list \<Rightarrow> u8 list \<Rightarrow> int \<Rightarrow> u8 list \<Rightarrow> usmStateReference option \<Rightarrow>
   rbuf \<Rightarrow> usm \<Rightarrow> (usm_error + rbuf) \<times> usm" where
  "usm_rgenerate_out_msg ssl alloc me globalData eid nm level scoped ref b st =
     (case outgoing_user st ref eid nm level of
        Inl e \<Rightarrow> (Inl e, st)
      | Inr r \<Rightarrow>
        if usm_check_secLevel_vs_protocols (usr_sec_level r) (usr_auth_protocol r) (usr_priv_protocol r) = 1
        then (Inl SNMPERR_USM_UNSUPPORTEDSECURITYLEVEL, st)
        else let (boots, time) = message_clock ssl me r st
        in case encrypt_scoped ssl alloc me r boots time scoped b st of
            (Inl e, st) \<Rightarrow> (Inl e, st)
          | (Inr (slt, b), st) \<Rightarrow>
              (ebind (usm_try SNMPERR_TOO_LONG (rbuild_message alloc r boots time slt globalData b))
                 (\<lambda>(b, mac_offset). sign_message ssl alloc r mac_offset b), st))"

end
