(* ===== verification/V3_Message.thy ===== *)
theory V3_Message
  imports Usm_Out
begin

unbundle bit_operations_syntax

text \<open>
  SNMPv3 messages (\<^verbatim>\<open>snmplib/snmp_api.c\<close>): the header with the message flags, the scoped PDU with its context, the whole
  message built in a growing buffer, and \<^verbatim>\<open>snmpv3_parse\<close>, which calls the security model and then decodes the PDU.
\<close>

section \<open>Constants\<close>

definition SNMP_MAX_MSG_SIZE :: u32 where "SNMP_MAX_MSG_SIZE = 1472"
definition SNMP_MAX_MSG_V3_HDRS :: nat where "SNMP_MAX_MSG_V3_HDRS = 4 + 3 + 4 + 7 + 7 + 3 + 7 + 16"
definition SNMP_MAX_ENG_SIZE :: u32 where "SNMP_MAX_ENG_SIZE = 32"
definition SNMP_MAX_SEC_NAME_SIZE :: u32 where "SNMP_MAX_SEC_NAME_SIZE = 256"
definition SNMP_MAX_CONTEXT_SIZE :: u32 where "SNMP_MAX_CONTEXT_SIZE = 256"
definition SNMP_SEC_MODEL_USM :: u32 where "SNMP_SEC_MODEL_USM = 3"
definition SNMP_MSG_FLAG_AUTH_BIT :: u8 where "SNMP_MSG_FLAG_AUTH_BIT = 0x01"
definition SNMP_MSG_FLAG_PRIV_BIT :: u8 where "SNMP_MSG_FLAG_PRIV_BIT = 0x02"
definition STAT_SNMPUNKNOWNSECURITYMODELS :: nat where "STAT_SNMPUNKNOWNSECURITYMODELS = 0"
definition STAT_SNMPINVALIDMSGS :: nat where "STAT_SNMPINVALIDMSGS = 1"

lemmas v3_size_defs = SNMP_MAX_MSG_SIZE_def SNMP_MAX_MSG_V3_HDRS_def SNMP_MAX_ENG_SIZE_def SNMP_MAX_SEC_NAME_SIZE_def
  SNMP_MAX_CONTEXT_SIZE_def
lemmas msg_flag_defs = SNMP_MSG_FLAG_AUTH_BIT_def SNMP_MSG_FLAG_PRIV_BIT_def SNMP_MSG_FLAG_RPRT_BIT_def

text \<open>An error of the security model is passed on.\<close>

datatype v3_error =
    SNMPERR_GENERR
  | SNMPERR_ASN_PARSE_ERR
  | SNMPERR_UNKNOWN_SEC_MODEL
  | SNMPERR_INVALID_MSG
  | V3_MALLOC               \<comment> \<open>\<^verbatim>\<open>SNMPERR_MALLOC\<close> of this layer\<close>
  | SecurityError usm_error
  | V3MemoryFault           \<comment> \<open>an access outside the readable memory (undefined behaviour in C)\<close>

text \<open>The fields of a session that this layer uses.\<close>

record session =
  isAuthoritative :: int
  sndMsgMaxSize :: u32
  rcvMsgMaxSize :: u32

text \<open>The user-based model is the only one the configuration registers.\<close>

definition find_sec_mod :: "u32 \<Rightarrow> bool" where
  "find_sec_mod secmod \<longleftrightarrow> secmod = SNMP_SEC_MODEL_USM"

section \<open>Building\<close>

definition SNMP_CMD_CONFIRMED :: "u32 \<Rightarrow> bool" where
  "SNMP_CMD_CONFIRMED c \<longleftrightarrow> c = SNMP_MSG_INFORM \<or> c = SNMP_MSG_GETBULK \<or> c = SNMP_MSG_GETNEXT \<or> c = SNMP_MSG_GET \<or> c = SNMP_MSG_SET"

definition snmpv3_calc_msg_flags :: "int \<Rightarrow> u32 \<Rightarrow> u8" where
  "snmpv3_calc_msg_flags sec_level msg_command =
     (let flgs = (if sec_level = SNMP_SEC_LEVEL_AUTHNOPRIV then SNMP_MSG_FLAG_AUTH_BIT
        else if sec_level = SNMP_SEC_LEVEL_AUTHPRIV then SNMP_MSG_FLAG_AUTH_BIT OR SNMP_MSG_FLAG_PRIV_BIT else 0)
      in if SNMP_CMD_CONFIRMED msg_command then flgs OR SNMP_MSG_FLAG_RPRT_BIT else flgs)"

definition snmpv3_header_realloc_rbuild :: "(nat \<Rightarrow> bool) \<Rightarrow> session \<Rightarrow> pdu \<Rightarrow> rbuf \<Rightarrow> asn_error + rbuf" where
  "snmpv3_header_realloc_rbuild alloc sess pdu b =
     (let start_offset = offset b in
      ebind (asn_realloc_rbuild_int alloc True ASN_INTEGER (securityModel pdu) 4 b) (\<lambda>b.
      ebind (asn_realloc_rbuild_string alloc True ASN_OCTET_STR
        [snmpv3_calc_msg_flags (sint (securityLevel pdu)) (command pdu)] b) (\<lambda>b.
      ebind (asn_realloc_rbuild_int alloc True ASN_INTEGER (rcvMsgMaxSize sess) 4 b) (\<lambda>b.
      ebind (asn_realloc_rbuild_int alloc True ASN_INTEGER (msgid pdu) 4 b) (\<lambda>b.
      ebind (asn_realloc_rbuild_sequence alloc True ASN_SEQUENCE_CONSTRUCTOR (of_nat (offset b - start_offset)) b) (\<lambda>b.
      asn_realloc_rbuild_int alloc True ASN_INTEGER (version pdu) 4 b))))))"

definition snmpv3_scopedPDU_header_realloc_rbuild :: "(nat \<Rightarrow> bool) \<Rightarrow> pdu \<Rightarrow> nat \<Rightarrow> rbuf \<Rightarrow> asn_error + rbuf" where
  "snmpv3_scopedPDU_header_realloc_rbuild alloc pdu body_len b =
     (let start_offset = offset b in
      ebind (asn_realloc_rbuild_string alloc True ASN_OCTET_STR (contextName pdu) b) (\<lambda>b.
      ebind (asn_realloc_rbuild_string alloc True ASN_OCTET_STR (contextEngineID pdu) b) (\<lambda>b.
      asn_realloc_rbuild_sequence alloc True ASN_SEQUENCE_CONSTRUCTOR (of_nat (offset b - start_offset + body_len)) b)))"

text \<open>The scoped PDU in the buffer, from the PDU or from given bytes.\<close>

definition rbuild_scoped :: "(nat \<Rightarrow> bool) \<Rightarrow> pdu \<Rightarrow> u8 list option \<Rightarrow> rbuf \<Rightarrow> asn_error + rbuf" where
  "rbuild_scoped alloc pdu pdu_data b =
     (let body_end_offset = offset b in
      ebind (case pdu_data of
          Some d \<Rightarrow> ebind (rroom alloc True (length d) b) (rcopy d)
        | None \<Rightarrow> snmp_pdu_realloc_rbuild alloc pdu b) (\<lambda>b.
      snmpv3_scopedPDU_header_realloc_rbuild alloc pdu (offset b - body_end_offset) b))"

definition v3_try :: "v3_error \<Rightarrow> asn_error + 'a \<Rightarrow> v3_error + 'a" where
  "v3_try code r = (case r of Inl OutOfBounds \<Rightarrow> Inl V3MemoryFault | Inl _ \<Rightarrow> Inl code | Inr v \<Rightarrow> Inr v)"

definition snmpv3_packet_realloc_rbuild ::
  "openssl \<Rightarrow> (nat \<Rightarrow> bool) \<Rightarrow> local_engine \<Rightarrow> session \<Rightarrow> pdu \<Rightarrow> usmStateReference option \<Rightarrow> u8 list option \<Rightarrow> rbuf \<Rightarrow> usm \<Rightarrow>
   (v3_error + rbuf) \<times> usm" where
  "snmpv3_packet_realloc_rbuild ssl alloc me sess pdu ref pdu_data b st =
     (case v3_try SNMPERR_GENERR (rbuild_scoped alloc pdu pdu_data b) of
        Inl e \<Rightarrow> (Inl e, st)
      | Inr b \<Rightarrow>
        if \<not> alloc SNMP_MAX_MSG_V3_HDRS then (Inl SNMPERR_GENERR, st)
        else (case v3_try SNMPERR_GENERR
            (snmpv3_header_realloc_rbuild alloc sess pdu \<lparr>pkt = replicate SNMP_MAX_MSG_V3_HDRS 0, offset = 0\<rparr>) of
          Inl e \<Rightarrow> (Inl e, st)
        | Inr hdr \<Rightarrow>
          if \<not> find_sec_mod (securityModel pdu) then (Inl SNMPERR_GENERR, st)
          else (case usm_rgenerate_out_msg ssl alloc me (contents hdr) (securityEngineID pdu) (securityName pdu)
              (sint (securityLevel pdu)) (contents b) ref b st of
            (Inl e, st) \<Rightarrow> (Inl (SecurityError e), st)
          | (Inr b, st) \<Rightarrow> (Inr b, st))))"

section \<open>Parsing\<close>

text \<open>The version, the message ID and the maximal size, which is checked for its range.\<close>

definition parse_msg_start :: "pdu \<Rightarrow> u8 list \<Rightarrow> u32 \<Rightarrow> v3_error + nat \<times> u32 \<times> pdu \<times> u32" where
  "parse_msg_start pdu m len =
     ebind (v3_try SNMPERR_ASN_PARSE_ERR (asn_parse_sequence m 0 len ASN_SEQUENCE_CONSTRUCTOR)) (\<lambda>(data, len, _).
     ebind (v3_try SNMPERR_ASN_PARSE_ERR (asn_parse_int m data len 4)) (\<lambda>(cp, len, _, ver).
     ebind (v3_try SNMPERR_ASN_PARSE_ERR (asn_parse_sequence m cp len ASN_SEQUENCE_CONSTRUCTOR)) (\<lambda>(data, _, _).
     ebind (v3_try SNMPERR_ASN_PARSE_ERR (asn_parse_int m data (len - of_nat (data - cp)) 4)) (\<lambda>(data, len, t, mid).
     if t \<noteq> ASN_INTEGER then Inl SNMPERR_ASN_PARSE_ERR
     else if sint mid < 0 then Inl SNMPERR_ASN_PARSE_ERR
     else ebind (v3_try SNMPERR_ASN_PARSE_ERR (asn_parse_int m data len 4)) (\<lambda>(data, len, t, msg_max_size).
     if t \<noteq> ASN_INTEGER then Inl SNMPERR_ASN_PARSE_ERR
     else if sint msg_max_size < 484 then Inl SNMPERR_ASN_PARSE_ERR
     else Inr (data, len, pdu\<lparr>version := ver, msgid := mid\<rparr>, msg_max_size))))))"

text \<open>The flags and the security model.\<close>

definition flags_level :: "u8 \<Rightarrow> int" where
  "flags_level flgs =
     (if flgs AND SNMP_MSG_FLAG_AUTH_BIT \<noteq> 0
      then if flgs AND SNMP_MSG_FLAG_PRIV_BIT \<noteq> 0 then SNMP_SEC_LEVEL_AUTHPRIV else SNMP_SEC_LEVEL_AUTHNOPRIV
      else SNMP_SEC_LEVEL_NOAUTH)"

definition parse_msg_security :: "pdu \<Rightarrow> u8 list \<Rightarrow> nat \<Rightarrow> u32 \<Rightarrow> v3_error + nat \<times> pdu \<times> u8" where
  "parse_msg_security pdu m data len =
     ebind (v3_try SNMPERR_ASN_PARSE_ERR (asn_parse_string m data len SNMP_MAX_MSG_SIZE)) (\<lambda>(data, len, t, tmp_buf, tmp_buf_len).
     if t \<noteq> ASN_OCTET_STR \<or> tmp_buf_len \<noteq> 1 then Inl SNMPERR_ASN_PARSE_ERR
     else let flgs = hd tmp_buf;
       pdu = pdu\<lparr>flags := (if flgs AND SNMP_MSG_FLAG_RPRT_BIT \<noteq> 0 then flags pdu OR ucast SNMP_MSG_FLAG_RPRT_BIT
         else flags pdu AND NOT (ucast SNMP_MSG_FLAG_RPRT_BIT))\<rparr>
     in ebind (v3_try SNMPERR_ASN_PARSE_ERR (asn_parse_int m data len 4)) (\<lambda>(data, len, t, msg_sec_model).
     if t \<noteq> ASN_INTEGER \<or> sint msg_sec_model < 1 then Inl SNMPERR_ASN_PARSE_ERR
     else if \<not> find_sec_mod msg_sec_model then Inl SNMPERR_UNKNOWN_SEC_MODEL
     else if flgs AND SNMP_MSG_FLAG_PRIV_BIT \<noteq> 0 \<and> flgs AND SNMP_MSG_FLAG_AUTH_BIT = 0 then Inl SNMPERR_INVALID_MSG
     else Inr (data, pdu\<lparr>securityModel := msg_sec_model, securityLevel := of_int (flags_level flgs)\<rparr>, flgs)))"

definition count_v3_error :: "v3_error \<Rightarrow> usm \<Rightarrow> usm" where
  "count_v3_error e st =
     (case e of
        SNMPERR_ASN_PARSE_ERR \<Rightarrow> count_error STAT_SNMPINASNPARSEERRS st
      | SNMPERR_UNKNOWN_SEC_MODEL \<Rightarrow> count_error STAT_SNMPUNKNOWNSECURITYMODELS st
      | SNMPERR_INVALID_MSG \<Rightarrow> count_error STAT_SNMPINVALIDMSGS st
      | _ \<Rightarrow> st)"

text \<open>
  The context of the scoped PDU and the type of the PDU; the length that is returned is what is left of the length that was given,
  not of the sequence. The name is copied before the test of the allocation.
\<close>

definition snmpv3_scopedPDU_parse :: "(nat \<Rightarrow> bool) \<Rightarrow> pdu \<Rightarrow> u8 list \<Rightarrow> nat \<Rightarrow> u32 \<Rightarrow> asn_error + nat \<times> u32 \<times> pdu" where
  "snmpv3_scopedPDU_parse alloc pdu m cp len =
     ebind (asn_parse_sequence m cp len ASN_SEQUENCE_CONSTRUCTOR) (\<lambda>(data, _, _).
     ebind (asn_parse_string m data (len - of_nat (data - cp)) SNMP_MAX_ENG_SIZE) (\<lambda>(data, len, _, eid, eidlen).
     ebind (asn_parse_string m data len SNMP_MAX_CONTEXT_SIZE) (\<lambda>(data, len, _, tmp_buf, tmp_buf_len).
     if tmp_buf_len \<noteq> 0 \<and> \<not> alloc (unat tmp_buf_len) then Inl OutOfBounds
     else if tmp_buf_len = 0 \<and> \<not> alloc 1 then Inl ReallocFailed
     else ebind (asn_parse_header m data len) (\<lambda>(_, _, type).
     Inr (data, len, pdu\<lparr>contextEngineID := take (unat eidlen) eid, contextName := take (unat tmp_buf_len) tmp_buf,
       command := ucast type\<rparr>)))))"

text \<open>
  The arguments for the security model. For an encrypted message that is longer than the buffer on the stack another buffer
  is allocated; when that fails there is no room for the decrypted text.
\<close>

definition scoped_buffer :: "(nat \<Rightarrow> bool) \<Rightarrow> pdu \<Rightarrow> u32 \<Rightarrow> u32" where
  "scoped_buffer alloc pdu msg_len =
     (if SNMP_MAX_MSG_SIZE < msg_len \<and> sint (securityLevel pdu) = SNMP_SEC_LEVEL_AUTHPRIV
      then if alloc (unat msg_len) then msg_len else 0
      else SNMP_MAX_MSG_SIZE)"

definition v3_usm_in :: "(nat \<Rightarrow> bool) \<Rightarrow> session \<Rightarrow> pdu \<Rightarrow> u8 list \<Rightarrow> u32 \<Rightarrow> u32 \<Rightarrow> u32 \<Rightarrow> nat \<Rightarrow> u8 \<Rightarrow> usm_in" where
  "v3_usm_in alloc sess pdu m addr msg_len msg_max_size sec_params flgs =
     \<lparr>maxMsgSize = msg_max_size, secParams = sec_params, secLevel = sint (securityLevel pdu), wholeMsg = m, msg_addr = addr,
      wholeMsgLen = msg_len, sess_auth = Some (isAuthoritative sess), msg_flags = flgs, id_room = SNMP_MAX_ENG_SIZE * 2,
      name_room = SNMP_MAX_SEC_NAME_SIZE, scoped_room = scoped_buffer alloc pdu msg_len\<rparr>"

text \<open>The memory, the position and the length of the scoped PDU after the security model.\<close>

definition scoped_memory :: "u32 \<Rightarrow> usm_out \<Rightarrow> u8 list \<times> nat \<times> u32" where
  "scoped_memory room out =
     (case scopedPdu out of
        InMessage p n \<Rightarrow> (message out, p, n)
      | Decrypted plain \<Rightarrow> (plain @ replicate (unat room - length plain) 0, 0, of_nat (length plain)))"

text \<open>
  The memory starts with the message, at the address \<open>addr\<close>. What an error leaves in the PDU is not part of the result.
\<close>

definition snmpv3_parse ::
  "openssl \<Rightarrow> (nat \<Rightarrow> bool) \<Rightarrow> local_engine \<Rightarrow> session \<Rightarrow> pdu \<Rightarrow> u8 list \<Rightarrow> u32 \<Rightarrow> u32 \<Rightarrow> usm \<Rightarrow>
   (v3_error + pdu) \<times> session \<times> usm" where
  "snmpv3_parse ssl alloc me sess pdu m addr msg_len st =
     (case parse_msg_start pdu m msg_len of
        Inl e \<Rightarrow> (Inl e, sess, count_v3_error e st)
      | Inr (data, len, pdu, msg_max_size) \<Rightarrow>
        let sess = sess\<lparr>sndMsgMaxSize := msg_max_size\<rparr> in
        (case parse_msg_security pdu m data len of
          Inl e \<Rightarrow> (Inl e, sess, count_v3_error e st)
        | Inr (data, pdu, flgs) \<Rightarrow>
          if \<not> (alloc (unat SNMP_MAX_ENG_SIZE) \<and> alloc (unat (SNMP_MAX_ENG_SIZE * 2)) \<and> alloc (unat SNMP_MAX_SEC_NAME_SIZE))
          then (Inl V3_MALLOC, sess, st)
          else (case usm_process_in_msg ssl me (v3_usm_in alloc sess pdu m addr msg_len msg_max_size data flgs) st of
            (Inl e, st) \<Rightarrow> (Inl (SecurityError e), sess, st)
          | (Inr out, st) \<Rightarrow>
            let (mem, cp, len) = scoped_memory (scoped_buffer alloc pdu msg_len) out;
                pdu = pdu\<lparr>securityEngineID := secEngineID out, securityName := secName out\<rparr>;
                parsed = ebind (v3_try SNMPERR_ASN_PARSE_ERR (snmpv3_scopedPDU_parse alloc pdu mem cp len)) (\<lambda>(data, len, pdu).
                  ebind (v3_try SNMPERR_ASN_PARSE_ERR (snmp_pdu_parse alloc pdu mem data len)) (\<lambda>(pdu, ret).
                  if ret \<noteq> 0 then Inl SNMPERR_ASN_PARSE_ERR else Inr pdu))
            in (parsed, sess, case parsed of Inl e \<Rightarrow> count_v3_error e st | Inr _ \<Rightarrow> st))))"

section \<open>Matching answers\<close>

text \<open>A request is the ID it was sent with and its PDU.\<close>

definition snmpv3_verify_msg :: "(u32 \<times> pdu) option \<Rightarrow> pdu \<Rightarrow> int" where
  "snmpv3_verify_msg rp pdu =
     (case rp of None \<Rightarrow> 0 | Some (request_id, rpdu) \<Rightarrow>
        if command pdu = SNMP_MSG_REPORT then 1
        else if request_id \<noteq> reqid pdu \<or> reqid rpdu \<noteq> reqid pdu then 0
        else if version rpdu \<noteq> version pdu then 0
        else if securityModel rpdu \<noteq> securityModel pdu then 0
        else if securityLevel rpdu \<noteq> securityLevel pdu then 0
        else if length (contextEngineID rpdu) \<noteq> length (contextEngineID pdu) \<or> memcmp (contextEngineID rpdu) (contextEngineID pdu) \<noteq> 0 then 0
        else if length (contextName rpdu) \<noteq> length (contextName pdu) \<or> memcmp (contextName rpdu) (contextName pdu) \<noteq> 0 then 0
        else if securityModel pdu = SNMP_SEC_MODEL_USM \<and> (length (securityEngineID rpdu) \<noteq> length (securityEngineID pdu) \<or>
          memcmp (securityEngineID rpdu) (securityEngineID pdu) \<noteq> 0) then 0
        else if length (securityName rpdu) \<noteq> length (securityName pdu) \<or> memcmp (securityName rpdu) (securityName pdu) \<noteq> 0 then 0
        else 1)"

end
