(* ===== verification/Usm_Roundtrip.thy ===== *)
theory Usm_Roundtrip
  imports Usm_Out
begin

unbundle bit_operations_syntax

text \<open>
  What one engine signs, another one accepts: the bytes of a generated message, and what the processing of incoming messages
  makes of them.
\<close>

section \<open>The message on the wire\<close>

definition params_inner :: "usmStateReference \<Rightarrow> u32 \<Rightarrow> u32 \<Rightarrow> u8 list \<Rightarrow> u8 list \<Rightarrow> u8 list" where
  "params_inner r boots time mac slt =
     tlv ASN_OCTET_STR (usr_engine_id r) @ tlv ASN_INTEGER (int_payload boots) @ tlv ASN_INTEGER (int_payload time) @
     tlv ASN_OCTET_STR (usr_name r) @ tlv ASN_OCTET_STR mac @ tlv ASN_OCTET_STR slt"

definition params_enc :: "usmStateReference \<Rightarrow> u32 \<Rightarrow> u32 \<Rightarrow> u8 list \<Rightarrow> u8 list \<Rightarrow> u8 list" where
  "params_enc r boots time mac slt = tlv ASN_OCTET_STR (tlv ASN_SEQUENCE_CONSTRUCTOR (params_inner r boots time mac slt))"

definition v3_message :: "usmStateReference \<Rightarrow> u32 \<Rightarrow> u32 \<Rightarrow> u8 list \<Rightarrow> u8 list \<Rightarrow> u8 list \<Rightarrow> u8 list \<Rightarrow> u8 list" where
  "v3_message r boots time mac slt globalData scoped =
     tlv ASN_SEQUENCE_CONSTRUCTOR (globalData @ params_enc r boots time mac slt @ scoped)"

text \<open>Only the bytes of the digest depend on the digest, given its length.\<close>

definition before_mac :: "usmStateReference \<Rightarrow> u32 \<Rightarrow> u32 \<Rightarrow> nat \<Rightarrow> u8 list \<Rightarrow> u8 list \<Rightarrow> u8 list \<Rightarrow> u8 list" where
  "before_mac r boots time n slt globalData scoped =
     (let m = v3_message r boots time (replicate n 0) slt globalData scoped
      in take (length m - (n + length (tlv ASN_OCTET_STR slt @ scoped))) m)"

lemma v3_message_split:
  "v3_message r boots time mac slt globalData scoped =
     before_mac r boots time (length mac) slt globalData scoped @ mac @ tlv ASN_OCTET_STR slt @ scoped"
proof -
  have "\<exists>A. \<forall>mac'. length mac' = length mac \<longrightarrow>
      v3_message r boots time mac' slt globalData scoped = A @ mac' @ tlv ASN_OCTET_STR slt @ scoped"
    by (intro exI allI impI, simp add: v3_message_def params_enc_def params_inner_def tlv_def flip: append_assoc)
  then obtain A where A: "\<And>mac'. length mac' = length mac \<Longrightarrow>
      v3_message r boots time mac' slt globalData scoped = A @ mac' @ tlv ASN_OCTET_STR slt @ scoped"
    by blast
  have "before_mac r boots time (length mac) slt globalData scoped = A"
    by (simp add: before_mac_def A Let_def)
  then show ?thesis using A[of mac] by simp
qed

lemma v3_message_length:
  "length mac = length mac' \<Longrightarrow>
     length (v3_message r boots time mac slt gd scoped) = length (v3_message r boots time mac' slt gd scoped)"
  by (simp add: v3_message_split)

section \<open>Generating\<close>

lemma map_sum_ebind: "map_sum id f (ebind x g) = ebind x (\<lambda>v. map_sum id f (g v))"
  by (cases x) simp_all

lemma ebind_Inr_id [simp]: "ebind x Inr = x"
  by (cases x) simp_all

definition zero_mac :: "usmStateReference \<Rightarrow> u8 list" where
  "zero_mac r = (if usr_sec_level r = SNMP_SEC_LEVEL_AUTHNOPRIV \<or> usr_sec_level r = SNMP_SEC_LEVEL_AUTHPRIV
     then replicate 12 0 else [])"

lemma rbuild_parameters_prepended:
  assumes b: "valid_rbuf b"
  shows "prepended alloc True b (params_enc r boots time (zero_mac r) slt)
    (map_sum id fst (rbuild_parameters alloc r boots time slt b))"
proof -
  let ?fields = "(((((tlv ASN_OCTET_STR (usr_engine_id r)) @ tlv ASN_INTEGER (int_payload boots)) @ tlv ASN_INTEGER (int_payload time)) @
     tlv ASN_OCTET_STR (usr_name r)) @ tlv ASN_OCTET_STR (zero_mac r)) @ tlv ASN_OCTET_STR slt"
  define build where "build =
      ebind (asn_realloc_rbuild_string alloc True ASN_OCTET_STR slt b) (\<lambda>b.
      ebind (asn_realloc_rbuild_string alloc True ASN_OCTET_STR (zero_mac r) b) (\<lambda>b.
      ebind (asn_realloc_rbuild_string alloc True ASN_OCTET_STR (usr_name r) b) (\<lambda>b.
      ebind (asn_realloc_rbuild_int alloc True ASN_INTEGER time 4 b) (\<lambda>b.
      ebind (asn_realloc_rbuild_int alloc True ASN_INTEGER boots 4 b) (\<lambda>b.
      asn_realloc_rbuild_string alloc True ASN_OCTET_STR (usr_engine_id r) b)))))"
  have f: "prepended alloc True b ?fields build"
    unfolding build_def
    by (rule prepended_bind[OF b rbuild_string_prepended[OF b]],
        rule prepended_bind[OF _ rbuild_string_prepended], assumption, assumption,
        rule prepended_bind[OF _ rbuild_string_prepended], assumption, assumption,
        rule prepended_bind[OF _ rbuild_int_prepended], assumption, assumption)
      (rule prepended_bind[OF _ rbuild_int_prepended rbuild_string_prepended])
  have s: "prepended alloc True b (tlv ASN_SEQUENCE_CONSTRUCTOR ?fields)
      (ebind build (\<lambda>b'. asn_realloc_rbuild_sequence alloc True ASN_SEQUENCE_CONSTRUCTOR (of_nat (offset b' - offset b)) b'))"
    unfolding tlv_def[of ASN_SEQUENCE_CONSTRUCTOR]
    by (rule prepended_bind[OF b f]) (simp add: rbuild_sequence_prepended)
  have "prepended alloc True b (tlv ASN_OCTET_STR (tlv ASN_SEQUENCE_CONSTRUCTOR ?fields))
      (ebind (ebind build (\<lambda>b'. asn_realloc_rbuild_sequence alloc True ASN_SEQUENCE_CONSTRUCTOR (of_nat (offset b' - offset b)) b'))
        (\<lambda>b'. asn_realloc_rbuild_header alloc True ASN_OCTET_STR (of_nat (offset b' - offset b)) b'))"
    unfolding tlv_def[of _ "tlv ASN_SEQUENCE_CONSTRUCTOR ?fields"]
    by (rule prepended_bind[OF b s]) (simp add: rbuild_header_prepended)
  moreover have "map_sum id fst (rbuild_parameters alloc r boots time slt b) =
      ebind (ebind build (\<lambda>b'. asn_realloc_rbuild_sequence alloc True ASN_SEQUENCE_CONSTRUCTOR (of_nat (offset b' - offset b)) b'))
        (\<lambda>b'. asn_realloc_rbuild_header alloc True ASN_OCTET_STR (of_nat (offset b' - offset b)) b')"
    by (simp add: rbuild_parameters_def Let_def map_sum_ebind build_def ebind_assoc zero_mac_def USM_MD5_AND_SHA_AUTH_LEN_def
      cong: if_cong)
  ultimately show ?thesis by (simp add: params_enc_def params_inner_def)
qed

lemma rbuild_parameters_mac:
  assumes b: "valid_rbuf b" and "rbuild_parameters alloc r boots time slt b = Inr (b', mac_offset)"
  shows "mac_offset = offset b + length (tlv ASN_OCTET_STR (zero_mac r) @ tlv ASN_OCTET_STR slt) - 2"
proof -
  obtain b1 b2 where s: "asn_realloc_rbuild_string alloc True ASN_OCTET_STR slt b = Inr b1"
      "asn_realloc_rbuild_string alloc True ASN_OCTET_STR (zero_mac r) b1 = Inr b2" "mac_offset = offset b2 - 2"
    using assms(2)
    by (auto simp: rbuild_parameters_def Let_def ebind_eq_Inr zero_mac_def USM_MD5_AND_SHA_AUTH_LEN_def
      cong: if_cong)
  have p: "prepended alloc True b (tlv ASN_OCTET_STR slt) (Inr b1)" using rbuild_string_prepended[OF b] s(1) by metis
  then have v: "valid_rbuf b1" by (simp add: prepended_def)
  have "prepended alloc True b1 (tlv ASN_OCTET_STR (zero_mac r)) (Inr b2)" using rbuild_string_prepended[OF v] s(2) by metis
  then show ?thesis using prepended_offset[OF p b] prepended_offset[OF _ v] s(3) by fastforce
qed

lemma rbuild_message_prepended:
  assumes b: "valid_rbuf b" "contents b = scoped"
  shows "prepended alloc True b (ber_header ASN_SEQUENCE_CONSTRUCTOR
      (of_nat (length (globalData @ params_enc r boots time (zero_mac r) slt @ scoped))) @
      globalData @ params_enc r boots time (zero_mac r) slt)
    (map_sum id fst (rbuild_message alloc r boots time slt globalData b))"
proof -
  let ?P = "params_enc r boots time (zero_mac r) slt"
  let ?start = "map_sum id fst (rbuild_parameters alloc r boots time slt b)"
  have g: "prepended alloc True b (globalData @ ?P)
      (ebind ?start (\<lambda>b. ebind (rroom alloc True (length globalData) b) (rcopy globalData)))"
    by (rule prepended_bind[OF b(1) rbuild_parameters_prepended[OF b(1)] rroom_rcopy_prepended])
  have "length scoped = offset b" using b by auto
  then have "prepended alloc True b (ber_header ASN_SEQUENCE_CONSTRUCTOR (of_nat (length (globalData @ ?P @ scoped))) @
      globalData @ ?P)
      (ebind (ebind ?start (\<lambda>b. ebind (rroom alloc True (length globalData) b) (rcopy globalData)))
        (\<lambda>b. asn_realloc_rbuild_sequence alloc True ASN_SEQUENCE_CONSTRUCTOR (of_nat (offset b)) b))"
    by (intro prepended_bind[OF b(1) g]) (simp add: rbuild_sequence_prepended add_ac)
  moreover have "map_sum id fst (rbuild_message alloc r boots time slt globalData b) =
      ebind (ebind ?start (\<lambda>b. ebind (rroom alloc True (length globalData) b) (rcopy globalData)))
        (\<lambda>b. asn_realloc_rbuild_sequence alloc True ASN_SEQUENCE_CONSTRUCTOR (of_nat (offset b)) b)"
    by (cases "rbuild_parameters alloc r boots time slt b")
      (auto simp: rbuild_message_def map_sum_ebind ebind_assoc split: prod.splits)
  ultimately show ?thesis by simp
qed

lemma store_mac_contents:
  assumes "valid_rbuf b" "contents b = A @ Z @ C" "length mac = length Z"
  shows "valid_rbuf (store_mac mac (length Z + length C) b) \<and> contents (store_mac mac (length Z + length C) b) = A @ mac @ C"
proof -
  define P where "P = take (length (pkt b) - offset b) (pkt b)"
  have o: "offset b = length (A @ Z @ C)" using length_contents[OF assms(1)] assms(2) by simp
  have p: "pkt b = P @ A @ Z @ C"
    unfolding P_def assms(2)[symmetric] contents_def by (rule append_take_drop_id[symmetric])
  show ?thesis using assms(3) by (simp add: store_mac_def Let_def p valid_rbuf_def contents_def o)
qed

lemma zero_mac_authenticated:
  "usr_sec_level r = SNMP_SEC_LEVEL_AUTHNOPRIV \<or> usr_sec_level r = SNMP_SEC_LEVEL_AUTHPRIV \<Longrightarrow> zero_mac r = replicate 12 0"
  by (auto simp: zero_mac_def)

text \<open>A signed message: the digest of the message with zeros in the place of the digest.\<close>

definition message_mac :: "openssl \<Rightarrow> usmStateReference \<Rightarrow> u32 \<Rightarrow> u32 \<Rightarrow> u8 list \<Rightarrow> u8 list \<Rightarrow> u8 list \<Rightarrow> u8 list" where
  "message_mac ssl r boots time slt globalData scoped =
     take 12 (keyed_digest ssl (usr_auth_protocol r) (usr_auth_key r)
       (v3_message r boots time (replicate 12 0) slt globalData scoped))"

lemma generate_keyed_hash_Some:
  assumes "sc_generate_keyed_hash ssl t key msg 12 = Some h"
  shows "h = take 12 (keyed_digest ssl t key msg) \<and>
    (t = usmHMACMD5AuthProtocol \<and> 16 \<le> length key \<or> t = usmHMACSHA1AuthProtocol \<and> 20 \<le> length key)"
  using assms
  by (auto simp: sc_generate_keyed_hash_def sc_get_properlength_def ISTRANSFORM_iff USM_LENGTH_OID_TRANSFORM_def
      BYTESIZE_def keyed_digest_def protocol_defs split: if_splits)

lemma tlv_short_string: "length s < 128 \<Longrightarrow> length (tlv t s) = length s + 2"
  by (simp add: tlv_def ber_header_def ber_length_def word_less_nat_alt u32_unat_of_nat)

lemma signed_message:
  assumes b: "valid_rbuf b" "contents b = scoped"
    and level: "usr_sec_level r = SNMP_SEC_LEVEL_AUTHNOPRIV \<or> usr_sec_level r = SNMP_SEC_LEVEL_AUTHPRIV"
    and built: "rbuild_message alloc r boots time slt globalData b = Inr (b1, mac_offset)"
    and signed: "sign_message ssl alloc r mac_offset b1 = Inr b'"
  shows "contents b' = v3_message r boots time (message_mac ssl r boots time slt globalData scoped) slt globalData scoped"
    "length (message_mac ssl r boots time slt globalData scoped) = 12"
    "usr_auth_protocol r = usmHMACMD5AuthProtocol \<and> 16 \<le> length (usr_auth_key r) \<or>
      usr_auth_protocol r = usmHMACSHA1AuthProtocol \<and> 20 \<le> length (usr_auth_key r)"
proof -
  note z = zero_mac_authenticated[OF level]
  let ?A = "before_mac r boots time 12 slt globalData scoped" and ?C = "tlv ASN_OCTET_STR slt @ scoped"
  obtain b0 where b0: "rbuild_parameters alloc r boots time slt b = Inr (b0, mac_offset)"
    using built by (auto simp: rbuild_message_def ebind_eq_Inr split: prod.splits)
  have o: "offset b = length scoped" using b by auto
  have mo: "mac_offset = 12 + length ?C"
    using rbuild_parameters_mac[OF b(1) b0] o by (simp add: z tlv_short_string)
  have "prepended alloc True b (ber_header ASN_SEQUENCE_CONSTRUCTOR
      (of_nat (length (globalData @ params_enc r boots time (zero_mac r) slt @ scoped))) @
      globalData @ params_enc r boots time (zero_mac r) slt) (Inr b1)"
    using rbuild_message_prepended[OF b, where alloc = alloc and r = r and boots = boots and time = time and slt = slt
        and globalData = globalData] by (simp add: built)
  then have c: "valid_rbuf b1" "contents b1 = v3_message r boots time (replicate 12 0) slt globalData scoped"
    by (simp_all add: prepended_def b(2) v3_message_def tlv_def z)
  obtain h where h: "sc_generate_keyed_hash ssl (usr_auth_protocol r) (usr_auth_key r) (contents b1) 12 = Some h"
      "length h = 12" "b' = store_mac h mac_offset b1"
    using signed level by (auto simp: sign_message_def USM_MD5_AND_SHA_AUTH_LEN_def split: option.splits if_splits)
  note k = generate_keyed_hash_Some[OF h(1)]
  have m: "h = message_mac ssl r boots time slt globalData scoped" using k by (simp add: message_mac_def c(2))
  have "contents b' = ?A @ h @ ?C"
    using store_mac_contents[OF c(1), of ?A "replicate 12 0" ?C h] h(2,3) mo c(2)
    by (simp add: v3_message_split[of _ _ _ "replicate 12 0"])
  then show "contents b' = v3_message r boots time (message_mac ssl r boots time slt globalData scoped) slt globalData scoped"
    using h(2) by (simp add: v3_message_split m)
  show "length (message_mac ssl r boots time slt globalData scoped) = 12" using h(2) m by simp
  show "usr_auth_protocol r = usmHMACMD5AuthProtocol \<and> 16 \<le> length (usr_auth_key r) \<or>
      usr_auth_protocol r = usmHMACSHA1AuthProtocol \<and> 20 \<le> length (usr_auth_key r)" using k by blast
qed

section \<open>Receiving\<close>

lemma parse_string_step:
  assumes "bytes_at m p (tlv t s)" "length (tlv t s) \<le> unat dl" "length s \<le> unat cap" "length s \<le> 0xFFFF"
  shows "\<exists>buf. asn_parse_string m p dl cap =
      Inr (p + length (tlv t s), dl - of_nat (length (tlv t s)), t, buf, of_nat (length s)) \<and> take (length s) buf = s"
  using string_codec.parse_enc[where v = "(t, s)" and cap = cap and m = m and p = p and dl = dl] assms
  by (simp add: string_result_def)

lemma parse_sequence_header:
  assumes "bytes_at m p (ber_header t (of_nat n))" "n < 2 ^ 31" "length (ber_header t (of_nat n)) + n \<le> unat dl"
    and "t = ASN_OCTET_STR \<or> t = ASN_SEQUENCE_CONSTRUCTOR"
  shows "asn_parse_sequence m p dl t = Inr (p + length (ber_header t (of_nat n)), of_nat n, t)"
  using header_at_parse[OF header_at_ber[OF assms(1,2)], of dl] assms(3,4)
  by (auto simp: asn_parse_sequence_def is_extension_id_def ASN_OPAQUE_def ASN_OCTET_STR_def ASN_SEQUENCE_CONSTRUCTOR_def)

lemma memset_zero_middle: "memset_zero (A @ x @ C) (length A) (length x) = A @ replicate (length x) 0 @ C"
  by (simp add: memset_zero_def)

definition params_fit :: "usmStateReference \<Rightarrow> u32 \<Rightarrow> u32 \<Rightarrow> u8 list \<Rightarrow> u8 list \<Rightarrow> u32 \<Rightarrow> u32 \<Rightarrow> bool" where
  "params_fit r boots time mac slt id_cap name_cap \<longleftrightarrow>
     length (usr_engine_id r) \<le> 0xFFFF \<and> length (usr_engine_id r) \<le> unat id_cap \<and>
     length (usr_name r) \<le> 32 \<and> length (usr_name r) < unat name_cap \<and> length mac \<le> 16 \<and> length slt \<le> 16 \<and>
     boots \<le> ENGINEBOOT_MAX \<and> time \<le> ENGINETIME_MAX"

lemma params_len:
  assumes "params_fit r boots time mac slt id_cap name_cap"
  shows "length (params_enc r boots time mac slt) < 2 ^ 17"
  using assms tlv_length_bounds(2)[of ASN_OCTET_STR "usr_engine_id r"] tlv_length_bounds(2)[of ASN_INTEGER "int_payload boots"]
    tlv_length_bounds(2)[of ASN_INTEGER "int_payload time"] tlv_length_bounds(2)[of ASN_OCTET_STR "usr_name r"]
    tlv_length_bounds(2)[of ASN_OCTET_STR mac] tlv_length_bounds(2)[of ASN_OCTET_STR slt]
    int_payload_len(2)[of boots] int_payload_len(2)[of time]
    tlv_length_bounds(2)[of ASN_SEQUENCE_CONSTRUCTOR "params_inner r boots time mac slt"]
    tlv_length_bounds(2)[of ASN_OCTET_STR "tlv ASN_SEQUENCE_CONSTRUCTOR (params_inner r boots time mac slt)"]
  by (simp add: params_enc_def params_inner_def params_fit_def)

text \<open>The two headers of the parameters.\<close>

lemma parse_params_headers:
  assumes at: "bytes_at m p (params_enc r boots time mac slt)"
    and room: "length (params_enc r boots time mac slt) \<le> unat remaining" "length (params_enc r boots time mac slt) < 2 ^ 17"
  defines "inner \<equiv> params_inner r boots time mac slt"
  shows "\<exists>q1 q. asn_parse_sequence m p remaining ASN_OCTET_STR =
        Inr (q1, of_nat (length (tlv ASN_SEQUENCE_CONSTRUCTOR inner)), ASN_OCTET_STR) \<and>
      asn_parse_sequence m q1 (of_nat (length (tlv ASN_SEQUENCE_CONSTRUCTOR inner))) ASN_SEQUENCE_CONSTRUCTOR =
        Inr (q, of_nat (length inner), ASN_SEQUENCE_CONSTRUCTOR) \<and>
      bytes_at m q inner \<and> q + length inner = p + length (params_enc r boots time mac slt)"
proof -
  define H2 where H2: "H2 = ber_header ASN_SEQUENCE_CONSTRUCTOR (of_nat (length inner))"
  define H1 where H1: "H1 = ber_header ASN_OCTET_STR (of_nat (length (H2 @ inner)))"
  have e: "params_enc r boots time mac slt = H1 @ H2 @ inner"
    by (simp add: params_enc_def tlv_def H1 H2 inner_def)
  have t: "tlv ASN_SEQUENCE_CONSTRUCTOR inner = H2 @ inner" by (simp add: tlv_def H2)
  have u: "unat (of_nat (length (H2 @ inner)) :: u32) = length (H2 @ inner)"
    using room(2) by (intro u32_unat_of_nat) (simp add: e)
  have b: "bytes_at m p H1" "bytes_at m (p + length H1) H2" "bytes_at m (p + length H1 + length H2) inner"
    using at by (simp_all add: e bytes_at_append)
  have "asn_parse_sequence m p remaining ASN_OCTET_STR = Inr (p + length H1, of_nat (length (H2 @ inner)), ASN_OCTET_STR)"
    unfolding H1 using room e by (intro parse_sequence_header b(1)[unfolded H1]) (auto simp: H1)
  moreover have "asn_parse_sequence m (p + length H1) (of_nat (length (H2 @ inner))) ASN_SEQUENCE_CONSTRUCTOR =
      Inr (p + length H1 + length H2, of_nat (length inner), ASN_SEQUENCE_CONSTRUCTOR)"
    unfolding H2 using room e u by (intro parse_sequence_header b(2)[unfolded H2]) (auto simp: H2)
  ultimately show ?thesis unfolding t e using b(3) by (intro exI[of _ "p + length H1"] exI[of _ "p + length H1 + length H2"]) simp
qed

lemma params_zeroed:
  fixes pre post :: "u8 list"
  assumes "p + length (tlv ASN_OCTET_STR slt) = length pre + length (params_enc r boots time mac slt)"
  defines "zeroed \<equiv> pre @ params_enc r boots time (replicate (length mac) 0) slt @ post"
  shows "memset_zero (pre @ params_enc r boots time mac slt @ post) (p - length mac) (length mac) = zeroed"
    "bytes_at zeroed p (tlv ASN_OCTET_STR slt)"
proof -
  have "\<exists>A. \<forall>mac'. length mac' = length mac \<longrightarrow> params_enc r boots time mac' slt = A @ mac' @ tlv ASN_OCTET_STR slt"
    by (intro exI allI impI, simp add: params_enc_def params_inner_def tlv_def flip: append_assoc)
  then obtain A where A: "\<And>mac'. length mac' = length mac \<Longrightarrow> params_enc r boots time mac' slt = A @ mac' @ tlv ASN_OCTET_STR slt"
    by blast
  have p: "p = length (pre @ A @ mac)" using assms(1) by (simp add: A)
  show "memset_zero (pre @ params_enc r boots time mac slt @ post) (p - length mac) (length mac) = zeroed"
    using memset_zero_middle[of "pre @ A" mac "tlv ASN_OCTET_STR slt @ post"] by (simp add: p A zeroed_def)
  show "bytes_at zeroed p (tlv ASN_OCTET_STR slt)"
    using bytes_at_self[of "pre @ A @ replicate (length mac) 0" "tlv ASN_OCTET_STR slt" post] by (simp add: p A zeroed_def)
qed

lemma parse_parameters_enc:
  assumes fit: "params_fit r boots time mac slt id_cap name_cap"
    and room: "length (params_enc r boots time mac slt) \<le> unat remaining"
  shows "usm_parse_security_parameters (pre @ params_enc r boots time mac slt @ post) (length pre) remaining id_cap name_cap 16 16 =
    Inr \<lparr>msgEngineID = usr_engine_id r, boots_uint = boots, time_uint = time, msgUserName = usr_name r, signature = mac,
      salt = slt, data_ptr = length pre + length (params_enc r boots time mac slt),
      blanked = pre @ params_enc r boots time (replicate (length mac) 0) slt @ post\<rparr>"
proof -
  define E B T N M S where f: "E = tlv ASN_OCTET_STR (usr_engine_id r)" "B = tlv ASN_INTEGER (int_payload boots)"
    "T = tlv ASN_INTEGER (int_payload time)" "N = tlv ASN_OCTET_STR (usr_name r)" "M = tlv ASN_OCTET_STR mac"
    "S = tlv ASN_OCTET_STR slt"
  define P where "P mac = params_enc r boots time mac slt" for mac
  define m m' where m: "m = pre @ P mac @ post" "m' = pre @ P (replicate (length mac) 0) @ post"
  have inner: "params_inner r boots time mac slt = E @ B @ T @ N @ M @ S" by (simp add: params_inner_def f)
  have short: "length (P mac) < 2 ^ 17" using params_len[OF fit] by (simp add: P_def)
  obtain q1 q where h: "asn_parse_sequence m (length pre) remaining ASN_OCTET_STR =
        Inr (q1, of_nat (length (tlv ASN_SEQUENCE_CONSTRUCTOR (E @ B @ T @ N @ M @ S))), ASN_OCTET_STR)"
      "asn_parse_sequence m q1 (of_nat (length (tlv ASN_SEQUENCE_CONSTRUCTOR (E @ B @ T @ N @ M @ S)))) ASN_SEQUENCE_CONSTRUCTOR =
        Inr (q, of_nat (length (E @ B @ T @ N @ M @ S)), ASN_SEQUENCE_CONSTRUCTOR)"
      "bytes_at m q (E @ B @ T @ N @ M @ S)" "q + length (E @ B @ T @ N @ M @ S) = length pre + length (P mac)"
    using parse_params_headers[of m "length pre" r boots time mac slt remaining] room short bytes_at_self[of pre "P mac" post]
    by (auto simp: inner m(1) P_def)
  have len: "length (E @ B @ T @ N @ M @ S) \<le> unat (of_nat (length (E @ B @ T @ N @ M @ S)) :: u32)"
    using short tlv_length_bounds(1)[of "E @ B @ T @ N @ M @ S" ASN_SEQUENCE_CONSTRUCTOR]
      tlv_length_bounds(1)[of "tlv ASN_SEQUENCE_CONSTRUCTOR (E @ B @ T @ N @ M @ S)" ASN_OCTET_STR]
    by (subst u32_unat_of_nat) (auto simp: P_def params_enc_def inner)
  note s1 = over_object[OF h(3) len]
  note s2 = over_object[OF s1(3,4)]
  note s3 = over_object[OF s2(3,4)]
  note s4 = over_object[OF s3(3,4)]
  note s5 = over_object[OF s4(3,4)]
  have m': "memset_zero m (q + length E + length B + length T + length N + length M - length mac) (length mac) = m'"
      "bytes_at m' (q + length E + length B + length T + length N + length M) S"
    unfolding m P_def f(6) using h(4) by (intro params_zeroed; simp add: P_def f(6))+
  let ?dl = "of_nat (length (E @ B @ T @ N @ M @ S)) :: u32"
  obtain e where e: "asn_parse_string m q ?dl id_cap =
      Inr (q + length E, ?dl - of_nat (length E), ASN_OCTET_STR, e, of_nat (length (usr_engine_id r)))"
      "take (length (usr_engine_id r)) e = usr_engine_id r"
    using parse_string_step[OF s1(1,2)[unfolded f(1)], of id_cap] fit by (auto simp: f(1) params_fit_def)
  have mac_len: "unat (of_nat (length mac) :: u32) = length mac" "length mac \<le> 16" "length slt \<le> 16"
    using fit by (auto simp: params_fit_def u32_unat_of_nat)
  obtain n where n: "asn_parse_string m (q + length E + length B + length T)
        (?dl - of_nat (length E) - of_nat (length B) - of_nat (length T)) name_cap =
      Inr (q + length E + length B + length T + length N,
        ?dl - of_nat (length E) - of_nat (length B) - of_nat (length T) - of_nat (length N), ASN_OCTET_STR, n,
        of_nat (length (usr_name r)))" "take (length (usr_name r)) n = usr_name r"
    using parse_string_step[OF s4(1,2)[unfolded f(4)], of name_cap] fit by (auto simp: f(4) params_fit_def)
  obtain g where g: "asn_parse_string m (q + length E + length B + length T + length N)
        (?dl - of_nat (length E) - of_nat (length B) - of_nat (length T) - of_nat (length N)) 16 =
      Inr (q + length E + length B + length T + length N + length M,
        ?dl - of_nat (length E) - of_nat (length B) - of_nat (length T) - of_nat (length N) - of_nat (length M), ASN_OCTET_STR, g,
        of_nat (length mac))" "take (length mac) g = mac"
    using parse_string_step[OF s5(1,2)[unfolded f(5)], of 16] mac_len by (auto simp: f(5))
  obtain s where s: "asn_parse_string m' (q + length E + length B + length T + length N + length M)
        (?dl - of_nat (length E) - of_nat (length B) - of_nat (length T) - of_nat (length N) - of_nat (length M)) 16 =
      Inr (q + length E + length B + length T + length N + length M + length S,
        ?dl - of_nat (length E) - of_nat (length B) - of_nat (length T) - of_nat (length N) - of_nat (length M) - of_nat (length S),
        ASN_OCTET_STR, s, of_nat (length slt))" "take (length slt) s = slt"
    using parse_string_step[OF m'(2)[unfolded f(6)] s5(4)[unfolded f(6)], of 16] mac_len by (auto simp: f(6))
  have u: "unat (of_nat (length x) :: u32) = length x" if "length x \<le> 0xFFFF" for x :: "u8 list"
    using that by (simp add: u32_unat_of_nat)
  have name_len: "unat (of_nat (length (usr_name r)) :: u32) = length (usr_name r)"
      "unat (of_nat (length (usr_name r)) + 1 :: u32) = length (usr_name r) + 1"
    using fit u32_unat_of_nat[of "length (usr_name r)"] u32_unat_of_nat[of "length (usr_name r) + 1"]
    by (simp_all add: params_fit_def add.commute)
  have c: "\<not> name_cap < of_nat (length (usr_name r)) + 1" "\<not> of_nat (length (usr_name r)) > (32 :: u32)"
      "\<not> (boots > ENGINEBOOT_MAX \<or> time > ENGINETIME_MAX)"
    using fit name_len by (auto simp: params_fit_def word_less_nat_alt word_le_nat_alt)
  have z: "(if of_nat (length mac) \<noteq> (0 :: u32) then memset_zero m (q + length E + length B + length T + length N + length M -
      unat (of_nat (length mac) :: u32)) (unat (of_nat (length mac) :: u32)) else m) = m'"
    using m'(1) mac_len(1) by (auto simp: memset_zero_def unat_eq_zero)
  have d: "q + length E + length B + length T + length N + length M + length S = length pre + length (P mac)"
    using h(4) by simp
  show ?thesis
    unfolding usm_parse_security_parameters_def m(1)[unfolded P_def, symmetric] m(2)[unfolded P_def, symmetric]
      h(1) usm_try_def sum.case ebind_Inr prod.case h(2) e(1) parse_int_step[OF s2(1,2)[unfolded f(2)], folded f(2)]
      parse_int_step[OF s3(1,2)[unfolded f(3)], folded f(3)] n(1) g(1) Let_def z s(1) d P_def
    using c fit e(2) n(2) g(2) s(2) name_len mac_len by (simp add: u params_fit_def)
qed

lemma params_enc_length: "length (params_enc r boots time (replicate (length mac) 0) slt) = length (params_enc r boots time mac slt)"
  by (simp add: params_enc_def params_inner_def tlv_def)

text \<open>
  The length that is left is computed from the first bytes, 0x04 of the parameters and 0x30 of the message: it comes out 44 too
  large.
\<close>

lemma message_parameters_v3:
  fixes globalData scoped slt :: "u8 list" and boots time :: u32 and r :: usmStateReference
  defines "msg mac \<equiv> v3_message r boots time mac slt globalData scoped"
  assumes fit: "params_fit r boots time mac slt (id_room i) (name_room i)"
    and i: "wholeMsg i = msg mac @ rest" "wholeMsgLen i = of_nat (length (msg mac))" "length (msg mac) < 2 ^ 31"
    and start: "asn_parse_sequence (wholeMsg i) 0 (wholeMsgLen i) ASN_SEQUENCE_CONSTRUCTOR = Inr (h, n, t)"
      "secParams i = h + length globalData"
  shows "message_parameters i = Inr \<lparr>msgEngineID = usr_engine_id r, boots_uint = boots, time_uint = time, msgUserName = usr_name r,
      signature = mac, salt = slt, data_ptr = length (msg mac) - length scoped, blanked = msg (replicate (length mac) 0) @ rest\<rparr>"
proof -
  define P where "P = params_enc r boots time mac slt"
  define H where "H = ber_header ASN_SEQUENCE_CONSTRUCTOR (of_nat (length (globalData @ P @ scoped)))"
  have m: "msg mac = H @ globalData @ P @ scoped" by (simp add: msg_def v3_message_def tlv_def H_def P_def)
  have z: "msg (replicate (length mac) 0) = H @ globalData @ params_enc r boots time (replicate (length mac) 0) slt @ scoped"
    by (simp add: msg_def v3_message_def tlv_def H_def P_def params_enc_length)
  have u: "unat (wholeMsgLen i) = length (msg mac)" using i(2,3) by (simp add: u32_unat_of_nat)
  have "asn_parse_sequence (wholeMsg i) 0 (wholeMsgLen i) ASN_SEQUENCE_CONSTRUCTOR =
      Inr (0 + length H, of_nat (length (globalData @ P @ scoped)), ASN_SEQUENCE_CONSTRUCTOR)"
    unfolding H_def using i(3) u bytes_at_self[of "[]" H "globalData @ P @ scoped @ rest"]
    by (intro parse_sequence_header) (auto simp: i(1) m H_def)
  then have sp: "secParams i = length (H @ globalData)" using start by simp
  have P: "P \<noteq> []" "P ! 0 = 0x04" "H \<noteq> []" "H ! 0 = 0x30"
    by (simp_all add: P_def H_def params_enc_def tlv_def ber_header_def ASN_OCTET_STR_def ASN_SEQUENCE_CONSTRUCTOR_def)
  have b: "wholeMsg i ! secParams i = 0x04" "wholeMsg i ! 0 = 0x30" "\<not> secParams i \<ge> length (wholeMsg i)"
    using P by (simp_all add: i(1) m sp nth_append)
  have "length P \<le> unat (wholeMsgLen i - (ucast (0x04 :: u8) - ucast (0x30 :: u8)))"
    using i(3) by (simp add: i(2) m unat_word_ariths u32_unat_of_nat)
  then show ?thesis
    using parse_parameters_enc[OF fit, of "wholeMsgLen i - (ucast (0x04 :: u8) - ucast (0x30 :: u8))" "H @ globalData" "scoped @ rest"]
    unfolding message_parameters_def Let_def b(1,2) using b(3) by (simp add: z sp m i(1) add.assoc flip: P_def)
qed

lemma process_verified:
  assumes "message_parameters i = Inr sp" "secLevel i = SNMP_SEC_LEVEL_AUTHPRIV \<Longrightarrow> length (salt sp) = 8"
    and "find_engine ssl me i (msgEngineID sp) st = (None, st1)"
    and "usm_get_user_from_list (Some (msgEngineID sp)) (msgUserName sp) (userList st1) (use_default_user i) (noNameUser st1) = Some user"
    and "usm_check_secLevel (secLevel i) user \<noteq> 1"
    and "authenticated_level i \<Longrightarrow> sc_check_keyed_hash ssl (authProtocol user) (authKey user) (whole_message i sp) (signature sp)"
    and "check_timely ssl me i sp st1 = (None, st2)"
  shows "usm_process_in_msg ssl me i st = finish_message ssl i user sp st2"
  using assms by (auto simp: usm_process_in_msg_def)

lemma find_engine_users: "find_engine ssl me i eid st = (e, st1) \<Longrightarrow> userList st1 = userList st \<and> noNameUser st1 = noNameUser st"
  by (auto simp: find_engine_def count_error_def split: if_splits option.splits)

text \<open>The receiver has the protocols and the keys the message was made with.\<close>

definition shares_keys :: "usmStateReference \<Rightarrow> usmUser \<Rightarrow> bool" where
  "shares_keys r user \<longleftrightarrow> authProtocol user = usr_auth_protocol r \<and> authKey user = usr_auth_key r \<and>
     privProtocol user = usr_priv_protocol r \<and> privKey user = usr_priv_key r"

lemma shares_keys_level:
  "shares_keys r user \<Longrightarrow> usm_check_secLevel_vs_protocols level (usr_auth_protocol r) (usr_priv_protocol r) \<noteq> 1 \<Longrightarrow>
     usm_check_secLevel level user \<noteq> 1"
  by (auto simp: shares_keys_def usm_check_secLevel_def usm_check_secLevel_vs_protocols_def split: if_splits)

section \<open>Encrypted messages\<close>

lemma message_salt_effect:
  assumes "message_salt me r boots time st = Inr (iv, slt, st1)"
    and "ISTRANSFORM (usr_priv_protocol r) usmAESPrivProtocol \<or> ISTRANSFORM (usr_priv_protocol r) usmDESPrivProtocol"
  shows "length slt = 8"
    "length iv = (if ISTRANSFORM (usr_priv_protocol r) usmAESPrivProtocol then 16 else 8)"
    "shares_keys r user \<Longrightarrow> boots_uint sp = boots \<Longrightarrow> time_uint sp = time \<Longrightarrow> salt sp = slt \<Longrightarrow> make_iv user sp = Some iv"
proof -
  show l: "length slt = 8" "length iv = (if ISTRANSFORM (usr_priv_protocol r) usmAESPrivProtocol then 16 else 8)"
    using assms by (auto simp: message_salt_def usm_set_aes_iv_def usm_set_salt_def Let_def split: if_splits)
  assume "shares_keys r user" "boots_uint sp = boots" "time_uint sp = time" "salt sp = slt"
  then show "make_iv user sp = Some iv"
    using assms l(1)
    by (auto simp: message_salt_def usm_set_aes_iv_def usm_set_salt_def make_iv_def shares_keys_def Let_def split: if_splits)
qed

lemma encrypt_scoped_effect:
  assumes "encrypt_scoped ssl alloc me r boots time scoped b st = (Inr (slt, b1), st1)"
    and level: "usr_sec_level r = SNMP_SEC_LEVEL_AUTHPRIV"
  obtains iv ct where "sc_encrypt ssl (usr_priv_protocol r) (usr_priv_key r) iv scoped (length scoped + 64) = Some ct"
    "valid_rbuf b1" "contents b1 = tlv ASN_OCTET_STR ct" "length slt = 8"
    "ISTRANSFORM (usr_priv_protocol r) usmDESPrivProtocol \<Longrightarrow> length iv = 8"
    "ISTRANSFORM (usr_priv_protocol r) usmAESPrivProtocol \<Longrightarrow> length iv = 16"
    "\<And>user (sp :: security_parameters). shares_keys r user \<Longrightarrow> boots_uint sp = boots \<Longrightarrow> time_uint sp = time \<Longrightarrow> salt sp = slt \<Longrightarrow>
       make_iv user sp = Some iv"
proof -
  obtain iv ct where c: "message_salt me r boots time st = Inr (iv, slt, st1)"
      "sc_encrypt ssl (usr_priv_protocol r) (usr_priv_key r) iv scoped (length scoped + 64) = Some ct"
      "asn_realloc_rbuild_string alloc True ASN_OCTET_STR ct (b\<lparr>offset := 0\<rparr>) = Inr b1"
    using assms
    by (auto simp: encrypt_scoped_def usm_try_def ebind_eq_Inr 
        split: if_splits option.splits prod.splits sum.splits asn_error.splits)
  have t: "length (usr_priv_protocol r) = 10"
      "ISTRANSFORM (usr_priv_protocol r) usmAESPrivProtocol \<or> ISTRANSFORM (usr_priv_protocol r) usmDESPrivProtocol"
    using c(2) by (auto simp: sc_encrypt_def USM_LENGTH_OID_TRANSFORM_def split: if_splits)
  have v: "valid_rbuf (b\<lparr>offset := 0\<rparr>)" "contents (b\<lparr>offset := 0\<rparr>) = []" by (simp_all add: valid_rbuf_def contents_def)
  have "valid_rbuf b1" "contents b1 = tlv ASN_OCTET_STR ct"
    using rbuild_string_prepended[OF v(1), of alloc True ASN_OCTET_STR ct] c(3) by (simp_all add: prepended_def v(2))
  then show ?thesis
    using message_salt_effect[OF c(1) t(2)] aes_not_des[OF t(1)] by (intro that[OF c(2)]) auto
qed

text \<open>The bytes of the scoped PDU the receiver goes on with.\<close>

definition received_scoped :: "usm_out \<Rightarrow> u8 list" where
  "received_scoped out =
     (case scopedPdu out of InMessage p n \<Rightarrow> take (unat n) (drop p (message out)) | Decrypted plain \<Rightarrow> plain)"

lemma finish_plain:
  assumes "secLevel i \<noteq> SNMP_SEC_LEVEL_AUTHPRIV" "blanked sp = m @ rest" "wholeMsgLen i = of_nat (length m)"
    and "data_ptr sp = length m - length body" "m = A @ body" "length m < 2 ^ 31"
  shows "\<exists>out. finish_message ssl i user sp st = (Inr out, st) \<and> received_scoped out = body"
proof -
  have "wholeMsgLen i - of_nat (data_ptr sp) = (of_nat (length body) :: u32)" using assms(3-5) by simp
  moreover have "length body < 2 ^ 32" using assms(5,6) by simp
  ultimately show ?thesis
    using assms by (simp add: finish_message_def received_scoped_def u32_unat_of_nat)
qed

lemma finish_decrypted:
  assumes level: "secLevel i = SNMP_SEC_LEVEL_AUTHPRIV" and m: "blanked sp = A @ tlv ASN_OCTET_STR ct @ rest"
    and len: "wholeMsgLen i = of_nat (length (A @ tlv ASN_OCTET_STR ct))" "data_ptr sp = length A"
      "length (A @ tlv ASN_OCTET_STR ct) < 2 ^ 31"
    and iv: "make_iv user sp = Some iv"
    and des: "ISTRANSFORM (privProtocol user) usmDESPrivProtocol \<Longrightarrow> 8 dvd length ct"
    and dec: "sc_decrypt ssl (privProtocol user) (privKey user) iv ct (unat (scoped_room i)) = Some plain"
  shows "\<exists>out. finish_message ssl i user sp st = (Inr out, st) \<and> received_scoped out = plain"
proof -
  define H where "H = ber_header ASN_OCTET_STR (of_nat (length ct))"
  have t: "tlv ASN_OCTET_STR ct = H @ ct" by (simp add: tlv_def H_def)
  have l: "length ct < 2 ^ 31" "length (H @ ct) < 2 ^ 31" using len(3) by (simp_all add: t)
  have "wholeMsgLen i - of_nat (data_ptr sp) = (of_nat (length (H @ ct)) :: u32)" using len(1,2) by (simp add: t)
  then have d: "unat (wholeMsgLen i - of_nat (data_ptr sp)) = length (H @ ct)"
    using l(2) u32_unat_of_nat[of "length (H @ ct)"] by simp
  have "asn_parse_sequence (blanked sp) (data_ptr sp) (wholeMsgLen i - of_nat (data_ptr sp)) ASN_OCTET_STR =
      Inr (length A + length H, of_nat (length ct), ASN_OCTET_STR)"
    unfolding H_def len(2)
    using l d bytes_at_self[of A H "ct @ rest"] by (intro parse_sequence_header) (simp_all add: m t H_def len(2))
  moreover have "rds (blanked sp) (length A + length H) (length ct) = Inr ct"
    using rds_payload[of "blanked sp" "length A + length H" ct] bytes_at_self[of "A @ H" ct rest] by (simp add: m t)
  moreover have "(of_nat (length ct) :: u32) mod 8 = 0" if "8 dvd length ct"
    using that l(1) by (simp add: word_eq_iff_unsigned unat_mod u32_unat_of_nat dvd_eq_mod_eq_0 flip: unat_eq_zero)
  ultimately have "decrypt_scoped ssl i user sp st = (Inr (plain, length A + length H), st)"
    using iv des dec l(1) by (auto simp: decrypt_scoped_def u32_unat_of_nat)
  then show ?thesis using level by (simp add: finish_message_def received_scoped_def)
qed

section \<open>From one engine to another\<close>

text \<open>
  The argument of the receiver holds the message from the start on, and its parameters start where the header of the message
  and the global data end.
\<close>

definition carries :: "usm_in \<Rightarrow> u8 list \<Rightarrow> u8 list \<Rightarrow> bool" where
  "carries i msg globalData \<longleftrightarrow> take (length msg) (wholeMsg i) = msg \<and> wholeMsgLen i = of_nat (length msg) \<and> length msg < 2 ^ 31 \<and>
     (case asn_parse_sequence (wholeMsg i) 0 (wholeMsgLen i) ASN_SEQUENCE_CONSTRUCTOR of
        Inr (h, _) \<Rightarrow> secParams i = h + length globalData | Inl _ \<Rightarrow> False)"

lemma carries_parameters:
  assumes "carries i (v3_message r boots time mac slt globalData body) globalData"
    and "params_fit r boots time mac slt (id_room i) (name_room i)"
  obtains sp A rest where "message_parameters i = Inr sp" "msgEngineID sp = usr_engine_id r" "msgUserName sp = usr_name r"
    "boots_uint sp = boots" "time_uint sp = time" "signature sp = mac" "salt sp = slt"
    "blanked sp = A @ body @ rest" "A @ body = v3_message r boots time (replicate (length mac) 0) slt globalData body"
    "data_ptr sp = length A" "wholeMsgLen i = of_nat (length (A @ body))" "length (A @ body) < 2 ^ 31"
proof -
  let ?m = "\<lambda>mac. v3_message r boots time mac slt globalData body" and ?z = "replicate (length mac) 0"
  obtain h n t where h: "asn_parse_sequence (wholeMsg i) 0 (wholeMsgLen i) ASN_SEQUENCE_CONSTRUCTOR = Inr (h, n, t)"
      "secParams i = h + length globalData"
    using assms(1) by (auto simp: carries_def split: sum.splits)
  have w: "wholeMsg i = ?m mac @ drop (length (?m mac)) (wholeMsg i)"
    using assms(1) append_take_drop_id[of "length (?m mac)" "wholeMsg i"] by (simp add: carries_def)
  have l: "length (?m ?z) = length (?m mac)" by (rule v3_message_length) simp
  define A where "A = take (length (?m mac) - length body) (?m ?z)"
  have A: "A @ body = ?m ?z" by (simp add: A_def v3_message_def tlv_def params_enc_length)
  then have n: "length (A @ body) = length (?m mac)" by (simp add: l)
  then have "length (?m mac) - length body = length A" unfolding length_append by linarith
  then show ?thesis
    using n message_parameters_v3[OF assms(2) w _ _ h] assms(1) A
    by (intro that[of _ A "drop (length (?m mac)) (wholeMsg i)"]) (auto simp: carries_def)
qed

text \<open>What a successful call of the generator has put into the buffer: the scoped PDU, encrypted or not, in a signed message.\<close>

definition sent_body :: "openssl \<Rightarrow> usmStateReference \<Rightarrow> u32 \<Rightarrow> u32 \<Rightarrow> u8 list \<Rightarrow> u8 list \<Rightarrow> u8 list \<Rightarrow> bool" where
  "sent_body ssl r boots time scoped slt body \<longleftrightarrow>
     (if usr_sec_level r = SNMP_SEC_LEVEL_AUTHPRIV then
        (\<exists>iv ct n. sc_encrypt ssl (usr_priv_protocol r) (usr_priv_key r) iv scoped n = Some ct \<and> body = tlv ASN_OCTET_STR ct \<and>
           length slt = 8 \<and>
           (ISTRANSFORM (usr_priv_protocol r) usmDESPrivProtocol \<longrightarrow> length iv = 8) \<and>
           (ISTRANSFORM (usr_priv_protocol r) usmAESPrivProtocol \<longrightarrow> length iv = 16) \<and>
           (\<forall>user (sp :: security_parameters). shares_keys r user \<longrightarrow> boots_uint sp = boots \<longrightarrow> time_uint sp = time \<longrightarrow>
              salt sp = slt \<longrightarrow> make_iv user sp = Some iv))
      else slt = [] \<and> body = scoped)"

lemma encrypted_body:
  assumes e: "encrypt_scoped ssl alloc me r boots time scoped b st = (Inr (slt, b1), st1)" and b: "valid_rbuf b" "contents b = scoped"
  shows "valid_rbuf b1 \<and> sent_body ssl r boots time scoped slt (contents b1)"
proof (cases "usr_sec_level r = SNMP_SEC_LEVEL_AUTHPRIV")
  case True
  from encrypt_scoped_effect[OF e True] show ?thesis using True by (auto simp: sent_body_def) metis
next
  case False
  then show ?thesis using e b by (auto simp: encrypt_scoped_def sent_body_def)
qed

lemma generated_message:
  assumes sent: "usm_rgenerate_out_msg ssl alloc me globalData eid nm level scoped ref b st = (Inr b', st')"
    and b: "valid_rbuf b" "contents b = scoped"
    and r: "outgoing_user st ref eid nm level = Inr r"
      "usr_sec_level r = SNMP_SEC_LEVEL_AUTHNOPRIV \<or> usr_sec_level r = SNMP_SEC_LEVEL_AUTHPRIV"
    and clock: "message_clock ssl me r st = (boots, time)"
  obtains slt body mac where "sent_body ssl r boots time scoped slt body" "mac = message_mac ssl r boots time slt globalData body"
    "contents b' = v3_message r boots time mac slt globalData body" "length mac = 12" "length slt \<le> 16"
    "usr_auth_protocol r = usmHMACMD5AuthProtocol \<and> 16 \<le> length (usr_auth_key r) \<or>
      usr_auth_protocol r = usmHMACSHA1AuthProtocol \<and> 20 \<le> length (usr_auth_key r)"
    "usm_check_secLevel_vs_protocols (usr_sec_level r) (usr_auth_protocol r) (usr_priv_protocol r) \<noteq> 1"
proof -
  obtain slt b1 st1 b2 mo where g: "encrypt_scoped ssl alloc me r boots time scoped b st = (Inr (slt, b1), st1)"
      "rbuild_message alloc r boots time slt globalData b1 = Inr (b2, mo)" "sign_message ssl alloc r mo b2 = Inr b'"
      "usm_check_secLevel_vs_protocols (usr_sec_level r) (usr_auth_protocol r) (usr_priv_protocol r) \<noteq> 1"
    using sent
    by (auto simp: usm_rgenerate_out_msg_def r(1) clock usm_try_def ebind_eq_Inr
        split: if_splits prod.splits sum.splits asn_error.splits)
  have body: "valid_rbuf b1 \<and> sent_body ssl r boots time scoped slt (contents b1)" by (rule encrypted_body[OF g(1) b])
  then have "length slt \<le> 16" by (auto simp: sent_body_def split: if_splits)
  then show ?thesis
    using body signed_message[OF _ refl r(2) g(2,3)] g(4) by (intro that[OF _ refl]) auto
qed

lemma sent_body_received:
  assumes body: "sent_body ssl r boots time scoped slt body" and keys: "shares_keys r user" and ssl: "ciphers_ok ssl"
    and level: "secLevel i = usr_sec_level r"
    and sp: "boots_uint sp = boots" "time_uint sp = time" "salt sp = slt" "blanked sp = A @ body @ rest" "data_ptr sp = length A"
    and len: "wholeMsgLen i = of_nat (length (A @ body))" "length (A @ body) < 2 ^ 31"
      "secLevel i = SNMP_SEC_LEVEL_AUTHPRIV \<Longrightarrow> length body \<le> unat (scoped_room i)"
  shows "\<exists>out. finish_message ssl i user sp st = (Inr out, st) \<and> received_scoped out = scoped @
    (if secLevel i = SNMP_SEC_LEVEL_AUTHPRIV \<and> ISTRANSFORM (usr_priv_protocol r) usmDESPrivProtocol then des_padding scoped else [])"
proof (cases "usr_sec_level r = SNMP_SEC_LEVEL_AUTHPRIV")
  case True
  then obtain iv ct n where c: "sc_encrypt ssl (usr_priv_protocol r) (usr_priv_key r) iv scoped n = Some ct"
      "body = tlv ASN_OCTET_STR ct" "make_iv user sp = Some iv"
      "ISTRANSFORM (usr_priv_protocol r) usmDESPrivProtocol \<Longrightarrow> length iv = 8"
      "ISTRANSFORM (usr_priv_protocol r) usmAESPrivProtocol \<Longrightarrow> length iv = 16"
    using body keys sp(1-3) by (auto simp: sent_body_def)
  have "length ct \<le> unat (scoped_room i)" using len(3) tlv_length_bounds(1)[of ct ASN_OCTET_STR] True level by (simp add: c(2))
  note d = sc_decrypt_encrypt[OF c(1) ssl this c(4,5)]
  show ?thesis
    using finish_decrypted[of i sp A ct rest user iv ssl _ st] d sp len c(2,3) True level keys by (simp add: shares_keys_def)
next
  case False
  then have "body = scoped" using body by (simp add: sent_body_def)
  then show ?thesis
    using finish_plain[of i sp "A @ body" rest body A ssl user st] sp len False level by simp
qed

text \<open>The receiver that has the same keys accepts the message and gets the scoped PDU.\<close>

lemma generated_accepted:
  assumes sent: "usm_rgenerate_out_msg ssl alloc me globalData eid nm level scoped ref b st = (Inr b', st')"
    and b: "valid_rbuf b" "contents b = scoped"
    and r: "outgoing_user st ref eid nm level = Inr r" "usr_sec_level r = secLevel i" "authenticated_level i"
    and ssl: "digest_lengths ssl" "ciphers_ok ssl"
    and i: "carries i (contents b') globalData" "secLevel i = SNMP_SEC_LEVEL_AUTHPRIV \<Longrightarrow> length (contents b') \<le> unat (scoped_room i)"
    and clock: "message_clock ssl me r st = (boots, time)" "boots \<le> ENGINEBOOT_MAX" "time \<le> ENGINETIME_MAX"
    and names: "length (usr_engine_id r) \<le> min 0xFFFF (unat (id_room i))" "length (usr_name r) \<le> 32"
      "length (usr_name r) < unat (name_room i)"
    and user: "usm_get_user_from_list (Some (usr_engine_id r)) (usr_name r) (userList st2) (use_default_user i) (noNameUser st2) = Some u"
      "shares_keys r u"
    and timely: "find_engine ssl you i (usr_engine_id r) st2 = (None, st3)"
      "usm_check_and_update_timeliness ssl you st3 (usr_engine_id r) boots time = (None, st4)"
  shows "\<exists>out. usm_process_in_msg ssl you i st2 = (Inr out, st4) \<and>
    secEngineID out = usr_engine_id r \<and> secName out = usr_name r \<and>
    received_scoped out = scoped @ (if secLevel i = SNMP_SEC_LEVEL_AUTHPRIV \<and>
      ISTRANSFORM (usr_priv_protocol r) usmDESPrivProtocol then des_padding scoped else [])"
proof -
  have "usr_sec_level r = SNMP_SEC_LEVEL_AUTHNOPRIV \<or> usr_sec_level r = SNMP_SEC_LEVEL_AUTHPRIV"
    using r(2,3) by (simp add: authenticated_level_def)
  from generated_message[OF sent b r(1) this clock(1)] obtain slt body mac where
    g: "sent_body ssl r boots time scoped slt body" "mac = message_mac ssl r boots time slt globalData body"
      "contents b' = v3_message r boots time mac slt globalData body" "length mac = 12" "length slt \<le> 16"
      "usr_auth_protocol r = usmHMACMD5AuthProtocol \<and> 16 \<le> length (usr_auth_key r) \<or>
        usr_auth_protocol r = usmHMACSHA1AuthProtocol \<and> 20 \<le> length (usr_auth_key r)"
      "usm_check_secLevel_vs_protocols (usr_sec_level r) (usr_auth_protocol r) (usr_priv_protocol r) \<noteq> 1"
    by metis
  have "params_fit r boots time mac slt (id_room i) (name_room i)"
    using names clock(2,3) g(4,5) by (simp add: params_fit_def)
  from carries_parameters[OF i(1)[unfolded g(3)] this] obtain sp A rest where
    p: "message_parameters i = Inr sp" "msgEngineID sp = usr_engine_id r" "msgUserName sp = usr_name r"
      "boots_uint sp = boots" "time_uint sp = time" "signature sp = mac" "salt sp = slt" "blanked sp = A @ body @ rest"
      "A @ body = v3_message r boots time (replicate (length mac) 0) slt globalData body"
      "data_ptr sp = length A" "wholeMsgLen i = of_nat (length (A @ body))" "length (A @ body) < 2 ^ 31"
    by metis
  have w: "whole_message i sp = v3_message r boots time (replicate 12 0) slt globalData body"
    using p(8-9,11-12) g(4) by (simp add: whole_message_def u32_unat_of_nat flip: append_assoc)
  have "12 \<le> length (whole_message i sp)" by (simp add: w v3_message_split)
  then have auth: "sc_check_keyed_hash ssl (authProtocol u) (authKey u) (whole_message i sp) (signature sp)"
    using g(2,6) user(2) by (simp add: sc_check_keyed_hash_iff[OF ssl(1)] shares_keys_def message_mac_def p(6) w)
  have eq: "usm_process_in_msg ssl you i st2 = finish_message ssl i u sp st4"
    using timely user find_engine_users[OF timely(1)] shares_keys_level[OF user(2) g(7)] auth g(1) r(2,3) p(2-5,7)
    by (intro process_verified[OF p(1)]) (auto simp: check_timely_def sent_body_def)
  have "length body \<le> unat (scoped_room i)" if "secLevel i = SNMP_SEC_LEVEL_AUTHPRIV"
    using i(2)[OF that] by (simp add: g(3) v3_message_split)
  from sent_body_received[OF g(1) user(2) ssl(2) r(2)[symmetric] p(4,5,7,8,10-12) this, of st4] obtain out where
    o: "finish_message ssl i u sp st4 = (Inr out, st4)" "received_scoped out = scoped @
      (if secLevel i = SNMP_SEC_LEVEL_AUTHPRIV \<and> ISTRANSFORM (usr_priv_protocol r) usmDESPrivProtocol then des_padding scoped else [])"
    by blast
  then show ?thesis using finish_message_out[OF o(1)] p(2,3) eq by auto
qed

end
