(* ===== verification/V3_Roundtrip.thy ===== *)
theory V3_Roundtrip
  imports V3_Message Usm_Roundtrip
begin

unbundle bit_operations_syntax

text \<open>A message that one engine builds, \<^verbatim>\<open>snmpv3_parse\<close> of another engine reads back.\<close>

section \<open>The bytes of a message\<close>

definition v3_flags :: "pdu \<Rightarrow> u8" where
  "v3_flags pdu = snmpv3_calc_msg_flags (sint (securityLevel pdu)) (command pdu)"

definition global_inner :: "session \<Rightarrow> pdu \<Rightarrow> u8 list" where
  "global_inner sess pdu = tlv ASN_INTEGER (int_payload (msgid pdu)) @ tlv ASN_INTEGER (int_payload (rcvMsgMaxSize sess)) @
     tlv ASN_OCTET_STR [v3_flags pdu] @ tlv ASN_INTEGER (int_payload (securityModel pdu))"

definition global_enc :: "session \<Rightarrow> pdu \<Rightarrow> u8 list" where
  "global_enc sess pdu = tlv ASN_INTEGER (int_payload (version pdu)) @ tlv ASN_SEQUENCE_CONSTRUCTOR (global_inner sess pdu)"

definition scoped_enc :: "pdu \<Rightarrow> u8 list" where
  "scoped_enc pdu = tlv ASN_SEQUENCE_CONSTRUCTOR
     (tlv ASN_OCTET_STR (contextEngineID pdu) @ tlv ASN_OCTET_STR (contextName pdu) @ pdu_enc pdu)"

lemma v3_header_prepended:
  assumes b: "valid_rbuf b"
  shows "prepended alloc True b (global_enc sess pdu) (snmpv3_header_realloc_rbuild alloc sess pdu b)"
proof -
  let ?fields = "((tlv ASN_INTEGER (int_payload (msgid pdu)) @ tlv ASN_INTEGER (int_payload (rcvMsgMaxSize sess))) @
     tlv ASN_OCTET_STR [v3_flags pdu]) @ tlv ASN_INTEGER (int_payload (securityModel pdu))"
  define build where "build =
      ebind (asn_realloc_rbuild_int alloc True ASN_INTEGER (securityModel pdu) 4 b) (\<lambda>b.
      ebind (asn_realloc_rbuild_string alloc True ASN_OCTET_STR [v3_flags pdu] b) (\<lambda>b.
      ebind (asn_realloc_rbuild_int alloc True ASN_INTEGER (rcvMsgMaxSize sess) 4 b) (\<lambda>b.
      asn_realloc_rbuild_int alloc True ASN_INTEGER (msgid pdu) 4 b)))"
  let ?seq = "\<lambda>b'. asn_realloc_rbuild_sequence alloc True ASN_SEQUENCE_CONSTRUCTOR (of_nat (offset b' - offset b)) b'"
  have f: "prepended alloc True b ?fields build"
    unfolding build_def
    by (rule prepended_bind[OF b rbuild_int_prepended[OF b]],
        rule prepended_bind[OF _ rbuild_string_prepended], assumption, assumption)
      (rule prepended_bind[OF _ rbuild_int_prepended rbuild_int_prepended])
  have s: "prepended alloc True b (tlv ASN_SEQUENCE_CONSTRUCTOR ?fields) (ebind build ?seq)"
    unfolding tlv_def[of ASN_SEQUENCE_CONSTRUCTOR]
    by (rule prepended_bind[OF b f]) (simp add: rbuild_sequence_prepended)
  have "prepended alloc True b (tlv ASN_INTEGER (int_payload (version pdu)) @ tlv ASN_SEQUENCE_CONSTRUCTOR ?fields)
      (ebind (ebind build ?seq) (\<lambda>b. asn_realloc_rbuild_int alloc True ASN_INTEGER (version pdu) 4 b))"
    by (rule prepended_bind[OF b s rbuild_int_prepended])
  then show ?thesis
    by (simp add: snmpv3_header_realloc_rbuild_def build_def ebind_assoc global_enc_def global_inner_def v3_flags_def Let_def)
qed

lemma rbuild_scoped_prepended:
  assumes b: "valid_rbuf b" and "pdu_ok pdu"
  shows "prepended alloc True b (scoped_enc pdu) (rbuild_scoped alloc pdu None b)"
proof -
  let ?body = "pdu_enc pdu" and ?C = "tlv ASN_OCTET_STR (contextEngineID pdu)" and ?N = "tlv ASN_OCTET_STR (contextName pdu)"
  have h: "prepended alloc True b1 (ber_header ASN_SEQUENCE_CONSTRUCTOR (of_nat (length (?C @ ?N) + n)) @ ?C @ ?N)
      (snmpv3_scopedPDU_header_realloc_rbuild alloc pdu n b1)" if v: "valid_rbuf b1" for b1 n
  proof -
    have "prepended alloc True b1 (?C @ ?N) (ebind (asn_realloc_rbuild_string alloc True ASN_OCTET_STR (contextName pdu) b1)
        (\<lambda>b. asn_realloc_rbuild_string alloc True ASN_OCTET_STR (contextEngineID pdu) b))"
      by (rule prepended_bind[OF v rbuild_string_prepended[OF v] rbuild_string_prepended])
    from prepended_bind[OF v this, of "ber_header ASN_SEQUENCE_CONSTRUCTOR (of_nat (length (?C @ ?N) + n))"
        "\<lambda>b. asn_realloc_rbuild_sequence alloc True ASN_SEQUENCE_CONSTRUCTOR (of_nat (offset b - offset b1 + n)) b"]
    show ?thesis
      by (simp add: snmpv3_scopedPDU_header_realloc_rbuild_def ebind_assoc rbuild_sequence_prepended add_ac)
  qed
  have "prepended alloc True b ((ber_header ASN_SEQUENCE_CONSTRUCTOR (of_nat (length (?C @ ?N) + length ?body)) @ ?C @ ?N) @ ?body)
      (rbuild_scoped alloc pdu None b)"
    unfolding rbuild_scoped_def Let_def option.case
    by (rule prepended_bind[OF b rbuild_pdu_prepended[OF assms(2) b]]) (simp add: h[simplified])
  then show ?thesis by (simp add: scoped_enc_def tlv_def[of ASN_SEQUENCE_CONSTRUCTOR] add_ac)
qed

section \<open>Reading the header\<close>

lemma flags_level_calc:
  "sint (securityLevel pdu) \<in> {1, 2, 3} \<Longrightarrow> flags_level (v3_flags pdu) = sint (securityLevel pdu) \<and>
    (v3_flags pdu AND SNMP_MSG_FLAG_PRIV_BIT \<noteq> 0 \<longrightarrow> v3_flags pdu AND SNMP_MSG_FLAG_AUTH_BIT \<noteq> 0)"
  by (auto simp: flags_level_def v3_flags_def snmpv3_calc_msg_flags_def msg_flag_defs level_defs)

lemma flags_report:
  "v3_flags pdu AND SNMP_MSG_FLAG_RPRT_BIT \<noteq> 0 \<longleftrightarrow> SNMP_CMD_CONFIRMED (command pdu)"
  by (simp add: v3_flags_def snmpv3_calc_msg_flags_def msg_flag_defs)

text \<open>What the header gives to the PDU.\<close>

definition with_header :: "pdu \<Rightarrow> pdu \<Rightarrow> pdu" where
  "with_header p0 pdu = p0\<lparr>version := version pdu, msgid := msgid pdu,
     flags := (if SNMP_CMD_CONFIRMED (command pdu) then flags p0 OR 4 else flags p0 AND NOT 4),
     securityModel := securityModel pdu, securityLevel := securityLevel pdu\<rparr>"

lemma global_enc_len: "length (global_enc sess pdu) < 2 ^ 10"
  using tlv_length_bounds(2)[of ASN_INTEGER "int_payload (version pdu)"] tlv_length_bounds(2)[of ASN_INTEGER "int_payload (msgid pdu)"]
    tlv_length_bounds(2)[of ASN_INTEGER "int_payload (rcvMsgMaxSize sess)"] tlv_length_bounds(2)[of ASN_OCTET_STR "[v3_flags pdu]"]
    tlv_length_bounds(2)[of ASN_INTEGER "int_payload (securityModel pdu)"]
    tlv_length_bounds(2)[of ASN_SEQUENCE_CONSTRUCTOR "global_inner sess pdu"]
    int_payload_len(2)[of "version pdu"] int_payload_len(2)[of "msgid pdu"] int_payload_len(2)[of "rcvMsgMaxSize sess"]
    int_payload_len(2)[of "securityModel pdu"]
  by (simp add: global_enc_def global_inner_def)

lemma parse_global:
  assumes at: "bytes_at m h (global_enc sess pdu)" and start: "asn_parse_sequence m 0 len ASN_SEQUENCE_CONSTRUCTOR = Inr (h, n, t)"
    and room: "length (global_enc sess pdu) \<le> unat n"
    and ok: "0 \<le> sint (msgid pdu)" "484 \<le> sint (rcvMsgMaxSize sess)" "sint (securityLevel pdu) \<in> {1, 2, 3}"
      "find_sec_mod (securityModel pdu)"
  shows "\<exists>data len'. parse_msg_start p0 m len =
      Inr (data, len', p0\<lparr>version := version pdu, msgid := msgid pdu\<rparr>, rcvMsgMaxSize sess) \<and>
    parse_msg_security (p0\<lparr>version := version pdu, msgid := msgid pdu\<rparr>) m data len' =
      Inr (h + length (global_enc sess pdu), with_header p0 pdu, v3_flags pdu)"
proof -
  define V where "V = tlv ASN_INTEGER (int_payload (version pdu))"
  define I where "I = tlv ASN_INTEGER (int_payload (msgid pdu))"
  define X where "X = tlv ASN_INTEGER (int_payload (rcvMsgMaxSize sess))"
  define F where "F = tlv ASN_OCTET_STR [v3_flags pdu]"
  define S where "S = tlv ASN_INTEGER (int_payload (securityModel pdu))"
  define H where "H = ber_header ASN_SEQUENCE_CONSTRUCTOR (of_nat (length (I @ X @ F @ S)))"
  have g: "global_enc sess pdu = V @ H @ I @ X @ F @ S"
    by (simp add: global_enc_def global_inner_def tlv_def[of ASN_SEQUENCE_CONSTRUCTOR] V_def I_def X_def F_def S_def H_def)
  note s1 = over_object[OF at[unfolded g] room[unfolded g]]
  note s2 = over_object[OF s1(3,4)]
  note s3 = over_object[OF s2(3,4)]
  note s4 = over_object[OF s3(3,4)]
  note s5 = over_object[OF s4(3,4)]
  have q: "asn_parse_sequence m (h + length V) (n - of_nat (length V)) ASN_SEQUENCE_CONSTRUCTOR =
      Inr (h + length V + length H, of_nat (length (I @ X @ F @ S)), ASN_SEQUENCE_CONSTRUCTOR)"
    unfolding H_def using global_enc_len[of sess pdu] s1(4) s2(1)
    by (intro parse_sequence_header) (auto simp: g H_def)
  obtain buf where f: "asn_parse_string m (h + length V + length H + length I + length X)
        (n - of_nat (length V) - of_nat (length H) - of_nat (length I) - of_nat (length X)) SNMP_MAX_MSG_SIZE =
      Inr (h + length V + length H + length I + length X + length F,
        n - of_nat (length V) - of_nat (length H) - of_nat (length I) - of_nat (length X) - of_nat (length F), ASN_OCTET_STR, buf, 1)"
      "take 1 buf = [v3_flags pdu]"
    using parse_string_step[OF s5(1,2)[unfolded F_def], of SNMP_MAX_MSG_SIZE] by (auto simp: F_def SNMP_MAX_MSG_SIZE_def)
  have b: "hd buf = v3_flags pdu" using f(2) by (cases buf) auto
  note l = flags_level_calc[OF ok(3)]
  have "0 < sint (securityModel pdu)" using ok(4) by (simp add: find_sec_mod_def SNMP_SEC_MODEL_USM_def)
  then have m: "\<not> sint (securityModel pdu) < 1" by simp
  have v: "asn_parse_int m h n 4 = Inr (h + length V, n - of_nat (length V), ASN_INTEGER, version pdu)"
    using parse_int_step[OF s1(1,2)[unfolded V_def]] by (simp add: V_def)
  have "parse_msg_start p0 m len = Inr (h + length V + length H + length I + length X,
      n - of_nat (length V) - of_nat (length H) - of_nat (length I) - of_nat (length X),
      p0\<lparr>version := version pdu, msgid := msgid pdu\<rparr>, rcvMsgMaxSize sess)"
    using parse_int_step[OF s3(1,2)[unfolded I_def]] parse_int_step[OF s4(1,2)[unfolded X_def]] ok(1,2)
    by (simp add: parse_msg_start_def v3_try_def start v q flip: I_def X_def)
  moreover have "parse_msg_security (p0\<lparr>version := version pdu, msgid := msgid pdu\<rparr>) m (h + length V + length H + length I + length X)
      (n - of_nat (length V) - of_nat (length H) - of_nat (length I) - of_nat (length X)) =
      Inr (h + length (global_enc sess pdu), with_header p0 pdu, v3_flags pdu)"
    unfolding parse_msg_security_def f(1) v3_try_def sum.case ebind_Inr prod.case Let_def b
      parse_int_step[OF s5(3,4)[unfolded S_def], folded S_def]
    using ok(4) m l flags_report[of pdu] by (auto simp: with_header_def g SNMP_MSG_FLAG_RPRT_BIT_def)
  ultimately show ?thesis by blast
qed

section \<open>Reading the scoped PDU\<close>

text \<open>What the context gives to the PDU.\<close>

definition with_context :: "pdu \<Rightarrow> pdu \<Rightarrow> pdu" where
  "with_context p0 pdu = p0\<lparr>contextEngineID := contextEngineID pdu, contextName := contextName pdu, command := command pdu\<rparr>"

lemma pdu_at_header:
  assumes "pdu_at m p pdu e"
  shows "\<exists>q. header_at m p (ucast (command pdu)) q (e - q) \<and> q \<le> e"
proof -
  obtain q r n where "header_at m p (ucast (command pdu)) q (e - q)"
      "header_at m (q + length (fields_enc pdu)) ASN_SEQUENCE_CONSTRUCTOR r n" "e = r + n"
    using assms by (auto simp: pdu_at_def)
  moreover from this(2) have "q \<le> r" by (simp add: header_at_def)
  ultimately show ?thesis by (intro exI[of _ q]) simp
qed

lemma parse_scoped:
  assumes at: "bytes_at m p (scoped_enc pdu)" and room: "length (scoped_enc pdu) \<le> unat len" "length (scoped_enc pdu) < 2 ^ 31"
    and ok: "pdu_rt pdu" "length (contextEngineID pdu) \<le> 32" "length (contextName pdu) \<le> 256" "\<And>n. alloc n"
  shows "\<exists>data len'. snmpv3_scopedPDU_parse alloc p0 m p len = Inr (data, len', with_context p0 pdu) \<and>
    pdu_at m data pdu (data + length (pdu_enc pdu)) \<and> length (pdu_enc pdu) \<le> unat len'"
proof -
  define C where "C = tlv ASN_OCTET_STR (contextEngineID pdu)"
  define N where "N = tlv ASN_OCTET_STR (contextName pdu)"
  define B where "B = pdu_enc pdu"
  define H where "H = ber_header ASN_SEQUENCE_CONSTRUCTOR (of_nat (length (C @ N @ B)))"
  have e: "scoped_enc pdu = H @ C @ N @ B"
    by (simp add: scoped_enc_def tlv_def[of ASN_SEQUENCE_CONSTRUCTOR] C_def N_def B_def H_def)
  note s1 = over_object[OF at[unfolded e] room(1)[unfolded e]]
  note s2 = over_object[OF s1(3,4)]
  note s3 = over_object[OF s2(3,4)]
  have q: "asn_parse_sequence m p len ASN_SEQUENCE_CONSTRUCTOR = Inr (p + length H, of_nat (length (C @ N @ B)), ASN_SEQUENCE_CONSTRUCTOR)"
    unfolding H_def using room s1(1) by (intro parse_sequence_header) (auto simp: e H_def)
  let ?l1 = "len - of_nat (length H)" let ?l2 = "?l1 - of_nat (length C)" let ?l3 = "?l2 - of_nat (length N)"
  let ?d = "p + length H + length C + length N"
  obtain c where c: "asn_parse_string m (p + length H) ?l1 SNMP_MAX_ENG_SIZE =
      Inr (p + length H + length C, ?l2, ASN_OCTET_STR, c, of_nat (length (contextEngineID pdu)))"
      "take (length (contextEngineID pdu)) c = contextEngineID pdu"
    using parse_string_step[OF s2(1,2)[unfolded C_def], of SNMP_MAX_ENG_SIZE] ok(2) by (auto simp: C_def SNMP_MAX_ENG_SIZE_def)
  obtain nm where nm: "asn_parse_string m (p + length H + length C) ?l2 SNMP_MAX_CONTEXT_SIZE =
      Inr (?d, ?l3, ASN_OCTET_STR, nm, of_nat (length (contextName pdu)))" "take (length (contextName pdu)) nm = contextName pdu"
    using parse_string_step[OF s3(1,2)[unfolded N_def], of SNMP_MAX_CONTEXT_SIZE] ok(3) by (auto simp: N_def SNMP_MAX_CONTEXT_SIZE_def)
  have u: "unat (of_nat (length (contextEngineID pdu)) :: u32) = length (contextEngineID pdu)"
      "unat (of_nat (length (contextName pdu)) :: u32) = length (contextName pdu)"
    using ok(2,3) by (simp_all add: u32_unat_of_nat)
  have b: "pdu_at m ?d pdu (?d + length B)"
    unfolding B_def using s3(3) room(2) by (intro pdu_at_enc) (auto simp: B_def e)
  then obtain q' where h: "header_at m ?d (ucast (command pdu)) q' (?d + length B - q')" "q' \<le> ?d + length B"
    using pdu_at_header by blast
  have r: "ucast (ucast (command pdu) :: u8) = command pdu" "\<not> is_extension_id (ucast (command pdu))" "ucast (command pdu) \<noteq> ASN_OPAQUE"
    using ok(1) request_commands[of "command pdu"] by (auto simp: pdu_rt_def)
  have "asn_parse_header m ?d ?l3 = Inr (q', of_nat (?d + length B - q'), ucast (command pdu))"
    using h s3(4) by (intro header_at_parse r) (auto simp: header_at_def)
  then have "snmpv3_scopedPDU_parse alloc p0 m p len = Inr (?d, ?l3, with_context p0 pdu)"
    using c nm u ok(4) r(1) by (simp add: snmpv3_scopedPDU_parse_def q with_context_def)
  then show ?thesis using b s3(4) unfolding B_def by blast
qed

text \<open>The scoped PDU is where the security model says, followed by nothing but padding.\<close>

lemma scoped_memory_at:
  assumes "received_scoped out = scoped @ pad" "length (scoped @ pad) < 2 ^ 32" "scoped_memory room out = (mem, cp, len)"
    and "scoped \<noteq> []"
  shows "bytes_at mem cp scoped \<and> length scoped \<le> unat len"
proof (cases "scopedPdu out")
  case (InMessage p n)
  then have t: "take (unat n) (drop p mem) = scoped @ pad" and [simp]: "cp = p" "len = n"
    using assms(1,3) by (simp_all add: received_scoped_def scoped_memory_def)
  have l: "length (scoped @ pad) \<le> unat n" "length (scoped @ pad) \<le> length mem - p"
    using arg_cong[OF t, of length] by auto
  then have p: "p \<le> length mem" using assms(4) by (cases "p \<le> length mem") auto
  have "take (length scoped) (drop p mem) = take (length scoped) (take (unat n) (drop p mem))" using l by simp
  then have "take (length scoped) (drop p mem) = scoped" by (simp add: t)
  then show ?thesis using l p by (simp add: bytes_at_iff[OF p])
next
  case (Decrypted plain)
  then have "mem = scoped @ pad @ replicate (unat room - length plain) 0" "cp = 0" "len = of_nat (length (scoped @ pad))"
    using assms(1,3) by (simp_all add: received_scoped_def scoped_memory_def)
  then show ?thesis using bytes_at_self[of "[]" scoped] u32_unat_of_nat[OF assms(2)] by simp
qed

lemma find_engine_cong:
  "sess_auth i = sess_auth j \<Longrightarrow> msg_flags i = msg_flags j \<Longrightarrow> find_engine ssl me i eid st = find_engine ssl me j eid st"
  by (simp add: find_engine_def engine_must_be_known_def cong: option.case_cong)

lemma use_default_user_cong: "sess_auth i = sess_auth j \<Longrightarrow> use_default_user i = use_default_user j"
  by (simp add: use_default_user_def)

text \<open>What a successful construction of a message consists of.\<close>

lemma packet_built:
  assumes "snmpv3_packet_realloc_rbuild ssl alloc me sess pdu ref None b st = (Inr b', st')" "valid_rbuf b" "offset b = 0" "pdu_ok pdu"
  obtains b1 where "valid_rbuf b1" "contents b1 = scoped_enc pdu" "find_sec_mod (securityModel pdu)"
    "usm_rgenerate_out_msg ssl alloc me (global_enc sess pdu) (securityEngineID pdu) (securityName pdu)
       (sint (securityLevel pdu)) (scoped_enc pdu) ref b1 st = (Inr b', st')"
proof -
  let ?hb = "\<lparr>pkt = replicate SNMP_MAX_MSG_V3_HDRS 0, offset = 0\<rparr> :: rbuf"
  obtain b1 hdr where r: "rbuild_scoped alloc pdu None b = Inr b1" "snmpv3_header_realloc_rbuild alloc sess pdu ?hb = Inr hdr"
      "find_sec_mod (securityModel pdu)"
      "usm_rgenerate_out_msg ssl alloc me (contents hdr) (securityEngineID pdu) (securityName pdu) (sint (securityLevel pdu))
        (contents b1) ref b1 st = (Inr b', st')"
    using assms(1)
    by (auto simp: snmpv3_packet_realloc_rbuild_def v3_try_def split: sum.splits prod.splits if_splits asn_error.splits)
  have v: "valid_rbuf ?hb" "contents ?hb = []" "contents b = []" using assms(3) by (simp_all add: valid_rbuf_def contents_def)
  have "valid_rbuf b1" "contents b1 = scoped_enc pdu"
    using rbuild_scoped_prepended[OF assms(2,4), of alloc] by (simp_all add: r(1) prepended_def v(3))
  moreover have "contents hdr = global_enc sess pdu"
    using v3_header_prepended[OF v(1), of alloc sess pdu] by (simp add: r(2) prepended_def v(2))
  ultimately show ?thesis using that r(3,4) by metis
qed

lemma message_start:
  fixes globalData rest body slt mac :: "u8 list" and boots time :: u32 and r :: usmStateReference
  defines "msg \<equiv> v3_message r boots time mac slt globalData body"
  assumes "length msg < 2 ^ 31"
  shows "\<exists>h n. asn_parse_sequence (msg @ rest) 0 (of_nat (length msg)) ASN_SEQUENCE_CONSTRUCTOR = Inr (h, n, ASN_SEQUENCE_CONSTRUCTOR) \<and>
    bytes_at (msg @ rest) h globalData \<and> length globalData \<le> unat n"
proof -
  define P where "P = globalData @ params_enc r boots time mac slt @ body"
  define H where "H = ber_header ASN_SEQUENCE_CONSTRUCTOR (of_nat (length P))"
  have m: "msg = H @ P" by (simp add: msg_def v3_message_def tlv_def H_def P_def)
  have u: "unat (of_nat (length msg) :: u32) = length msg" "unat (of_nat (length P) :: u32) = length P"
    using assms(2) u32_unat_of_nat[of "length msg"] u32_unat_of_nat[of "length P"] by (simp_all add: m)
  have "asn_parse_sequence (msg @ rest) 0 (of_nat (length msg)) ASN_SEQUENCE_CONSTRUCTOR =
      Inr (0 + length H, of_nat (length P), ASN_SEQUENCE_CONSTRUCTOR)"
    unfolding H_def using assms(2) bytes_at_self[of "[]" H "P @ rest"] u(1)
    by (intro parse_sequence_header) (auto simp: m H_def)
  then show ?thesis
    using bytes_at_self[of H globalData "params_enc r boots time mac slt @ body @ rest"] u(2)
    by (simp add: m P_def)
qed

lemma scoped_enc_not_empty: "scoped_enc pdu \<noteq> []"
  by (simp add: scoped_enc_def tlv_def ber_header_def)

lemma des_padding_len: "length (des_padding p) < 8"
  by (simp add: des_padding_def Let_def)

lemma v3_accepted:
  assumes sent: "snmpv3_packet_realloc_rbuild ssl alloc me sess pdu ref None b st = (Inr b', st')"
    and b: "valid_rbuf b" "offset b = 0"
    and pdu: "pdu_rt pdu" "length (contextEngineID pdu) \<le> 32" "length (contextName pdu) \<le> 256" "0 \<le> sint (msgid pdu)"
      "484 \<le> sint (rcvMsgMaxSize sess)" "length (scoped_enc pdu) < 2 ^ 30" "length (contents b') < 2 ^ 31"
    and r: "outgoing_user st ref (securityEngineID pdu) (securityName pdu) (sint (securityLevel pdu)) = Inr r"
      "usr_sec_level r = sint (securityLevel pdu)" "sint (securityLevel pdu) \<in> {2, 3}"
    and ssl: "digest_lengths ssl" "ciphers_ok ssl"
    and clock: "message_clock ssl me r st = (boots, time)" "boots \<le> ENGINEBOOT_MAX" "time \<le> ENGINETIME_MAX"
    and names: "length (usr_engine_id r) \<le> 64" "length (usr_name r) \<le> 32" "length (agent_addr p0) = 4"
    and i: "sess_auth i = Some (isAuthoritative sess')" "msg_flags i = v3_flags pdu"
    and user: "usm_get_user_from_list (Some (usr_engine_id r)) (usr_name r) (userList st2) (use_default_user i) (noNameUser st2) = Some u"
      "shares_keys r u"
    and timely: "find_engine ssl you i (usr_engine_id r) st2 = (None, st3)"
      "usm_check_and_update_timeliness ssl you st3 (usr_engine_id r) boots time = (None, st4)"
  shows "snmpv3_parse ssl (\<lambda>_. True) you sess' p0 (contents b' @ rest) addr (of_nat (length (contents b'))) st2 =
    (Inr (pdu_decoded (with_context ((with_header p0 pdu)\<lparr>securityEngineID := usr_engine_id r, securityName := usr_name r\<rparr>) pdu) pdu),
     sess'\<lparr>sndMsgMaxSize := rcvMsgMaxSize sess\<rparr>, st4)"
proof -
  let ?m = "contents b' @ rest" and ?len = "of_nat (length (contents b')) :: u32" and ?G = "global_enc sess pdu"
  let ?p1 = "with_header p0 pdu" and ?s = "sess'\<lparr>sndMsgMaxSize := rcvMsgMaxSize sess\<rparr>"
  obtain b1 where b1: "valid_rbuf b1" "contents b1 = scoped_enc pdu" "find_sec_mod (securityModel pdu)"
      "usm_rgenerate_out_msg ssl alloc me ?G (securityEngineID pdu) (securityName pdu) (sint (securityLevel pdu)) (scoped_enc pdu) ref b1 st
        = (Inr b', st')"
    using packet_built[OF sent b pdu_rt_ok[OF pdu(1)]] by blast
  have level: "usr_sec_level r = SNMP_SEC_LEVEL_AUTHNOPRIV \<or> usr_sec_level r = SNMP_SEC_LEVEL_AUTHPRIV"
    using r(2,3) by (auto simp: level_defs)
  obtain slt body mac where "contents b' = v3_message r boots time mac slt ?G body"
    using generated_message[OF b1(4,1,2) r(1) level clock(1)] by metis
  then obtain h n where h: "asn_parse_sequence ?m 0 ?len ASN_SEQUENCE_CONSTRUCTOR = Inr (h, n, ASN_SEQUENCE_CONSTRUCTOR)"
      "bytes_at ?m h ?G" "length ?G \<le> unat n"
    using message_start[of r boots time mac slt ?G body rest] pdu(7) by auto
  obtain data len' where g: "parse_msg_start p0 ?m ?len =
      Inr (data, len', p0\<lparr>version := version pdu, msgid := msgid pdu\<rparr>, rcvMsgMaxSize sess)"
      "parse_msg_security (p0\<lparr>version := version pdu, msgid := msgid pdu\<rparr>) ?m data len' = Inr (h + length ?G, ?p1, v3_flags pdu)"
    using parse_global[OF h(2,1,3) pdu(4,5) _ b1(3), of p0] r(3) by auto
  define j where "j = v3_usm_in (\<lambda>_. True) ?s ?p1 ?m addr ?len (rcvMsgMaxSize sess) (h + length ?G) (v3_flags pdu)"
  have j: "wholeMsg j = ?m" "wholeMsgLen j = ?len" "secParams j = h + length ?G" "secLevel j = usr_sec_level r"
      "sess_auth j = sess_auth i" "msg_flags j = msg_flags i" "unat (id_room j) = 64" "unat (name_room j) = 256"
    using i r(2) by (simp_all add: j_def v3_usm_in_def with_header_def v3_size_defs)
  have room: "length (contents b') \<le> unat (scoped_room j)" if "secLevel j = SNMP_SEC_LEVEL_AUTHPRIV"
    using that j(4) r(2) pdu(7) u32_unat_of_nat[of "length (contents b')"]
    by (auto simp: j_def v3_usm_in_def scoped_buffer_def with_header_def word_less_nat_alt SNMP_MAX_MSG_SIZE_def)
  have c: "carries j (contents b') ?G" using h(1) pdu(7) by (simp add: carries_def j)
  obtain out where o: "usm_process_in_msg ssl you j st2 = (Inr out, st4)" "secEngineID out = usr_engine_id r" "secName out = usr_name r"
      "received_scoped out = scoped_enc pdu @ (if secLevel j = SNMP_SEC_LEVEL_AUTHPRIV \<and>
        ISTRANSFORM (usr_priv_protocol r) usmDESPrivProtocol then des_padding (scoped_enc pdu) else [])"
    using generated_accepted[OF b1(4,1,2) r(1) j(4)[symmetric] _ ssl c room clock _ names(2) _ _ user(2) _ timely(2), of st2]
      names(1,2) user(1) timely(1) level find_engine_cong[OF j(5,6)] use_default_user_cong[OF j(5)]
    by (auto simp: authenticated_level_def j(4,7,8))
  obtain mem cp len where s: "scoped_memory (scoped_buffer (\<lambda>_. True) ?p1 ?len) out = (mem, cp, len)" by (metis prod.exhaust)
  have "bytes_at mem cp (scoped_enc pdu) \<and> length (scoped_enc pdu) \<le> unat len"
    using scoped_memory_at[OF o(4) _ s scoped_enc_not_empty] pdu(6) des_padding_len[of "scoped_enc pdu"] by simp
  then obtain d l where p: "snmpv3_scopedPDU_parse (\<lambda>_. True) (?p1\<lparr>securityEngineID := usr_engine_id r, securityName := usr_name r\<rparr>) mem cp len =
      Inr (d, l, with_context (?p1\<lparr>securityEngineID := usr_engine_id r, securityName := usr_name r\<rparr>) pdu)"
      "pdu_at mem d pdu (d + length (pdu_enc pdu))" "length (pdu_enc pdu) \<le> unat l"
    using parse_scoped[of mem cp pdu len "\<lambda>_. True"
        "?p1\<lparr>securityEngineID := usr_engine_id r, securityName := usr_name r\<rparr>"] pdu(1-3,6) by auto
  have "snmp_pdu_parse (\<lambda>_. True) (with_context (?p1\<lparr>securityEngineID := usr_engine_id r, securityName := usr_name r\<rparr>) pdu) mem d l =
      Inr (pdu_decoded (with_context (?p1\<lparr>securityEngineID := usr_engine_id r, securityName := usr_name r\<rparr>) pdu) pdu, 0)"
    using snmp_pdu_parse_at[OF p(2) _ pdu(1)] p(3) names(3) by (simp add: with_context_def with_header_def)
  then show ?thesis
    using g s p(1) o(1-3) by (simp add: snmpv3_parse_def v3_try_def Let_def j_def)
qed

end
