(* ===== verification/Usm_Total.thy ===== *)
theory Usm_Total
  imports V3_Roundtrip
begin

unbundle bit_operations_syntax

text \<open>With memory and keys, messages are generated: no other error can occur.\<close>

definition keys_ok :: "usmStateReference \<Rightarrow> bool" where
  "keys_ok r \<longleftrightarrow>
     (usr_auth_protocol r = usmHMACMD5AuthProtocol \<and> 16 \<le> length (usr_auth_key r) \<or>
      usr_auth_protocol r = usmHMACSHA1AuthProtocol \<and> 20 \<le> length (usr_auth_key r)) \<and>
     (usr_sec_level r = SNMP_SEC_LEVEL_AUTHPRIV \<longrightarrow>
      (usr_priv_protocol r = usmDESPrivProtocol \<or> usr_priv_protocol r = usmAESPrivProtocol) \<and>
      16 \<le> length (usr_priv_key r) \<and> length (usr_priv_key r) < 2 ^ 32)"

lemma prepended_total:
  assumes "prepended alloc True b bs res" "\<forall>n. alloc n" "offset b + length bs \<le> 2 ^ 32 - 8192"
  shows "\<exists>b'. res = Inr b'"
  using assms by (cases res) (auto simp: prepended_def)

lemma keys_ok_level:
  assumes "keys_ok r"
  shows "usm_check_secLevel_vs_protocols (usr_sec_level r) (usr_auth_protocol r) (usr_priv_protocol r) \<noteq> 1"
proof -
  have "netsnmp_oid_equals (usr_auth_protocol r) usmNoAuthProtocol \<noteq> 0"
    using assms by (auto simp: keys_ok_def protocol_defs netsnmp_oid_equals_def)
  moreover have "netsnmp_oid_equals (usr_priv_protocol r) usmNoPrivProtocol \<noteq> 0" if "usr_sec_level r = SNMP_SEC_LEVEL_AUTHPRIV"
    using assms that by (auto simp: keys_ok_def protocol_defs netsnmp_oid_equals_def)
  ultimately show ?thesis by (simp add: usm_check_secLevel_vs_protocols_def)
qed

lemma salt_total:
  assumes "keys_ok r" "usr_sec_level r = SNMP_SEC_LEVEL_AUTHPRIV"
  shows "\<exists>iv slt st'. message_salt me r boots time st = Inr (iv, slt, st')"
proof -
  have "unat (of_nat (length (usr_priv_key r)) - 8 :: u32) = length (usr_priv_key r) - 8"
    using assms u32_sub_nat[of 8 "of_nat (length (usr_priv_key r))"] by (simp add: keys_ok_def u32_unat_of_nat)
  then show ?thesis
    using assms by (auto simp: message_salt_def usm_set_salt_def usm_set_aes_iv_def keys_ok_def word_less_nat_alt Let_def)
qed

lemma encrypt_total:
  assumes k: "keys_ok r" and level: "usr_sec_level r = SNMP_SEC_LEVEL_AUTHPRIV" and a: "\<forall>n. alloc n" and ssl: "ciphers_ok ssl"
    and s: "scoped \<noteq> []" "length scoped < 2 ^ 30"
  shows "\<exists>slt b1 st1. encrypt_scoped ssl alloc me r boots time scoped b st = (Inr (slt, b1), st1)"
proof -
  obtain iv slt st' where m: "message_salt me r boots time st = Inr (iv, slt, st')" using salt_total[OF k level] by blast
  have t: "ISTRANSFORM (usr_priv_protocol r) usmAESPrivProtocol \<or> ISTRANSFORM (usr_priv_protocol r) usmDESPrivProtocol"
    using k level by (auto simp: keys_ok_def ISTRANSFORM_iff protocol_defs)
  note iv = message_salt_effect(2)[OF m t]
  obtain ct where c: "sc_encrypt ssl (usr_priv_protocol r) (usr_priv_key r) iv scoped (length scoped + 64) = Some ct"
    using k level iv s(1)
    by (fastforce simp: sc_encrypt_def keys_ok_def ISTRANSFORM_iff protocol_defs USM_LENGTH_OID_TRANSFORM_def BYTESIZE_def Let_def
        split: prod.splits if_splits)
  have len: "length ct \<le> length scoped + 8"
    using sc_encrypt_length[OF c ssl] iv k level by (auto simp: keys_ok_def protocol_defs ISTRANSFORM_iff)
  have v: "valid_rbuf (b\<lparr>offset := 0\<rparr>)" by (simp add: valid_rbuf_def)
  have "length (tlv ASN_OCTET_STR ct) \<le> 2 ^ 32 - 8192" using tlv_length_bounds(2)[of ASN_OCTET_STR ct] len s(2) by simp
  then obtain b1 where "asn_realloc_rbuild_string alloc True ASN_OCTET_STR ct (b\<lparr>offset := 0\<rparr>) = Inr b1"
    using prepended_total[OF rbuild_string_prepended[OF v] a, of ASN_OCTET_STR ct] by auto
  then show ?thesis using level a m c by (auto simp: encrypt_scoped_def usm_try_def)
qed

lemma sent_body_len:
  assumes "sent_body ssl r boots time scoped slt body" "ciphers_ok ssl"
  shows "length body \<le> length scoped + 14 \<and> length slt \<le> 8"
proof (cases "usr_sec_level r = SNMP_SEC_LEVEL_AUTHPRIV")
  case True
  then obtain iv ct n where c: "sc_encrypt ssl (usr_priv_protocol r) (usr_priv_key r) iv scoped n = Some ct" "body = tlv ASN_OCTET_STR ct"
      "ISTRANSFORM (usr_priv_protocol r) usmDESPrivProtocol \<longrightarrow> length iv = 8"
      "ISTRANSFORM (usr_priv_protocol r) usmAESPrivProtocol \<longrightarrow> length iv = 16" "length slt = 8"
    using assms(1) by (auto simp: sent_body_def)
  then show ?thesis using sc_encrypt_length[OF c(1) assms(2)] tlv_length_bounds(2)[of ASN_OCTET_STR ct] by simp
qed (use assms(1) in \<open>simp add: sent_body_def\<close>)

lemma rbuild_message_total:
  assumes b: "valid_rbuf b" and a: "\<forall>n. alloc n"
    and len: "length globalData + length (params_enc r boots time (zero_mac r) slt) + offset b \<le> 2 ^ 31"
  shows "\<exists>b1 mo. rbuild_message alloc r boots time slt globalData b = Inr (b1, mo)"
proof -
  let ?h = "ber_header ASN_SEQUENCE_CONSTRUCTOR (of_nat (length (globalData @ params_enc r boots time (zero_mac r) slt @ contents b)))"
  have "\<exists>b'. map_sum id fst (rbuild_message alloc r boots time slt globalData b) = Inr b'"
    using len ber_header_len[of ASN_SEQUENCE_CONSTRUCTOR
        "of_nat (length (globalData @ params_enc r boots time (zero_mac r) slt @ contents b))"]
    by (intro prepended_total[OF rbuild_message_prepended[OF b refl] a]) simp
  then show ?thesis by (cases "rbuild_message alloc r boots time slt globalData b") auto
qed

lemma sign_total:
  assumes "keys_ok r" "digest_lengths ssl" "\<forall>n. alloc n" "contents b \<noteq> []"
  shows "\<exists>b'. sign_message ssl alloc r mo b = Inr b'"
  using assms
  by (auto simp: sign_message_def sc_generate_keyed_hash_def keys_ok_def sc_get_properlength_def ISTRANSFORM_iff
      USM_LENGTH_OID_TRANSFORM_def USM_MD5_AND_SHA_AUTH_LEN_def BYTESIZE_def protocol_defs digest_lengths_def split: option.splits)

lemma generate_total:
  assumes r: "outgoing_user st ref eid nm level = Inr r"
      "usr_sec_level r = SNMP_SEC_LEVEL_AUTHNOPRIV \<or> usr_sec_level r = SNMP_SEC_LEVEL_AUTHPRIV"
    and k: "keys_ok r" and a: "\<forall>n. alloc n" and ssl: "digest_lengths ssl" "ciphers_ok ssl"
    and b: "valid_rbuf b" "contents b = scoped" and s: "scoped \<noteq> []" "length scoped < 2 ^ 30" "length globalData < 2 ^ 10"
    and clock: "message_clock ssl me r st = (boots, time)" "boots \<le> ENGINEBOOT_MAX" "time \<le> ENGINETIME_MAX"
    and names: "length (usr_engine_id r) \<le> 64" "length (usr_name r) \<le> 32"
  shows "\<exists>b' st'. usm_rgenerate_out_msg ssl alloc me globalData eid nm level scoped ref b st = (Inr b', st') \<and> length (contents b') < 2 ^ 31"
proof -
  obtain slt b1 st1 where e: "encrypt_scoped ssl alloc me r boots time scoped b st = (Inr (slt, b1), st1)"
  proof (cases "usr_sec_level r = SNMP_SEC_LEVEL_AUTHPRIV")
    case True
    from encrypt_total[OF k this a ssl(2) s(1,2)] show ?thesis using that by blast
  qed (use that in \<open>simp add: encrypt_scoped_def\<close>)
  have body: "valid_rbuf b1" "sent_body ssl r boots time scoped slt (contents b1)"
    using encrypted_body[OF e b] by auto
  note l = sent_body_len[OF body(2) ssl(2)]
  have fit: "params_fit r boots time mac slt 64 256" if "length mac \<le> 16" for mac
    using l names clock that by (simp add: params_fit_def)
  have z: "length (zero_mac r) \<le> 16" by (simp add: zero_mac_def)
  note pl = params_len[OF fit]
  have o: "offset b1 \<le> 2 ^ 30 + 14" using l s(2) length_contents[OF body(1)] by simp
  obtain b2 mo where m: "rbuild_message alloc r boots time slt globalData b1 = Inr (b2, mo)"
    using rbuild_message_total[OF body(1) a, of globalData r boots time slt] pl[OF z] o s(3) by auto
  have c: "contents b2 \<noteq> []"
    using rbuild_message_prepended[OF body(1) refl, where alloc = alloc and r = r and boots = boots and time = time and slt = slt
        and globalData = globalData] m
    by (simp add: prepended_def ber_header_def)
  obtain b' where g: "sign_message ssl alloc r mo b2 = Inr b'" using sign_total[OF k ssl(1) a c] by blast
  have gen: "usm_rgenerate_out_msg ssl alloc me globalData eid nm level scoped ref b st = (Inr b', st1)"
    using keys_ok_level[OF k] by (simp add: usm_rgenerate_out_msg_def r(1) clock(1) e m g usm_try_def)
  obtain slt' body mac where v: "contents b' = v3_message r boots time mac slt' globalData body" "length mac = 12"
      "sent_body ssl r boots time scoped slt' body" "length slt' \<le> 16"
    using generated_message[OF gen b r clock(1)] by metis
  have "params_fit r boots time mac slt' 64 256" using v(2,4) names clock by (simp add: params_fit_def)
  from params_len[OF this] have "length (contents b') < 2 ^ 31"
    using v(1) sent_body_len[OF v(3) ssl(2)] s(2,3) tlv_length_bounds(2)[of ASN_SEQUENCE_CONSTRUCTOR
        "globalData @ params_enc r boots time mac slt' @ body"]
    by (simp add: v3_message_def)
  with gen show ?thesis by blast
qed

lemma packet_total:
  assumes pdu: "pdu_rt pdu" "find_sec_mod (securityModel pdu)" "length (scoped_enc pdu) < 2 ^ 30"
    and b: "valid_rbuf b" "offset b = 0" and a: "\<forall>n. alloc n"
    and r: "outgoing_user st ref (securityEngineID pdu) (securityName pdu) (sint (securityLevel pdu)) = Inr r"
      "usr_sec_level r = SNMP_SEC_LEVEL_AUTHNOPRIV \<or> usr_sec_level r = SNMP_SEC_LEVEL_AUTHPRIV" "keys_ok r"
    and ssl: "digest_lengths ssl" "ciphers_ok ssl"
    and clock: "message_clock ssl me r st = (boots, time)" "boots \<le> ENGINEBOOT_MAX" "time \<le> ENGINETIME_MAX"
    and names: "length (usr_engine_id r) \<le> 64" "length (usr_name r) \<le> 32"
  shows "\<exists>b' st'. snmpv3_packet_realloc_rbuild ssl alloc me sess pdu ref None b st = (Inr b', st') \<and> length (contents b') < 2 ^ 31"
proof -
  let ?hb = "\<lparr>pkt = replicate SNMP_MAX_MSG_V3_HDRS 0, offset = 0\<rparr> :: rbuf"
  have v: "valid_rbuf ?hb" "contents ?hb = []" "contents b = []" using b(2) by (simp_all add: valid_rbuf_def contents_def)
  obtain b1 where b1: "rbuild_scoped alloc pdu None b = Inr b1"
    using prepended_total[OF rbuild_scoped_prepended[OF b(1) pdu_rt_ok[OF pdu(1)]] a] pdu(3) b(2) by auto
  obtain hdr where hdr: "snmpv3_header_realloc_rbuild alloc sess pdu ?hb = Inr hdr"
    using prepended_total[OF v3_header_prepended[OF v(1), of alloc sess pdu] a] global_enc_len[of sess pdu] by auto
  have c: "valid_rbuf b1" "contents b1 = scoped_enc pdu"
    using rbuild_scoped_prepended[OF b(1) pdu_rt_ok[OF pdu(1)], of alloc] by (simp_all add: b1 prepended_def v(3))
  have h: "contents hdr = global_enc sess pdu"
    using v3_header_prepended[OF v(1), of alloc sess pdu] by (simp add: hdr prepended_def v(2))
  obtain b' st' where "usm_rgenerate_out_msg ssl alloc me (global_enc sess pdu) (securityEngineID pdu) (securityName pdu)
      (sint (securityLevel pdu)) (scoped_enc pdu) ref b1 st = (Inr b', st')" "length (contents b') < 2 ^ 31"
    using generate_total[OF r(1,2,3) a ssl c scoped_enc_not_empty pdu(3) global_enc_len[of sess pdu] clock names] by blast
  then show ?thesis using pdu(2) a by (simp add: snmpv3_packet_realloc_rbuild_def b1 hdr c(2) h v3_try_def)
qed

end
