(* ===== verification/Messages.thy ===== *)
theory Messages
  imports Usm_Total Pdu_Forward Client
begin

unbundle bit_operations_syntax

text \<open>
  Whole messages (\<^verbatim>\<open>snmplib/snmp_api.c\<close>, \<^verbatim>\<open>snmplib/snmp_auth.c\<close>): \<^verbatim>\<open>_snmp_build\<close> fills in what a PDU leaves to its
  session and wraps it for SNMPv1, SNMPv2c or SNMPv3; \<^verbatim>\<open>_snmp_parse\<close> takes a received message apart. The reverse encoders are
  used (the default of the configuration); the forward branch for messages with a community is \<open>snmp_build_forward\<close>. The result of a
  function is the error it leaves in \<^verbatim>\<open>s_snmp_errno\<close> or what it made.
\<close>

section \<open>Constants and sessions\<close>

definition SNMP_VERSION_1 :: u32 where "SNMP_VERSION_1 = 0"
definition SNMP_VERSION_2c :: u32 where "SNMP_VERSION_2c = 1"
definition SNMP_VERSION_3 :: u32 where "SNMP_VERSION_3 = 3"
definition SNMP_SEC_MODEL_SNMPv1 :: u32 where "SNMP_SEC_MODEL_SNMPv1 = 1"
definition SNMP_SEC_MODEL_SNMPv2c :: u32 where "SNMP_SEC_MODEL_SNMPv2c = 2"
definition NETSNMP_TSM_SECURITY_MODEL :: u32 where "NETSNMP_TSM_SECURITY_MODEL = 2066434"
definition COMMUNITY_MAX_LEN :: nat where "COMMUNITY_MAX_LEN = 256"
definition DEFAULT_ENTERPRISE :: oid where "DEFAULT_ENTERPRISE = [1, 3, 6, 1, 4, 1, 3, 1, 1]"
definition UCD_MSG_FLAG_EXPECT_RESPONSE :: u32 where "UCD_MSG_FLAG_EXPECT_RESPONSE = 0x200"
definition STAT_SNMPINBADVERSIONS :: nat where "STAT_SNMPINBADVERSIONS = 11"
definition snmpEngineIDoid :: oid where "snmpEngineIDoid = [1, 3, 6, 1, 6, 3, 10, 2, 1, 1, 0]"

lemmas version_defs = SNMP_VERSION_1_def SNMP_VERSION_2c_def SNMP_VERSION_3_def SNMP_SEC_MODEL_SNMPv1_def
  SNMP_SEC_MODEL_SNMPv2c_def SNMP_DEFAULT_VERSION_def

datatype snmp_errno =
    SNMPERR_V2_IN_V1
  | SNMPERR_V1_IN_V2
  | SNMPERR_BAD_REPEATERS
  | SNMPERR_BAD_REPETITIONS
  | SNMPERR_BAD_ASN1_BUILD
  | SNMPERR_BAD_PARSE
  | SNMPERR_BAD_VERSION
  | SNMPERR_BAD_CONTEXT
  | SNMPERR_UNKNOWN_PDU
  | SNMPERR_BAD_SEC_NAME
  | SNMPERR_BAD_SEC_LEVEL
  | SNMPERR_AUTHENTICATION_FAILURE
  | SNMPERR_MALLOC
  | SNMPERR_JUST_A_CONTEXT_PROBE
  | SNMPERR_V3 v3_error
  | MessageFault            \<comment> \<open>an access outside the readable memory (undefined behaviour in C)\<close>

text \<open>The fields of a session that messages depend on; \<open>None\<close> is a NULL pointer.\<close>

record snmp_session =
  v3_sizes :: session
  s_version :: u32
  s_community :: "u8 list"
  s_securityEngineID :: "u8 list"
  s_contextEngineID :: "u8 list"
  s_contextName :: "u8 list option"
  s_securityModel :: u32
  s_securityName :: "u8 list"
  s_securityLevel :: u32

section \<open>Building\<close>

text \<open>\<^verbatim>\<open>non_repeaters\<close> and \<^verbatim>\<open>max_repetitions\<close> are other names of \<^verbatim>\<open>errstat\<close> and \<^verbatim>\<open>errindex\<close>.\<close>

definition default_errors :: "pdu \<Rightarrow> pdu" where
  "default_errors p =
     (let p = (if errstat p = SNMP_DEFAULT_ERRSTAT then p\<lparr>errstat := 0\<rparr> else p)
      in if errindex p = SNMP_DEFAULT_ERRINDEX then p\<lparr>errindex := 0\<rparr> else p)"

definition check_bulk :: "pdu \<Rightarrow> snmp_errno + pdu" where
  "check_bulk p =
     (if sint (errindex p) < 0 then Inl SNMPERR_BAD_REPETITIONS
      else if sint (errstat p) < 0 then Inl SNMPERR_BAD_REPEATERS else Inr p)"

text \<open>The switch on the type of the PDU, for versions with a community.\<close>

definition check_command :: "(nat \<Rightarrow> bool) \<Rightarrow> pdu \<Rightarrow> snmp_errno + pdu" where
  "check_command alloc p =
     (let c = command p in
      if c = SNMP_MSG_RESPONSE \<or> c = SNMP_MSG_GET \<or> c = SNMP_MSG_GETNEXT \<or> c = SNMP_MSG_SET then Inr (default_errors p)
      else if c = SNMP_MSG_TRAP2 \<or> c = SNMP_MSG_INFORM then
        if version p = SNMP_VERSION_1 then Inl SNMPERR_V2_IN_V1 else Inr (default_errors p)
      else if c = SNMP_MSG_GETBULK then
        if version p = SNMP_VERSION_1 then Inl SNMPERR_V2_IN_V1 else check_bulk p
      else if c = SNMP_MSG_TRAP then
        if version p \<noteq> SNMP_VERSION_1 then Inl SNMPERR_V1_IN_V2
        else let p = p\<lparr>reqid := 1\<rparr>
        in if enterprise p = [] \<and> \<not> alloc (4 * length DEFAULT_ENTERPRISE) then Inl SNMPERR_MALLOC
        else Inr (p\<lparr>enterprise := (if enterprise p = [] then DEFAULT_ENTERPRISE else enterprise p),
          flags := flags p AND NOT UCD_MSG_FLAG_EXPECT_RESPONSE\<rparr>)
      else Inl SNMPERR_UNKNOWN_PDU)"

definition default_community :: "(nat \<Rightarrow> bool) \<Rightarrow> snmp_session \<Rightarrow> pdu \<Rightarrow> snmp_errno + pdu" where
  "default_community alloc sess p =
     (if community p = [] \<and> command p \<noteq> SNMP_MSG_RESPONSE
      then if s_community sess \<noteq> [] \<and> \<not> alloc (length (s_community sess)) then Inl SNMPERR_MALLOC
        else Inr (p\<lparr>community := s_community sess\<rparr>)
      else Inr p)"

definition rbuild_community :: "(nat \<Rightarrow> bool) \<Rightarrow> pdu \<Rightarrow> rbuf \<Rightarrow> asn_error + rbuf" where
  "rbuild_community alloc p b =
     (let start_offset = offset b in
      ebind (snmp_pdu_realloc_rbuild alloc p b) (\<lambda>b.
      ebind (asn_realloc_rbuild_string alloc True ASN_OCTET_STR (community p) b) (\<lambda>b.
      ebind (asn_realloc_rbuild_int alloc True ASN_INTEGER (version p) 4 b) (\<lambda>b.
      asn_realloc_rbuild_sequence alloc True ASN_SEQUENCE_CONSTRUCTOR (of_nat (offset b - start_offset)) b))))"

text \<open>
  \<^verbatim>\<open>snmp_build\<close> turns a failure without a reason into \<^verbatim>\<open>SNMPERR_BAD_ASN1_BUILD\<close>; \<open>build_try\<close> does so for the encoders.
\<close>

definition build_try :: "asn_error + 'a \<Rightarrow> snmp_errno + 'a" where
  "build_try r = (case r of Inl OutOfBounds \<Rightarrow> Inl MessageFault | Inl _ \<Rightarrow> Inl SNMPERR_BAD_ASN1_BUILD | Inr v \<Rightarrow> Inr v)"

text \<open>
  \<^verbatim>\<open>snmpv3_build\<close>. Whether the context name and the security name of the PDU are NULL is in \<open>no_context\<close> and \<open>no_name\<close>; the security
  model that the configuration names is in \<open>conf_model\<close> (0 or less when there is none).
\<close>

definition snmpv3_clone_engineID :: "(nat \<Rightarrow> bool) \<Rightarrow> u8 list \<Rightarrow> u8 list" where
  "snmpv3_clone_engineID alloc src = (if src \<noteq> [] \<and> alloc (length src) then src else [])"

definition v3_check_command :: "pdu \<Rightarrow> snmp_errno + pdu" where
  "v3_check_command p =
     (let c = command p in
      if c = SNMP_MSG_RESPONSE \<or> c = SNMP_MSG_TRAP2 \<or> c = SNMP_MSG_REPORT \<or> c = SNMP_MSG_GET \<or> c = SNMP_MSG_GETNEXT \<or>
        c = SNMP_MSG_SET \<or> c = SNMP_MSG_INFORM then Inr (default_errors p)
      else if c = SNMP_MSG_GETBULK then check_bulk p
      else if c = SNMP_MSG_TRAP then Inl SNMPERR_V1_IN_V2
      else Inl SNMPERR_UNKNOWN_PDU)"

definition default_engines :: "(nat \<Rightarrow> bool) \<Rightarrow> snmp_session \<Rightarrow> pdu \<Rightarrow> pdu" where
  "default_engines alloc sess p =
     (let p = (if securityEngineID p = [] \<and> s_securityEngineID sess \<noteq> []
            then p\<lparr>securityEngineID := snmpv3_clone_engineID alloc (s_securityEngineID sess)\<rparr> else p)
      in if contextEngineID p = []
         then if s_contextEngineID sess \<noteq> [] then p\<lparr>contextEngineID := snmpv3_clone_engineID alloc (s_contextEngineID sess)\<rparr>
           else if securityEngineID p \<noteq> [] then p\<lparr>contextEngineID := snmpv3_clone_engineID alloc (securityEngineID p)\<rparr>
           else p
         else p)"

definition default_context :: "(nat \<Rightarrow> bool) \<Rightarrow> snmp_session \<Rightarrow> bool \<Rightarrow> pdu \<Rightarrow> snmp_errno + pdu" where
  "default_context alloc sess no_context p =
     (if no_context then
        (case s_contextName sess of
           None \<Rightarrow> Inl SNMPERR_BAD_CONTEXT
         | Some n \<Rightarrow> if alloc (length n + 1) then Inr (p\<lparr>contextName := n\<rparr>) else Inl (SNMPERR_V3 SNMPERR_GENERR))
      else Inr p)"

definition default_model :: "snmp_session \<Rightarrow> int \<Rightarrow> pdu \<Rightarrow> pdu" where
  "default_model sess conf_model p =
     (if securityModel p = SNMP_DEFAULT_SECMODEL then
        p\<lparr>securityModel := (if s_securityModel sess = SNMP_DEFAULT_SECMODEL
          then if conf_model \<le> 0 then SNMP_SEC_MODEL_USM else of_int conf_model
          else s_securityModel sess)\<rparr>
      else p)"

definition default_name :: "(nat \<Rightarrow> bool) \<Rightarrow> snmp_session \<Rightarrow> bool \<Rightarrow> pdu \<Rightarrow> snmp_errno + pdu" where
  "default_name alloc sess no_name p =
     (if securityName p = [] \<and> no_name then
        if s_securityModel sess \<noteq> NETSNMP_TSM_SECURITY_MODEL \<and> s_securityName sess = [] then Inl SNMPERR_BAD_SEC_NAME
        else if s_securityName sess \<noteq> [] then
          if alloc (length (s_securityName sess) + 1) then Inr (p\<lparr>securityName := s_securityName sess\<rparr>)
          else Inl (SNMPERR_V3 SNMPERR_GENERR)
        else Inr p
      else Inr p)"

definition default_level :: "snmp_session \<Rightarrow> pdu \<Rightarrow> snmp_errno + pdu" where
  "default_level sess p =
     (if securityLevel p = 0
      then if s_securityLevel sess = 0 then Inl SNMPERR_BAD_SEC_LEVEL else Inr (p\<lparr>securityLevel := s_securityLevel sess\<rparr>)
      else Inr p)"

definition v3_defaults :: "(nat \<Rightarrow> bool) \<Rightarrow> snmp_session \<Rightarrow> int \<Rightarrow> bool \<Rightarrow> bool \<Rightarrow> pdu \<Rightarrow> snmp_errno + pdu" where
  "v3_defaults alloc sess conf_model no_context no_name p =
     ebind (v3_check_command p) (\<lambda>p.
     ebind (default_context alloc sess no_context (default_engines alloc sess p)) (\<lambda>p.
     ebind (default_name alloc sess no_name (default_model sess conf_model p)) (\<lambda>p.
     default_level sess p)))"

definition snmpv3_build ::
  "openssl \<Rightarrow> (nat \<Rightarrow> bool) \<Rightarrow> local_engine \<Rightarrow> snmp_session \<Rightarrow> int \<Rightarrow> bool \<Rightarrow> bool \<Rightarrow> pdu \<Rightarrow> rbuf \<Rightarrow> usm \<Rightarrow>
   (snmp_errno + rbuf \<times> pdu) \<times> usm" where
  "snmpv3_build ssl alloc me sess conf_model no_context no_name p b st =
     (case v3_defaults alloc sess conf_model no_context no_name p of
        Inl e \<Rightarrow> (Inl e, st)
      | Inr p \<Rightarrow> (case snmpv3_packet_realloc_rbuild ssl alloc me (v3_sizes sess) p None None b st of
          (Inl e, st) \<Rightarrow> (Inl (SNMPERR_V3 e), st)
        | (Inr b, st) \<Rightarrow> (Inr (b, p), st)))"

text \<open>The branch of \<^verbatim>\<open>_snmp_build\<close> for a community, and the whole function.\<close>

definition build_community :: "(nat \<Rightarrow> bool) \<Rightarrow> snmp_session \<Rightarrow> pdu \<Rightarrow> rbuf \<Rightarrow> snmp_errno + rbuf \<times> pdu" where
  "build_community alloc sess p b =
     ebind (check_command alloc p) (\<lambda>p.
     if version p = SNMP_VERSION_1 \<or> version p = SNMP_VERSION_2c then
       ebind (default_community alloc sess p) (\<lambda>p.
       ebind (build_try (rbuild_community alloc p b)) (\<lambda>b. Inr (b, p)))
     else Inl SNMPERR_BAD_VERSION)"

definition snmp_build ::
  "openssl \<Rightarrow> (nat \<Rightarrow> bool) \<Rightarrow> local_engine \<Rightarrow> snmp_session \<Rightarrow> int \<Rightarrow> bool \<Rightarrow> bool \<Rightarrow> pdu \<Rightarrow> rbuf \<Rightarrow> usm \<Rightarrow>
   (snmp_errno + rbuf \<times> pdu) \<times> usm" where
  "snmp_build ssl alloc me sess conf_model no_context no_name p b st =
     (if version p = SNMP_VERSION_3 then snmpv3_build ssl alloc me sess conf_model no_context no_name p b st
      else (build_community alloc sess p b, st))"

text \<open>
  The forward branch: a placeholder for the header of the message, whose length is stored when the PDU is there. \<open>buf\<close> is
  what the memory held before; the result is what is written and \<^verbatim>\<open>*pkt_len\<close>.
\<close>

definition snmp_build_forward ::
  "(nat \<Rightarrow> bool) \<Rightarrow> snmp_session \<Rightarrow> u8 list \<Rightarrow> u32 \<Rightarrow> pdu \<Rightarrow> snmp_errno + u8 list \<times> u32 \<times> pdu" where
  "snmp_build_forward alloc sess buf pkt_len p =
     ebind (check_command alloc p) (\<lambda>p.
     if version p = SNMP_VERSION_1 \<or> version p = SNMP_VERSION_2c then
       ebind (default_community alloc sess p) (\<lambda>p.
       case asn_build_sequence pkt_len ASN_SEQUENCE_CONSTRUCTOR 0 of
         (h0, Inl e) \<Rightarrow> Inl SNMPERR_BAD_ASN1_BUILD
       | (h0, Inr dl) \<Rightarrow> (case asn_build_int dl ASN_INTEGER (version p) 4 of
           (v, Inl e) \<Rightarrow> Inl SNMPERR_BAD_ASN1_BUILD
         | (v, Inr dl) \<Rightarrow> (case asn_build_string dl ASN_OCTET_STR (Some (community p)) (of_nat (length (community p))) of
             (c, Inl e) \<Rightarrow> Inl SNMPERR_BAD_ASN1_BUILD
           | (c, Inr dl) \<Rightarrow> (case snmp_pdu_build (drop (length (h0 @ v @ c)) buf) dl p of
               (w, Inl e) \<Rightarrow> Inl SNMPERR_BAD_ASN1_BUILD
             | (w, Inr dl) \<Rightarrow>
                 let (h0', _) = insert_length h0 pkt_len ASN_SEQUENCE_CONSTRUCTOR (of_nat (length (v @ c @ w)))
                 in Inr (h0' @ v @ c @ w, of_nat (length (h0' @ v @ c @ w)), p)))))
     else Inl SNMPERR_BAD_VERSION)"

section \<open>Parsing\<close>

text \<open>
  \<^verbatim>\<open>snmp_comstr_parse\<close>: what is left of the message, the community and the version. The byte behind the community is cleared, or
  the last byte of the buffer when it is full.
\<close>

definition snmp_comstr_parse :: "u8 list \<Rightarrow> nat \<Rightarrow> u32 \<Rightarrow> nat \<Rightarrow> asn_error + nat \<times> u32 \<times> u8 list \<times> u32" where
  "snmp_comstr_parse m data len origlen =
     ebind (asn_parse_sequence m data len ASN_SEQUENCE_CONSTRUCTOR) (\<lambda>(data, len, _).
     ebind (asn_parse_int m data len 4) (\<lambda>(data, len, _, ver).
     ebind (asn_parse_string m data len (of_nat origlen)) (\<lambda>(data, len, _, psid, slen).
     Inr (data, len, take (unat slen) (psid[min (unat slen) (origlen - 1) := 0]), ver))))"

text \<open>
  \<^verbatim>\<open>snmp_comstr_build\<close> takes the length of the community from the first byte of the variable that holds it (its low byte on this machine).
\<close>

definition snmp_comstr_build :: "u32 \<Rightarrow> u8 list \<Rightarrow> u32 \<Rightarrow> u32 \<Rightarrow> u32 \<Rightarrow> asn_error + u8 list \<times> u32" where
  "snmp_comstr_build len psid slen ver messagelen =
     (case asn_build_sequence len ASN_SEQUENCE_CONSTRUCTOR 0 of
        (_, Inl e) \<Rightarrow> Inl e
      | (h1, Inr dl) \<Rightarrow> (case asn_build_int dl ASN_INTEGER ver 4 of
          (_, Inl e) \<Rightarrow> Inl e
        | (v, Inr dl) \<Rightarrow> (case asn_build_string dl ASN_OCTET_STR (Some psid) (slen AND 0xFF) of
            (_, Inl e) \<Rightarrow> Inl e
          | (c, Inr dl) \<Rightarrow>
              let (h1', _) = insert_length h1 len ASN_SEQUENCE_CONSTRUCTOR (of_nat (length (v @ c)) + messagelen)
              in Inr (h1' @ v @ c, dl))))"

definition parse_try :: "snmp_errno \<Rightarrow> asn_error + 'a \<Rightarrow> snmp_errno + 'a" where
  "parse_try code r = (case r of Inl OutOfBounds \<Rightarrow> Inl MessageFault | Inl _ \<Rightarrow> Inl code | Inr v \<Rightarrow> Inr v)"

text \<open>The branch of \<^verbatim>\<open>_snmp_parse\<close> for a community; the session has no authenticator of its own.\<close>

definition parse_community :: "(nat \<Rightarrow> bool) \<Rightarrow> snmp_session \<Rightarrow> pdu \<Rightarrow> u8 list \<Rightarrow> u32 \<Rightarrow> usm \<Rightarrow> (snmp_errno + pdu) \<times> usm" where
  "parse_community alloc sess p m len st =
     (case parse_try SNMPERR_BAD_PARSE (snmp_comstr_parse m 0 len COMMUNITY_MAX_LEN) of
        Inl e \<Rightarrow> (Inl e, st)
      | Inr (data, len, com, ver) \<Rightarrow>
          if ver \<noteq> s_version sess \<and> s_version sess \<noteq> SNMP_DEFAULT_VERSION then (Inl SNMPERR_BAD_VERSION, st)
          else if com \<noteq> [] \<and> \<not> alloc (length com) then (Inl SNMPERR_MALLOC, st)
          else let p = p\<lparr>version := ver, securityLevel := of_int SNMP_SEC_LEVEL_NOAUTH,
              securityModel := (if ver = SNMP_VERSION_1 then SNMP_SEC_MODEL_SNMPv1 else SNMP_SEC_MODEL_SNMPv2c),
              community := com\<rparr>
          in case parse_try SNMPERR_BAD_PARSE (snmp_pdu_parse alloc p m data len) of
            Inl e \<Rightarrow> (Inl e, if e = MessageFault then st else count_error STAT_SNMPINASNPARSEERRS st)
          | Inr (p, ret) \<Rightarrow>
              if ret \<noteq> 0 then (Inl SNMPERR_BAD_PARSE, count_error STAT_SNMPINASNPARSEERRS st) else (Inr p, st))"

text \<open>
  A request to the context that stands for the discovery of the engine ID (RFC 5343) is answered here: the answer is \<open>probe_answer\<close>, and
  the request goes no further.
\<close>

definition context_probe :: "bool \<Rightarrow> pdu \<Rightarrow> bool" where
  "context_probe no_discovery p \<longleftrightarrow>
     \<not> no_discovery \<and> command p \<noteq> SNMP_MSG_RESPONSE \<and> contextEngineID p = [0x80, 0, 0, 0, 6]"

definition probe_answer :: "local_engine \<Rightarrow> pdu \<Rightarrow> pdu option" where
  "probe_answer me p =
     (case variables p of
        [v] \<Rightarrow>
          if command p = SNMP_MSG_GET \<and> snmp_oid_compare snmpEngineIDoid (name v) = 0 \<or>
             command p = SNMP_MSG_GETNEXT \<and> snmp_oid_compare snmpEngineIDoid (name v) > 0
          then if myID me = [] then None
            else Some (p\<lparr>variables := [\<lparr>name = snmpEngineIDoid, vtype = ASN_OCTET_STR, val = StringVal (myID me),
                val_len = of_nat (length (myID me))\<rparr>],
              command := SNMP_MSG_RESPONSE, errstat := 0, errindex := 0\<rparr>)
          else None
      | _ \<Rightarrow> None)"

text \<open>
  \<^verbatim>\<open>_snmp_parse\<close>. The result has the PDU or the error, the answer to a probe that is sent on the way, the session and the state. The
  Report that the security model may send about an error is not part of it, and when \<^verbatim>\<open>snmpv3_parse\<close> fails, what it left in the PDU is
  not looked at (the code looks at the context engine ID in it).
\<close>

definition snmp_parse ::
  "openssl \<Rightarrow> (nat \<Rightarrow> bool) \<Rightarrow> local_engine \<Rightarrow> bool \<Rightarrow> snmp_session \<Rightarrow> u32 \<Rightarrow> pdu \<Rightarrow> u8 list \<Rightarrow> u32 \<Rightarrow> u32 \<Rightarrow> usm \<Rightarrow>
   (snmp_errno + pdu) \<times> pdu option \<times> snmp_session \<times> usm" where
  "snmp_parse ssl alloc me no_discovery sess tid p m addr len st =
     (let p = p\<lparr>transid := tid\<rparr> in
      case (if s_version sess \<noteq> SNMP_DEFAULT_VERSION then Inr (sint (s_version sess)) else snmp_parse_version m 0 len) of
        Inl _ \<Rightarrow> (Inl MessageFault, None, sess, st)
      | Inr ver \<Rightarrow>
          if ver = uint SNMP_VERSION_1 \<or> ver = uint SNMP_VERSION_2c then
            (case parse_community alloc sess (p\<lparr>version := of_int ver\<rparr>) m len st of (r, st) \<Rightarrow> (r, None, sess, st))
          else if ver = uint SNMP_VERSION_3 then
            (case snmpv3_parse ssl alloc me (v3_sizes sess) (p\<lparr>version := of_int ver\<rparr>) m addr len st of
               (Inl e, ss, st) \<Rightarrow> (Inl (SNMPERR_V3 e), None, sess\<lparr>v3_sizes := ss\<rparr>, st)
             | (Inr p, ss, st) \<Rightarrow>
                 if context_probe no_discovery p
                 then (Inl SNMPERR_JUST_A_CONTEXT_PROBE, probe_answer me p, sess\<lparr>v3_sizes := ss\<rparr>, st)
                 else (Inr p, None, sess\<lparr>v3_sizes := ss\<rparr>, st))
          else if ver = -14 then (Inl SNMPERR_BAD_VERSION, None, sess, count_error STAT_SNMPINASNPARSEERRS st)
          else (Inl SNMPERR_BAD_VERSION, None, sess,
            (if ver < 0 then count_error STAT_SNMPINASNPARSEERRS else id) (count_error STAT_SNMPINBADVERSIONS st)))"

text \<open>The PDU a received message is parsed into.\<close>

definition snmp_create_sess_pdu :: pdu where
  "snmp_create_sess_pdu = \<lparr>version = 0, command = 0, reqid = 0, msgid = 0, transid = 0, sessid = 0, errstat = 0, errindex = 0,
     timestamp = 0, flags = 0, securityModel = 0, securityLevel = 0, msgParseModel = 0, variables = [], community = [],
     enterprise = [], trap_type = 0, specific_type = 0, agent_addr = [0, 0, 0, 0], contextEngineID = [],
     contextName = [], securityEngineID = [], securityName = []\<rparr>"

end
