(* ===== verification/Sessions.thy ===== *)
theory Sessions
  imports Messages "HOL-Library.Signed_Division"
begin

unbundle bit_operations_syntax

text \<open>
  Sessions and their pending requests (\<^verbatim>\<open>snmplib/snmp_api.c\<close>): sending a request, sending it again, giving up, and matching answers
  with requests; and Reports, which answers may be. How a message is built and parsed (\<^verbatim>\<open>hook_build\<close>, \<^verbatim>\<open>hook_parse\<close>), the
  transport, the clock and what they and the callbacks of the application change, are parameters (the record \<open>hooks\<close> and the type \<open>'w\<close>).

  The list of requests is linked by pointers: a request is a pair of its address and its fields, and the list has them
  in the order of \<^verbatim>\<open>next_request\<close>; \<^verbatim>\<open>requestsEnd\<close> is an address. A callback does not change the list.
\<close>

section \<open>Reports\<close>

datatype report_type =
    SNMPERR_UNKNOWN_REPORT | RT_UNKNOWN_SEC_MODEL | RT_INVALID_MSG | SNMPERR_UNSUPPORTED_SEC_LEVEL | SNMPERR_NOT_IN_TIME_WINDOW
  | SNMPERR_UNKNOWN_USER_NAME | SNMPERR_UNKNOWN_ENG_ID | RT_AUTHENTICATION_FAILURE | SNMPERR_DECRYPTION_ERR

definition REPORT_STATS_LEN :: nat where "REPORT_STATS_LEN = 9"
definition snmpMPDStats :: oid where "snmpMPDStats = [1, 3, 6, 1, 6, 3, 11, 2, 1]"
definition usmStats :: oid where "usmStats = [1, 3, 6, 1, 6, 3, 15, 1, 1]"

definition snmpv3_get_report_type :: "pdu \<Rightarrow> report_type" where
  "snmpv3_get_report_type p =
     (case variables p of
        [] \<Rightarrow> SNMPERR_UNKNOWN_REPORT
      | vp # _ \<Rightarrow>
          if length (name vp) = REPORT_STATS_LEN + 2 then
            let num = name vp ! REPORT_STATS_LEN in
            if take REPORT_STATS_LEN (name vp) = snmpMPDStats then
              if num = 1 then RT_UNKNOWN_SEC_MODEL else if num = 2 then RT_INVALID_MSG else SNMPERR_UNKNOWN_REPORT
            else if take REPORT_STATS_LEN (name vp) = usmStats then
              if num = 1 then SNMPERR_UNSUPPORTED_SEC_LEVEL else if num = 2 then SNMPERR_NOT_IN_TIME_WINDOW
              else if num = 3 then SNMPERR_UNKNOWN_USER_NAME else if num = 4 then SNMPERR_UNKNOWN_ENG_ID
              else if num = 5 then RT_AUTHENTICATION_FAILURE else if num = 6 then SNMPERR_DECRYPTION_ERR
              else SNMPERR_UNKNOWN_REPORT
            else SNMPERR_UNKNOWN_REPORT
          else SNMPERR_UNKNOWN_REPORT)"

text \<open>The counter and the last-but-one number of the object that a Report about an error carries.\<close>

definition report_counter :: "usm_error \<Rightarrow> (nat \<times> u32) option" where
  "report_counter e =
     (case e of
        SNMPERR_USM_UNKNOWNENGINEID \<Rightarrow> Some (STAT_USMSTATSUNKNOWNENGINEIDS, 4)
      | SNMPERR_USM_UNKNOWNSECURITYNAME \<Rightarrow> Some (STAT_USMSTATSUNKNOWNUSERNAMES, 3)
      | SNMPERR_USM_UNSUPPORTEDSECURITYLEVEL \<Rightarrow> Some (STAT_USMSTATSUNSUPPORTEDSECLEVELS, 1)
      | SNMPERR_USM_AUTHENTICATIONFAILURE \<Rightarrow> Some (STAT_USMSTATSWRONGDIGESTS, 5)
      | SNMPERR_USM_NOTINTIMEWINDOW \<Rightarrow> Some (STAT_USMSTATSNOTINTIMEWINDOWS, 2)
      | SNMPERR_USM_DECRYPTIONERROR \<Rightarrow> Some (STAT_USMSTATSDECRYPTIONERRORS, 6)
      | _ \<Rightarrow> None)"

definition snmpv3_make_report :: "local_engine \<Rightarrow> (nat \<Rightarrow> u32) \<Rightarrow> pdu \<Rightarrow> usm_error \<Rightarrow> pdu option" where
  "snmpv3_make_report me stats p e =
     (case report_counter e of
        None \<Rightarrow> None
      | Some (stat_ind, num) \<Rightarrow>
          Some (p\<lparr>variables := [\<lparr>name = usmStats @ [num, 0], vtype = ASN_COUNTER, val = IntegerVal (stats stat_ind), val_len = 4\<rparr>],
            securityEngineID := myID me, contextEngineID := myID me, command := SNMP_MSG_REPORT, errstat := 0, errindex := 0,
            contextName := [],
            securityLevel := of_int (if e = SNMPERR_USM_NOTINTIMEWINDOW then SNMP_SEC_LEVEL_AUTHNOPRIV else SNMP_SEC_LEVEL_NOAUTH)\<rparr>))"

section \<open>Time\<close>

text \<open>\<^verbatim>\<open>struct timeval\<close>: seconds and microseconds, both signed.\<close>

record timeval =
  tv_sec :: u32
  tv_usec :: u32

definition timercmp_less :: "timeval \<Rightarrow> timeval \<Rightarrow> bool" where
  "timercmp_less a b \<longleftrightarrow> (if tv_sec a = tv_sec b then sint (tv_usec a) < sint (tv_usec b) else sint (tv_sec a) < sint (tv_sec b))"

definition timerisset :: "timeval \<Rightarrow> bool" where
  "timerisset t \<longleftrightarrow> tv_sec t \<noteq> 0 \<or> tv_usec t \<noteq> 0"

text \<open>The time \<^verbatim>\<open>timeout\<close> microseconds after \<^verbatim>\<open>tv\<close>.\<close>

definition expiry :: "timeval \<Rightarrow> u32 \<Rightarrow> timeval" where
  "expiry tv timeout =
     (let usec = tv_usec tv + timeout
      in \<lparr>tv_sec = tv_sec tv + of_int (sint usec sdiv 1000000), tv_usec = of_int (sint usec smod 1000000)\<rparr>)"

section \<open>The state\<close>

datatype callback_op = NETSNMP_CALLBACK_OP_RECEIVED_MESSAGE | NETSNMP_CALLBACK_OP_TIMED_OUT | NETSNMP_CALLBACK_OP_DISCONNECT

text \<open>The error of a session as far as this layer looks at it.\<close>

datatype session_error =
    NoError | BadVersion | MessageError snmp_errno | TooLong | BadSendto | MallocError | GenErr | ReportError report_type | ProtocolError
  | TimeoutError | AbortError

text \<open>
  A callback gets the operation, the request ID and the PDU; it returns its result and may change the error of the session and the world.
\<close>

type_synonym 'w callback = "callback_op \<Rightarrow> u32 \<Rightarrow> pdu \<Rightarrow> session_error \<times> 'w \<Rightarrow> int \<times> session_error \<times> 'w"

record 'w request =
  request_id :: u32
  message_id :: u32
  callback :: "'w callback option"
  retries :: int
  timeout :: u32
  rq_time :: timeval
  expire :: timeval
  rq_pdu :: pdu

record 'w session_list =
  sess :: snmp_session
  s_retries :: int
  s_timeout :: u32
  s_callback :: "'w callback option"
  s_snmp_errno :: session_error
  requests :: "(nat \<times> 'w request) list"
  requestsEnd :: "nat option"
  tr_msgMaxSize :: u32
  env :: 'w

record 'w hooks =
  malloc :: "nat \<Rightarrow> bool"
  hook_build :: "snmp_session \<Rightarrow> pdu \<Rightarrow> 'w \<Rightarrow> (snmp_errno + u8 list \<times> pdu) \<times> 'w"
  hook_parse :: "snmp_session \<Rightarrow> u8 list \<Rightarrow> 'w \<Rightarrow> (snmp_errno + pdu) \<times> snmp_session \<times> 'w"
  f_send :: "u8 list \<Rightarrow> 'w \<Rightarrow> int \<times> 'w"
  gettimeofday :: "'w \<Rightarrow> timeval"
  get_next_msgid :: "'w \<Rightarrow> u32 \<times> 'w"

definition call_back :: "'w callback option \<Rightarrow> callback_op \<Rightarrow> u32 \<Rightarrow> pdu \<Rightarrow> 'w session_list \<Rightarrow> int \<times> 'w session_list" where
  "call_back cb op rid p s =
     (case cb of
        None \<Rightarrow> (1, s)
      | Some f \<Rightarrow> (case f op rid p (s_snmp_errno s, env s) of (r, e, w) \<Rightarrow> (r, s\<lparr>s_snmp_errno := e, env := w\<rparr>)))"

definition callback_of :: "'w request \<Rightarrow> 'w session_list \<Rightarrow> 'w callback option" where
  "callback_of rp s = (if callback rp \<noteq> None then callback rp else s_callback s)"

section \<open>The queue\<close>

fun insert_after :: "nat \<Rightarrow> nat \<times> 'r \<Rightarrow> (nat \<times> 'r) list \<Rightarrow> (nat \<times> 'r) list" where
  "insert_after a x [] = []"
| "insert_after a x ((b, r) # rs) = (if b = a then (b, r) # x # rs else (b, r) # insert_after a x rs)"

definition link_request :: "nat \<Rightarrow> 'w request \<Rightarrow> 'w session_list \<Rightarrow> 'w session_list" where
  "link_request a rp s =
     (case requestsEnd s of
        Some e \<Rightarrow> s\<lparr>requests := insert_after e (a, rp) (requests s), requestsEnd := Some a\<rparr>
      | None \<Rightarrow> s\<lparr>requests := (a, rp) # requests s, requestsEnd := Some a\<rparr>)"

text \<open>Taking a request out of the list; \<^verbatim>\<open>orp\<close> is the request before it.\<close>

definition unlink_request :: "nat option \<Rightarrow> nat \<Rightarrow> 'w session_list \<Rightarrow> 'w session_list" where
  "unlink_request orp a s =
     s\<lparr>requests := filter (\<lambda>(b, _). b \<noteq> a) (requests s),
       requestsEnd := (if requestsEnd s = Some a
         then if requests s \<noteq> [] \<and> fst (hd (requests s)) = a then None else orp
         else requestsEnd s)\<rparr>"

definition set_request :: "nat \<Rightarrow> 'w request \<Rightarrow> 'w session_list \<Rightarrow> 'w session_list" where
  "set_request a rp s = s\<lparr>requests := map (\<lambda>(b, r). if b = a then (b, rp) else (b, r)) (requests s)\<rparr>"

section \<open>Sending\<close>

definition UCD_MSG_FLAG_PDU_TIMEOUT :: u32 where "UCD_MSG_FLAG_PDU_TIMEOUT = 0x1000"
definition AGENTX_MSG_CLEANUPSET :: u32 where "AGENTX_MSG_CLEANUPSET = 11"
definition AGENTX_MSG_RESPONSE :: u32 where "AGENTX_MSG_RESPONSE = 18"

definition pdu_version :: "u32 \<Rightarrow> pdu \<Rightarrow> pdu option" where
  "pdu_version sv p =
     (if version p = SNMP_DEFAULT_VERSION then
        if sv = SNMP_DEFAULT_VERSION then None else Some (p\<lparr>version := sv\<rparr>)
      else if sv = SNMP_DEFAULT_VERSION then Some p
      else if version p \<noteq> sv then None else Some p)"

definition no_response :: "u32 \<Rightarrow> bool" where
  "no_response c \<longleftrightarrow> c = SNMP_MSG_RESPONSE \<or> c = SNMP_MSG_TRAP \<or> c = SNMP_MSG_TRAP2 \<or> c = SNMP_MSG_REPORT \<or>
     c = AGENTX_MSG_CLEANUPSET \<or> c = AGENTX_MSG_RESPONSE"

definition expect_response :: "pdu \<Rightarrow> pdu" where
  "expect_response p =
     p\<lparr>flags := (if no_response (command p) then flags p AND NOT UCD_MSG_FLAG_EXPECT_RESPONSE
       else flags p OR UCD_MSG_FLAG_EXPECT_RESPONSE)\<rparr>"

text \<open>The entry for a request that has been sent at the time \<open>tv\<close>.\<close>

definition new_request :: "pdu \<Rightarrow> 'w callback option \<Rightarrow> timeval \<Rightarrow> u32 \<Rightarrow> 'w request" where
  "new_request p cb tv session_timeout =
     (let t = (if flags p AND UCD_MSG_FLAG_PDU_TIMEOUT \<noteq> 0 then timestamp p * 1000000 else session_timeout)
      in \<lparr>request_id = reqid p, message_id = msgid p, callback = cb, retries = 0, timeout = t, rq_time = tv, expire = expiry tv t,
          rq_pdu = p\<rparr>)"

text \<open>
  The part of \<^verbatim>\<open>_sess_async_send\<close> from the allocation of the packet on, for a PDU that has its version and flags; \<open>room\<close> is the address
  \<^verbatim>\<open>calloc\<close> returns for the request.
\<close>

definition send_message :: "'w hooks \<Rightarrow> nat option \<Rightarrow> pdu \<Rightarrow> 'w callback option \<Rightarrow> 'w session_list \<Rightarrow> u32 \<times> 'w session_list" where
  "send_message h room p cb s =
     (if \<not> malloc h 2048 then (0, s\<lparr>s_snmp_errno := MallocError\<rparr>)
      else case hook_build h (sess s) p (env s) of
        (Inl e, w) \<Rightarrow> (0, s\<lparr>s_snmp_errno := MessageError e, env := w\<rparr>)
      | (Inr (packet, p), w) \<Rightarrow>
          let s = s\<lparr>env := w\<rparr>; len = (of_nat (length packet) :: u32); mx = sndMsgMaxSize (v3_sizes (sess s))
          in if mx \<noteq> 0 \<and> len > mx then (0, s\<lparr>s_snmp_errno := TooLong\<rparr>)
          else if tr_msgMaxSize s \<noteq> 0 \<and> len > tr_msgMaxSize s then (0, s\<lparr>s_snmp_errno := TooLong\<rparr>)
          else case f_send h packet w of (result, w) \<Rightarrow>
            let s = s\<lparr>env := w\<rparr>
            in if result < 0 then (0, s\<lparr>s_snmp_errno := BadSendto\<rparr>)
            else if flags p AND UCD_MSG_FLAG_EXPECT_RESPONSE \<noteq> 0 then
              (case room of
                 None \<Rightarrow> (0, s\<lparr>s_snmp_errno := GenErr\<rparr>)
               | Some a \<Rightarrow> (reqid p, link_request a (new_request p cb (gettimeofday h w) (s_timeout s)) s))
            else (reqid p, s))"

text \<open>
  \<^verbatim>\<open>_sess_async_send\<close>, for a session that need not ask for the engine ID of its peer first: one with another version than 3, or that has
  the engine ID and its user.
\<close>

definition sess_async_send :: "'w hooks \<Rightarrow> nat option \<Rightarrow> pdu \<Rightarrow> 'w callback option \<Rightarrow> 'w session_list \<Rightarrow> u32 \<times> 'w session_list" where
  "sess_async_send h room p cb s =
     (let s = s\<lparr>s_snmp_errno := NoError\<rparr> in
      case pdu_version (s_version (sess s)) p of
        None \<Rightarrow> (0, s\<lparr>s_snmp_errno := BadVersion\<rparr>)
      | Some p \<Rightarrow> send_message h room (expect_response p) cb s)"

section \<open>Sending again and giving up\<close>

definition snmp_resend_request :: "'w hooks \<Rightarrow> nat \<Rightarrow> 'w request \<Rightarrow> bool \<Rightarrow> 'w session_list \<Rightarrow> int \<times> 'w session_list" where
  "snmp_resend_request h a rp incr_retries s =
     (if \<not> malloc h 2048 then (0, s)
      else case get_next_msgid h (env s) of (mid, w) \<Rightarrow>
        let rp = rp\<lparr>retries := (if incr_retries then retries rp + 1 else retries rp), message_id := mid,
              rq_pdu := (rq_pdu rp)\<lparr>msgid := mid\<rparr>\<rparr>
        in case hook_build h (sess s) (rq_pdu rp) w of
          (Inl e, w) \<Rightarrow> (-1, set_request a rp (s\<lparr>s_snmp_errno := MessageError e, env := w\<rparr>))
        | (Inr (packet, p), w) \<Rightarrow>
            let rp = rp\<lparr>rq_pdu := p\<rparr>
            in case f_send h packet w of (result, w) \<Rightarrow>
              if result < 0 then (-1, set_request a rp (s\<lparr>s_snmp_errno := BadSendto, env := w\<rparr>))
              else let tv = gettimeofday h w
                in (0, set_request a (rp\<lparr>rq_time := tv, expire := expiry tv (timeout rp)\<rparr>) (s\<lparr>env := w\<rparr>)))"

text \<open>The loop of \<^verbatim>\<open>snmp_sess_timeout\<close> over the addresses that are left; the user-based model does not ask to be told.\<close>

fun timeout_loop :: "'w hooks \<Rightarrow> timeval \<Rightarrow> nat option \<Rightarrow> nat list \<Rightarrow> 'w session_list \<Rightarrow> 'w session_list" where
  "timeout_loop h now orp [] s = s"
| "timeout_loop h now orp (a # as) s =
     (case map_of (requests s) a of
        None \<Rightarrow> s
      | Some rp \<Rightarrow>
          if timercmp_less (expire rp) now then
            if retries rp \<ge> s_retries s then
              (case call_back (callback_of rp s) NETSNMP_CALLBACK_OP_TIMED_OUT (reqid (rq_pdu rp)) (rq_pdu rp) s of
                 (_, s) \<Rightarrow> timeout_loop h now orp as (unlink_request orp a s))
            else (case snmp_resend_request h a rp True s of
                (result, s) \<Rightarrow> if result \<noteq> 0 then s else timeout_loop h now (Some a) as s)
          else timeout_loop h now (Some a) as s)"

definition snmp_sess_timeout :: "'w hooks \<Rightarrow> 'w session_list \<Rightarrow> 'w session_list" where
  "snmp_sess_timeout h s = timeout_loop h (gettimeofday h (env s)) None (map fst (requests s)) s"

section \<open>Answers\<close>

text \<open>Engine ID discovery: the session takes the engine ID of a Report when it has none (memory for it is assumed to be there).\<close>

definition discover_engine :: "pdu \<Rightarrow> snmp_session \<Rightarrow> snmp_session" where
  "discover_engine p ss =
     (if s_securityEngineID ss = [] \<and> securityEngineID p \<noteq> [] then
        ss\<lparr>s_securityEngineID := securityEngineID p,
           s_contextEngineID := (if s_contextEngineID ss = [] then securityEngineID p else s_contextEngineID ss)\<rparr>
      else ss)"

text \<open>The loop over the pending requests for a response; the result says whether the response was handled.\<close>

fun match_loop_rq :: "'w hooks \<Rightarrow> pdu \<Rightarrow> nat option \<Rightarrow> nat list \<Rightarrow> bool \<Rightarrow> 'w session_list \<Rightarrow> bool \<times> 'w session_list" where
  "match_loop_rq h p orp [] handled s = (handled, s)"
| "match_loop_rq h p orp (a # as) handled s =
     (case map_of (requests s) a of
        None \<Rightarrow> (handled, s)
      | Some rp \<Rightarrow>
          if version p = SNMP_VERSION_3 \<and> message_id rp \<noteq> msgid p then match_loop_rq h p (Some a) as handled s
          else if version p = SNMP_VERSION_3 \<and> snmpv3_verify_msg (Some (request_id rp, rq_pdu rp)) p = 0 then (handled, s)
          else if version p \<noteq> SNMP_VERSION_3 \<and> request_id rp \<noteq> reqid p then match_loop_rq h p (Some a) as handled s
          else case call_back (callback_of rp s) NETSNMP_CALLBACK_OP_RECEIVED_MESSAGE (reqid p) p s of
            (r, s) \<Rightarrow>
              if r = 1 then
                if command p = SNMP_MSG_REPORT then
                  if (s_snmp_errno s = ReportError SNMPERR_NOT_IN_TIME_WINDOW \<or> snmpv3_get_report_type p = SNMPERR_NOT_IN_TIME_WINDOW) \<and>
                    retries rp \<le> s_retries s
                  then (True, snd (snmp_resend_request h a rp True s))
                  else (True, unlink_request orp a (s\<lparr>sess := discover_engine p (sess s)\<rparr>))
                else (True, unlink_request orp a s)
              else match_loop_rq h p (Some a) as True s)"

text \<open>
  \<^verbatim>\<open>_sess_process_packet\<close>: the return value, whether the PDU was handled, and the state. There is no hook before or after the parser.
\<close>

definition sess_process_packet :: "'w hooks \<Rightarrow> u8 list \<Rightarrow> 'w session_list \<Rightarrow> int \<times> bool \<times> 'w session_list" where
  "sess_process_packet h packet s =
     (case hook_parse h (sess s) packet (env s) of
        (Inl e, ss, w) \<Rightarrow> (-1, False, s\<lparr>sess := ss, env := w, s_snmp_errno := MessageError e\<rparr>)
      | (Inr p, ss, w) \<Rightarrow>
          let s = s\<lparr>sess := ss, env := w, s_snmp_errno := NoError\<rparr> in
          if flags p AND UCD_MSG_FLAG_RESPONSE_PDU \<noteq> 0
          then (case match_loop_rq h p None (map fst (requests s)) False s of (handled, s) \<Rightarrow> (0, handled, s))
          else (case s_callback s of
              None \<Rightarrow> (0, False, s)
            | Some f \<Rightarrow> (0, True, snd (call_back (Some f) NETSNMP_CALLBACK_OP_RECEIVED_MESSAGE (reqid p) p s))))"

section \<open>How long to wait\<close>

text \<open>The part of \<^verbatim>\<open>snmp_sess_select_info2\<close> that computes the time for one session, without alarms; \<open>None\<close> is to wait without limit.\<close>

fun earliest :: "timeval \<Rightarrow> (nat \<times> 'w request) list \<Rightarrow> timeval" where
  "earliest e [] = e"
| "earliest e ((_, rp) # rps) = earliest (if \<not> timerisset e \<or> timercmp_less (expire rp) e then expire rp else e) rps"

definition time_left :: "timeval \<Rightarrow> timeval \<Rightarrow> timeval" where
  "time_left e now =
     (if sint (tv_sec e) < sint (tv_sec now) then \<lparr>tv_sec = 0, tv_usec = 0\<rparr>
      else if tv_sec e = tv_sec now then
        \<lparr>tv_sec = 0, tv_usec = (if sint (tv_usec e - tv_usec now) < 0 then 100 else tv_usec e - tv_usec now)\<rparr>
      else if sint (tv_usec e - tv_usec now) < 0
        then \<lparr>tv_sec = tv_sec e - tv_sec now - 1, tv_usec = 1000000 + (tv_usec e - tv_usec now)\<rparr>
        else \<lparr>tv_sec = tv_sec e - tv_sec now, tv_usec = tv_usec e - tv_usec now\<rparr>)"

definition select_time :: "'w hooks \<Rightarrow> 'w session_list \<Rightarrow> timeval option" where
  "select_time h s =
     (if requests s = [] then None
      else Some (time_left (earliest \<lparr>tv_sec = 0, tv_usec = 0\<rparr> (requests s)) (gettimeofday h (env s))))"

end
