(* ===== verification/Session_Queue.thy ===== *)
theory Session_Queue
  imports Sessions
begin

unbundle bit_operations_syntax

text \<open>
  The queue of pending requests: its pointers stay consistent whatever is sent, received and timed out, a request is sent again a bounded
  number of times, and a response goes to the request it answers.
\<close>

section \<open>The invariant\<close>

definition queue_end :: "(nat \<times> 'r) list \<Rightarrow> nat option" where
  "queue_end rs = (if rs = [] then None else Some (fst (last rs)))"

definition request_ok :: "int \<Rightarrow> 'w request \<Rightarrow> bool" where
  "request_ok n rp \<longleftrightarrow> 0 \<le> retries rp \<and> retries rp \<le> n + 1 \<and> message_id rp = msgid (rq_pdu rp)"

definition sess_ok :: "'w session_list \<Rightarrow> bool" where
  "sess_ok s \<longleftrightarrow> 0 \<le> s_retries s \<and> distinct (map fst (requests s)) \<and> requestsEnd s = queue_end (requests s) \<and>
     (\<forall>(a, rp)\<in>set (requests s). request_ok (s_retries s) rp)"

text \<open>The walk along the list: \<open>orp\<close> is the address before the addresses that are left.\<close>

definition at_position :: "nat option \<Rightarrow> nat list \<Rightarrow> 'w session_list \<Rightarrow> bool" where
  "at_position orp as s \<longleftrightarrow> (\<exists>pre. map fst (requests s) = pre @ as \<and> orp = (if pre = [] then None else Some (last pre)))"

lemma at_position_start [simp]: "at_position None (map fst (requests s)) s"
  by (auto simp: at_position_def)

lemma at_position_next: "at_position orp (a # as) s \<Longrightarrow> map fst (requests s') = map fst (requests s) \<Longrightarrow> at_position (Some a) as s'"
  unfolding at_position_def by (metis append.assoc append_Cons append_Nil last_snoc snoc_eq_iff_butlast)

lemma at_position_entry:
  assumes "at_position orp (a # as) s"
  shows "\<exists>rp. map_of (requests s) a = Some rp"
proof -
  have "a \<in> set (map fst (requests s))" using assms by (auto simp: at_position_def simp del: set_map)
  then show ?thesis using map_of_eq_None_iff[of "requests s" a] by auto
qed

lemma insert_after_last:
  "distinct (map fst rs) \<Longrightarrow> rs \<noteq> [] \<Longrightarrow> insert_after (fst (last rs)) x rs = rs @ [x]"
proof (induction rs)
  case (Cons y rs)
  obtain a r where y: "y = (a, r)" by (cases y)
  show ?case
  proof (cases "rs = []")
    case False
    then have "fst (last rs) \<in> fst ` set rs" by simp
    then have "a \<noteq> fst (last rs)" using Cons.prems(1) by (auto simp: y)
    then show ?thesis using Cons.IH Cons.prems(1) False by (simp add: y)
  qed (simp add: y)
qed simp

lemma link_request_ok:
  assumes "sess_ok s" "a \<notin> fst ` set (requests s)" "request_ok (s_retries s) rp"
  shows "sess_ok (link_request a rp s) \<and> requests (link_request a rp s) = requests s @ [(a, rp)]"
proof (cases "requests s = []")
  case True
  then show ?thesis using assms by (auto simp: sess_ok_def link_request_def queue_end_def)
next
  case False
  then show ?thesis
    using assms insert_after_last[of "requests s" "(a, rp)"] by (auto simp: sess_ok_def link_request_def queue_end_def)
qed

lemma unlink_keys:
  "distinct (map fst rs) \<Longrightarrow> map fst rs = pre @ a # as \<Longrightarrow> map fst (filter (\<lambda>(b, _). b \<noteq> a) rs) = pre @ as"
proof -
  assume d: "distinct (map fst rs)" and e: "map fst rs = pre @ a # as"
  have "map fst (filter (\<lambda>(b, _). b \<noteq> a) rs) = filter (\<lambda>b. b \<noteq> a) (map fst rs)"
    by (induction rs) auto
  also have "\<dots> = pre @ as"
  proof -
    have "filter (\<lambda>b. b \<noteq> a) pre = pre" "filter (\<lambda>b. b \<noteq> a) as = as" using d by (auto simp: e intro!: filter_True)
    then show ?thesis by (simp add: e)
  qed
  finally show ?thesis .
qed

lemma last_key: "rs \<noteq> [] \<Longrightarrow> fst (last rs) = last (map fst rs)"
  by (simp add: last_map)

lemma queue_end_keys: "queue_end rs = (if map fst rs = [] then None else Some (last (map fst rs)))"
  by (simp add: queue_end_def last_key)

lemma unlink_request_ok:
  assumes ok: "sess_ok s" and at: "at_position orp (a # as) s"
  shows "sess_ok (unlink_request orp a s) \<and> at_position orp as (unlink_request orp a s)"
proof -
  obtain pre where e: "map fst (requests s) = pre @ a # as" "orp = (if pre = [] then None else Some (last pre))"
    using at by (auto simp: at_position_def)
  have d: "distinct (map fst (requests s))" using ok by (simp add: sess_ok_def)
  note k = unlink_keys[OF d e(1)]
  have ne: "requests s \<noteq> []" using e(1) by auto
  have h: "fst (hd (requests s)) = a \<longleftrightarrow> pre = []"
    using d e(1) ne by (cases pre; cases "requests s") auto
  have "requestsEnd s = Some (last (a # as))" using ok e(1) by (simp add: sess_ok_def queue_end_keys)
  moreover have "as \<noteq> [] \<Longrightarrow> last as \<noteq> a" using d e(1) last_in_set[of as] by auto
  ultimately have "requestsEnd (unlink_request orp a s) = queue_end (requests (unlink_request orp a s))"
    using e h ne by (cases "as = []") (auto simp: unlink_request_def queue_end_keys k)
  then show ?thesis
    using ok k d e by (auto simp: sess_ok_def unlink_request_def at_position_def)
qed

lemma set_request_keys [simp]: "map fst (requests (set_request a rp s)) = map fst (requests s)"
  by (auto simp: set_request_def)

lemma set_request_fields [simp]:
  "s_retries (set_request a rp s) = s_retries s" "requestsEnd (set_request a rp s) = requestsEnd s"
  by (simp_all add: set_request_def)

lemma set_request_entry: "(b, r) \<in> set (requests (set_request a rp s)) \<Longrightarrow> r = rp \<or> (b, r) \<in> set (requests s)"
  by (auto simp: set_request_def split: if_splits)

lemma set_request_ok:
  assumes "sess_ok s" "request_ok (s_retries s) rp"
  shows "sess_ok (set_request a rp s)"
  unfolding sess_ok_def queue_end_keys set_request_keys set_request_fields
  using assms by (auto simp: sess_ok_def queue_end_keys dest: set_request_entry)

lemma call_back_fields:
  assumes "call_back cb op rid p s = (r, s')"
  shows "requests s' = requests s \<and> requestsEnd s' = requestsEnd s \<and> s_retries s' = s_retries s \<and> sess s' = sess s \<and>
    s_timeout s' = s_timeout s \<and> s_callback s' = s_callback s"
  using assms by (auto simp: call_back_def split: option.splits prod.splits)

lemma sess_ok_cong:
  "requests s' = requests s \<Longrightarrow> requestsEnd s' = requestsEnd s \<Longrightarrow> s_retries s' = s_retries s \<Longrightarrow> sess_ok s' = sess_ok s"
  by (simp add: sess_ok_def)

lemma at_position_cong: "requests s' = requests s \<Longrightarrow> at_position orp as s' = at_position orp as s"
  by (simp add: at_position_def)

lemma call_back_keeps:
  assumes "call_back cb op rid p s = (r, s')"
  shows "sess_ok s' = sess_ok s" "at_position orp as s' = at_position orp as s"
  using call_back_fields[OF assms] sess_ok_cong[of s' s] at_position_cong[of s' s] by auto

section \<open>What a message layer promises\<close>

text \<open>Building a message fills in a PDU, but it does not change its message ID.\<close>

locale message_layer =
  fixes h :: "'w hooks"
  assumes build_msgid: "hook_build h ss p w = (Inr (packet, p'), w') \<Longrightarrow> msgid p' = msgid p"
begin

lemma resend_ok:
  assumes ok: "sess_ok s" and rp: "(a, rp) \<in> set (requests s)" "retries rp \<le> s_retries s"
    and r: "snmp_resend_request h a rp True s = (result, s')"
  shows "sess_ok s' \<and> map fst (requests s') = map fst (requests s) \<and> s_retries s' = s_retries s"
proof -
  have b: "0 \<le> retries rp" "request_ok (s_retries s) rp" using ok rp(1) by (auto simp: sess_ok_def request_ok_def)
  have k: "sess_ok (set_request a x (s\<lparr>s_snmp_errno := e, env := w\<rparr>))" "sess_ok (set_request a x (s\<lparr>env := w\<rparr>))"
    if "request_ok (s_retries s) x" for x e w
    using that ok by (auto intro!: set_request_ok simp: sess_ok_cong[of "s\<lparr>s_snmp_errno := e, env := w\<rparr>" s] sess_ok_cong[of "s\<lparr>env := w\<rparr>" s])
  have f: "s_retries (set_request a x s1) = s_retries s1" for x and s1 :: "'w session_list" by (simp add: set_request_def)
  show ?thesis
    using r ok b(1) rp(2)
    by (auto simp: snmp_resend_request_def Let_def request_ok_def f split: if_splits prod.splits sum.splits dest: build_msgid intro!: k)
qed

lemma timeout_loop_ok:
  "sess_ok s \<Longrightarrow> at_position orp as s \<Longrightarrow> sess_ok (timeout_loop h now orp as s) \<and> s_retries (timeout_loop h now orp as s) = s_retries s"
proof (induction as arbitrary: orp s)
  case (Cons a as)
  obtain rp where rp: "map_of (requests s) a = Some rp" using at_position_entry[OF Cons.prems(2)] by blast
  have m: "(a, rp) \<in> set (requests s)" by (rule map_of_SomeD[OF rp])
  show ?case
  proof (cases "timercmp_less (expire rp) now")
    case True
    show ?thesis
    proof (cases "retries rp \<ge> s_retries s")
      case give_up: True
      obtain r s1 where c: "call_back (callback_of rp s) NETSNMP_CALLBACK_OP_TIMED_OUT (reqid (rq_pdu rp)) (rq_pdu rp) s = (r, s1)" by force
      have "sess_ok s1" "at_position orp (a # as) s1" using call_back_keeps[OF c] Cons.prems by auto
      from unlink_request_ok[OF this] Cons.IH[of "unlink_request orp a s1" orp] show ?thesis
        using call_back_fields[OF c] by (simp add: rp True give_up c unlink_request_def)
    next
      case False
      obtain r s1 where c: "snmp_resend_request h a rp True s = (r, s1)" by force
      note k = resend_ok[OF Cons.prems(1) m _ c]
      have "sess_ok s1" "at_position (Some a) as s1" using k at_position_next[OF Cons.prems(2), of s1] False by auto
      then show ?thesis using Cons.IH[of s1 "Some a"] k False by (simp add: rp True c)
    qed
  next
    case False
    then show ?thesis using Cons.IH[of s "Some a"] Cons.prems at_position_next[OF Cons.prems(2), of s] by (simp add: rp)
  qed
qed simp

lemma match_loop_ok:
  "sess_ok s \<Longrightarrow> at_position orp as s \<Longrightarrow> sess_ok (snd (match_loop_rq h p orp as hnd s))"
proof (induction as arbitrary: orp s hnd)
  case (Cons a as)
  obtain rp where rp: "map_of (requests s) a = Some rp" using at_position_entry[OF Cons.prems(2)] by blast
  have m: "(a, rp) \<in> set (requests s)" by (rule map_of_SomeD[OF rp])
  obtain r s1 where c: "call_back (callback_of rp s) NETSNMP_CALLBACK_OP_RECEIVED_MESSAGE (reqid p) p s = (r, s1)" by force
  have s1: "sess_ok s1" "at_position orp (a # as) s1" using call_back_keeps[OF c] Cons.prems by auto
  have n: "at_position (Some a) as s" "at_position (Some a) as s1"
    using at_position_next Cons.prems(2) s1(2) by blast+
  have u: "sess_ok (unlink_request orp a s1)" "sess_ok (unlink_request orp a (s1\<lparr>sess := x\<rparr>))" for x
    using unlink_request_ok[OF s1] unlink_request_ok[of "s1\<lparr>sess := x\<rparr>" orp a as] s1
    by (auto simp: sess_ok_cong[of "s1\<lparr>sess := x\<rparr>" s1] at_position_cong[of "s1\<lparr>sess := x\<rparr>" s1])
  have rs: "sess_ok (snd (snmp_resend_request h a rp True s1))" if "retries rp \<le> s_retries s1"
    using resend_ok[OF s1(1) _ that, of a] m call_back_fields[OF c] by (metis prod.collapse)
  show ?case
    using Cons.IH[OF Cons.prems(1) n(1)] Cons.IH[OF s1(1) n(2)] u rs Cons.prems(1) by (simp add: rp c)
qed simp

lemma send_ok:
  assumes ok: "sess_ok s" and fresh: "case room of None \<Rightarrow> True | Some a \<Rightarrow> a \<notin> fst ` set (requests s)"
  shows "sess_ok (snd (sess_async_send h room p cb s))"
proof -
  have k: "sess_ok (s\<lparr>s_snmp_errno := e\<rparr>)" "sess_ok (s\<lparr>env := w\<rparr>)" "sess_ok (s\<lparr>s_snmp_errno := e, env := w\<rparr>)"
      "sess_ok (s\<lparr>env := w, s_snmp_errno := e\<rparr>)" "sess_ok (s\<lparr>s_snmp_errno := e, env := w, s_snmp_errno := e'\<rparr>)" for e e' w
    using ok by (simp_all add: sess_ok_def)
  have l: "sess_ok (link_request a (new_request q cb tv t) (s\<lparr>s_snmp_errno := e, env := w\<rparr>))" if "room = Some a" for a q tv t e w
    using link_request_ok[of "s\<lparr>s_snmp_errno := e, env := w\<rparr>" a "new_request q cb tv t"] k(3)[where e = e and w = w] that fresh ok
    by (simp add: new_request_def request_ok_def sess_ok_def Let_def)
  show ?thesis
    by (auto simp: sess_async_send_def send_message_def Let_def k l split: option.splits prod.splits sum.splits)
qed

lemma timeout_ok: "sess_ok s \<Longrightarrow> sess_ok (snmp_sess_timeout h s)"
  using timeout_loop_ok[of s None "map fst (requests s)"] by (simp add: snmp_sess_timeout_def)

lemma packet_ok: "sess_ok s \<Longrightarrow> sess_ok (snd (snd (sess_process_packet h m s)))"
proof -
  assume ok: "sess_ok s"
  have k: "sess_ok (s\<lparr>sess := x, env := w, s_snmp_errno := e\<rparr>)" for x w e using ok by (simp add: sess_ok_def)
  have l: "sess_ok (snd (match_loop_rq h p None (map fst (requests s)) False (s\<lparr>sess := x, env := w, s_snmp_errno := e\<rparr>)))" for p x w e
    using match_loop_ok[OF k, of None "map fst (requests s)"] at_position_start[of "s\<lparr>sess := x, env := w, s_snmp_errno := e\<rparr>"] by simp
  have c: "sess_ok (snd (call_back cb op rid p (s\<lparr>sess := x, env := w, s_snmp_errno := e\<rparr>)))" for cb op rid p x w e
    using call_back_keeps(1)[of cb op rid p "s\<lparr>sess := x, env := w, s_snmp_errno := e\<rparr>"] k by (metis prod.collapse)
  show ?thesis
    using l c k by (auto simp: sess_process_packet_def Let_def split: prod.splits sum.splits option.splits)
qed

end

end
