(* ===== verification/Keytools.thy ===== *)
theory Keytools
  imports Scapi
begin

unbundle bit_operations_syntax

text \<open>
  The keys of the user-based security model (\<^verbatim>\<open>snmplib/keytools.c\<close>, in the configuration that uses OpenSSL): the key of
  a passphrase, its localisation at an engine, and the KeyChange strings that carry a new key under the old one. The buffer a function
  writes to is a list of bytes with the length the caller states beside it; the bytes OpenSSL draws and whether
  \<^verbatim>\<open>malloc\<close> succeeds are parameters. The result is the return value with the buffer and the length as they are left;
  it is \<open>None\<close> when the code accesses memory outside its buffers.
\<close>

definition USM_LENGTH_EXPANDED_PASSPHRASE :: nat where "USM_LENGTH_EXPANDED_PASSPHRASE = 1024 * 1024"
definition USM_LENGTH_KU_HASHBLOCK :: nat where "USM_LENGTH_KU_HASHBLOCK = 64"
definition USM_LENGTH_P_MIN :: nat where "USM_LENGTH_P_MIN = 8"
definition SNMPERR_SUCCESS_K :: int where "SNMPERR_SUCCESS_K = 0"
definition SNMPERR_GENERR_K :: int where "SNMPERR_GENERR_K = -1"

type_synonym key_result = "(int \<times> u8 list \<times> nat) option"

text \<open>\<^verbatim>\<open>memcpy(buf + pos, bs, ...)\<close>.\<close>

definition write_at :: "u8 list \<Rightarrow> nat \<Rightarrow> u8 list \<Rightarrow> u8 list option" where
  "write_at buf pos bs =
     (if pos + length bs \<le> length buf then Some (take pos buf @ bs @ drop (pos + length bs) buf) else None)"

section \<open>Keys of passphrases\<close>

text \<open>One block of the repeated passphrase, from the running index \<^verbatim>\<open>pindex\<close>.\<close>

primrec ku_block :: "u8 list \<Rightarrow> nat \<Rightarrow> nat \<Rightarrow> u8 list" where
  "ku_block P pindex 0 = []"
| "ku_block P pindex (Suc n) = P ! (pindex mod length P) # ku_block P (pindex + 1) n"

text \<open>The loop over \<^verbatim>\<open>nbytes\<close>; the state of the digest is what \<^verbatim>\<open>EVP_DigestUpdate\<close> has been given.\<close>

function ku_update :: "u8 list \<Rightarrow> nat \<Rightarrow> int \<Rightarrow> u8 list \<Rightarrow> u8 list" where
  "ku_update P pindex nbytes ctx =
     (if nbytes > 0
      then ku_update P (pindex + USM_LENGTH_KU_HASHBLOCK) (nbytes - int USM_LENGTH_KU_HASHBLOCK)
             (ctx @ ku_block P pindex USM_LENGTH_KU_HASHBLOCK)
      else ctx)"
  by auto
termination
  by (relation "measure (\<lambda>(P, pindex, nbytes, ctx). nat nbytes)") (auto simp: USM_LENGTH_KU_HASHBLOCK_def)

declare ku_update.simps [simp del]

definition generate_Ku :: "openssl \<Rightarrow> (nat \<Rightarrow> bool) \<Rightarrow> oid \<Rightarrow> u8 list \<Rightarrow> u8 list \<Rightarrow> nat \<Rightarrow> key_result" where
  "generate_Ku ssl alloc hashtype P Ku kulen =
     (if kulen = 0 \<or> length hashtype \<noteq> USM_LENGTH_OID_TRANSFORM then Some (SNMPERR_GENERR_K, Ku, kulen)
      else if length P < USM_LENGTH_P_MIN then Some (SNMPERR_GENERR_K, Ku, kulen)
      else if \<not> ISTRANSFORM hashtype usmHMACMD5AuthProtocol \<and> \<not> ISTRANSFORM hashtype usmHMACSHA1AuthProtocol
        then Some (SNMPERR_GENERR_K, Ku, kulen)
      else if \<not> alloc 0 then None
      else let md = (if ISTRANSFORM hashtype usmHMACMD5AuthProtocol then EVP_md5 else EVP_sha1);
               digest = EVP_Digest ssl md (ku_update P 0 (int USM_LENGTH_EXPANDED_PASSPHRASE) [])
           in map_option (\<lambda>Ku'. (SNMPERR_SUCCESS_K, Ku', length digest)) (write_at Ku 0 digest))"

section \<open>Localised keys\<close>

text \<open>The concatenation is made in a buffer of \<^verbatim>\<open>SNMP_MAXBUF\<close> bytes, whose size is not checked.\<close>

definition generate_kul :: "openssl \<Rightarrow> oid \<Rightarrow> u8 list \<Rightarrow> u8 list \<Rightarrow> u8 list \<Rightarrow> nat \<Rightarrow> key_result" where
  "generate_kul ssl hashtype engineID Ku Kul kul_len =
     (if engineID = [] \<or> Ku = [] \<or> kul_len = 0 \<or> length hashtype \<noteq> USM_LENGTH_OID_TRANSFORM
      then Some (SNMPERR_GENERR_K, Kul, kul_len)
      else case sc_get_properlength hashtype of
        None \<Rightarrow> Some (SNMPERR_GENERR_K, Kul, kul_len)
      | Some properlength \<Rightarrow>
          if kul_len < properlength \<or> length Ku < properlength then Some (SNMPERR_GENERR_K, Kul, kul_len)
          else let buf = take properlength Ku @ engineID @ take properlength Ku
          in if length buf > SNMP_MAXBUF then None
          else case sc_hash ssl hashtype buf kul_len of
            None \<Rightarrow> Some (SNMPERR_GENERR_K, Kul, kul_len)
          | Some digest \<Rightarrow> map_option (\<lambda>Kul'. (SNMPERR_SUCCESS_K, Kul', length digest)) (write_at Kul 0 digest))"

section \<open>Key changes\<close>

text \<open>\<^verbatim>\<open>while (nbytes++ < properlength) *p++ ^= *q++\<close>\<close>

primrec xor_bytes :: "nat \<Rightarrow> u8 list \<Rightarrow> u8 list \<Rightarrow> u8 list" where
  "xor_bytes 0 xs ys = []"
| "xor_bytes (Suc n) xs ys = (hd xs XOR hd ys) # xor_bytes n (tl xs) (tl ys)"

text \<open>The exits by \<^verbatim>\<open>encode_keychange_quit\<close> with an error clear the buffer.\<close>

definition keychange_failed :: "u8 list \<Rightarrow> nat \<Rightarrow> nat \<Rightarrow> key_result" where
  "keychange_failed buf n len = map_option (\<lambda>b. (SNMPERR_GENERR_K, b, len)) (write_at buf 0 (replicate n 0))"

definition encode_keychange ::
  "openssl \<Rightarrow> (nat \<Rightarrow> bool) \<Rightarrow> (nat \<Rightarrow> u8 list) \<Rightarrow> oid \<Rightarrow> u8 list \<Rightarrow> u8 list \<Rightarrow> u8 list \<Rightarrow> nat \<Rightarrow> key_result" where
  "encode_keychange ssl alloc sc_random hashtype oldkey newkey kcstring kcstring_len =
     (if oldkey = [] \<or> newkey = [] \<or> kcstring_len = 0 \<or> length hashtype \<noteq> USM_LENGTH_OID_TRANSFORM
      then keychange_failed kcstring kcstring_len kcstring_len
      else case sc_get_properlength hashtype of
        None \<Rightarrow> keychange_failed kcstring kcstring_len kcstring_len
      | Some hash_len \<Rightarrow>
          if length oldkey \<noteq> length newkey \<or> kcstring_len < 2 * length oldkey
          then keychange_failed kcstring kcstring_len kcstring_len
          else let properlength = min (length oldkey) hash_len
          in case write_at kcstring 0 (sc_random properlength) of
            None \<Rightarrow> None
          | Some kc \<Rightarrow>
              if \<not> alloc (properlength * 2) then Some (SNMPERR_SUCCESS_K, kc, kcstring_len)
              else let tmpbuf = take properlength oldkey @ take properlength kc;
                       kc_len = kcstring_len - properlength
              in case sc_hash ssl hashtype tmpbuf kc_len of
                None \<Rightarrow> keychange_failed kc kc_len kc_len
              | Some digest \<Rightarrow>
                  (case write_at kc properlength digest of
                     None \<Rightarrow> None
                   | Some kc' \<Rightarrow>
                       map_option (\<lambda>b. (SNMPERR_SUCCESS_K, b, properlength * 2))
                         (write_at kc' properlength (xor_bytes properlength (drop properlength kc') newkey))))"

text \<open>
  The hash is made in a buffer on the stack, whose contents before the call are the argument \<open>stack\<close>: \<^verbatim>\<open>memcpy\<close> takes as many
  bytes of it as the old key has, even if the hash is shorter.
\<close>

definition decode_keychange ::
  "openssl \<Rightarrow> (nat \<Rightarrow> bool) \<Rightarrow> u8 list \<Rightarrow> oid \<Rightarrow> u8 list \<Rightarrow> u8 list \<Rightarrow> u8 list \<Rightarrow> nat \<Rightarrow> key_result" where
  "decode_keychange ssl alloc stack hashtype oldkey kcstring newkey newkey_len =
     (if oldkey = [] \<or> kcstring = [] \<or> newkey_len = 0 \<or> length hashtype \<noteq> USM_LENGTH_OID_TRANSFORM
      then keychange_failed newkey 0 newkey_len
      else case sc_get_properlength hashtype of
        None \<Rightarrow> keychange_failed newkey 0 newkey_len
      | Some hash_len \<Rightarrow>
          if length oldkey * 2 \<noteq> length kcstring \<or> newkey_len < length oldkey
          then keychange_failed newkey hash_len newkey_len
          else let properlength = length oldkey
          in if \<not> alloc (properlength * 2) then Some (SNMPERR_SUCCESS_K, newkey, properlength)
          else let tmpbuf = oldkey @ take properlength kcstring
          in case sc_hash ssl hashtype tmpbuf SNMP_MAXBUF of
            None \<Rightarrow> keychange_failed newkey properlength properlength
          | Some digest \<Rightarrow>
              (case write_at stack 0 digest of
                 None \<Rightarrow> None
               | Some tmp_buf \<Rightarrow>
                   if length tmp_buf < properlength then None
                   else case write_at newkey 0 (take properlength tmp_buf) of
                     None \<Rightarrow> None
                   | Some nk \<Rightarrow>
                       map_option (\<lambda>b. (SNMPERR_SUCCESS_K, b, properlength))
                         (write_at nk 0 (xor_bytes properlength nk (drop properlength kcstring)))))"

section \<open>What the keys are\<close>

lemmas key_consts = USM_LENGTH_EXPANDED_PASSPHRASE_def USM_LENGTH_KU_HASHBLOCK_def USM_LENGTH_P_MIN_def
  SNMPERR_SUCCESS_K_def SNMPERR_GENERR_K_def USM_LENGTH_OID_TRANSFORM_def SNMP_MAXBUF_def

lemma write_at_Some [simp]:
  "pos + length bs \<le> length buf \<Longrightarrow> write_at buf pos bs = Some (take pos buf @ bs @ drop (pos + length bs) buf)"
  by (simp add: write_at_def)

lemma ku_block_map: "ku_block P i n = map (\<lambda>j. P ! (j mod length P)) [i..<i + n]"
  by (induction n arbitrary: i) (simp_all add: upt_conv_Cons del: upt_Suc)

lemma ku_update_map:
  "ku_update P i (int (n * 64)) ctx = ctx @ map (\<lambda>j. P ! (j mod length P)) [i..<i + n * 64]"
proof (induction n arbitrary: i ctx)
  case 0
  then show ?case by (simp add: ku_update.simps)
next
  case (Suc n)
  have "[i..<i + Suc n * 64] = [i..<i + 64] @ [i + 64..<i + 64 + n * 64]"
    using upt_add_eq_append[of i "i + 64" "n * 64"] by (simp add: add.assoc)
  then show ?case
    using Suc[of "i + 64" "ctx @ ku_block P i 64"]
    by (subst ku_update.simps) (simp add: key_consts ku_block_map)
qed

lemma cycle_nth:
  assumes "P \<noteq> []" "i < m * length P"
  shows "concat (replicate m P) ! i = P ! (i mod length P)"
  using assms(2)
proof (induction m arbitrary: i)
  case (Suc m)
  show ?case
  proof (cases "i < length P")
    case False
    then have "concat (replicate m P) ! (i - length P) = P ! ((i - length P) mod length P)" using Suc by auto
    then show ?thesis using False by (simp add: nth_append le_mod_geq)
  qed (simp add: nth_append)
qed simp

text \<open>The first \<open>n\<close> bytes of the passphrase repeated without end.\<close>

definition repeated :: "nat \<Rightarrow> 'a list \<Rightarrow> 'a list" where
  "repeated n P = take n (concat (replicate n P))"

lemma repeated_map:
  assumes "P \<noteq> []"
  shows "repeated n P = map (\<lambda>j. P ! (j mod length P)) [0..<n]"
proof (rule nth_equalityI)
  have len: "n \<le> n * length P" using assms by (cases P) auto
  then show "length (repeated n P) = length (map (\<lambda>j. P ! (j mod length P)) [0..<n])"
    by (simp add: repeated_def length_concat sum_list_replicate)
  fix i assume "i < length (repeated n P)"
  then have "i < n" by (simp add: repeated_def)
  then show "repeated n P ! i = map (\<lambda>j. P ! (j mod length P)) [0..<n] ! i"
    using cycle_nth[OF assms, of i n] len by (simp add: repeated_def)
qed

text \<open>The hash function of an authentication protocol, and the length of its digests.\<close>

definition protocol_md :: "oid \<Rightarrow> evp_md" where
  "protocol_md t = (if t = usmHMACMD5AuthProtocol then EVP_md5 else EVP_sha1)"

definition md_length :: "evp_md \<Rightarrow> nat" where
  "md_length md = (case md of EVP_md5 \<Rightarrow> 16 | EVP_sha1 \<Rightarrow> 20)"

definition hash_lengths :: "openssl \<Rightarrow> bool" where
  "hash_lengths ssl \<longleftrightarrow> (\<forall>md m. length (EVP_Digest ssl md m) = md_length md)"

definition auth_protocol :: "oid \<Rightarrow> bool" where
  "auth_protocol t \<longleftrightarrow> t = usmHMACMD5AuthProtocol \<or> t = usmHMACSHA1AuthProtocol"

lemma auth_protocol_simps:
  assumes "auth_protocol t"
  shows "length t = 10" "sc_get_properlength t = Some (md_length (protocol_md t))"
    "ISTRANSFORM t usmHMACMD5AuthProtocol \<longleftrightarrow> protocol_md t = EVP_md5"
    "ISTRANSFORM t usmHMACSHA1AuthProtocol \<longleftrightarrow> protocol_md t = EVP_sha1"
    "buf \<noteq> [] \<Longrightarrow> md_length (protocol_md t) \<le> n \<Longrightarrow> sc_hash ssl t buf n = Some (EVP_Digest ssl (protocol_md t) buf)"
  using assms
  by (auto simp: auth_protocol_def protocol_md_def md_length_def sc_get_properlength_def sc_hash_def ISTRANSFORM_iff
      BYTESIZE_def protocol_defs)

lemma md_length_bounds: "16 \<le> md_length md" "md_length md \<le> 20"
  by (cases md; simp add: md_length_def)+

text \<open>The key of a passphrase and its localisation, as RFC 3414 has them (section 2.6 and appendix A.2).\<close>

definition password_to_key :: "openssl \<Rightarrow> oid \<Rightarrow> u8 list \<Rightarrow> u8 list" where
  "password_to_key ssl t P = EVP_Digest ssl (protocol_md t) (repeated 1048576 P)"

definition localized_key :: "openssl \<Rightarrow> oid \<Rightarrow> u8 list \<Rightarrow> u8 list \<Rightarrow> u8 list" where
  "localized_key ssl t engineID k = EVP_Digest ssl (protocol_md t) (k @ engineID @ k)"

lemma generate_Ku_key:
  assumes "auth_protocol t" "hash_lengths ssl" "8 \<le> length P" "alloc 0" "md_length (protocol_md t) \<le> length Ku" "kulen \<noteq> 0"
  shows "generate_Ku ssl alloc t P Ku kulen =
    Some (0, password_to_key ssl t P @ drop (md_length (protocol_md t)) Ku, md_length (protocol_md t))"
proof -
  have "P \<noteq> []" using assms(3) by auto
  then have u: "ku_update P 0 1048576 [] = repeated 1048576 P"
    using ku_update_map[of P 0 16384 "[]"] by (simp add: repeated_map)
  have l: "length (EVP_Digest ssl md m) = md_length md" for md m using assms(2) by (simp add: hash_lengths_def)
  have m: "(if protocol_md t = EVP_md5 then EVP_md5 else EVP_sha1) = protocol_md t" by (cases "protocol_md t") auto
  show ?thesis
    using assms(3-) auth_protocol_simps[OF assms(1)]
    by (cases "protocol_md t") (simp_all add: generate_Ku_def key_consts u l password_to_key_def Let_def)
qed

lemma generate_kul_key:
  assumes "auth_protocol t" "hash_lengths ssl" "engineID \<noteq> []" "length engineID \<le> 4056"
    and "length Ku = md_length (protocol_md t)" "md_length (protocol_md t) \<le> kul_len" "kul_len \<le> length Kul"
  shows "generate_kul ssl t engineID Ku Kul kul_len =
    Some (0, localized_key ssl t engineID Ku @ drop (md_length (protocol_md t)) Kul, md_length (protocol_md t))"
proof -
  have l: "length (EVP_Digest ssl md m) = md_length md" for md m using assms(2) by (simp add: hash_lengths_def)
  have "Ku \<noteq> []" "kul_len \<noteq> 0" using assms(5,6) md_length_bounds[of "protocol_md t"] by auto
  then show ?thesis
    using assms(3-) auth_protocol_simps[OF assms(1)] md_length_bounds(2)[of "protocol_md t"]
    by (simp add: generate_kul_def key_consts l localized_key_def Let_def)
qed

section \<open>Key changes round trip\<close>

lemma xor_bytes_map2:
  "n \<le> length xs \<Longrightarrow> n \<le> length ys \<Longrightarrow> xor_bytes n xs ys = map2 (XOR) (take n xs) (take n ys)"
proof (induction n arbitrary: xs ys)
  case (Suc n)
  then show ?case by (cases xs; cases ys) simp_all
qed simp

lemma map2_xor_cancel: "length xs = length ys \<Longrightarrow> map2 (XOR) xs (map2 (XOR) xs ys) = (ys :: u8 list)"
  by (induction xs ys rule: list_induct2) (simp_all flip: xor.assoc)

lemma length_xor_bytes [simp]: "length (xor_bytes n xs ys) = n"
  by (induction n arbitrary: xs ys) simp_all

text \<open>The KeyChange string of RFC 3414, section 5: the random bytes, then the new key under the hash of the old key and the bytes.\<close>

definition keychange :: "openssl \<Rightarrow> oid \<Rightarrow> u8 list \<Rightarrow> u8 list \<Rightarrow> u8 list \<Rightarrow> u8 list" where
  "keychange ssl t random old new = random @ map2 (XOR) (take (length old) (EVP_Digest ssl (protocol_md t) (old @ random))) new"

lemma encode_keychange_string:
  assumes "auth_protocol t" "hash_lengths ssl" "alloc (length old * 2)" "length (rand (length old)) = length old"
    and "old \<noteq> []" "length old = length new" "length old \<le> md_length (protocol_md t)"
    and "length old + md_length (protocol_md t) \<le> kc_len" "kc_len \<le> length kc"
  shows "\<exists>kc'. encode_keychange ssl alloc rand t old new kc kc_len = Some (0, kc', length old * 2) \<and>
    length kc' = length kc \<and> take (length old * 2) kc' = keychange ssl t (rand (length old)) old new"
proof -
  let ?n = "length old" and ?d = "EVP_Digest ssl (protocol_md t) (old @ rand (length old))"
  let ?x = "xor_bytes ?n (?d @ drop (?n + md_length (protocol_md t)) kc) new"
  have l: "length (EVP_Digest ssl md m) = md_length md" for md m using assms(2) by (simp add: hash_lengths_def)
  have mn: "min ?n (md_length (protocol_md t)) = ?n" using assms(7) by simp
  have x: "?x = map2 (XOR) (take ?n ?d) new" using assms(6,7) l by (simp add: xor_bytes_map2)
  have "encode_keychange ssl alloc rand t old new kc kc_len =
    Some (0, rand ?n @ ?x @ drop (2 * ?n) (rand ?n @ ?d @ drop (?n + md_length (protocol_md t)) kc), ?n * 2)"
    using assms(3-) auth_protocol_simps[OF assms(1)] l
    by (auto simp: encode_keychange_def key_consts Let_def mn add.commute)
  moreover have "length (rand ?n @ ?x @ drop (2 * ?n) (rand ?n @ ?d @ drop (?n + md_length (protocol_md t)) kc)) = length kc"
    using assms(4,7-) l by simp
  moreover have "length (map2 (XOR) (take ?n ?d) new) = ?n" using assms(6,7) l by simp
  ultimately show ?thesis using assms(4) x by (simp add: keychange_def mult_2_right)
qed

lemma decode_keychange_string:
  assumes "auth_protocol t" "hash_lengths ssl" "alloc (length old * 2)" "length random = length old" "length stack = 4096"
    and "old \<noteq> []" "length old = length new" "length old \<le> md_length (protocol_md t)"
    and "length old \<le> len" "len \<le> length buf"
  shows "decode_keychange ssl alloc stack t old (keychange ssl t random old new) buf len =
    Some (0, new @ drop (length old) buf, length old)"
proof -
  let ?n = "length old" and ?d = "EVP_Digest ssl (protocol_md t) (old @ random)"
  have l: "length (EVP_Digest ssl md m) = md_length md" for md m using assms(2) by (simp add: hash_lengths_def)
  have k: "length (keychange ssl t random old new) = 2 * ?n" "drop ?n (keychange ssl t random old new) = map2 (XOR) (take ?n ?d) new"
    "take ?n (keychange ssl t random old new) = random"
    using assms(4,7,8) l by (simp_all add: keychange_def)
  have x: "xor_bytes ?n (take ?n ?d @ drop ?n buf) (map2 (XOR) (take ?n ?d) new) = new"
    using assms(7,8,9,10) l by (simp add: xor_bytes_map2 map2_xor_cancel)
  have ne: "keychange ssl t random old new \<noteq> []" using k(1) assms(6) by auto
  show ?thesis
    using assms(3-6,8-) assms(7)[symmetric] auth_protocol_simps[OF assms(1)] l md_length_bounds(2)[of "protocol_md t"] ne
    by (auto simp: decode_keychange_def key_consts Let_def k x)
qed

section \<open>The properties of the keys\<close>

definition key_ssl :: openssl where
  "key_ssl = \<lparr>EVP_Digest = (\<lambda>md m. replicate (md_length md) (sum_list m)), HMAC = (\<lambda>_ _ _. []),
     DES_ncbc_encrypt = (\<lambda>_ iv c. (c, iv)), DES_cbc_decrypt = (\<lambda>_ _ c. c),
     AES_cfb128_encrypt = (\<lambda>_ _ c. c), AES_cfb128_decrypt = (\<lambda>_ _ c. c)\<rparr>"

lemma key_ssl_lengths: "hash_lengths key_ssl" "auth_protocol usmHMACMD5AuthProtocol" "auth_protocol usmHMACSHA1AuthProtocol"
  "md_length (protocol_md usmHMACMD5AuthProtocol) = 16" "md_length (protocol_md usmHMACSHA1AuthProtocol) = 20"
  by (simp_all add: hash_lengths_def key_ssl_def auth_protocol_def protocol_md_def md_length_def protocol_defs)

text \<open>
  C10. The localised key of a passphrase is the one of RFC 3414. For a passphrase of at least eight bytes,
  \<^verbatim>\<open>generate_Ku\<close> gives the digest of the first megabyte of its repetition, and \<^verbatim>\<open>generate_kul\<close> the digest of
  that key, the engine ID and the key again, for either protocol, in buffers that hold a digest; both write nothing behind it.
\<close>

theorem passphrase_to_localized_key:
  assumes "auth_protocol t" "hash_lengths ssl" "8 \<le> length P" "alloc 0"
    and "engineID \<noteq> []" "length engineID \<le> 32"
    and "md_length (protocol_md t) \<le> kulen" "kulen \<le> length Ku" "md_length (protocol_md t) \<le> kul_len" "kul_len \<le> length Kul"
  shows "\<exists>n Ku' Kul'. n = md_length (protocol_md t) \<and>
    generate_Ku ssl alloc t P Ku kulen = Some (0, Ku', n) \<and> drop n Ku' = drop n Ku \<and>
    take n Ku' = EVP_Digest ssl (protocol_md t) (take 1048576 (concat (replicate 1048576 P))) \<and>
    generate_kul ssl t engineID (take n Ku') Kul kul_len = Some (0, Kul', n) \<and> drop n Kul' = drop n Kul \<and>
    take n Kul' = EVP_Digest ssl (protocol_md t) (take n Ku' @ engineID @ take n Ku')"
proof -
  have l: "length (password_to_key ssl t P) = md_length (protocol_md t)"
    "length (localized_key ssl t engineID k) = md_length (protocol_md t)" for k
    using assms(2) by (simp_all add: hash_lengths_def password_to_key_def localized_key_def)
  have "kulen \<noteq> 0" using assms(7) md_length_bounds[of "protocol_md t"] by auto
  then show ?thesis
    using generate_Ku_key[OF assms(1-3), of alloc Ku kulen] generate_kul_key[OF assms(1,2,5), of "password_to_key ssl t P" kul_len Kul] assms(4,6-) l
    by (simp add: password_to_key_def localized_key_def repeated_def)
qed

theorem passphrase_to_localized_key_witness:
  "\<exists>n Ku' Kul'. n = 20 \<and>
    generate_Ku key_ssl (\<lambda>_. True) usmHMACSHA1AuthProtocol (replicate 8 65) (replicate 24 9) 24 = Some (0, Ku', n) \<and>
    take n Ku' = EVP_Digest key_ssl EVP_sha1 (take 1048576 (concat (replicate 1048576 (replicate 8 65)))) \<and>
    generate_kul key_ssl usmHMACSHA1AuthProtocol [1, 2, 3] (take n Ku') (replicate 20 9) 20 = Some (0, Kul', n) \<and>
    take n Kul' = EVP_Digest key_ssl EVP_sha1 (take n Ku' @ [1, 2, 3] @ take n Ku')"
proof -
  have "protocol_md usmHMACSHA1AuthProtocol = EVP_sha1" by (simp add: protocol_md_def protocol_defs)
  then show ?thesis
    using passphrase_to_localized_key[OF key_ssl_lengths(3,1), of "replicate 8 65" "\<lambda>_. True" "[1, 2, 3]" 24 "replicate 24 9" 20 "replicate 20 9"]
      key_ssl_lengths(5)
    by auto
qed

text \<open>
  C9. A key change arrives. For an old and a new key of the same length, not longer than a digest, and a buffer with room for the hash,
  \<^verbatim>\<open>encode_keychange\<close> writes a KeyChange string of twice that length, whatever bytes are drawn for it, and
  \<^verbatim>\<open>decode_keychange\<close> with the old key takes the new key out of it, into a buffer that is otherwise left as it was.
\<close>

theorem keychange_roundtrip:
  assumes "auth_protocol t" "hash_lengths ssl" "alloc (length old * 2)" "length (rand (length old)) = length old" "length stack = 4096"
    and "old \<noteq> []" "length old = length new" "length old \<le> md_length (protocol_md t)"
    and "length old + md_length (protocol_md t) \<le> kc_len" "kc_len \<le> length kc" "length old \<le> len" "len \<le> length buf"
  shows "\<exists>kc'. encode_keychange ssl alloc rand t old new kc kc_len = Some (0, kc', 2 * length old) \<and> length kc' = length kc \<and>
    decode_keychange ssl alloc stack t old (take (2 * length old) kc') buf len = Some (0, new @ drop (length old) buf, length new)"
  using encode_keychange_string[OF assms(1,2), of alloc old rand new kc_len kc]
    decode_keychange_string[OF assms(1,2), of alloc old "rand (length old)" stack new len buf] assms(3-)
  by (auto simp: mult.commute)

theorem keychange_roundtrip_witness:
  "\<exists>kc'. encode_keychange key_ssl (\<lambda>_. True) (\<lambda>n. replicate n 3) usmHMACMD5AuthProtocol [1, 2, 3] [4, 5, 6] (replicate 20 0) 20 =
      Some (0, kc', 6) \<and>
    decode_keychange key_ssl (\<lambda>_. True) (replicate 4096 0) usmHMACMD5AuthProtocol [1, 2, 3] (take 6 kc') (replicate 4 9) 4 =
      Some (0, [4, 5, 6, 9], 3)"
  using keychange_roundtrip[OF key_ssl_lengths(2,1), of "\<lambda>_. True" "[1, 2, 3]" "\<lambda>n. replicate n 3" "replicate 4096 0" "[4, 5, 6]" 20
      "replicate 20 0" 4 "replicate 4 9"] key_ssl_lengths(4)
  by auto

section \<open>Where the functions go wrong\<close>

text \<open>The length of the buffer for the key is not compared with the length of the digest: a short buffer is overrun.\<close>

lemma generate_Ku_overruns:
  assumes "auth_protocol t" "hash_lengths ssl" "8 \<le> length P" "alloc 0" "0 < kulen" "length Ku < md_length (protocol_md t)"
  shows "generate_Ku ssl alloc t P Ku kulen = None"
proof -
  have l: "length (EVP_Digest ssl md m) = md_length md" for md m using assms(2) by (simp add: hash_lengths_def)
  show ?thesis
    using assms(3-) auth_protocol_simps[OF assms(1)]
    by (cases "protocol_md t") (simp_all add: generate_Ku_def key_consts Let_def write_at_def l)
qed

text \<open>
  \<^verbatim>\<open>decode_keychange\<close> refuses a buffer shorter than the old key, and then clears as many bytes of it as a digest has.
\<close>

lemma decode_keychange_overruns:
  assumes "auth_protocol t" "old \<noteq> []" "kc \<noteq> []" "0 < len" "len < length old" "length buf = len" "len < md_length (protocol_md t)"
  shows "decode_keychange ssl alloc stack t old kc buf len = None"
  using assms(2-) auth_protocol_simps[OF assms(1)]
  by (simp add: decode_keychange_def key_consts keychange_failed_def write_at_def)

text \<open>
  Without memory both functions report success. The string then holds the random bytes and whatever was behind them, and the decoded
  key is what was in the buffer.
\<close>

lemma keychange_without_memory:
  "encode_keychange key_ssl (\<lambda>_. False) (\<lambda>n. replicate n 3) usmHMACMD5AuthProtocol [1, 2, 3] [4, 5, 6] (replicate 20 0) 20 =
     Some (0, [3, 3, 3] @ replicate 17 0, 20)"
  "decode_keychange key_ssl (\<lambda>_. False) [] usmHMACMD5AuthProtocol [1, 2, 3] [3, 3, 3, 0, 0, 0] [9, 9, 9] 3 = Some (0, [9, 9, 9], 3)"
  by code_simp+

text \<open>
  A key longer than a digest is cut to the length of a digest when it is encoded; what comes out is refused when it is decoded.
\<close>

lemma long_keys_refused:
  assumes "auth_protocol t" "length old > md_length (protocol_md t)" "length kc = 2 * md_length (protocol_md t)"
    and "length old \<le> len" "len \<le> length buf"
  shows "\<exists>b. decode_keychange ssl alloc stack t old kc buf len = Some (-1, b, len)"
proof -
  have "old \<noteq> []" "kc \<noteq> []" "len \<noteq> 0" "length old * 2 \<noteq> length kc"
    using assms(2-) md_length_bounds[of "protocol_md t"] by auto
  then show ?thesis
    using assms(2-) auth_protocol_simps[OF assms(1)]
    by (auto simp: decode_keychange_def key_consts keychange_failed_def)
qed

end
