(* ===== verification/Community_Roundtrip.thy ===== *)
theory Community_Roundtrip
  imports Messages Keytools
begin

unbundle bit_operations_syntax

text \<open>
  Messages of SNMPv1 and SNMPv2c: what \<^verbatim>\<open>_snmp_build\<close> makes of a PDU, in either direction of encoding, is what \<^verbatim>\<open>_snmp_parse\<close>
  takes apart, and which PDUs are refused.
\<close>

section \<open>The encoding of a message\<close>

definition com_head :: "pdu \<Rightarrow> u8 list" where
  "com_head p = tlv ASN_INTEGER (int_payload (version p)) @ tlv ASN_OCTET_STR (community p)"

definition com_enc :: "pdu \<Rightarrow> u8 list" where
  "com_enc p = tlv ASN_SEQUENCE_CONSTRUCTOR (com_head p @ pdu_enc p)"

definition com_fwd :: "pdu \<Rightarrow> u8 list" where
  "com_fwd p = seq_header ASN_SEQUENCE_CONSTRUCTOR (length (com_head p @ pdu_fwd p)) @ com_head p @ pdu_fwd p"

text \<open>A message at the start of the memory, with either form of its lengths.\<close>

definition com_at :: "u8 list \<Rightarrow> pdu \<Rightarrow> nat \<Rightarrow> bool" where
  "com_at m p e \<longleftrightarrow> (\<exists>q n. header_at m 0 ASN_SEQUENCE_CONSTRUCTOR q n \<and> bytes_at m q (com_head p) \<and>
     pdu_at m (q + length (com_head p)) p e \<and> e = q + n \<and> length (com_head p) \<le> n)"

lemma com_atI:
  assumes "header_at m 0 ASN_SEQUENCE_CONSTRUCTOR q n" "bytes_at m q (com_head p)" "pdu_at m (q + length (com_head p)) p (q + n)"
    and "e = q + n" "length (com_head p) \<le> n"
  shows "com_at m p e"
  using assms by (auto simp: com_at_def)

lemma rbuild_community_prepended:
  assumes "pdu_ok p" "valid_rbuf b"
  shows "prepended alloc True b (com_enc p) (rbuild_community alloc p b)"
proof -
  let ?V = "tlv ASN_INTEGER (int_payload (version p))" and ?C = "tlv ASN_OCTET_STR (community p)" and ?P = "pdu_enc p"
  let ?seq = "\<lambda>b1. asn_realloc_rbuild_sequence alloc True ASN_SEQUENCE_CONSTRUCTOR (of_nat (offset b1 - offset b)) b1"
  have 1: "prepended alloc True b (?C @ ?P) (ebind (snmp_pdu_realloc_rbuild alloc p b)
      (asn_realloc_rbuild_string alloc True ASN_OCTET_STR (community p)))"
    by (rule prepended_bind[OF assms(2) rbuild_pdu_prepended[OF assms] rbuild_string_prepended])
  have 2: "prepended alloc True b (?V @ ?C @ ?P) (ebind (ebind (snmp_pdu_realloc_rbuild alloc p b)
      (asn_realloc_rbuild_string alloc True ASN_OCTET_STR (community p))) (asn_realloc_rbuild_int alloc True ASN_INTEGER (version p) 4))"
    by (rule prepended_bind[OF assms(2) 1 rbuild_int_prepended])
  have "prepended alloc True b (ber_header ASN_SEQUENCE_CONSTRUCTOR (of_nat (length (?V @ ?C @ ?P))) @ (?V @ ?C @ ?P))
      (ebind (ebind (ebind (snmp_pdu_realloc_rbuild alloc p b) (asn_realloc_rbuild_string alloc True ASN_OCTET_STR (community p)))
        (asn_realloc_rbuild_int alloc True ASN_INTEGER (version p) 4)) ?seq)"
    by (rule prepended_bind[OF assms(2) 2]) (simp add: rbuild_sequence_prepended)
  then show ?thesis by (simp add: rbuild_community_def com_enc_def com_head_def tlv_def[of ASN_SEQUENCE_CONSTRUCTOR] ebind_assoc)
qed

lemma com_enc_at:
  assumes "bytes_at m 0 (com_enc p)" "length (com_enc p) < 2 ^ 31"
  shows "com_at m p (length (com_enc p))"
proof -
  let ?B = "com_head p @ pdu_enc p"
  let ?H = "ber_header ASN_SEQUENCE_CONSTRUCTOR (of_nat (length ?B))"
  have e: "com_enc p = ?H @ com_head p @ pdu_enc p" by (simp add: com_enc_def tlv_def)
  have b: "bytes_at m 0 ?H" "bytes_at m (length ?H) (com_head p)" "bytes_at m (length ?H + length (com_head p)) (pdu_enc p)"
    using assms(1) by (simp_all add: e bytes_at_append)
  have l: "length ?B < 2 ^ 31" "length (pdu_enc p) < 2 ^ 31" using assms(2) by (simp_all add: e)
  have "header_at m 0 ASN_SEQUENCE_CONSTRUCTOR (length ?H) (length ?B)" using header_at_ber[OF b(1) l(1)] by simp
  moreover have "pdu_at m (length ?H + length (com_head p)) p (length ?H + length ?B)"
    using pdu_at_enc[OF b(3) l(2)] by (simp add: add.assoc)
  ultimately show ?thesis by (rule com_atI[OF _ b(2)]) (simp_all add: e)
qed

lemma com_fwd_at:
  assumes "bytes_at m 0 (com_fwd p)" "length (com_fwd p) \<le> 0xFFFF"
  shows "com_at m p (length (com_fwd p))"
proof -
  let ?B = "com_head p @ pdu_fwd p"
  let ?H = "seq_header ASN_SEQUENCE_CONSTRUCTOR (length ?B)"
  have b: "bytes_at m 0 ?H" "bytes_at m 4 (com_head p)" "bytes_at m (4 + length (com_head p)) (pdu_fwd p)"
    using assms(1) by (simp_all add: com_fwd_def bytes_at_append)
  have l: "length ?B \<le> 0xFFFF" "length (pdu_fwd p) \<le> 0xFFFF" using assms(2) by (simp_all add: com_fwd_def)
  have "header_at m 0 ASN_SEQUENCE_CONSTRUCTOR 4 (length ?B)" using seq_header_at[OF b(1) l(1)] by simp
  moreover have "pdu_at m (4 + length (com_head p)) p (4 + length ?B)"
    using pdu_fwd_at[OF b(3) l(2)] by (simp add: add.assoc)
  ultimately show ?thesis by (rule com_atI[OF _ b(2)]) (simp_all add: com_fwd_def)
qed

section \<open>Reading a message\<close>

text \<open>The version and what follows it.\<close>

lemma com_parts:
  fixes p :: pdu
  defines "V \<equiv> tlv ASN_INTEGER (int_payload (version p))" and "C \<equiv> tlv ASN_OCTET_STR (community p)"
  assumes at: "com_at m p e" and e: "e \<le> unat len"
  obtains q n where "asn_parse_sequence m 0 len ASN_SEQUENCE_CONSTRUCTOR = Inr (q, n, ASN_SEQUENCE_CONSTRUCTOR)"
    "asn_parse_int m q n 4 = Inr (q + length V, n - of_nat (length V), ASN_INTEGER, version p)"
    "bytes_at m (q + length V) C" "length C \<le> unat (n - of_nat (length V))" "pdu_at m (q + length V + length C) p e"
    "e - (q + length V + length C) \<le> unat (n - of_nat (length V) - of_nat (length C))"
proof -
  obtain q k where h: "header_at m 0 ASN_SEQUENCE_CONSTRUCTOR q k" "bytes_at m q (V @ C)"
      "pdu_at m (q + length (V @ C)) p e" "e = q + k" "length (V @ C) \<le> k"
    using at by (auto simp: com_at_def com_head_def V_def C_def)
  define n :: u32 where "n = of_nat k"
  have "k < 2 ^ 31" using h(1) by (simp add: header_at_def)
  then have un: "unat n = k" unfolding n_def by (intro u32_unat_of_nat) simp
  have s: "asn_parse_sequence m 0 len ASN_SEQUENCE_CONSTRUCTOR = Inr (q, n, ASN_SEQUENCE_CONSTRUCTOR)"
    using header_at_parse[OF h(1), of len] h(4) e
    by (simp add: asn_parse_sequence_def is_extension_id_def ASN_OPAQUE_def ASN_SEQUENCE_CONSTRUCTOR_def n_def)
  note o = over_object[OF h(2), of n, unfolded un, OF h(5)]
  have v: "asn_parse_int m q n 4 = Inr (q + length V, n - of_nat (length V), ASN_INTEGER, version p)"
    unfolding V_def using o by (intro parse_int_step) (simp_all add: un V_def)
  have "e - (q + length V + length C) \<le> unat (n - of_nat (length V) - of_nat (length C))"
    using u32_sub_nat[of "length (V @ C)" n] h(4,5) un by (simp add: diff_diff_eq)
  then show ?thesis using that s v o h(3) by (simp add: add.assoc)
qed

lemma comstr_parse_at:
  assumes at: "com_at m p e" and e: "e \<le> unat len" and c: "length (community p) \<le> 256"
  shows "\<exists>data n. snmp_comstr_parse m 0 len 256 =
      Inr (data, n, if length (community p) = 256 then take 255 (community p) @ [0] else community p, version p) \<and>
    pdu_at m data p e \<and> e - data \<le> unat n"
proof (rule com_parts[OF at e])
  let ?V = "tlv ASN_INTEGER (int_payload (version p))" and ?C = "tlv ASN_OCTET_STR (community p)"
  fix q n
  assume s: "asn_parse_sequence m 0 len ASN_SEQUENCE_CONSTRUCTOR = Inr (q, n, ASN_SEQUENCE_CONSTRUCTOR)"
    and v: "asn_parse_int m q n 4 = Inr (q + length ?V, n - of_nat (length ?V), ASN_INTEGER, version p)"
    and b: "bytes_at m (q + length ?V) ?C" "length ?C \<le> unat (n - of_nat (length ?V))"
    and r: "pdu_at m (q + length ?V + length ?C) p e"
      "e - (q + length ?V + length ?C) \<le> unat (n - of_nat (length ?V) - of_nat (length ?C))"
  have t: "asn_parse_string m (q + length ?V) (n - of_nat (length ?V)) 256 =
      Inr (q + length ?V + length ?C, n - of_nat (length ?V) - of_nat (length ?C), ASN_OCTET_STR,
        if length (community p) = 256 then community p else community p @ [0], of_nat (length (community p)))"
    using string_codec.parse_enc[where v = "(ASN_OCTET_STR, community p)" and cap = 256 and m = m and p = "q + length ?V"
        and dl = "n - of_nat (length ?V)"] b c
    by (auto simp: string_result_def)
  have u: "unat (of_nat (length (community p)) :: u32) = length (community p)" using c by (intro u32_unat_of_nat) simp
  have l: "length (community p) = 256 \<Longrightarrow> (community p)[255 := 0] = take 255 (community p) @ [0]" by (simp add: upd_conv_take_nth_drop)
  have "snmp_comstr_parse m 0 len 256 =
      Inr (q + length ?V + length ?C, n - of_nat (length ?V) - of_nat (length ?C),
        if length (community p) = 256 then take 255 (community p) @ [0] else community p, version p)"
    using c l by (auto simp: snmp_comstr_parse_def s v t u list_update_append min_def)
  then show ?thesis using r by blast
qed

text \<open>What \<^verbatim>\<open>_snmp_parse\<close> makes of the PDU structure before it decodes the PDU.\<close>

definition com_received :: "pdu \<Rightarrow> pdu \<Rightarrow> pdu" where
  "com_received p0 p = p0\<lparr>version := version p, securityLevel := 1,
     securityModel := (if version p = SNMP_VERSION_1 then SNMP_SEC_MODEL_SNMPv1 else SNMP_SEC_MODEL_SNMPv2c), community := community p\<rparr>"

lemma parse_community_at:
  assumes at: "com_at m p e" and e: "e \<le> unat len" and c: "length (community p) < 256" and rt: "pdu_rt p"
    and p0: "length (agent_addr p0) = 4" and al: "\<forall>n. alloc n" and v: "s_version sess \<in> {version p, SNMP_DEFAULT_VERSION}"
  shows "parse_community alloc sess p0 m len st = (Inr (pdu_decoded (com_received p0 p) p), st)"
proof -
  obtain data n where d: "snmp_comstr_parse m 0 len 256 = Inr (data, n, community p, version p)" "pdu_at m data p e" "e - data \<le> unat n"
    using comstr_parse_at[OF at e] c by auto
  have "snmp_pdu_parse alloc (com_received p0 p) m data n = Inr (pdu_decoded (com_received p0 p) p, 0)"
    using p0 al by (intro snmp_pdu_parse_at[OF d(2,3) rt]) (simp_all add: com_received_def)
  then show ?thesis
    using d(1) al v
    by (auto simp: parse_community_def COMMUNITY_MAX_LEN_def parse_try_def com_received_def SNMP_SEC_LEVEL_NOAUTH_def)
qed

lemma parse_version_at:
  assumes "com_at m p e" "e \<le> unat len"
  shows "snmp_parse_version m 0 len = Inr (sint (version p))"
  by (rule com_parts[OF assms]) (simp add: snmp_parse_version_def)

lemma snmp_parse_at:
  assumes at: "com_at m p e" and e: "e \<le> unat len" and c: "length (community p) < 256" and rt: "pdu_rt p"
    and p0: "length (agent_addr p0) = 4" and al: "\<forall>n. alloc n" and v: "s_version sess \<in> {version p, SNMP_DEFAULT_VERSION}"
    and pv: "version p \<in> {SNMP_VERSION_1, SNMP_VERSION_2c}"
  shows "snmp_parse ssl alloc me nd sess tid p0 m addr len st =
    (Inr (pdu_decoded (com_received (p0\<lparr>transid := tid\<rparr>) p) p), None, sess, st)"
proof -
  have s: "sint (version p) = uint SNMP_VERSION_1 \<or> sint (version p) = uint SNMP_VERSION_2c"
    using pv by (auto simp: version_defs)
  have w: "(if s_version sess \<noteq> SNMP_DEFAULT_VERSION then Inr (sint (s_version sess)) else snmp_parse_version m 0 len) = Inr (sint (version p))"
    using v parse_version_at[OF at e] by auto
  have "parse_community alloc sess (p0\<lparr>transid := tid, version := of_int (sint (version p))\<rparr>) m len st =
      (Inr (pdu_decoded (com_received (p0\<lparr>transid := tid\<rparr>) p) p), st)"
    using parse_community_at[OF at e c rt _ al v, of "p0\<lparr>transid := tid, version := of_int (sint (version p))\<rparr>"] p0
    by (simp add: com_received_def)
  then show ?thesis using s w by (simp add: snmp_parse_def Let_def)
qed

section \<open>Writing a message\<close>

text \<open>The PDU with the community it is sent with.\<close>

definition with_community :: "snmp_session \<Rightarrow> pdu \<Rightarrow> pdu" where
  "with_community sess p =
     p\<lparr>community := (if community p = [] \<and> command p \<noteq> SNMP_MSG_RESPONSE then s_community sess else community p)\<rparr>"

lemma default_community_total: "\<forall>n. alloc n \<Longrightarrow> default_community alloc sess p = Inr (with_community sess p)"
  by (simp add: default_community_def with_community_def)

lemma check_command_keeps:
  "check_command alloc p = Inr p1 \<Longrightarrow> version p1 = version p \<and> command p1 = command p \<and> community p1 = community p \<and>
     variables p1 = variables p \<and> agent_addr p1 = agent_addr p"
  by (auto simp: check_command_def check_bulk_def default_errors_def Let_def split: if_splits)

lemma with_community_rt: "pdu_rt p \<Longrightarrow> pdu_rt (with_community sess p)"
  by (simp add: pdu_rt_def with_community_def)

lemma build_community_built:
  assumes "check_command alloc p = Inr p1" "version p \<in> {SNMP_VERSION_1, SNMP_VERSION_2c}" "pdu_ok p1" "valid_rbuf b"
    and al: "\<forall>n. alloc n" and "offset b + length (com_enc (with_community sess p1)) \<le> 2 ^ 32 - 8192"
  shows "\<exists>b'. build_community alloc sess p b = Inr (b', with_community sess p1) \<and> valid_rbuf b' \<and>
    contents b' = com_enc (with_community sess p1) @ contents b"
proof -
  let ?q = "with_community sess p1"
  have "pdu_ok ?q" using assms(3) by (simp add: pdu_ok_def with_community_def)
  note pr = rbuild_community_prepended[OF this assms(4), of alloc]
  obtain b' where b': "rbuild_community alloc ?q b = Inr b'" using prepended_total[OF pr al assms(6)] by blast
  have "valid_rbuf b'" "contents b' = com_enc ?q @ contents b" using pr by (simp_all add: b' prepended_def)
  moreover have "build_community alloc sess p b = Inr (b', ?q)"
    using assms(1,2) check_command_keeps[OF assms(1)] b' by (auto simp: build_community_def default_community_total[OF al] build_try_def)
  ultimately show ?thesis by blast
qed

lemma build_forward_written:
  assumes "check_command alloc p = Inr p1" "version p \<in> {SNMP_VERSION_1, SNMP_VERSION_2c}" "pdu_ok p1" "length (agent_addr p1) = 4"
    and al: "\<forall>n. alloc n" and c: "length (community (with_community sess p1)) \<le> 0xFFFF"
    and fit: "length (com_fwd (with_community sess p1)) \<le> unat dl"
  shows "snmp_build_forward alloc sess buf dl p =
    Inr (com_fwd (with_community sess p1), of_nat (length (com_fwd (with_community sess p1))), with_community sess p1)"
proof -
  define q where "q = with_community sess p1"
  let ?V = "tlv ASN_INTEGER (int_payload (version q))" and ?C = "tlv ASN_OCTET_STR (community q)"
  have k: "version q = version p" "pdu_ok q" "length (agent_addr q) = 4"
    using check_command_keeps[OF assms(1)] assms(3,4) by (simp_all add: q_def with_community_def pdu_ok_def)
  have l: "4 + length ?V + length ?C + length (pdu_fwd q) \<le> unat dl"
    using fit by (simp add: com_fwd_def com_head_def flip: q_def)
  have d1: "unat (dl - 4) = unat dl - 4" using u32_sub_nat[of 4 dl] l by simp
  have pl: "length (int_payload (version q)) \<le> 0xFFFF" using int_payload_len(2)[of "version q"] by simp
  define d2 where "d2 = dl - 4 - of_nat (length ?V)"
  define d3 where "d3 = d2 - of_nat (length ?C)"
  have v: "asn_build_int (dl - 4) ASN_INTEGER (version q) 4 = (?V, Inr d2)"
    using build_tlv_fits[of "int_payload (version q)" ASN_INTEGER "dl - 4"] pl d1 l by (simp add: asn_build_int_tlv d2_def)
  have u2: "unat d2 = unat dl - 4 - length ?V" using u32_sub_nat[of "length ?V" "dl - 4"] d1 l by (simp add: d2_def)
  have c: "asn_build_string d2 ASN_OCTET_STR (Some (community q)) (of_nat (length (community q))) = (?C, Inr d3)"
    using build_tlv_fits[of "community q" ASN_OCTET_STR d2] c u2 l by (simp add: asn_build_string_tlv d3_def flip: q_def)
  have u3: "unat d3 = unat dl - 4 - length ?V - length ?C" using u32_sub_nat[of "length ?C" d2] u2 l by (simp add: d3_def)
  have "succeeds (snmp_pdu_build b d3 q)" for b using u3 l by (intro snmp_pdu_build_fits k) simp
  then obtain w d4 where w: "snmp_pdu_build (drop (length ([ASN_SEQUENCE_CONSTRUCTOR, 0x82, 0, 0] @ ?V @ ?C)) buf) d3 q = (w, Inr d4)"
    by (rule succeedsE)
  have wf: "w = pdu_fwd q" by (rule snmp_pdu_build_Inr(1)[OF k(2,3) w])
  have h: "asn_build_sequence dl ASN_SEQUENCE_CONSTRUCTOR 0 = ([ASN_SEQUENCE_CONSTRUCTOR, 0x82, 0, 0], Inr (dl - 4))"
    using l by (simp add: asn_build_sequence_def word_less_nat_alt)
  have i: "insert_length x dl ASN_SEQUENCE_CONSTRUCTOR (of_nat n) = (seq_header ASN_SEQUENCE_CONSTRUCTOR n, dl - 4)" for x n
    using l by (intro insert_length_fits) simp
  have "snmp_build_forward alloc sess buf dl p =
      Inr (seq_header ASN_SEQUENCE_CONSTRUCTOR (length (?V @ ?C @ w)) @ ?V @ ?C @ w,
        of_nat (length (seq_header ASN_SEQUENCE_CONSTRUCTOR (length (?V @ ?C @ w)) @ ?V @ ?C @ w)), q)"
    unfolding snmp_build_forward_def
    using assms(1,2) check_command_keeps[OF assms(1)] w
    by (auto simp: default_community_total[OF al] h v c Let_def i[of _ "length (?V @ ?C @ w)", unfolded length_append of_nat_add] simp flip: q_def)
  then show ?thesis by (simp add: com_fwd_def com_head_def wf flip: q_def)
qed

section \<open>The properties of messages with a community\<close>

definition poll_session :: snmp_session where
  "poll_session = \<lparr>v3_sizes = \<lparr>isAuthoritative = 0, sndMsgMaxSize = 1472, rcvMsgMaxSize = 1472\<rparr>, s_version = SNMP_VERSION_2c,
     s_community = [0x70, 0x75, 0x62], s_securityEngineID = [], s_contextEngineID = [], s_contextName = Some [], s_securityModel = - 1,
     s_securityName = [], s_securityLevel = 1\<rparr>"

text \<open>A request for one object, with the errors left to their defaults.\<close>

definition poll_request :: pdu where
  "poll_request = snmp_create_sess_pdu\<lparr>version := SNMP_VERSION_2c, command := SNMP_MSG_GETNEXT, reqid := 77, errstat := - 1, errindex := - 1,
     variables := [\<lparr>name = [1, 3, 6, 1, 2, 1, 2, 2, 1, 10], vtype = ASN_NULL, val = NoVal, val_len = 0\<rparr>]\<rparr>"

lemma poll_request_checked: "check_command alloc poll_request = Inr (poll_request\<lparr>errstat := 0, errindex := 0\<rparr>)"
  by (simp add: check_command_def poll_request_def default_errors_def msg_defs SNMP_DEFAULT_ERRSTAT_def SNMP_DEFAULT_ERRINDEX_def
      snmp_create_sess_pdu_def)

lemma poll_request_rt: "pdu_rt (poll_request\<lparr>errstat := 0, errindex := 0\<rparr>)"
  by (simp add: pdu_rt_def poll_request_def snmp_create_sess_pdu_def var_rt_def var_ok_def val_ok_def val_rt_def objid_ok_def
      MAX_OID_LEN_def var_kind_def var_tag_defs is_request_def msg_defs)

lemma poll_request_lengths:
  "length (com_enc (with_community poll_session (poll_request\<lparr>errstat := 0, errindex := 0\<rparr>))) \<le> 60"
  "length (com_fwd (with_community poll_session (poll_request\<lparr>errstat := 0, errindex := 0\<rparr>))) \<le> 60"
  by code_simp+

definition poll_engine :: local_engine where
  "poll_engine = \<lparr>myID = [1, 2, 3], myBoots = 1, myTime = 10\<rparr>"

definition idle_usm :: usm where
  "idle_usm = \<lparr>etimelist = empty_etimelist, userList = [], noNameUser = \<lparr>user_engineID = None, user_name = [],
       authProtocol = usmNoAuthProtocol, authKey = [], privProtocol = usmNoPrivProtocol, privKey = [], userStatus = RS_ACTIVE\<rparr>,
     salt_integer = 0, salt_integer64_1 = 0, salt_integer64_2 = 0, statistics = (\<lambda>_. 0)\<rparr>"

text \<open>
  C3. A message with a community travels from one session to another. When \<^verbatim>\<open>_snmp_build\<close> accepts the type of the PDU,
  it builds the message with the defaulted fields of the PDU and the community of the PDU or of the session, in front of what the buffer holds, and \<^verbatim>\<open>_snmp_parse\<close> on a
  session of the same version or of any version returns the PDU with its version, community, fields and bindings; it does not touch the
  counters. The forward encoder writes a message that is parsed to the same PDU.
\<close>

theorem community_roundtrip:
  fixes alloc :: "nat \<Rightarrow> bool" and sess sess2 :: snmp_session and p p0 p1 q :: pdu and b :: rbuf
  assumes "check_command alloc p = Inr p1" "version p \<in> {SNMP_VERSION_1, SNMP_VERSION_2c}" "pdu_rt p1" "\<forall>n. alloc n"
    and q: "q = p1\<lparr>community := (if community p = [] \<and> command p \<noteq> SNMP_MSG_RESPONSE then s_community sess else community p)\<rparr>"
    and "length (community q) < 256" "valid_rbuf b" "offset b + length (com_enc q) < 2 ^ 31"
    and "length (agent_addr p) = 4" "length (com_fwd q) \<le> 0xFFFF" "length (com_fwd q) \<le> unat dl"
    and "length (agent_addr p0) = 4" "s_version sess2 = version p \<or> s_version sess2 = SNMP_DEFAULT_VERSION"
  shows "\<exists>b' w. snmp_build ssl alloc me sess cm nc nn p b st = (Inr (b', q), st) \<and>
    snmp_parse ssl alloc me nd sess2 tid p0 (contents b') addr (of_nat (offset b')) st =
      (Inr (pdu_decoded (com_received (p0\<lparr>transid := tid\<rparr>) q) q), None, sess2, st) \<and>
    snmp_build_forward alloc sess buf dl p = Inr (w, of_nat (length w), q) \<and>
    snmp_parse ssl alloc me nd sess2 tid p0 w addr (of_nat (length w)) st =
      (Inr (pdu_decoded (com_received (p0\<lparr>transid := tid\<rparr>) q) q), None, sess2, st)"
proof -
  note k = check_command_keeps[OF assms(1)]
  have w: "with_community sess p1 = q" using k by (simp add: with_community_def q)
  have ok: "pdu_ok p1" "pdu_rt q" using pdu_rt_ok assms(3) with_community_rt[OF assms(3), of sess] w by auto
  have v: "version q \<in> {SNMP_VERSION_1, SNMP_VERSION_2c}" "s_version sess2 \<in> {version q, SNMP_DEFAULT_VERSION}"
    using k assms(2,13) by (auto simp: q)
  obtain b' where b': "build_community alloc sess p b = Inr (b', q)" "valid_rbuf b'" "contents b' = com_enc q @ contents b"
    using build_community_built[OF assms(1,2) ok(1) assms(7,4), of sess] assms(8) by (auto simp: w)
  have o: "offset b' = length (com_enc q) + offset b" using length_contents[OF b'(2)] b'(3) assms(7) by simp
  have c1: "com_at (contents b') q (length (com_enc q))"
    using assms(8) by (intro com_enc_at) (use bytes_at_self[of "[]" "com_enc q" "contents b"] in \<open>simp_all add: b'(3)\<close>)
  have "snmp_parse ssl alloc me nd sess2 tid p0 (contents b') addr (of_nat (offset b')) st =
      (Inr (pdu_decoded (com_received (p0\<lparr>transid := tid\<rparr>) q) q), None, sess2, st)"
    using assms(8) o u32_unat_of_nat[of "offset b'"] by (intro snmp_parse_at[OF c1 _ assms(6) ok(2) assms(12,4) v(2,1)]) simp_all
  moreover have "snmp_build ssl alloc me sess cm nc nn p b st = (Inr (b', q), st)"
    using assms(2) by (auto simp: snmp_build_def b'(1) version_defs)
  moreover have "snmp_build_forward alloc sess buf dl p = Inr (com_fwd q, of_nat (length (com_fwd q)), q)"
    using build_forward_written[OF assms(1,2) ok(1) _ assms(4), of sess dl buf] assms(6,9,11) k by (simp add: w)
  moreover have c2: "com_at (com_fwd q) q (length (com_fwd q))"
    using assms(10) by (intro com_fwd_at) (use bytes_at_self[of "[]" "com_fwd q" "[]"] in simp_all)
  have "snmp_parse ssl alloc me nd sess2 tid p0 (com_fwd q) addr (of_nat (length (com_fwd q))) st =
      (Inr (pdu_decoded (com_received (p0\<lparr>transid := tid\<rparr>) q) q), None, sess2, st)"
    using assms(10) u32_unat_of_nat[of "length (com_fwd q)"] by (intro snmp_parse_at[OF c2 _ assms(6) ok(2) assms(12,4) v(2,1)]) simp_all
  ultimately show ?thesis by blast
qed

definition poll_sent :: pdu where
  "poll_sent = poll_request\<lparr>errstat := 0, errindex := 0, community := [0x70, 0x75, 0x62]\<rparr>"

theorem community_roundtrip_witness:
  "\<exists>b' w. snmp_build key_ssl (\<lambda>_. True) poll_engine poll_session 0 True True poll_request \<lparr>pkt = replicate 100 0, offset = 0\<rparr> idle_usm =
      (Inr (b', poll_sent), idle_usm) \<and>
    snmp_parse key_ssl (\<lambda>_. True) poll_engine False poll_session 5 snmp_create_sess_pdu (contents b') 0 (of_nat (offset b')) idle_usm =
      (Inr (pdu_decoded (com_received (snmp_create_sess_pdu\<lparr>transid := 5\<rparr>) poll_sent) poll_sent), None, poll_session, idle_usm) \<and>
    snmp_build_forward (\<lambda>_. True) poll_session [] 100 poll_request = Inr (w, of_nat (length w), poll_sent) \<and>
    snmp_parse key_ssl (\<lambda>_. True) poll_engine False poll_session 5 snmp_create_sess_pdu w 0 (of_nat (length w)) idle_usm =
      (Inr (pdu_decoded (com_received (snmp_create_sess_pdu\<lparr>transid := 5\<rparr>) poll_sent) poll_sent), None, poll_session, idle_usm)"
proof (rule community_roundtrip[OF poll_request_checked _ poll_request_rt])
  have c: "with_community poll_session (poll_request\<lparr>errstat := 0, errindex := 0\<rparr>) = poll_sent" by code_simp
  show "length (com_fwd poll_sent) \<le> 0xFFFF" "length (com_fwd poll_sent) \<le> unat (100 :: u32)"
      "offset \<lparr>pkt = replicate 100 (0 :: u8), offset = 0\<rparr> + length (com_enc poll_sent) < 2 ^ 31"
    using poll_request_lengths by (simp_all add: c)
qed (simp_all add: poll_sent_def poll_request_def poll_session_def snmp_create_sess_pdu_def valid_rbuf_def msg_defs)

lemma build_community_errors:
  assumes "check_command alloc p = Inr p1"
  shows "build_community alloc sess p b = Inl e \<Longrightarrow>
      e \<in> (if version p \<in> {SNMP_VERSION_1, SNMP_VERSION_2c} then {SNMPERR_MALLOC, SNMPERR_BAD_ASN1_BUILD, MessageFault} else {SNMPERR_BAD_VERSION})"
    "version p \<notin> {SNMP_VERSION_1, SNMP_VERSION_2c} \<Longrightarrow> build_community alloc sess p b = Inl SNMPERR_BAD_VERSION"
  using assms check_command_keeps[OF assms]
  by (auto simp: build_community_def default_community_def build_try_def split: if_splits sum.splits asn_error.splits)

lemma v3_defaults_errors:
  "v3_check_command p = Inr p1 \<Longrightarrow> v3_defaults alloc sess cm nc nn p = Inl e \<Longrightarrow>
     e \<in> {SNMPERR_BAD_CONTEXT, SNMPERR_V3 SNMPERR_GENERR, SNMPERR_BAD_SEC_NAME, SNMPERR_BAD_SEC_LEVEL}"
  by (auto simp: v3_defaults_def default_context_def default_name_def default_level_def split: if_splits option.splits)

lemma snmpv3_build_errors:
  assumes "v3_check_command p = Inr p1" "fst (snmpv3_build ssl alloc me sess cm nc nn p b st) = Inl e"
  shows "e \<in> {SNMPERR_BAD_CONTEXT, SNMPERR_BAD_SEC_NAME, SNMPERR_BAD_SEC_LEVEL} \<union> range SNMPERR_V3"
  using assms(2) v3_defaults_errors[OF assms(1), of alloc sess cm nc nn]
  by (auto simp: snmpv3_build_def split: sum.splits prod.splits)

lemma build_error_iff:
  assumes "e \<notin> {SNMPERR_MALLOC, SNMPERR_BAD_ASN1_BUILD, MessageFault, SNMPERR_BAD_CONTEXT, SNMPERR_BAD_SEC_NAME, SNMPERR_BAD_SEC_LEVEL} \<union> range SNMPERR_V3"
  shows "fst (snmp_build ssl alloc me sess cm nc nn p b st) = Inl e \<longleftrightarrow>
    (if version p = SNMP_VERSION_3 then v3_check_command p = Inl e
     else check_command alloc p = Inl e \<or>
       (\<exists>p1. check_command alloc p = Inr p1) \<and> version p \<notin> {SNMP_VERSION_1, SNMP_VERSION_2c} \<and> e = SNMPERR_BAD_VERSION)"
proof (cases "version p = SNMP_VERSION_3")
  case True
  show ?thesis
  proof (cases "v3_check_command p")
    case (Inl a)
    then show ?thesis using True by (simp add: snmp_build_def snmpv3_build_def v3_defaults_def)
  next
    case (Inr p1)
    then show ?thesis using True snmpv3_build_errors[OF Inr, of ssl alloc me sess cm nc nn b st e] assms by (auto simp: snmp_build_def)
  qed
next
  case False
  show ?thesis
  proof (cases "check_command alloc p")
    case (Inl a)
    then show ?thesis using False by (simp add: snmp_build_def build_community_def)
  next
    case (Inr p1)
    then show ?thesis using False build_community_errors[OF Inr, of sess b] assms by (auto simp: snmp_build_def split: if_splits)
  qed
qed

text \<open>
  C11. What \<^verbatim>\<open>_snmp_build\<close> refuses, and with which error: every type of PDU that the version of the message does not have,
  negative counts in a GetBulk request, and a version it cannot build.
\<close>

theorem build_refusals:
  fixes p :: pdu and alloc :: "nat \<Rightarrow> bool" and ssl :: openssl and me :: local_engine and sess :: snmp_session and cm :: int
    and nc nn :: bool and b :: rbuf and st :: usm
  defines "c \<equiv> command p" and "v \<equiv> version p"
  defines "counts \<equiv> 0 \<le> sint (errindex p) \<and> 0 \<le> sint (errstat p)"
  defines "r \<equiv> fst (snmp_build ssl alloc me sess cm nc nn p b st)"
  shows "(r = Inl SNMPERR_V2_IN_V1 \<longleftrightarrow> v = SNMP_VERSION_1 \<and> c \<in> {SNMP_MSG_TRAP2, SNMP_MSG_INFORM, SNMP_MSG_GETBULK}) \<and>
    (r = Inl SNMPERR_V1_IN_V2 \<longleftrightarrow> v \<noteq> SNMP_VERSION_1 \<and> c = SNMP_MSG_TRAP) \<and>
    (r = Inl SNMPERR_BAD_REPETITIONS \<longleftrightarrow> v \<noteq> SNMP_VERSION_1 \<and> c = SNMP_MSG_GETBULK \<and> sint (errindex p) < 0) \<and>
    (r = Inl SNMPERR_BAD_REPEATERS \<longleftrightarrow> v \<noteq> SNMP_VERSION_1 \<and> c = SNMP_MSG_GETBULK \<and> 0 \<le> sint (errindex p) \<and> sint (errstat p) < 0) \<and>
    (r = Inl SNMPERR_UNKNOWN_PDU \<longleftrightarrow> c \<notin> {SNMP_MSG_GET, SNMP_MSG_GETNEXT, SNMP_MSG_RESPONSE, SNMP_MSG_SET, SNMP_MSG_TRAP, SNMP_MSG_GETBULK,
      SNMP_MSG_INFORM, SNMP_MSG_TRAP2} \<and> \<not> (c = SNMP_MSG_REPORT \<and> v = SNMP_VERSION_3)) \<and>
    (r = Inl SNMPERR_BAD_VERSION \<longleftrightarrow> v \<notin> {SNMP_VERSION_1, SNMP_VERSION_2c, SNMP_VERSION_3} \<and>
      (c \<in> {SNMP_MSG_GET, SNMP_MSG_GETNEXT, SNMP_MSG_RESPONSE, SNMP_MSG_SET, SNMP_MSG_INFORM, SNMP_MSG_TRAP2} \<or> c = SNMP_MSG_GETBULK \<and> counts))"
proof -
  note i = build_error_iff[of _ ssl alloc me sess cm nc nn p b st, folded r_def]
  show ?thesis unfolding c_def v_def counts_def
    by (intro conjI; subst i; (simp; fail)?; simp add: v3_check_command_def check_command_def check_bulk_def Let_def msg_defs version_defs; fastforce)
qed

section \<open>Where community strings go wrong\<close>

text \<open>
  A community of exactly 256 bytes is accepted, but its last byte is overwritten: the parsed community is not the one that was sent.
\<close>

lemma full_community_damaged:
  assumes "com_at m p e" "e \<le> unat len" "length (community p) = 256"
  shows "\<exists>data n. snmp_comstr_parse m 0 len 256 = Inr (data, n, take 255 (community p) @ [0], version p)"
  using comstr_parse_at[OF assms(1,2)] assms(3) by auto

text \<open>\<^verbatim>\<open>snmp_comstr_build\<close> writes an empty community for one of 256 bytes.\<close>

lemma comstr_build_cuts:
  "snmp_comstr_build 100 (replicate 256 7) 256 1 0 = Inr ([0x30, 0x82, 0, 5, 2, 1, 1, 4, 0], 91)"
  by code_simp

end
