(* ===== verification/Session_Steps.thy ===== *)
theory Session_Steps
  imports Session_Queue Community_Roundtrip
begin

unbundle bit_operations_syntax

text \<open>
  Sessions with the message layer of \<open>Messages\<close>, the states they can reach, the delivery of responses, and the end of every request.
\<close>

section \<open>The message layer of the library\<close>

text \<open>The world of a session: the state of the security model, the message IDs, the clock and the packets on the wire.\<close>

record net =
  net_usm :: usm
  net_Msgid :: u32
  net_now :: timeval
  net_sent :: "u8 list list"

text \<open>
  The functions that are used when the hooks are not set. Memory is there; IDs have 31 bits; a packet that is given to the transport
  is on the wire; an empty context name or security name of a PDU is a NULL pointer.
\<close>

definition snmp_hooks :: "openssl \<Rightarrow> local_engine \<Rightarrow> net hooks" where
  "snmp_hooks ssl me =
     \<lparr>malloc = (\<lambda>_. True),
      hook_build = (\<lambda>ss p w.
        case snmp_build ssl (\<lambda>_. True) me ss 0 (contextName p = []) (securityName p = []) p \<lparr>pkt = replicate 2048 0, offset = 0\<rparr> (net_usm w) of
          (Inl e, st) \<Rightarrow> (Inl e, w\<lparr>net_usm := st\<rparr>)
        | (Inr (b, p), st) \<Rightarrow> (Inr (contents b, p), w\<lparr>net_usm := st\<rparr>)),
      hook_parse = (\<lambda>ss packet w.
        case snmp_parse ssl (\<lambda>_. True) me False ss 0 snmp_create_sess_pdu packet 0 (of_nat (length packet)) (net_usm w) of
          (r, _, ss, st) \<Rightarrow> (r, ss, w\<lparr>net_usm := st\<rparr>)),
      f_send = (\<lambda>packet w. (int (length packet), w\<lparr>net_sent := net_sent w @ [packet]\<rparr>)),
      gettimeofday = net_now,
      get_next_msgid = (\<lambda>w. case next_id False (net_Msgid w) of (r, n) \<Rightarrow> (r, w\<lparr>net_Msgid := n\<rparr>))\<rparr>"

lemma build_keeps_msgid:
  assumes "fst (snmp_build ssl alloc me ss cm nc nn p b st) = Inr (b', p')"
  shows "msgid p' = msgid p"
proof -
  have c: "check_command alloc p = Inr q \<Longrightarrow> msgid q = msgid p" for q
    by (auto simp: check_command_def check_bulk_def default_errors_def Let_def split: if_splits)
  have v: "v3_check_command p = Inr q \<Longrightarrow> msgid q = msgid p" for q
    by (auto simp: v3_check_command_def check_bulk_def default_errors_def Let_def split: if_splits)
  have d: "default_community alloc ss p = Inr q \<Longrightarrow> msgid q = msgid p" "msgid (default_engines alloc ss p) = msgid p"
      "default_context alloc ss nc p = Inr q \<Longrightarrow> msgid q = msgid p" "msgid (default_model ss cm p) = msgid p"
      "default_name alloc ss nn p = Inr q \<Longrightarrow> msgid q = msgid p" "default_level ss p = Inr q \<Longrightarrow> msgid q = msgid p" for p q
    by (auto simp: default_community_def default_engines_def default_context_def default_model_def default_name_def default_level_def Let_def
        split: if_splits option.splits)
  show ?thesis
    using assms
    by (auto simp: snmp_build_def snmpv3_build_def v3_defaults_def build_community_def d(2,4) ebind_eq_Inr
        split: if_splits sum.splits prod.splits dest!: c v d(1) d(3) d(5) d(6))
qed

interpretation snmp_layer: message_layer "snmp_hooks ssl me" for ssl me
proof
  fix ss p w packet p' w'
  assume "hook_build (snmp_hooks ssl me) ss p w = (Inr (packet, p'), w')"
  then show "msgid p' = msgid p"
    using build_keeps_msgid[of ssl "\<lambda>_. True" me ss 0 "contextName p = []" "securityName p = []" p "\<lparr>pkt = replicate 2048 0, offset = 0\<rparr>" "net_usm w"]
    by (auto simp: snmp_hooks_def split: prod.splits sum.splits)
qed

section \<open>Reachable states\<close>

text \<open>
  A session is opened without requests; then requests are sent at fresh addresses (or without memory for them), packets arrive,
  \<^verbatim>\<open>snmp_sess_timeout\<close> is called, and the world changes, in any order.
\<close>

inductive reachable_session :: "'w hooks \<Rightarrow> 'w session_list \<Rightarrow> bool" for h :: "'w hooks" where
  opened: "requests s = [] \<Longrightarrow> requestsEnd s = None \<Longrightarrow> 0 \<le> s_retries s \<Longrightarrow> reachable_session h s"
| sent: "reachable_session h s \<Longrightarrow> a \<notin> fst ` set (requests s) \<Longrightarrow> reachable_session h (snd (sess_async_send h (Some a) p cb s))"
| no_room: "reachable_session h s \<Longrightarrow> reachable_session h (snd (sess_async_send h None p cb s))"
| received: "reachable_session h s \<Longrightarrow> reachable_session h (snd (snd (sess_process_packet h packet s)))"
| timed: "reachable_session h s \<Longrightarrow> reachable_session h (snmp_sess_timeout h s)"
| passed: "reachable_session h s \<Longrightarrow> reachable_session h (s\<lparr>env := w\<rparr>)"

lemma reachable_session_ok:
  assumes "reachable_session (snmp_hooks ssl me) s"
  shows "sess_ok s"
  using assms
proof induction
  case (opened s)
  then show ?case by (simp add: sess_ok_def queue_end_def)
next
  case (sent s a p cb)
  then show ?case by (intro snmp_layer.send_ok) simp_all
next
  case (no_room s p cb)
  then show ?case by (intro snmp_layer.send_ok) simp_all
next
  case (received s packet)
  then show ?case by (intro snmp_layer.packet_ok)
next
  case (timed s)
  then show ?case by (intro snmp_layer.timeout_ok)
next
  case (passed s w)
  then show ?case by (simp add: sess_ok_def)
qed

section \<open>Delivery\<close>

text \<open>The state after a packet has been parsed.\<close>

definition parsed_state :: "snmp_session \<Rightarrow> 'w \<Rightarrow> 'w session_list \<Rightarrow> 'w session_list" where
  "parsed_state ss w s = s\<lparr>sess := ss, env := w, s_snmp_errno := NoError\<rparr>"

definition answers :: "pdu \<Rightarrow> nat \<times> 'w request \<Rightarrow> bool" where
  "answers p r \<longleftrightarrow> request_id (snd r) = reqid p"

lemma map_of_entry: "distinct (map fst rs) \<Longrightarrow> (a, r) \<in> set rs \<Longrightarrow> map_of rs a = Some r"
  by simp

lemma match_loop_skip:
  assumes "version p \<noteq> SNMP_VERSION_3" "distinct (map fst (requests s))" "set xs \<subseteq> set (requests s)" "\<forall>r\<in>set xs. \<not> answers p r"
  shows "match_loop_rq h p orp (map fst xs @ as) hnd s = match_loop_rq h p (if xs = [] then orp else Some (fst (last xs))) as hnd s"
  using assms(3,4)
proof (induction xs arbitrary: orp)
  case (Cons x xs)
  obtain a r where x: "x = (a, r)" by (cases x)
  have "map_of (requests s) a = Some r" using Cons.prems(1) assms(2) by (simp add: x)
  then show ?case using Cons.IH[of "Some a"] Cons.prems assms(1) by (simp add: x answers_def)
qed simp

lemma unlink_split:
  assumes "distinct (map fst (xs @ (a, rp) # ys))" "requests s = xs @ (a, rp) # ys" "requestsEnd s = queue_end (requests s)"
    and "orp = (if xs = [] then None else Some (fst (last xs)))"
  shows "unlink_request orp a s = s\<lparr>requests := xs @ ys, requestsEnd := queue_end (xs @ ys)\<rparr>"
proof -
  have f: "filter (\<lambda>(b, _). b \<noteq> a) xs = xs" "filter (\<lambda>(b, _). b \<noteq> a) ys = ys"
    using assms(1) by (force intro!: filter_True)+
  have n: "ys \<noteq> [] \<Longrightarrow> fst (last ys) \<noteq> a" using assms(1) last_in_set[of ys] by (metis (no_types, lifting) distinct.simps(2)
    distinct_append fst_conv imageI list.set_map list.simps(9) map_append)
  have "fst (hd (xs @ (a, rp) # ys)) = a \<longleftrightarrow> xs = []" using assms(1) by (cases xs) auto
  then have "(if requestsEnd s = Some a then if requests s \<noteq> [] \<and> fst (hd (requests s)) = a then None else orp else requestsEnd s) =
      queue_end (xs @ ys)"
    using assms(2-) n by (auto simp: queue_end_def)
  then show ?thesis by (simp add: unlink_request_def assms(2) f)
qed

lemma process_response:
  assumes ok: "sess_ok s" and parsed: "hook_parse h (sess s) packet (env s) = (Inr p, ss, w)"
    and p: "version p \<noteq> SNMP_VERSION_3" "flags p AND UCD_MSG_FLAG_RESPONSE_PDU \<noteq> 0" "command p \<noteq> SNMP_MSG_REPORT"
    and taken: "\<forall>(a, rp)\<in>set (requests s). fst (call_back (callback_of rp s) NETSNMP_CALLBACK_OP_RECEIVED_MESSAGE (reqid p) p (parsed_state ss w s)) = 1"
  shows "sess_process_packet h packet s =
    (case dropWhile (\<lambda>r. \<not> answers p r) (requests s) of
       [] \<Rightarrow> (0, False, parsed_state ss w s)
     | (a, rp) # ys \<Rightarrow>
         let xs = takeWhile (\<lambda>r. \<not> answers p r) (requests s);
             s2 = snd (call_back (callback_of rp s) NETSNMP_CALLBACK_OP_RECEIVED_MESSAGE (reqid p) p (parsed_state ss w s))
         in (0, True, s2\<lparr>requests := xs @ ys, requestsEnd := queue_end (xs @ ys)\<rparr>))"
proof -
  let ?s = "parsed_state ss w s" and ?xs = "takeWhile (\<lambda>r. \<not> answers p r) (requests s)"
  have r: "requests ?s = requests s" "requestsEnd ?s = requestsEnd s" "callback_of rp ?s = callback_of rp s" for rp
    by (simp_all add: parsed_state_def callback_of_def)
  have d: "distinct (map fst (requests s))" "requestsEnd s = queue_end (requests s)" using ok by (simp_all add: sess_ok_def)
  have u: "sess_process_packet h packet s =
      (case match_loop_rq h p None (map fst (requests s)) False ?s of (hnd, t) \<Rightarrow> (0, hnd, t))"
    using p(2) by (simp add: sess_process_packet_def parsed parsed_state_def)
  have xs: "set ?xs \<subseteq> set (requests ?s)" "\<forall>r\<in>set ?xs. \<not> answers p r" by (auto simp: r dest: set_takeWhileD)
  show ?thesis
  proof (cases "dropWhile (\<lambda>r. \<not> answers p r) (requests s)")
    case Nil
    then have "match_loop_rq h p None (map fst (requests s)) False ?s = (False, ?s)"
      using match_loop_skip[OF p(1), of ?s "requests s" h None "[]" False] d(1) by (simp add: r)
    then show ?thesis by (simp add: u Nil)
  next
    case (Cons x ys)
    obtain a rp where x: "x = (a, rp)" by (cases x)
    have sp: "requests s = ?xs @ (a, rp) # ys" using Cons x by (metis takeWhile_dropWhile_id)
    have ap: "answers p (a, rp)" using Cons x by (metis dropWhile_eq_Cons_conv)
    have mo: "map_of (requests s) a = Some rp" using d(1) sp by (metis in_set_conv_decomp map_of_entry)
    let ?orp = "if ?xs = [] then None else Some (fst (last ?xs))"
    have m: "match_loop_rq h p None (map fst (requests s)) False ?s = match_loop_rq h p ?orp (a # map fst ys) False ?s"
      using match_loop_skip[OF p(1) _ xs, of h None "a # map fst ys" False] d(1) by (subst sp) (simp add: r)
    have "(a, rp) \<in> set (requests s)" by (subst sp) simp
    with taken have "fst (call_back (callback_of rp s) NETSNMP_CALLBACK_OP_RECEIVED_MESSAGE (reqid p) p ?s) = 1" by fastforce
    then obtain s2 where c: "call_back (callback_of rp s) NETSNMP_CALLBACK_OP_RECEIVED_MESSAGE (reqid p) p ?s = (1, s2)"
      by (metis prod.collapse)
    note f = call_back_fields[OF c]
    have un: "unlink_request ?orp a s2 = s2\<lparr>requests := ?xs @ ys, requestsEnd := queue_end (?xs @ ys)\<rparr>"
      using unlink_split[of ?xs a rp ys s2 ?orp] d f sp by (simp add: r)
    have "match_loop_rq h p ?orp (a # map fst ys) False ?s = (True, unlink_request ?orp a s2)"
      using p ap c mo by (simp add: r answers_def)
    then show ?thesis by (simp add: u m un Cons x c Let_def)
  qed
qed

end
