(* ===== verification/Session_Timeouts.thy ===== *)
theory Session_Timeouts
  imports Session_Steps
begin

unbundle bit_operations_syntax

text \<open>
  Time in a session: no request waits forever, and \<^verbatim>\<open>snmp_sess_select_info2\<close> tells the application to wake up in time.
\<close>

section \<open>Every request comes to an end\<close>

text \<open>
  A measure of what can still happen to the pending requests: a request can be sent again until it has been sent again \<open>s_retries + 1\<close>
  times, and can then be dropped.
\<close>

definition weight :: "int \<Rightarrow> 'w request \<Rightarrow> nat" where
  "weight n rp = nat (n + 2 - retries rp)"

definition queue_weight :: "'w session_list \<Rightarrow> nat" where
  "queue_weight s = sum_list (map (\<lambda>(a, rp). weight (s_retries s) rp) (requests s))"

lemma queue_weight_cong: "requests s' = requests s \<Longrightarrow> s_retries s' = s_retries s \<Longrightarrow> queue_weight s' = queue_weight s"
  by (simp add: queue_weight_def)

lemma replace_weight:
  assumes "distinct (map fst rs)" "(a, r) \<in> set rs"
  shows "sum_list (map (\<lambda>(b, x). f x) (map (\<lambda>(b, x). if b = a then (b, y) else (b, x)) rs)) + f r =
    sum_list (map (\<lambda>(b, x). f x) rs) + (f y :: nat)"
  using assms
proof (induction rs)
  case (Cons z rs)
  obtain b x where z: "z = (b, x)" by (cases z)
  show ?case
  proof (cases "b = a")
    case True
    then have "a \<notin> fst ` set rs" "x = r" using Cons.prems by (force simp: z)+
    then have "map (\<lambda>(b, x). if b = a then (b, y) else (b, x)) rs = rs" by (force intro!: map_idI)
    then show ?thesis using True \<open>x = r\<close> by (simp add: z)
  next
    case False
    then have "(a, r) \<in> set rs" "distinct (map fst rs)" using Cons.prems by (auto simp: z)
    from Cons.IH[OF this(2,1)] show ?thesis using False by (simp add: z)
  qed
qed simp

lemma remove_weight:
  assumes "distinct (map fst rs)" "(a, r) \<in> set rs"
  shows "sum_list (map (\<lambda>(b, x). f x) (filter (\<lambda>(b, _). b \<noteq> a) rs)) + f r = sum_list (map (\<lambda>(b, x). f x :: nat) rs)"
  using assms
proof (induction rs)
  case (Cons z rs)
  obtain b x where z: "z = (b, x)" by (cases z)
  show ?case
  proof (cases "b = a")
    case True
    then have "a \<notin> fst ` set rs" "x = r" using Cons.prems by (force simp: z)+
    then have "filter (\<lambda>(b, _). b \<noteq> a) rs = rs" by (force intro!: filter_True)
    then show ?thesis using True \<open>x = r\<close> by (simp add: z)
  next
    case False
    then have "(a, r) \<in> set rs" "distinct (map fst rs)" using Cons.prems by (auto simp: z)
    from Cons.IH[OF this(2,1)] show ?thesis using False by (simp add: z)
  qed
qed simp

lemma resend_weight:
  assumes ok: "sess_ok s" and rp: "(a, rp) \<in> set (requests s)" and m: "malloc h 2048"
    and r: "snmp_resend_request h a rp True s = (result, s')"
  shows "queue_weight s' < queue_weight s"
proof -
  obtain rp' s1 where s': "s' = set_request a rp' s1" "requests s1 = requests s" "s_retries s1 = s_retries s" "retries rp' = retries rp + 1"
  proof -
    have "\<exists>rp' s1. s' = set_request a rp' s1 \<and> requests s1 = requests s \<and> s_retries s1 = s_retries s \<and> retries rp' = retries rp + 1"
      using r m by (auto simp: snmp_resend_request_def Let_def split: prod.splits sum.splits if_splits intro!: exI)
    then show ?thesis using that by blast
  qed
  have "retries rp \<le> s_retries s + 1" "distinct (map fst (requests s))" using ok rp by (auto simp: sess_ok_def request_ok_def)
  moreover from this(1) have "weight (s_retries s) rp' < weight (s_retries s) rp" by (simp add: weight_def s'(4))
  ultimately show ?thesis
    using replace_weight[of "requests s" a rp "weight (s_retries s)" rp'] rp by (simp add: queue_weight_def s' set_request_def)
qed

lemma unlink_weight:
  assumes "sess_ok s" "(a, rp) \<in> set (requests s)"
  shows "queue_weight (unlink_request orp a s) < queue_weight s"
proof -
  have "0 < weight (s_retries s) rp" "distinct (map fst (requests s))"
    using assms by (auto simp: sess_ok_def request_ok_def weight_def)
  then show ?thesis
    using remove_weight[of "requests s" a rp "weight (s_retries s)"] assms(2) by (simp add: queue_weight_def unlink_request_def)
qed

context message_layer
begin

lemma timeout_loop_weight:
  "sess_ok s \<Longrightarrow> at_position orp as s \<Longrightarrow> malloc h 2048 \<Longrightarrow>
     queue_weight (timeout_loop h now orp as s) \<le> queue_weight s \<and>
     ((\<exists>a\<in>set as. \<exists>rp. (a, rp) \<in> set (requests s) \<and> timercmp_less (expire rp) now) \<longrightarrow>
        queue_weight (timeout_loop h now orp as s) < queue_weight s)"
proof (induction as arbitrary: orp s)
  case (Cons a as)
  obtain rp where rp: "map_of (requests s) a = Some rp" using at_position_entry[OF Cons.prems(2)] by blast
  have m: "(a, rp) \<in> set (requests s)" by (rule map_of_SomeD[OF rp])
  have d: "distinct (map fst (requests s))" using Cons.prems(1) by (simp add: sess_ok_def)
  show ?case
  proof (cases "timercmp_less (expire rp) now")
    case True
    have "queue_weight (timeout_loop h now orp (a # as) s) < queue_weight s"
    proof (cases "retries rp \<ge> s_retries s")
      case give_up: True
      obtain r s1 where c: "call_back (callback_of rp s) NETSNMP_CALLBACK_OP_TIMED_OUT (reqid (rq_pdu rp)) (rq_pdu rp) s = (r, s1)" by force
      note f = call_back_fields[OF c]
      have s1: "sess_ok s1" "at_position orp (a # as) s1" using call_back_keeps[OF c] Cons.prems by auto
      have "queue_weight (unlink_request orp a s1) < queue_weight s"
        using unlink_weight[OF s1(1), of a rp orp] m f queue_weight_cong[of s1 s] by simp
      then show ?thesis
        using Cons.IH[of "unlink_request orp a s1" orp] unlink_request_ok[OF s1] Cons.prems(3) by (simp add: rp True give_up c)
    next
      case False
      obtain r s1 where c: "snmp_resend_request h a rp True s = (r, s1)" by force
      note k = resend_ok[OF Cons.prems(1) m _ c]
      have "sess_ok s1" "at_position (Some a) as s1" using k at_position_next[OF Cons.prems(2), of s1] False by auto
      then show ?thesis
        using Cons.IH[of s1 "Some a"] resend_weight[OF Cons.prems(1) m Cons.prems(3) c] Cons.prems(3) False by (simp add: rp True c)
    qed
    then show ?thesis by simp
  next
    case False
    then have "\<not> timercmp_less (expire r) now" if "(a, r) \<in> set (requests s)" for r using that map_of_entry[OF d that] rp by simp
    then show ?thesis
      using Cons.IH[of s "Some a"] Cons.prems at_position_next[OF Cons.prems(2), of s] False by (auto simp: rp)
  qed
qed simp

lemma timeout_weight:
  assumes "sess_ok s" "malloc h 2048" "\<exists>(a, rp)\<in>set (requests s). timercmp_less (expire rp) (gettimeofday h (env s))"
  shows "queue_weight (snmp_sess_timeout h s) < queue_weight s"
  using timeout_loop_weight[OF assms(1), of None "map fst (requests s)" "gettimeofday h (env s)"] assms(2,3)
  by (force simp: snmp_sess_timeout_def)

end

text \<open>
  Calls of \<^verbatim>\<open>snmp_sess_timeout\<close>; what happens in the world before each of them is a function. They are made in time when at each of them
  some pending request has expired.
\<close>

fun run_timeouts :: "'w hooks \<Rightarrow> ('w \<Rightarrow> 'w) list \<Rightarrow> 'w session_list \<Rightarrow> 'w session_list" where
  "run_timeouts h [] s = s"
| "run_timeouts h (f # fs) s = run_timeouts h fs (snmp_sess_timeout h (s\<lparr>env := f (env s)\<rparr>))"

fun in_time :: "'w hooks \<Rightarrow> ('w \<Rightarrow> 'w) list \<Rightarrow> 'w session_list \<Rightarrow> bool" where
  "in_time h [] s \<longleftrightarrow> True"
| "in_time h (f # fs) s \<longleftrightarrow>
     (requests s = [] \<or> list_ex (\<lambda>(a, rp). timercmp_less (expire rp) (gettimeofday h (f (env s)))) (requests s)) \<and>
     in_time h fs (snmp_sess_timeout h (s\<lparr>env := f (env s)\<rparr>))"

lemma timeout_empty: "requests s = [] \<Longrightarrow> snmp_sess_timeout h s = s"
  by (simp add: snmp_sess_timeout_def)

lemma run_timeouts_empty: "requests s = [] \<Longrightarrow> requests (run_timeouts h fs s) = []"
  by (induction fs arbitrary: s) (simp_all add: timeout_empty)

lemma weight_zero: "sess_ok s \<Longrightarrow> queue_weight s = 0 \<Longrightarrow> requests s = []"
  by (cases "requests s") (auto simp: queue_weight_def sess_ok_def request_ok_def weight_def)

context message_layer
begin

lemma run_timeouts_end:
  "sess_ok s \<Longrightarrow> malloc h 2048 \<Longrightarrow> in_time h fs s \<Longrightarrow> queue_weight s \<le> length fs \<Longrightarrow> requests (run_timeouts h fs s) = []"
proof (induction fs arbitrary: s)
  case Nil
  then show ?case using weight_zero[of s] by simp
next
  case (Cons f fs)
  show ?case
  proof (cases "requests s = []")
    case True
    then show ?thesis by (rule run_timeouts_empty)
  next
    case False
    let ?s = "s\<lparr>env := f (env s)\<rparr>"
    have ok: "sess_ok ?s" using Cons.prems(1) by (simp add: sess_ok_def)
    have "\<exists>(a, rp)\<in>set (requests ?s). timercmp_less (expire rp) (gettimeofday h (env ?s))"
      using Cons.prems(3) False by (auto simp: list_ex_iff)
    from timeout_weight[OF ok Cons.prems(2) this] have "queue_weight (snmp_sess_timeout h ?s) < queue_weight s"
      using queue_weight_cong[of ?s s] by simp
    then show ?thesis using Cons.IH[OF timeout_ok[OF ok]] Cons.prems by simp
  qed
qed

end

section \<open>How long to wait\<close>

definition usecs :: "timeval \<Rightarrow> int" where
  "usecs t = sint (tv_sec t) * 1000000 + sint (tv_usec t)"

definition normal_time :: "timeval \<Rightarrow> bool" where
  "normal_time t \<longleftrightarrow> 0 \<le> sint (tv_sec t) \<and> 0 \<le> sint (tv_usec t) \<and> sint (tv_usec t) < 1000000"

lemma sint_eq_iff: "a = b \<longleftrightarrow> sint a = sint (b :: u32)"
  by (auto intro: signed_word_eqI)

lemma sint_of_int_u32: "- (2 ^ 31) \<le> k \<Longrightarrow> k < 2 ^ 31 \<Longrightarrow> sint (of_int k :: u32) = k"
  by (simp add: sint_sbintrunc' signed_take_bit_int_eq_self)

lemma timercmp_usecs: "normal_time a \<Longrightarrow> normal_time b \<Longrightarrow> timercmp_less a b \<longleftrightarrow> usecs a < usecs b"
proof -
  assume n: "normal_time a" "normal_time b"
  have e: "tv_sec a = tv_sec b \<longleftrightarrow> sint (tv_sec a) = sint (tv_sec b)" by (rule sint_eq_iff)
  show ?thesis using n unfolding timercmp_less_def usecs_def normal_time_def e by (cases "sint (tv_sec a) < sint (tv_sec b)") auto
qed

lemma earliest_least:
  assumes "\<forall>(a, rp)\<in>set rs. normal_time (expire rp)" "normal_time e" "timerisset e" "\<forall>(a, rp)\<in>set rs. timerisset (expire rp)"
  shows "normal_time (earliest e rs) \<and> (earliest e rs = e \<or> (\<exists>(a, rp)\<in>set rs. earliest e rs = expire rp)) \<and>
    usecs (earliest e rs) \<le> usecs e \<and> (\<forall>(a, rp)\<in>set rs. usecs (earliest e rs) \<le> usecs (expire rp))"
  using assms
proof (induction rs arbitrary: e)
  case (Cons x rs)
  obtain a rp where x: "x = (a, rp)" by (cases x)
  let ?e = "if timercmp_less (expire rp) e then expire rp else e"
  have "normal_time ?e" "timerisset ?e" "usecs ?e \<le> usecs e" "usecs ?e \<le> usecs (expire rp)"
    using Cons.prems timercmp_usecs[of "expire rp" e] by (auto simp: x)
  moreover have "earliest e (x # rs) = earliest ?e rs" using Cons.prems(3) by (simp add: x)
  ultimately show ?case using Cons.IH[of ?e] Cons.prems(1,4) by (fastforce simp: x split: if_splits)
qed simp

lemma sint_diff_u32: "0 \<le> sint a \<Longrightarrow> 0 \<le> sint b \<Longrightarrow> sint (a - b :: u32) = sint a - sint b"
proof -
  assume n: "0 \<le> sint a" "0 \<le> sint b"
  have "a - b = of_int (sint a - sint b)" by simp
  moreover have "sint a < 2 ^ 31" "sint b < 2 ^ 31" using sint_lt[of a] sint_lt[of b] by simp_all
  ultimately show ?thesis using n sint_of_int_u32[of "sint a - sint b"] by simp
qed

lemma time_left_bound:
  assumes "normal_time e" "normal_time now"
  shows "normal_time (time_left e now) \<and>
    (if usecs now \<le> usecs e then usecs (time_left e now) = usecs e - usecs now else usecs (time_left e now) \<le> 100)"
proof -
  have s: "sint (tv_sec e - tv_sec now) = sint (tv_sec e) - sint (tv_sec now)"
      "sint (tv_usec e - tv_usec now) = sint (tv_usec e) - sint (tv_usec now)"
    using assms by (auto simp: normal_time_def intro!: sint_diff_u32)
  have q: "tv_sec e = tv_sec now \<longleftrightarrow> sint (tv_sec e) = sint (tv_sec now)" by (rule sint_eq_iff)
  have one: "sint (tv_sec e - tv_sec now - 1) = sint (tv_sec e) - sint (tv_sec now) - 1" if "sint (tv_sec now) < sint (tv_sec e)"
    using sint_diff_u32[of "tv_sec e - tv_sec now" 1] s that by simp
  have bor: "sint (1000000 + (tv_usec e - tv_usec now)) = 1000000 + sint (tv_usec e) - sint (tv_usec now)"
    if "sint (tv_usec e) < sint (tv_usec now)"
  proof -
    have "1000000 + (tv_usec e - tv_usec now) = of_int (1000000 + sint (tv_usec e) - sint (tv_usec now))" by simp
    then have "1000000 + tv_usec e - tv_usec now = of_int (1000000 + sint (tv_usec e) - sint (tv_usec now))" by (simp add: add_diff_eq)
    then show ?thesis unfolding add_diff_eq using assms that sint_of_int_u32[of "1000000 + sint (tv_usec e) - sint (tv_usec now)"]
      by (simp add: normal_time_def)
  qed
  show ?thesis
    unfolding time_left_def q s using assms one bor s
    by (auto simp: normal_time_def usecs_def)
qed

end
