(* ===== verification/Synch.thy ===== *)
theory Synch
  imports Session_Timeouts
begin

unbundle bit_operations_syntax

text \<open>
  Synchronous requests (\<^verbatim>\<open>snmplib/snmp_client.c\<close>), as the command line tools make them: \<^verbatim>\<open>snmp_sess_synch_response\<close> sends a request and
  waits for its answer with the callback \<^verbatim>\<open>snmp_synch_input\<close> (memory for the copy of the response is there). The state of the wait is in front of the world of the session. What
  \<^verbatim>\<open>select\<close> finds is a sequence of events, each with what happened in the world before it.
\<close>

section \<open>Operations\<close>

datatype status = ST_SUCCESS | ST_ERROR | ST_TIMEOUT

record synch_state =
  waiting :: bool
  status :: status
  st_reqid :: u32
  st_pdu :: "pdu option"

definition snmp_synch_input :: "(synch_state \<times> 'w) callback" where
  "snmp_synch_input op rid p ew =
     (case ew of (e, st, w) \<Rightarrow>
        if rid \<noteq> st_reqid st \<and> command p \<noteq> SNMP_MSG_REPORT then (0, e, st, w)
        else let st = st\<lparr>waiting := False\<rparr> in
        (case op of
           NETSNMP_CALLBACK_OP_RECEIVED_MESSAGE \<Rightarrow>
             if command p = SNMP_MSG_REPORT then
               (1, ReportError (snmpv3_get_report_type p),
                 st\<lparr>waiting := (snmpv3_get_report_type p = SNMPERR_NOT_IN_TIME_WINDOW), st_pdu := None, status := ST_ERROR\<rparr>, w)
             else if command p = SNMP_MSG_RESPONSE then (1, NoError, st\<lparr>st_pdu := Some p, status := ST_SUCCESS\<rparr>, w)
             else (0, ProtocolError, st\<lparr>status := ST_ERROR\<rparr>, w)
         | NETSNMP_CALLBACK_OP_TIMED_OUT \<Rightarrow> (1, TimeoutError, st\<lparr>st_pdu := None, status := ST_TIMEOUT\<rparr>, w)
         | NETSNMP_CALLBACK_OP_DISCONNECT \<Rightarrow> (1, AbortError, st\<lparr>st_pdu := None, status := ST_ERROR\<rparr>, w)))"

datatype select_event = Packet "u8 list" | Expired | Interrupted | SelectFailed

type_synonym 'w session_synch = "(synch_state \<times> 'w) session_list"

definition synch_of :: "'w session_synch \<Rightarrow> synch_state" where
  "synch_of s = fst (env s)"

definition set_synch :: "synch_state \<Rightarrow> 'w session_synch \<Rightarrow> 'w session_synch" where
  "set_synch st s = s\<lparr>env := (st, snd (env s))\<rparr>"

definition world_moves :: "('w \<Rightarrow> 'w) \<Rightarrow> 'w session_synch \<Rightarrow> 'w session_synch" where
  "world_moves f s = s\<lparr>env := (synch_of s, f (snd (env s)))\<rparr>"

text \<open>One turn of the loop.\<close>

definition synch_turn :: "(synch_state \<times> 'w) hooks \<Rightarrow> ('w \<Rightarrow> 'w) \<times> select_event \<Rightarrow> 'w session_synch \<Rightarrow> 'w session_synch" where
  "synch_turn h ev s =
     (let s = world_moves (fst ev) s in
      case snd ev of
        Packet m \<Rightarrow> snd (snd (sess_process_packet h m s))
      | Expired \<Rightarrow> snmp_sess_timeout h s
      | Interrupted \<Rightarrow> s
      | SelectFailed \<Rightarrow> set_synch ((synch_of s)\<lparr>waiting := False, status := ST_ERROR\<rparr>) s)"

text \<open>The loop for as long as there are events; \<open>None\<close> when it still waits after them.\<close>

fun synch_loop :: "(synch_state \<times> 'w) hooks \<Rightarrow> (('w \<Rightarrow> 'w) \<times> select_event) list \<Rightarrow> 'w session_synch \<Rightarrow> 'w session_synch option" where
  "synch_loop h evs s =
     (if \<not> waiting (synch_of s) then Some s
      else case evs of [] \<Rightarrow> None | ev # evs \<Rightarrow> synch_loop h evs (synch_turn h ev s))"

declare synch_loop.simps [simp del]

text \<open>The status, the response and the state; the callback of the session is put back.\<close>

definition synch_send :: "(synch_state \<times> 'w) hooks \<Rightarrow> nat option \<Rightarrow> pdu \<Rightarrow> 'w session_synch \<Rightarrow> u32 \<times> 'w session_synch" where
  "synch_send h room p s =
     (case sess_async_send h room p None
         (set_synch \<lparr>waiting = False, status = ST_SUCCESS, st_reqid = 0, st_pdu = None\<rparr> (s\<lparr>s_callback := Some snmp_synch_input\<rparr>)) of
        (rid, s) \<Rightarrow>
          (rid, set_synch ((synch_of s)\<lparr>st_reqid := rid, status := (if rid = 0 then ST_ERROR else ST_SUCCESS), waiting := (rid \<noteq> 0)\<rparr>) s))"

definition snmp_sess_synch_response ::
  "(synch_state \<times> 'w) hooks \<Rightarrow> nat option \<Rightarrow> pdu \<Rightarrow> (('w \<Rightarrow> 'w) \<times> select_event) list \<Rightarrow> 'w session_synch \<Rightarrow>
   (status \<times> pdu option \<times> 'w session_synch) option" where
  "snmp_sess_synch_response h room p evs s =
     map_option (\<lambda>t. (status (synch_of t), st_pdu (synch_of t), t\<lparr>s_callback := s_callback s\<rparr>))
       (synch_loop h evs (snd (synch_send h room p s)))"

section \<open>The response answers the request\<close>

text \<open>The functions of the message layer leave the state of the wait alone.\<close>

definition synch_neutral :: "(synch_state \<times> 'w) hooks \<Rightarrow> bool" where
  "synch_neutral h \<longleftrightarrow> (\<forall>ss p m w. fst (snd (hook_build h ss p w)) = fst w \<and> fst (snd (snd (hook_parse h ss m w))) = fst w \<and>
     fst (snd (f_send h m w)) = fst w \<and> fst (snd (get_next_msgid h w)) = fst w)"

lemma synch_neutralD:
  assumes "synch_neutral h"
  shows "hook_build h ss p w = (r, w') \<Longrightarrow> fst w' = fst w" "hook_parse h ss m w = (r', ss', w') \<Longrightarrow> fst w' = fst w"
    "f_send h m w = (k, w') \<Longrightarrow> fst w' = fst w" "get_next_msgid h w = (i, w') \<Longrightarrow> fst w' = fst w"
  using assms unfolding synch_neutral_def by (metis fst_conv snd_conv)+

text \<open>What holds of the state of the wait: a response it has is one for the request.\<close>

definition wait_ok :: "u32 \<Rightarrow> synch_state \<Rightarrow> bool" where
  "wait_ok rid st \<longleftrightarrow> st_reqid st = rid \<and>
     (case st_pdu st of
        None \<Rightarrow> \<not> waiting st \<longrightarrow> status st \<noteq> ST_SUCCESS
      | Some r \<Rightarrow> reqid r = rid \<and> command r = SNMP_MSG_RESPONSE)"

definition synch_ok :: "u32 \<Rightarrow> 'w session_synch \<Rightarrow> bool" where
  "synch_ok rid s \<longleftrightarrow> s_callback s = Some snmp_synch_input \<and> wait_ok rid (synch_of s) \<and> (\<forall>(a, rp)\<in>set (requests s). callback rp = None)"

lemma wait_input_ok:
  assumes "wait_ok rid st" "snmp_synch_input op i p (e, st, w) = (r, e', st', w')" "op = NETSNMP_CALLBACK_OP_RECEIVED_MESSAGE \<longrightarrow> i = reqid p"
  shows "wait_ok rid st'"
  using assms
  by (auto simp: wait_ok_def snmp_synch_input_def Let_def split: if_splits callback_op.splits option.splits)

lemma no_own_callback: "synch_ok rid s \<Longrightarrow> (a, rp) \<in> set (requests s) \<Longrightarrow> callback rp = None"
  by (auto simp: synch_ok_def)

lemma callback_synch: "synch_ok rid s \<Longrightarrow> (a, rp) \<in> set (requests s) \<Longrightarrow> callback_of rp s = Some snmp_synch_input"
  by (auto simp: synch_ok_def callback_of_def)

lemma synch_input_ok:
  assumes "synch_ok rid s" "call_back (Some snmp_synch_input) op i p s = (r, s')" "op = NETSNMP_CALLBACK_OP_RECEIVED_MESSAGE \<longrightarrow> i = reqid p"
  shows "synch_ok rid s'"
  using assms wait_input_ok[of rid "synch_of s" op i p "s_snmp_errno s" "snd (env s)"]
  by (auto simp: synch_ok_def call_back_def synch_of_def split: prod.splits)

lemma resend_synch:
  assumes "synch_neutral h" "snmp_resend_request h a rp True s = (r, s')" "synch_ok rid s" "callback rp = None"
  shows "synch_ok rid s'"
  using assms(2-)
  by (auto simp: snmp_resend_request_def Let_def set_request_def synch_of_def synch_ok_def split: prod.splits sum.splits if_splits
      dest!: synch_neutralD[OF assms(1)])

lemma unlink_synch: "synch_ok rid s \<Longrightarrow> synch_ok rid (unlink_request orp a s)"
  by (auto simp: synch_ok_def unlink_request_def synch_of_def)

lemma timeout_loop_synch:
  assumes "synch_neutral h"
  shows "synch_ok rid s \<Longrightarrow> synch_ok rid (timeout_loop h now orp as s)"
proof (induction as arbitrary: orp s)
  case (Cons a as)
  show ?case
  proof (cases "map_of (requests s) a")
    case (Some rp)
    have m: "(a, rp) \<in> set (requests s)" by (rule map_of_SomeD[OF Some])
    obtain r1 s1 where c: "call_back (callback_of rp s) NETSNMP_CALLBACK_OP_TIMED_OUT (reqid (rq_pdu rp)) (rq_pdu rp) s = (r1, s1)" by force
    obtain r2 s2 where d: "snmp_resend_request h a rp True s = (r2, s2)" by force
    have "synch_ok rid s1" using synch_input_ok[OF Cons.prems c[unfolded callback_synch[OF Cons.prems m]]] by simp
    moreover have "synch_ok rid s2" by (rule resend_synch[OF assms d Cons.prems no_own_callback[OF Cons.prems m]])
    ultimately show ?thesis using Cons by (simp add: Some c d unlink_synch)
  qed (use Cons.prems in simp)
qed simp

lemma match_loop_synch:
  assumes "synch_neutral h"
  shows "synch_ok rid s \<Longrightarrow> synch_ok rid (snd (match_loop_rq h p orp as hnd s))"
proof (induction as arbitrary: orp s hnd)
  case (Cons a as)
  show ?case
  proof (cases "map_of (requests s) a")
    case (Some rp)
    have m: "(a, rp) \<in> set (requests s)" by (rule map_of_SomeD[OF Some])
    obtain r1 s1 where c: "call_back (callback_of rp s) NETSNMP_CALLBACK_OP_RECEIVED_MESSAGE (reqid p) p s = (r1, s1)" by force
    have s1: "synch_ok rid s1" using synch_input_ok[OF Cons.prems c[unfolded callback_synch[OF Cons.prems m]]] by simp
    moreover have "synch_ok rid (snd (snmp_resend_request h a rp True s1))"
      by (rule resend_synch[OF assms surjective_pairing s1 no_own_callback[OF Cons.prems m]])
    moreover have "synch_ok rid (s1\<lparr>sess := x\<rparr>)" for x using s1 by (simp add: synch_ok_def synch_of_def)
    ultimately show ?thesis using Cons by (simp add: Some c unlink_synch)
  qed (use Cons.prems in simp)
qed simp

lemma synch_turn_ok:
  assumes "synch_neutral h" "synch_ok rid s"
  shows "synch_ok rid (synch_turn h ev s)"
proof -
  have w: "synch_ok rid (world_moves f s)" for f using assms(2) by (simp add: synch_ok_def world_moves_def synch_of_def)
  have p: "synch_ok rid (snd (snd (sess_process_packet h m t)))" if t: "synch_ok rid t" for m t
  proof -
    obtain r ss v where h: "hook_parse h (sess t) m (env t) = (r, ss, v)" by (metis prod.collapse)
    have n: "fst v = fst (env t)" by (rule synch_neutralD(2)[OF assms(1) h])
    have k: "synch_ok rid (t\<lparr>sess := ss, env := v, s_snmp_errno := e\<rparr>)" for e using t n by (simp add: synch_ok_def synch_of_def)
    have c: "synch_ok rid (snd (call_back (Some f) NETSNMP_CALLBACK_OP_RECEIVED_MESSAGE (reqid q) q (t\<lparr>sess := ss, env := v, s_snmp_errno := NoError\<rparr>)))"
      if "s_callback t = Some f" for f q
      using synch_input_ok[OF k] that t unfolding synch_ok_def by (metis option.inject prod.collapse)
    show ?thesis
      using match_loop_synch[OF assms(1) k[of NoError]] k c
      by (auto simp: sess_process_packet_def h Let_def split: sum.splits option.splits prod.splits) 
  qed
  have e: "synch_ok rid (set_synch ((synch_of t)\<lparr>waiting := False, status := ST_ERROR\<rparr>) t)" if "synch_ok rid t" for t
    using that by (auto simp: synch_ok_def wait_ok_def set_synch_def synch_of_def split: option.splits)
  show ?thesis
    using w[of "fst ev"] p e timeout_loop_synch[OF assms(1)]
    by (auto simp: synch_turn_def Let_def snmp_sess_timeout_def split: select_event.splits)
qed

lemma synch_loop_ok:
  assumes "synch_neutral h"
  shows "synch_ok rid s \<Longrightarrow> synch_loop h evs s = Some t \<Longrightarrow> synch_ok rid t \<and> \<not> waiting (synch_of t)"
proof (induction evs arbitrary: s)
  case Nil
  then show ?case by (auto simp: synch_loop.simps split: if_splits)
next
  case (Cons ev evs)
  then show ?case using synch_turn_ok[OF assms Cons.prems(1), of ev] by (auto simp: synch_loop.simps[of h "ev # evs"] split: if_splits)
qed

section \<open>The message layer under a wait\<close>

text \<open>Hooks that work on the world and leave the state of the wait alone.\<close>

definition lift_hooks :: "'w hooks \<Rightarrow> (synch_state \<times> 'w) hooks" where
  "lift_hooks h =
     \<lparr>malloc = malloc h,
      hook_build = (\<lambda>ss p (st, w). case hook_build h ss p w of (r, w) \<Rightarrow> (r, st, w)),
      hook_parse = (\<lambda>ss m (st, w). case hook_parse h ss m w of (r, ss, w) \<Rightarrow> (r, ss, st, w)),
      f_send = (\<lambda>m (st, w). case f_send h m w of (r, w) \<Rightarrow> (r, st, w)),
      gettimeofday = (\<lambda>(st, w). gettimeofday h w),
      get_next_msgid = (\<lambda>(st, w). case get_next_msgid h w of (r, w) \<Rightarrow> (r, st, w))\<rparr>"

lemma lift_neutral: "synch_neutral (lift_hooks h)"
  by (auto simp: synch_neutral_def lift_hooks_def split: prod.splits)

text \<open>What the message layer of the library keeps of a PDU.\<close>

lemma build_keeps_reqid:
  assumes "fst (snmp_build ssl alloc me ss cm nc nn p b st) = Inr (b', p')" "command p \<noteq> SNMP_MSG_TRAP"
  shows "reqid p' = reqid p \<and> command p' = command p \<and> flags p' = flags p"
proof -
  have c: "check_command alloc p = Inr q \<Longrightarrow> reqid q = reqid p \<and> command q = command p \<and> flags q = flags p" for q
    using assms(2) by (auto simp: check_command_def check_bulk_def default_errors_def Let_def split: if_splits)
  have v: "v3_check_command p = Inr q \<Longrightarrow> reqid q = reqid p \<and> command q = command p \<and> flags q = flags p" for q
    by (auto simp: v3_check_command_def check_bulk_def default_errors_def Let_def split: if_splits)
  have d: "default_community alloc ss p = Inr q \<Longrightarrow> reqid q = reqid p \<and> command q = command p \<and> flags q = flags p"
      "reqid (default_engines alloc ss p) = reqid p \<and> command (default_engines alloc ss p) = command p \<and> flags (default_engines alloc ss p) = flags p"
      "default_context alloc ss nc p = Inr q \<Longrightarrow> reqid q = reqid p \<and> command q = command p \<and> flags q = flags p"
      "reqid (default_model ss cm p) = reqid p \<and> command (default_model ss cm p) = command p \<and> flags (default_model ss cm p) = flags p"
      "default_name alloc ss nn p = Inr q \<Longrightarrow> reqid q = reqid p \<and> command q = command p \<and> flags q = flags p"
      "default_level ss p = Inr q \<Longrightarrow> reqid q = reqid p \<and> command q = command p \<and> flags q = flags p" for p q
    by (auto simp: default_community_def default_engines_def default_context_def default_model_def default_name_def default_level_def Let_def
        split: if_splits option.splits)
  show ?thesis
    using assms
    by (auto simp: snmp_build_def snmpv3_build_def v3_defaults_def build_community_def d(2,4) ebind_eq_Inr
        split: if_splits sum.splits prod.splits dest!: c v d(1) d(3) d(5) d(6))
qed

definition keeps_reqid :: "'w hooks \<Rightarrow> bool" where
  "keeps_reqid h \<longleftrightarrow> (\<forall>ss p w m p' w'. hook_build h ss p w = (Inr (m, p'), w') \<longrightarrow> command p \<noteq> SNMP_MSG_TRAP \<longrightarrow>
     reqid p' = reqid p \<and> command p' = command p \<and> flags p' = flags p)"

lemma snmp_hooks_keep: "keeps_reqid (lift_hooks (snmp_hooks ssl me))"
  unfolding keeps_reqid_def
proof (intro allI impI)
  fix ss p and w :: "synch_state \<times> net" and m p' w'
  assume "hook_build (lift_hooks (snmp_hooks ssl me)) ss p w = (Inr (m, p'), w')" and c: "command p \<noteq> SNMP_MSG_TRAP"
  then obtain b where "fst (snmp_build ssl (\<lambda>_. True) me ss 0 (contextName p = []) (securityName p = []) p \<lparr>pkt = replicate 2048 0, offset = 0\<rparr> (net_usm (snd w))) = Inr (b, p')"
    by (auto simp: lift_hooks_def snmp_hooks_def split: prod.splits sum.splits)
  from build_keeps_reqid[OF this c] show "reqid p' = reqid p \<and> command p' = command p \<and> flags p' = flags p" .
qed

lemma synch_send_result:
  assumes "requests s = []" "requestsEnd s = None" "synch_neutral h" "synch_send h room p s = (rid, t)" "rid \<noteq> 0"
  shows "synch_ok rid t"
proof -
  let ?st = "\<lparr>waiting = False, status = ST_SUCCESS, st_reqid = 0, st_pdu = None\<rparr> :: synch_state"
  define s0 where "s0 = set_synch ?st (s\<lparr>s_callback := Some snmp_synch_input\<rparr>)"
  obtain i u where a: "sess_async_send h room p None s0 = (i, u)" by force
  have s0: "requests s0 = []" "requestsEnd s0 = None" "s_callback s0 = Some snmp_synch_input" "fst (env s0) = ?st"
    using assms(1,2) by (simp_all add: s0_def set_synch_def)
  have u: "s_callback u = Some snmp_synch_input \<and> fst (env u) = ?st \<and> (\<forall>(b, rp)\<in>set (requests u). callback rp = None)"
    using a s0
    by (auto simp: sess_async_send_def send_message_def Let_def link_request_def new_request_def
        split: option.splits prod.splits sum.splits if_splits dest!: synch_neutralD[OF assms(3)])
  have t: "rid = i" "t = set_synch ((synch_of u)\<lparr>st_reqid := i, status := (if i = 0 then ST_ERROR else ST_SUCCESS), waiting := (i \<noteq> 0)\<rparr>) u"
    using assms(4) a by (auto simp: synch_send_def s0_def)
  show ?thesis using u assms(5) by (auto simp: t synch_ok_def wait_ok_def set_synch_def synch_of_def)
qed

lemma send_reqid:
  assumes "keeps_reqid h" "command p \<noteq> SNMP_MSG_TRAP" "sess_async_send h room p cb s = (rid, t)" "rid \<noteq> 0"
  shows "rid = reqid p"
proof -
  have v: "pdu_version sv p = Some q \<Longrightarrow> reqid q = reqid p \<and> command q = command p" for sv q
    by (auto simp: pdu_version_def split: if_splits)
  have e: "reqid (expect_response q) = reqid q \<and> command (expect_response q) = command q" for q by (simp add: expect_response_def)
  show ?thesis
    using assms(2-) unfolding sess_async_send_def send_message_def Let_def
    by (auto split: option.splits prod.splits sum.splits if_splits dest!: v) 
      (use assms(1) e in \<open>unfold keeps_reqid_def, metis\<close>)+
qed

section \<open>Giving up\<close>

text \<open>A wait for one request that is pending.\<close>

definition waits_for :: "u32 \<Rightarrow> nat \<Rightarrow> (synch_state \<times> 'w) request \<Rightarrow> 'w session_synch \<Rightarrow> bool" where
  "waits_for rid a rp s \<longleftrightarrow> requests s = [(a, rp)] \<and> callback rp = None \<and> s_callback s = Some snmp_synch_input \<and>
     waiting (synch_of s) \<and> st_reqid (synch_of s) = rid \<and> reqid (rq_pdu rp) = rid \<and> command (rq_pdu rp) \<noteq> SNMP_MSG_TRAP"

lemma expired_turn:
  assumes w: "waits_for rid a rp s" and h: "synch_neutral h" "keeps_reqid h" "malloc h 2048"
    and e: "timercmp_less (expire rp) (gettimeofday h (env (world_moves f s)))"
  defines "t \<equiv> synch_turn h (f, Expired) s"
  shows "if retries rp \<ge> s_retries s then \<not> waiting (synch_of t) \<and> status (synch_of t) = ST_TIMEOUT \<and> st_pdu (synch_of t) = None
    else \<exists>rp'. waits_for rid a rp' t \<and> retries rp' = retries rp + 1 \<and> s_retries t = s_retries s"
proof -
  let ?s = "world_moves f s"
  have s: "requests ?s = [(a, rp)]" "callback_of rp ?s = Some snmp_synch_input" "s_retries ?s = s_retries s"
      "waiting (fst (env ?s))" "st_reqid (fst (env ?s)) = rid" "reqid (rq_pdu rp) = rid" "s_callback ?s = Some snmp_synch_input"
      "callback rp = None" "command (rq_pdu rp) \<noteq> SNMP_MSG_TRAP"
    using w by (auto simp: waits_for_def world_moves_def callback_of_def synch_of_def)
  have t: "t = timeout_loop h (gettimeofday h (env ?s)) None [a] ?s" using s(1) by (simp add: t_def synch_turn_def Let_def snmp_sess_timeout_def)
  show ?thesis
  proof (cases "retries rp \<ge> s_retries s")
    case True
    then show ?thesis
      using s e unfolding t
      by (cases "env ?s") (auto simp: call_back_def snmp_synch_input_def Let_def unlink_request_def synch_of_def)
  next
    case False
    obtain r u where ru: "snmp_resend_request h a rp True ?s = (r, u)" by force
    have tu: "t = u" using s e False by (simp add: t ru)
    have k: "hook_build h ss p v = (Inr (m, p'), v') \<Longrightarrow>
        fst v' = fst v \<and> (command p \<noteq> SNMP_MSG_TRAP \<longrightarrow> reqid p' = reqid p \<and> command p' = command p)" for ss p v m p' v'
      using h(2) synch_neutralD(1)[OF h(1)] unfolding keeps_reqid_def by blast
    have l: "hook_build h ss p v = (Inl x, v') \<Longrightarrow> fst v' = fst v" for ss p v x v' using synch_neutralD(1)[OF h(1)] by blast
    have "\<exists>rp'. waits_for rid a rp' u \<and> retries rp' = retries rp + 1 \<and> s_retries u = s_retries s"
      using ru s h(3)
      by (auto simp: snmp_resend_request_def Let_def set_request_def waits_for_def synch_of_def
          split: prod.splits sum.splits if_splits dest!: k l synch_neutralD(3,4)[OF h(1)])
    then show ?thesis using False tu by simp
  qed
qed

text \<open>\<^verbatim>\<open>select\<close> always returns 0, and each time after the pending request has expired.\<close>

fun expires_each :: "(synch_state \<times> 'w) hooks \<Rightarrow> ('w \<Rightarrow> 'w) list \<Rightarrow> 'w session_synch \<Rightarrow> bool" where
  "expires_each h [] s \<longleftrightarrow> True"
| "expires_each h (f # fs) s \<longleftrightarrow>
     list_all (\<lambda>(a, rp). timercmp_less (expire rp) (gettimeofday h (env (world_moves f s)))) (requests s) \<and>
     expires_each h fs (synch_turn h (f, Expired) s)"

lemma synch_loop_gives_up:
  assumes h: "synch_neutral h" "keeps_reqid h" "malloc h 2048"
  shows "waits_for rid a rp s \<Longrightarrow> expires_each h fs s \<Longrightarrow> retries rp \<le> s_retries s \<Longrightarrow> s_retries s - retries rp < int (length fs) \<Longrightarrow>
    \<exists>t. synch_loop h (map (\<lambda>f. (f, Expired)) fs) s = Some t \<and> status (synch_of t) = ST_TIMEOUT \<and> st_pdu (synch_of t) = None"
proof (induction fs arbitrary: s rp)
  case (Cons f fs)
  have w: "waiting (synch_of s)" "requests s = [(a, rp)]" using Cons.prems(1) by (simp_all add: waits_for_def)
  let ?t = "synch_turn h (f, Expired) s"
  have "timercmp_less (expire rp) (gettimeofday h (env (world_moves f s)))" using Cons.prems(2) w(2) by simp
  note t = expired_turn[OF Cons.prems(1) h this]
  have l: "synch_loop h (map (\<lambda>f. (f, Expired)) (f # fs)) s = synch_loop h (map (\<lambda>f. (f, Expired)) fs) ?t"
    using w(1) by (subst synch_loop.simps) simp
  show ?case
  proof (cases "retries rp \<ge> s_retries s")
    case True
    then have "synch_loop h (map (\<lambda>f. (f, Expired)) fs) ?t = Some ?t" using t by (subst synch_loop.simps) simp
    then show ?thesis using True t l by simp
  next
    case False
    then obtain rp' where "waits_for rid a rp' ?t" "retries rp' = retries rp + 1" "s_retries ?t = s_retries s" using t by auto
    then show ?thesis using Cons.IH[of rp' ?t] Cons.prems(2,4) False l by simp
  qed
qed simp

lemma synch_send_waits:
  assumes "requests s = []" "requestsEnd s = None" "synch_neutral h" "keeps_reqid h" "\<not> no_response (command p)"
    and "synch_send h (Some a) p s = (rid, t)" "rid \<noteq> 0"
  shows "\<exists>rp. waits_for (reqid p) a rp t \<and> retries rp = 0 \<and> s_retries t = s_retries s \<and> rid = reqid p"
proof -
  let ?st = "\<lparr>waiting = False, status = ST_SUCCESS, st_reqid = 0, st_pdu = None\<rparr> :: synch_state"
  define s0 where "s0 = set_synch ?st (s\<lparr>s_callback := Some snmp_synch_input\<rparr>)"
  obtain i u where a: "sess_async_send h (Some a) p None s0 = (i, u)" by force
  have t: "rid = i" "t = set_synch ((synch_of u)\<lparr>st_reqid := i, status := (if i = 0 then ST_ERROR else ST_SUCCESS), waiting := (i \<noteq> 0)\<rparr>) u"
    using assms(6) a by (auto simp: synch_send_def s0_def)
  have s0: "requests s0 = []" "requestsEnd s0 = None" "s_callback s0 = Some snmp_synch_input" "s_retries s0 = s_retries s"
    using assms(1,2) by (simp_all add: s0_def set_synch_def)
  have v: "pdu_version sv p = Some q \<Longrightarrow> reqid q = reqid p \<and> command q = command p" for sv q
    by (auto simp: pdu_version_def split: if_splits)
  have nt: "command p \<noteq> SNMP_MSG_TRAP" using assms(5) by (simp add: no_response_def)
  have x: "flags (expect_response q) AND UCD_MSG_FLAG_EXPECT_RESPONSE \<noteq> 0" if "command q = command p" for q
  proof -
    have "bit (flags (expect_response q) AND UCD_MSG_FLAG_EXPECT_RESPONSE) 9"
      using assms(5) that by (simp add: expect_response_def UCD_MSG_FLAG_EXPECT_RESPONSE_def bit_simps bit_numeral_rec)
    then show ?thesis by (metis bit_0_eq bot_apply bot_bool_def)
  qed
  have k: "hook_build h ss (expect_response q) w = (Inr (m, q'), w') \<Longrightarrow> command q = command p \<Longrightarrow>
      reqid q' = reqid q \<and> command q' = command p \<and> flags q' AND UCD_MSG_FLAG_EXPECT_RESPONSE \<noteq> 0" for ss q w m q' w'
    using assms(4) x nt unfolding keeps_reqid_def by (metis expect_response_def pdu.select_convs(2,3) pdu.surjective pdu.update_convs(10))
  have "\<exists>rp. requests u = [(a, rp)] \<and> callback rp = None \<and> reqid (rq_pdu rp) = reqid p \<and> command (rq_pdu rp) = command p \<and> retries rp = 0 \<and>
      s_callback u = Some snmp_synch_input \<and> s_retries u = s_retries s \<and> i = reqid p"
  proof -
    obtain q where q: "pdu_version (s_version (sess s0)) p = Some q"
        "send_message h (Some a) (expect_response q) None (s0\<lparr>s_snmp_errno := NoError\<rparr>) = (i, u)"
      using a assms(7) t(1) by (auto simp: sess_async_send_def Let_def split: option.splits)
    have kq: "hook_build h ss (expect_response q) w = (Inr (m, q'), w') \<Longrightarrow>
        reqid q' = reqid p \<and> command q' = command p \<and> flags q' AND UCD_MSG_FLAG_EXPECT_RESPONSE \<noteq> 0" for ss w m q' w'
      using k v[OF q(1)] by metis
    show ?thesis
      using q(2) s0 assms(7) t(1)
      by (auto simp: send_message_def Let_def link_request_def new_request_def split: prod.splits sum.splits if_splits dest!: kq)
  qed
  then show ?thesis using nt assms(7) by (auto simp: t waits_for_def set_synch_def synch_of_def)
qed

end
