(* ===== verification/Session_Props.thy ===== *)
theory Session_Props
  imports Synch
begin

unbundle bit_operations_syntax

text \<open>The properties of sessions and of synchronous requests, with examples on SNMPv2c sessions.\<close>

section \<open>An example\<close>

definition poll_net :: net where
  "poll_net = \<lparr>net_usm = idle_usm, net_Msgid = 1, net_now = \<lparr>tv_sec = 100, tv_usec = 500000\<rparr>, net_sent = []\<rparr>"

definition later :: "net \<Rightarrow> net" where
  "later w = w\<lparr>net_now := \<lparr>tv_sec = tv_sec (net_now w) + 2, tv_usec = tv_usec (net_now w)\<rparr>\<rparr>"

abbreviation poll_hooks :: "net hooks" where
  "poll_hooks \<equiv> snmp_hooks key_ssl poll_engine"

definition opened_session :: "'w \<Rightarrow> 'w session_list" where
  "opened_session w = \<lparr>sess = poll_session, s_retries = 0, s_timeout = 1000000, s_callback = None, s_snmp_errno = NoError, requests = [],
     requestsEnd = None, tr_msgMaxSize = 0, env = w\<rparr>"

text \<open>The request with the flag that asks for a response, and the answer to it.\<close>

definition asked :: pdu where
  "asked = poll_sent\<lparr>flags := 0x200\<rparr>"


lemma asked_facts:
  "check_command alloc (poll_request\<lparr>flags := 0x200\<rparr>) = Inr (poll_request\<lparr>flags := 0x200, errstat := 0, errindex := 0\<rparr>)"
  "with_community poll_session (poll_request\<lparr>flags := 0x200, errstat := 0, errindex := 0\<rparr>) = asked"
  "pdu_rt (poll_request\<lparr>flags := 0x200, errstat := 0, errindex := 0\<rparr>)" "length (com_enc asked) = 38"
proof -
  show "check_command alloc (poll_request\<lparr>flags := 0x200\<rparr>) = Inr (poll_request\<lparr>flags := 0x200, errstat := 0, errindex := 0\<rparr>)"
    by (simp add: check_command_def poll_request_def default_errors_def msg_defs SNMP_DEFAULT_ERRSTAT_def SNMP_DEFAULT_ERRINDEX_def
        snmp_create_sess_pdu_def)
  show "with_community poll_session (poll_request\<lparr>flags := 0x200, errstat := 0, errindex := 0\<rparr>) = asked" by code_simp
  show "pdu_rt (poll_request\<lparr>flags := 0x200, errstat := 0, errindex := 0\<rparr>)" using poll_request_rt by (simp add: pdu_rt_def)
  show "length (com_enc asked) = 38" by code_simp
qed

lemma asked_built: "hook_build poll_hooks poll_session (poll_request\<lparr>flags := 0x200\<rparr>) w = (Inr (com_enc asked, asked), w)"
proof -
  let ?b = "\<lparr>pkt = replicate 2048 0, offset = 0\<rparr> :: rbuf"
  have b: "valid_rbuf ?b" "contents ?b = []" by (simp_all add: valid_rbuf_def contents_def)
  have "version (poll_request\<lparr>flags := 0x200\<rparr>) \<in> {SNMP_VERSION_1, SNMP_VERSION_2c}" by (simp add: poll_request_def)
  from build_community_built[OF asked_facts(1) this pdu_rt_ok[OF asked_facts(3)] b(1), of "\<lambda>_. True" poll_session, unfolded asked_facts(2)]
  obtain b' where "build_community (\<lambda>_. True) poll_session (poll_request\<lparr>flags := 0x200\<rparr>) ?b = Inr (b', asked)" "contents b' = com_enc asked"
    using asked_facts(4) b(2) by auto
  then show ?thesis by (simp add: snmp_hooks_def snmp_build_def poll_request_def version_defs)
qed

definition poll_entry :: "'w request" where
  "poll_entry = new_request asked None \<lparr>tv_sec = 100, tv_usec = 500000\<rparr> 1000000"

lemma poll_entry_simps [simp]:
  "request_id poll_entry = 77" "message_id poll_entry = 0" "callback poll_entry = None" "retries poll_entry = 0" "rq_pdu poll_entry = asked"
  "expire poll_entry = \<lparr>tv_sec = 101, tv_usec = 500000\<rparr>"
  by (simp_all add: poll_entry_def new_request_def asked_def poll_sent_def poll_request_def snmp_create_sess_pdu_def
      UCD_MSG_FLAG_PDU_TIMEOUT_def expiry_def Let_def)

lemma poll_facts:
  "pdu_version (s_version poll_session) poll_request = Some poll_request" "expect_response poll_request = poll_request\<lparr>flags := 0x200\<rparr>"
  "flags asked AND UCD_MSG_FLAG_EXPECT_RESPONSE \<noteq> 0" "reqid asked = 77" "malloc poll_hooks 2048"
  "f_send poll_hooks m w = (int (length m), w\<lparr>net_sent := net_sent w @ [m]\<rparr>)" "gettimeofday poll_hooks w = net_now w"
  "sndMsgMaxSize (v3_sizes poll_session) = 1472"
  by (simp_all add: pdu_version_def poll_session_def poll_request_def version_defs expect_response_def no_response_def msg_defs
      AGENTX_MSG_CLEANUPSET_def AGENTX_MSG_RESPONSE_def snmp_create_sess_pdu_def UCD_MSG_FLAG_EXPECT_RESPONSE_def asked_def poll_sent_def
      snmp_hooks_def)

lemma polled:
  "sess_async_send poll_hooks (Some 7) poll_request None (opened_session poll_net) =
    (77, (opened_session (poll_net\<lparr>net_sent := [com_enc asked]\<rparr>))\<lparr>requests := [(7, poll_entry)], requestsEnd := Some 7\<rparr>)"
  using asked_facts(4) asked_built
  by (simp add: sess_async_send_def send_message_def opened_session_def poll_facts Let_def link_request_def poll_entry_def poll_net_def)

lemma polled_reachable: "reachable_session poll_hooks (snd (sess_async_send poll_hooks (Some 7) poll_request None (opened_session poll_net)))"
proof -
  have "reachable_session poll_hooks (opened_session poll_net)"
    by (rule reachable_session.opened) (simp_all add: opened_session_def)
  then show ?thesis by (rule reachable_session.sent) (simp add: opened_session_def)
qed

section \<open>The queue\<close>

text \<open>
  C6. Whatever is sent, received, repeated and given up, and in whatever order, the queue of pending requests stays
  consistent: the addresses of its entries differ, \<^verbatim>\<open>requestsEnd\<close> points to the last entry or is NULL when there is none, every
  entry has the message ID its PDU was last sent with, and no request is repeated more than once beyond \<^verbatim>\<open>retries\<close>.
\<close>

theorem session_queue_invariant:
  assumes "reachable_session (snmp_hooks ssl me) s"
  shows "distinct (map fst (requests s)) \<and> requestsEnd s = (if requests s = [] then None else Some (fst (last (requests s)))) \<and>
    list_all (\<lambda>(a, rp). message_id rp = msgid (rq_pdu rp) \<and> 0 \<le> retries rp \<and> retries rp \<le> s_retries s + 1) (requests s)"
  using reachable_session_ok[OF assms] by (auto simp: sess_ok_def queue_end_def list_all_iff request_ok_def)

theorem session_queue_invariant_witness:
  "let s = snd (sess_async_send poll_hooks (Some 7) poll_request None (opened_session poll_net)) in
    requests s = [(7, poll_entry)] \<and> distinct (map fst (requests s)) \<and>
    requestsEnd s = (if requests s = [] then None else Some (fst (last (requests s)))) \<and>
    list_all (\<lambda>(a, rp). message_id rp = msgid (rq_pdu rp) \<and> 0 \<le> retries rp \<and> retries rp \<le> s_retries s + 1) (requests s)"
  using session_queue_invariant[OF polled_reachable] by (simp add: polled Let_def)




section \<open>Time\<close>

lemma sum_list_bound: "(\<And>x. x \<in> set xs \<Longrightarrow> f x \<le> k) \<Longrightarrow> sum_list (map f xs) \<le> length xs * (k :: nat)"
  by (induction xs) (auto simp: add_mono)

lemma queue_weight_bound: "sess_ok s \<Longrightarrow> queue_weight s \<le> length (requests s) * nat (s_retries s + 2)"
  unfolding queue_weight_def by (rule sum_list_bound) (auto simp: sess_ok_def request_ok_def weight_def)

text \<open>
  C5. No request waits for ever: when \<^verbatim>\<open>snmp_sess_timeout\<close> is called each time some pending request has expired, all requests that are
  pending have been given up after at most \<open>retries + 2\<close> calls for each of them, whatever else happens in the world, whether
  messages can be built and sent or not.
\<close>

theorem requests_end:
  assumes "reachable_session (snmp_hooks ssl me) s" "in_time (snmp_hooks ssl me) fs s"
    and "length (requests s) * nat (s_retries s + 2) \<le> length fs"
  shows "requests (run_timeouts (snmp_hooks ssl me) fs s) = []"
proof -
  have ok: "sess_ok s" by (rule reachable_session_ok[OF assms(1)])
  show ?thesis
    using snmp_layer.run_timeouts_end[OF ok _ assms(2)] queue_weight_bound[OF ok] assms(3) by (simp add: snmp_hooks_def)
qed

lemma later_expired: "timercmp_less \<lparr>tv_sec = 101, tv_usec = 500000\<rparr> (gettimeofday poll_hooks (later (poll_net\<lparr>net_sent := m\<rparr>)))"
  by (simp add: timercmp_less_def snmp_hooks_def later_def poll_net_def)

theorem requests_end_witness:
  "let s = snd (sess_async_send poll_hooks (Some 7) poll_request None (opened_session poll_net)) in
    requests s = [(7, poll_entry)] \<and> requests (run_timeouts poll_hooks [later, later] s) = []"
proof -
  define s where "s = snd (sess_async_send poll_hooks (Some 7) poll_request None (opened_session poll_net))"
  have s: "requests s = [(7, poll_entry)]" "s_retries s = 0" "s_callback s = None" "requestsEnd s = Some 7"
      "env s = poll_net\<lparr>net_sent := [com_enc asked]\<rparr>"
    unfolding s_def polled by (simp_all add: opened_session_def)
  have t: "snmp_sess_timeout poll_hooks (s\<lparr>env := later (env s)\<rparr>) = s\<lparr>env := later (env s), requests := [], requestsEnd := None\<rparr>"
    using later_expired by (simp add: snmp_sess_timeout_def s call_back_def callback_of_def unlink_request_def)
  have "in_time poll_hooks [later, later] s" using later_expired t by (simp add: s)
  from requests_end[OF polled_reachable[folded s_def] this] show ?thesis by (simp add: s s_def[symmetric] Let_def)
qed

text \<open>
  C12. The time \<^verbatim>\<open>snmp_sess_select_info2\<close> gives \<^verbatim>\<open>select\<close> ends exactly when the first of the pending requests expires; when one has expired
  already, it is at most 100 microseconds, so the requests are looked at again at once. For times that are
  not negative, with less than a million microseconds, and not 0.
\<close>

theorem select_in_time:
  assumes "requests s \<noteq> []" "\<forall>(a, rp)\<in>set (requests s). normal_time (expire rp) \<and> timerisset (expire rp)"
    and "normal_time (gettimeofday h (env s))"
  shows "\<exists>t. select_time h s = Some t \<and> normal_time t \<and>
    (let first = Min ((\<lambda>(a, rp). usecs (expire rp)) ` set (requests s)); now = usecs (gettimeofday h (env s))
     in if now \<le> first then now + usecs t = first else usecs t \<le> 100)"
proof -
  obtain a rp rs where r: "requests s = (a, rp) # rs" using assms(1) by (cases "requests s") auto
  let ?e = "earliest (expire rp) rs" and ?now = "gettimeofday h (env s)" and ?f = "\<lambda>(a, rp). usecs (expire rp)"
  have e: "normal_time ?e \<and> (?e = expire rp \<or> (\<exists>(a, rp)\<in>set rs. ?e = expire rp)) \<and>
      usecs ?e \<le> usecs (expire rp) \<and> (\<forall>(a, rp)\<in>set rs. usecs ?e \<le> usecs (expire rp))"
    using assms(2) by (intro earliest_least) (auto simp: r)
  have "Min (?f ` set (requests s)) = usecs ?e"
    by (rule Min_eqI) (use e in \<open>force simp: r\<close>)+
  moreover have "select_time h s = Some (time_left ?e ?now)" by (simp add: select_time_def r timerisset_def)
  ultimately show ?thesis using time_left_bound[OF _ assms(3), of ?e] e by (auto simp: Let_def split: if_splits)
qed

theorem select_in_time_witness:
  "select_time poll_hooks (snd (sess_async_send poll_hooks (Some 7) poll_request None (opened_session poll_net))) =
    Some \<lparr>tv_sec = 1, tv_usec = 0\<rparr> \<and> usecs \<lparr>tv_sec = 101, tv_usec = 500000\<rparr> = usecs (net_now poll_net) + 1000000"
proof -
  define s where "s = snd (sess_async_send poll_hooks (Some 7) poll_request None (opened_session poll_net))"
  have s: "requests s = [(7, poll_entry)]" "gettimeofday poll_hooks (env s) = \<lparr>tv_sec = 100, tv_usec = 500000\<rparr>"
    unfolding s_def polled by (simp_all add: opened_session_def snmp_hooks_def poll_net_def)
  have "\<exists>t. select_time poll_hooks s = Some t \<and> normal_time t \<and> usecs t = 1000000"
    using select_in_time[of s poll_hooks] by (simp add: s normal_time_def timerisset_def usecs_def Let_def)
  moreover have "select_time poll_hooks s = Some \<lparr>tv_sec = 1, tv_usec = 0\<rparr>"
    by (simp add: select_time_def s time_left_def timerisset_def)
  moreover have "usecs \<lparr>tv_sec = 101, tv_usec = 500000\<rparr> = usecs (net_now poll_net) + 1000000" by (simp add: usecs_def poll_net_def)
  ultimately show ?thesis unfolding s_def by blast
qed

section \<open>Synchronous requests\<close>


text \<open>The example as a synchronous request.\<close>

abbreviation synch_hooks :: "(synch_state \<times> net) hooks" where
  "synch_hooks \<equiv> lift_hooks poll_hooks"

definition idle_wait :: synch_state where
  "idle_wait = \<lparr>waiting = False, status = ST_SUCCESS, st_reqid = 0, st_pdu = None\<rparr>"

definition polling :: "net session_synch" where
  "polling = (opened_session (\<lparr>waiting = True, status = ST_SUCCESS, st_reqid = 77, st_pdu = None\<rparr>, poll_net\<lparr>net_sent := [com_enc asked]\<rparr>))
     \<lparr>s_callback := Some snmp_synch_input, requests := [(7, poll_entry)], requestsEnd := Some 7\<rparr>"

lemma lifted_simps [simp]:
  "malloc (lift_hooks h) = malloc h" "gettimeofday (lift_hooks h) (st, w) = gettimeofday h w"
  "hook_build (lift_hooks h) ss p (st, w) = (case hook_build h ss p w of (r, w) \<Rightarrow> (r, st, w))"
  "hook_parse (lift_hooks h) ss m (st, w) = (case hook_parse h ss m w of (r, ss, w) \<Rightarrow> (r, ss, st, w))"
  "f_send (lift_hooks h) m (st, w) = (case f_send h m w of (r, w) \<Rightarrow> (r, st, w))"
  by (simp_all add: lift_hooks_def)

lemma synch_polled: "synch_send synch_hooks (Some 7) poll_request (opened_session (idle_wait, poll_net)) = (77, polling)"
  using asked_facts(4) asked_built
  by (simp add: synch_send_def sess_async_send_def send_message_def opened_session_def poll_facts set_synch_def synch_of_def polling_def
      Let_def link_request_def poll_entry_def poll_net_def idle_wait_def)


text \<open>
  C8. A synchronous request without an answer comes back: when \<^verbatim>\<open>select\<close> only ever reports that the time is up, the request is sent
  again at most \<^verbatim>\<open>retries\<close> times and the caller then gets \<^verbatim>\<open>STAT_TIMEOUT\<close> and no response, even when messages cannot be built or
  sent any more.
\<close>

theorem synch_gives_up:
  fixes ssl me
  defines "h \<equiv> lift_hooks (snmp_hooks ssl me)"
  assumes "requests s = []" "requestsEnd s = None" "0 \<le> s_retries s" "\<not> no_response (command p)"
    and "synch_send h (Some a) p s = (rid, u)" "rid \<noteq> 0" "expires_each h fs u" "s_retries s < int (length fs)"
  shows "\<exists>t. snmp_sess_synch_response h (Some a) p (map (\<lambda>f. (f, Expired)) fs) s = Some (ST_TIMEOUT, None, t)"
proof -
  have h: "synch_neutral h" "keeps_reqid h" "malloc h 2048"
    unfolding h_def by (rule lift_neutral, rule snmp_hooks_keep, simp add: snmp_hooks_def)
  obtain rp where rp: "waits_for (reqid p) a rp u" "retries rp = 0" "s_retries u = s_retries s"
    using synch_send_waits[OF assms(2,3) h(1,2) assms(5-7)] by blast
  obtain t where "synch_loop h (map (\<lambda>f. (f, Expired)) fs) u = Some t \<and> status (synch_of t) = ST_TIMEOUT \<and> st_pdu (synch_of t) = None"
    using synch_loop_gives_up[OF h rp(1) assms(8)] rp(2,3) assms(4,9) by auto
  then show ?thesis by (simp add: snmp_sess_synch_response_def assms(6))
qed

theorem synch_gives_up_witness:
  "\<exists>t. snmp_sess_synch_response synch_hooks (Some 7) poll_request [(later, Expired)] (opened_session (idle_wait, poll_net)) =
    Some (ST_TIMEOUT, None, t)"
proof -
  have "\<not> no_response (command poll_request)"
    by (simp add: poll_request_def no_response_def msg_defs AGENTX_MSG_CLEANUPSET_def AGENTX_MSG_RESPONSE_def)
  moreover have "expires_each synch_hooks [later] polling"
    using later_expired by (simp add: polling_def world_moves_def opened_session_def)
  ultimately show ?thesis
    using synch_gives_up[OF _ _ _ _ synch_polled, of "[later]"] by (simp add: opened_session_def)
qed

section \<open>Reports and what the code leaves open\<close>

text \<open>The kind of a Report that \<^verbatim>\<open>snmpv3_make_report\<close> made is read back by \<^verbatim>\<open>snmpv3_get_report_type\<close>.\<close>

lemma report_type_read_back:
  "map_option snmpv3_get_report_type (snmpv3_make_report me stats p e) =
    (case e of
       SNMPERR_USM_UNKNOWNENGINEID \<Rightarrow> Some SNMPERR_UNKNOWN_ENG_ID
     | SNMPERR_USM_UNKNOWNSECURITYNAME \<Rightarrow> Some SNMPERR_UNKNOWN_USER_NAME
     | SNMPERR_USM_UNSUPPORTEDSECURITYLEVEL \<Rightarrow> Some SNMPERR_UNSUPPORTED_SEC_LEVEL
     | SNMPERR_USM_AUTHENTICATIONFAILURE \<Rightarrow> Some RT_AUTHENTICATION_FAILURE
     | SNMPERR_USM_NOTINTIMEWINDOW \<Rightarrow> Some SNMPERR_NOT_IN_TIME_WINDOW
     | SNMPERR_USM_DECRYPTIONERROR \<Rightarrow> Some SNMPERR_DECRYPTION_ERR
     | _ \<Rightarrow> None)"
  by (cases e) (simp_all add: snmpv3_make_report_def report_counter_def snmpv3_get_report_type_def REPORT_STATS_LEN_def usmStats_def
      snmpMPDStats_def Let_def)

text \<open>
  A second \<^verbatim>\<open>usmStatsNotInTimeWindows\<close> Report for a request that may not be repeated any more takes the request out of the queue, but
  the wait goes on: nothing is pending, so \<^verbatim>\<open>select\<close> is called without a limit, and no timeout ends the wait.
\<close>

lemma synch_stuck:
  assumes w: "waits_for rid a rp s" and r: "retries rp > s_retries s"
    and p: "hook_parse h (sess s) m (env s) = (Inr p, ss, env s)" "version p = SNMP_VERSION_3" "command p = SNMP_MSG_REPORT"
      "flags p AND UCD_MSG_FLAG_RESPONSE_PDU \<noteq> 0" "snmpv3_get_report_type p = SNMPERR_NOT_IN_TIME_WINDOW" "message_id rp = msgid p"
      "snmpv3_verify_msg (Some (request_id rp, rq_pdu rp)) p \<noteq> 0"
  defines "t \<equiv> synch_turn h (id, Packet m) s"
  shows "waiting (synch_of t) \<and> requests t = [] \<and> select_time h t = None \<and> synch_loop h (replicate n (id, Expired)) t = None"
proof -
  have s: "requests s = [(a, rp)]" "callback rp = None" "s_callback s = Some snmp_synch_input" "world_moves id s = s"
    using w by (auto simp: waits_for_def world_moves_def synch_of_def)
  have t: "waiting (synch_of t) \<and> requests t = []"
    using s p r
    by (cases "env s") (simp add: t_def synch_turn_def Let_def sess_process_packet_def call_back_def snmp_synch_input_def
        callback_of_def unlink_request_def synch_of_def)
  moreover have "synch_loop h (replicate n (id, Expired)) t = None"
  proof (induction n)
    case 0
    then show ?case using t by (simp add: synch_loop.simps)
  next
    case (Suc n)
    have "synch_turn h (id, Expired) t = t" using t by (simp add: synch_turn_def Let_def world_moves_def synch_of_def timeout_empty)
    then show ?case using Suc t by (subst synch_loop.simps) (simp add: id_def)
  qed
  ultimately show ?thesis by (simp add: select_time_def)
qed

text \<open>
  The version of a received PDU decides how it is matched, and it comes from the packet: a message of an SNMPv3 session that claims another
  version is taken by its request ID only, although \<^verbatim>\<open>snmpv3_verify_msg\<close> would refuse it.
\<close>

lemma answer_not_verified:
  assumes "requests s = [(a, rp)]" "version (rq_pdu rp) = SNMP_VERSION_3" "version p \<noteq> SNMP_VERSION_3" "command p = SNMP_MSG_RESPONSE"
    and "request_id rp = reqid p" "snmpv3_verify_msg (Some (request_id rp, rq_pdu rp)) p = 0" "callback_of rp s = None"
  shows "match_loop_rq h p None [a] False s = (True, unlink_request None a s)"
  using assms by (simp add: call_back_def msg_defs)

end
