(* ===== verification/Spec2Isabelle.thy ===== *)
theory Spec2Isabelle
  imports Decoder_Safety Pdu_Types Pdu_Forward Walk_Subtree Container Vacm_Tables Usm_Total Session_Props
begin

text \<open>
  Verification of the message layer of the SNMP library that the collector is built on.

  \<^bold>\<open>The program.\<close> The repository is a collector of interface statistics: Perl and shell
  scripts poll network devices through \<^verbatim>\<open>snmpget\<close>, \<^verbatim>\<open>snmpwalk\<close> and \<^verbatim>\<open>snmpbulkwalk\<close> and store the
  answers. The C code that does the polling is the net-snmp 5.5 library shipped under
  \<^verbatim>\<open>src/pkg/net-snmp-5.5\<close>; file names below are relative to it. Every request and every answer
  passes through its message layer: \<^verbatim>\<open>snmplib/asn1.c\<close> encodes and decodes the basic types,
  \<^verbatim>\<open>snmplib/snmp.c\<close> the variable bindings, \<^verbatim>\<open>snmplib/snmp_api.c\<close> the PDUs and the order of
  object identifiers, and \<^verbatim>\<open>snmplib/int64.c\<close> does the arithmetic of 64-bit counters on two
  32-bit halves. Above it are the messages of the three versions with their security models and keys, the sessions
  that send, repeat and match them (\<^verbatim>\<open>snmplib/snmp_api.c\<close>), and the synchronous requests of the command line tools
  (\<^verbatim>\<open>snmplib/snmp_client.c\<close>). These parts are modelled here, function by function.

  \<^bold>\<open>Build configuration.\<close> The integers are those of the shipped configuration
  (\<^verbatim>\<open>include/net-snmp/net-snmp-config.h\<close>): \<^verbatim>\<open>long\<close>, \<^verbatim>\<open>size_t\<close>, \<^verbatim>\<open>int\<close> and \<^verbatim>\<open>oid\<close> have 32 bits and
  wrap around; the special Opaque types and the reverse encoders are compiled in.

  \<^bold>\<open>Theories.\<close>
  \<^item> \<open>Snmp_Prelude\<close>: integer types, errors as values of a sum type (\<open>Inl\<close> is a NULL or 0
    return, with the reason), the log of bytes an encoder writes, word lemmas.
  \<^item> \<open>Big_Endian\<close>: octets of words and shortest signed and unsigned encodings, the reference for
    the integer loops.
  \<^item> \<open>Asn_Length\<close>: reads of a receive buffer, BER lengths and headers, \<^verbatim>\<open>asn_check_packet\<close>.
  \<^item> \<open>Asn_Codec\<close>: the contracts of encoders and decoders as locales (\<open>ber_encoder\<close>,
    \<open>ber_decoder\<close>, \<open>ber_codec\<close> and their type-length-value forms).
  \<^item> \<open>Asn_Int\<close>, \<open>Asn_Int64\<close>, \<open>Asn_Float\<close>, \<open>Asn_String\<close>, \<open>Asn_Objid\<close>: the forward functions
    \<^verbatim>\<open>asn_parse_*\<close> and \<^verbatim>\<open>asn_build_*\<close>, each pair an interpretation of the contracts.
  \<^item> \<open>Asn_Realloc\<close>, \<open>Asn_Rbuild\<close>, \<open>Asn_Rbuild64\<close>: the growing buffer and the reverse encoders
    \<^verbatim>\<open>asn_realloc_rbuild_*\<close>, with the contract \<open>reverse_encoder\<close> and, against the forward encoders,
    \<open>encoder_pair\<close>.
  \<^item> \<open>Var_Op\<close>: variable bindings (\<^verbatim>\<open>snmp.c\<close>). \<open>Pdu\<close>: \<^verbatim>\<open>snmp_pdu_parse\<close>,
    \<^verbatim>\<open>snmp_pdu_realloc_rbuild\<close>, \<^verbatim>\<open>snmp_parse_version\<close> (\<^verbatim>\<open>snmp_api.c\<close>). \<open>Pdu_Forward\<close>: \<^verbatim>\<open>snmp_pdu_build\<close>.
  \<^item> \<open>Decoder_Safety\<close>: which bytes the decoders read, the locale \<open>safe_decoder\<close> and its
    interpretations, up to \<^verbatim>\<open>snmp_pdu_parse\<close>. \<open>Pdu_Types\<close>: types of decoded values.
  \<^item> \<open>Client\<close>: identifiers and requests (\<^verbatim>\<open>snmp_client.c\<close>, \<^verbatim>\<open>snmp_api.c\<close>). \<open>Walk\<close>: the programs \<^verbatim>\<open>apps/snmpwalk.c\<close> and
    \<^verbatim>\<open>apps/snmpbulkwalk.c\<close> over an agent that is a parameter, with the contract \<open>walk_progress\<close>. \<open>Walk_Subtree\<close>: what
    they print, with the contract \<open>subtree_walk\<close>.
  \<^item> \<open>Array_Sort\<close>, \<open>Binary_Array\<close>, \<open>Container\<close>: sorted containers (\<^verbatim>\<open>container_binary_array.c\<close>, \<^verbatim>\<open>container.c\<close>), over the
    contract \<open>key_order\<close> of a comparison function and with the contract \<open>keyed_store\<close> of a store.
  \<^item> \<open>Vacm\<close>: views, families with masks, groups and access entries (\<^verbatim>\<open>vacm.c\<close>) and the decision of
    \<^verbatim>\<open>agent/mibgroup/mibII/vacm_conf.c\<close>. \<open>Vacm_Tables\<close>: its three sorted tables as instances of the contract \<open>key_table\<close> and
    their reachable states.
  \<^item> \<open>Scapi\<close>: the interface to OpenSSL (\<^verbatim>\<open>scapi.c\<close>), which is a parameter of the model. \<open>Engine_Time\<close>: the clocks of other
    engines (\<^verbatim>\<open>lcd_time.c\<close>), with the contract \<open>engine_clocks\<close>. \<open>Usm\<close>: incoming messages in the user-based security model
    (\<^verbatim>\<open>snmpusm.c\<close>). \<open>Usm_Safety\<close>: what it guarantees along runs. \<open>Usm_Out\<close>: outgoing messages, and \<open>Usm_Roundtrip\<close>: the bytes
    of a message and what the receiver makes of them. \<open>V3_Message\<close>: SNMPv3 messages (\<^verbatim>\<open>snmp_api.c\<close>), with
    \<open>V3_Roundtrip\<close> and \<open>Usm_Total\<close>: that they arrive, and that with memory and keys they can be built.
  \<^item> \<open>Keytools\<close>: keys of passphrases, localised keys and key changes (\<^verbatim>\<open>keytools.c\<close>). \<open>Messages\<close>: \<^verbatim>\<open>_snmp_build\<close> and
    \<^verbatim>\<open>_snmp_parse\<close> for all versions, with the defaults of a session (\<^verbatim>\<open>snmp_api.c\<close>, \<^verbatim>\<open>snmp_auth.c\<close>); \<open>Community_Roundtrip\<close>: that
    messages with a community arrive, and what cannot be built.
  \<^item> \<open>Sessions\<close>: the queue of pending requests with sending, resending, timeouts and the match of answers, and Reports
    (\<^verbatim>\<open>snmp_api.c\<close>). \<open>Session_Queue\<close>: the invariant of the queue over the contract \<open>message_layer\<close>; \<open>Session_Steps\<close>: the contract for the
    messages of \<open>Messages\<close>, the reachable states, delivery; \<open>Session_Timeouts\<close>: that requests come to an end, and the time \<^verbatim>\<open>select\<close> waits.
    \<open>Synch\<close>: \<^verbatim>\<open>snmp_sess_synch_response\<close> (\<^verbatim>\<open>snmp_client.c\<close>). \<open>Session_Props\<close>: the properties of sessions.
  \<^item> \<open>Oid\<close>: the comparison functions of \<^verbatim>\<open>snmp_api.c\<close> and the locale \<open>comparator\<close> of what their
    clients need. \<open>Int64\<close>: \<^verbatim>\<open>int64.c\<close>.

  \<^bold>\<open>State and operations.\<close> A decoder takes the readable memory \<open>m\<close>, the position of the object in
  it (the C pointer) and the value of \<^verbatim>\<open>*datalength\<close>, and returns the new position, the new
  \<^verbatim>\<open>*datalength\<close> and what it stored through its other pointers. Reading outside \<open>m\<close> is the error
  \<open>OutOfBounds\<close>, so the model shows where the code reads before it checks. A forward encoder returns
  the bytes it stored, also when it fails, and the new \<^verbatim>\<open>*datalength\<close>. A reverse encoder works on
  the record \<open>rbuf\<close> (\<^verbatim>\<open>*pkt\<close>, \<^verbatim>\<open>*pkt_len\<close>, \<^verbatim>\<open>*offset\<close>). Whether an allocation of \<open>n\<close> bytes succeeds
  is the parameter \<open>alloc\<close>. A C structure is a record, the union \<^verbatim>\<open>netsnmp_vardata\<close> a datatype whose
  constructor is the member written last. A session is the record \<open>session_list\<close>; its requests are pairs of an address and a record,
  in the order of the list, so that pointers to them can be compared. Its hooks for building and parsing, the transport and the
  clock are the record \<open>hooks\<close> over a state of the world; \<open>snmp_hooks\<close> are those of the library.

  \<^bold>\<open>What is shown.\<close> For every basic type, decoding what was encoded gives the value back, and the
  remaining lengths agree (\<open>int_roundtrip\<close>, \<open>objid_roundtrip\<close>, \<open>unsigned_int64_roundtrip\<close>, \<open>float_double_roundtrip\<close>); for signed 64-bit integers
  exactly the numbers for which this fails are determined (C16). Encoders stay in their buffers (C17), forward and reverse encoders
  produce the same bytes (C18). Lengths, headers and the
  framing of streams are \<open>length_roundtrip\<close>, \<open>header_in_bounds\<close> and C19. On top of these, a binding (\<open>var_op_roundtrip\<close>) and a whole PDU (C1) survive encoding
  and decoding, the reverse encoder's outcomes are complete (C13), its cache of fifty pointers
  keeps the order of any number of variables (C14), decoding makes progress on every input (C15),
  and the type of a decoded value says how it is stored (C25). C20, \<open>subtree_interval\<close> and
  \<open>find_prefix_value\<close> are about object identifiers, C21 to C23 about counters. The decoder of PDUs is memory safe on every input (C24),
  and the forward encoder of PDUs agrees with it too (C26). The walks that the collector polls with end for every
  agent that answers something (C27) and print exactly the subtree (C28, C29). The sorted containers sort (C30), behave
  like sets (C31) and select by prefix (\<open>subset_by_prefix\<close>), and insertion into several of them is atomic (C32). In access
  control the longest family decides about a name (C33), a decision about a subtree holds for every name in it
  (C34), and the access entry that is used is determined (C35). In the user-based security model an accepted
  message is authentic (C36), a PDU sent by one engine in an SNMPv3 message is what another one with the same keys
  gets (C2), clocks do not go back and old messages are refused (C37), every
  error is counted (C38), the table of clocks is a map (C39) and so is the list of users
  (C40). Keys are those of RFC 3414 (C10) and a key change can be undone (C9). A request of a
  session with a community arrives with what the session adds (C3); what a session refuses to build is C11. In every
  order of events the queue of requests stays consistent (C6), a response goes to its request (C7),
  no request waits for ever (C5), and \<^verbatim>\<open>select\<close> is told the right time (C12). A synchronous request that succeeds
  has the response to it (C4), and one without an answer returns (C8).

  \<^bold>\<open>Loops.\<close> Loops are total recursive functions with a termination proof. Where a C loop has no
  bound in sight, the model's bound is shown to be enough: four rounds for the signed integer loop
  (\<open>int_out_spec\<close>), 21 digits in \<^verbatim>\<open>printU64\<close> (\<open>printU64_spec\<close> shows the loop never runs
  out of them). The loop of a walk can run forever: it is a partial function with the result \<open>None\<close> then, C27 says when it
  ends, and \<open>walk_empty_answer\<close> shows an agent for which it does not. The loop of a synchronous request runs over the events \<^verbatim>\<open>select\<close>
  reports and is \<open>None\<close> when it still waits after them; C8 says that \<open>retries + 1\<close> timeouts are enough, and \<open>synch_stuck\<close> shows
  a Report after which no timeout ends it.

  \<^bold>\<open>Not modelled.\<close> The Perl and shell scripts, the MIB files and the web pages (not C);
  debugging output; transports and sockets (I/O); opening and closing sessions and the probe for an engine ID; the MIB compiler and
  value formatting (\<^verbatim>\<open>parse.c\<close>, \<^verbatim>\<open>mib.c\<close>); the engine ID of the local engine and what the
  cryptographic library computes; configuration reading; the agent and its MIB modules other than the decision
  of access control, which starts when the security name of the sender is known.
\<close>

unbundle bit_operations_syntax

section \<open>Protocol data units\<close>

lemma contents_split:
  assumes "prepended alloc r b bs (Inr b')" "valid_rbuf b"
  shows "bytes_at (contents b') 0 bs" "length bs \<le> offset b'"
  using assms bytes_at_self[of "[]" bs "contents b"] prepended_offset[OF assms]
  by (auto simp: prepended_def)

text \<open>
  C1. What the reverse encoder builds, the decoder reads back: for every PDU with well-formed
  bindings that fits in the buffer, \<^verbatim>\<open>snmp_pdu_realloc_rbuild\<close> succeeds and
  \<^verbatim>\<open>snmp_pdu_parse\<close> on the bytes it stored returns 0 and the PDU's fields and bindings, whatever
  the bytes behind them and however many bindings there are.
\<close>

theorem pdu_roundtrip:
  assumes "pdu_rt pdu" "valid_rbuf b" "length (agent_addr p0) = 4"
    and "offset b + length (pdu_enc pdu) \<le> length (pkt b)" "length (pkt b) < 2 ^ 31"
  shows "\<exists>b'. snmp_pdu_realloc_rbuild alloc pdu b = Inr b' \<and>
    snmp_pdu_parse (\<lambda>_. True) p0 (contents b') 0 (of_nat (offset b')) = Inr (pdu_decoded p0 pdu, 0)"
proof -
  note p = rbuild_pdu_prepended[OF pdu_rt_ok[OF assms(1)] assms(2), of alloc]
  then obtain b' where b': "snmp_pdu_realloc_rbuild alloc pdu b = Inr b'"
    using assms(4) by (auto simp: prepended_def split: sum.splits)
  note c = contents_split[OF p[unfolded b'] assms(2)]
  have o: "offset b' = offset b + length (pdu_enc pdu)" by (rule prepended_offset[OF p[unfolded b'] assms(2)])
  then have "unat (of_nat (offset b') :: u32) = offset b'" using assms(4,5) by (intro u32_unat_of_nat) simp
  then have "snmp_pdu_parse (\<lambda>_. True) p0 (contents b') 0 (of_nat (offset b')) = Inr (pdu_decoded p0 pdu, 0)"
    using snmp_pdu_parse_at[OF pdu_at_enc[OF c(1)], of "of_nat (offset b')" p0] assms(1,3-5) c(2) o by simp
  with b' show ?thesis by blast
qed

text \<open>A \<^verbatim>\<open>GETBULK\<close> for two names, as the collector sends it.\<close>

definition blank_pdu :: pdu where
  "blank_pdu = \<lparr>version = 1, command = 0, reqid = 0, msgid = 0, transid = 0, sessid = 0, errstat = 0, errindex = 0,
     timestamp = 0, flags = 0, securityModel = 0, securityLevel = 0, msgParseModel = 0, variables = [], community = [],
     enterprise = [], trap_type = 0, specific_type = 0, agent_addr = [0, 0, 0, 0], contextEngineID = [],
     contextName = [], securityEngineID = [], securityName = []\<rparr>"

definition sample_pdu :: pdu where
  "sample_pdu = blank_pdu\<lparr>command := SNMP_MSG_GETBULK, reqid := 77, errstat := 0, errindex := 10,
     variables := [\<lparr>name = [1, 3, 6, 1, 2, 1, 2, 2, 1, 10], vtype = ASN_NULL, val = NoVal, val_len = 0\<rparr>,
       \<lparr>name = [1, 3, 6, 1, 2, 1, 1, 3, 0], vtype = ASN_TIMETICKS, val = IntegerVal 4000000000, val_len = 4\<rparr>]\<rparr>"

definition sample_buf :: rbuf where
  "sample_buf = \<lparr>pkt = replicate 200 0, offset = 3\<rparr>"

lemma sample_pdu_rt: "pdu_rt sample_pdu"
  by (simp add: pdu_rt_def sample_pdu_def blank_pdu_def var_rt_def var_ok_def val_ok_def val_rt_def objid_ok_def
      MAX_OID_LEN_def var_kind_def var_tag_defs is_request_def msg_defs)

lemma sample_pdu_len: "length (pdu_enc sample_pdu) \<le> 100"
  by code_simp

theorem pdu_roundtrip_witness:
  "\<exists>b'. snmp_pdu_realloc_rbuild (\<lambda>_. False) sample_pdu sample_buf = Inr b' \<and>
    snmp_pdu_parse (\<lambda>_. True) blank_pdu (contents b') 0 (of_nat (offset b')) =
      Inr (pdu_decoded blank_pdu sample_pdu, 0)"
  by (rule pdu_roundtrip[OF sample_pdu_rt])
    (use sample_pdu_len in \<open>simp_all add: valid_rbuf_def sample_buf_def blank_pdu_def\<close>)



text \<open>
  C14. The binding list of a PDU with any number of variables: the cache of fifty pointers, refilled as
  often as needed, makes the reverse encoder emit every binding exactly once and in the order of the
  list, as a loop over a reversed list would.
\<close>

theorem varlist_in_order:
  assumes "\<forall>vp\<in>set vars. var_ok vp" "valid_rbuf b"
    and "offset b + length (concat (map var_enc vars)) \<le> length (pkt b)"
  shows "\<exists>b'. rbuild_varlist alloc vars (length vars) (replicate VPCACHE_SIZE None) b = Inr b' \<and>
    contents b' = concat (map var_enc vars) @ contents b \<and> length (pkt b') = length (pkt b)"
  using rbuild_varlist_prepended[of vars "length vars" "replicate VPCACHE_SIZE None" b alloc] assms
  by (auto simp: prepended_def varlist_enc_def split: sum.splits)

definition sample_vars :: "variable_list list" where
  "sample_vars = replicate 120 \<lparr>name = [1, 3, 6], vtype = ASN_NULL, val = NoVal, val_len = 0\<rparr>"

lemma sample_vars_len: "length (concat (map var_enc sample_vars)) = 960"
  by code_simp

theorem varlist_in_order_witness:
  "\<exists>b'. rbuild_varlist (\<lambda>_. False) sample_vars (length sample_vars) (replicate VPCACHE_SIZE None)
      \<lparr>pkt = replicate 1000 0, offset = 0\<rparr> = Inr b' \<and>
    contents b' = concat (map var_enc sample_vars) @ contents \<lparr>pkt = replicate 1000 0, offset = 0\<rparr> \<and>
    length (pkt b') = length (pkt \<lparr>pkt = replicate 1000 (0 :: u8), offset = 0\<rparr>)"
  by (rule varlist_in_order)
    (simp_all add: sample_vars_len, simp_all add: sample_vars_def var_ok_def val_ok_def objid_ok_def
      MAX_OID_LEN_def var_kind_def var_tag_defs valid_rbuf_def)

section \<open>Variable bindings\<close>

text \<open>
  One binding: what \<^verbatim>\<open>snmp_realloc_rbuild_var_op\<close> stores, \<^verbatim>\<open>snmp_parse_var_op\<close> finds (name, type,
  position of the value, the rest of the list) and the switch of \<^verbatim>\<open>snmp_pdu_parse\<close> decodes to the same
  value and length.
\<close>

lemma var_op_roundtrip:
  assumes "var_rt vp" "valid_rbuf b" "snmp_realloc_rbuild_var_op alloc r vp b = Inr b'" "offset b' < 2 ^ 31"
  shows "\<exists>vl q. snmp_parse_var_op (contents b') 0 (of_nat (offset b')) (of_nat MAX_OID_LEN) =
      Inr (offset b' - offset b, of_nat (offset b), name vp, vtype vp, vl, q) \<and>
    parse_var_val (\<lambda>_. True) (contents b') q (vtype vp) vl = Inr (vtype vp, val vp, val_len vp, False)"
proof -
  let ?c = "var_contents vp" and ?m = "contents b'" and ?L = "of_nat (offset b') :: u32"
  let ?h = "ber_header ASN_SEQUENCE_CONSTRUCTOR (of_nat (length ?c))"
  have ok: "var_ok vp" "length (name vp) \<le> unat (of_nat MAX_OID_LEN :: u32)"
    "val_ok (vtype vp) (val vp) (val_len vp)" "val_rt (vtype vp) (val vp)"
    using assms(1) by (auto simp: var_rt_def var_ok_def objid_ok_def MAX_OID_LEN_def)
  have p: "prepended alloc r b (?h @ ?c) (Inr b')"
    using rbuild_var_op_prepended[OF ok(1) assms(2), of alloc r] assms(3) by (simp add: tlv_def)
  have at: "bytes_at ?m 0 ?h" "bytes_at ?m (length ?h) ?c"
    using contents_split(1)[OF p assms(2)] by (simp_all add: bytes_at_append)
  have o: "offset b' = offset b + (length ?h + length ?c)" using prepended_offset[OF p assms(2)] by simp
  have u: "unat ?L = offset b'" "unat (of_nat (length ?c) :: u32) = length ?c"
    using assms(4) o by (intro u32_unat_of_nat; simp)+
  have tl: "asn_parse_tl ?m 0 ?L = Inr (ASN_SEQUENCE_CONSTRUCTOR, length ?h, of_nat (length ?c))"
    using asn_parse_tl_header[OF at(1), of ?L] u o assms(4) by simp
  obtain vl where v: "snmp_parse_var_op ?m 0 ?L (of_nat MAX_OID_LEN) = Inr (length ?h + length ?c,
      ?L - of_nat (length ?h + length ?c), name vp, vtype vp, vl, length ?h + length (name_enc vp))"
      "var_kind (vtype vp) \<in> {KString, KBits, KNull} \<longrightarrow> vl = val_len vp"
    using parse_var_op_contents[OF assms(1) ok(2) tl u(2)] at(2) u(2) by auto
  have "bytes_at ?m (length ?h + length (name_enc vp)) (val_enc (vtype vp) (val vp))"
    using at(2) by (simp add: var_contents_def name_enc_def bytes_at_append)
  then have "parse_var_val (\<lambda>_. True) ?m (length ?h + length (name_enc vp)) (vtype vp) vl =
      Inr (vtype vp, val vp, val_len vp, False)"
    using v(2) by (intro parse_var_val_enc ok) auto
  with v(1) o show ?thesis by auto
qed

definition sample_var :: variable_list where
  "sample_var = \<lparr>name = [1, 3, 6, 1, 2, 1, 2, 2, 1, 2, 5], vtype = ASN_OCTET_STR, val = StringVal [101, 116, 104, 48],
     val_len = 4\<rparr>"

lemma var_op_roundtrip_witness:
  "\<exists>b'. snmp_realloc_rbuild_var_op (\<lambda>_. False) False sample_var sample_buf = Inr b' \<and>
    (\<exists>vl q. snmp_parse_var_op (contents b') 0 (of_nat (offset b')) (of_nat MAX_OID_LEN) =
      Inr (offset b' - offset sample_buf, of_nat (offset sample_buf), name sample_var, vtype sample_var, vl, q) \<and>
    parse_var_val (\<lambda>_. True) (contents b') q (vtype sample_var) vl =
      Inr (vtype sample_var, val sample_var, val_len sample_var, False))"
proof -
  have rt: "var_rt sample_var"
    by (simp add: sample_var_def var_rt_def var_ok_def val_ok_def val_rt_def objid_ok_def MAX_OID_LEN_def
        var_kind_def var_tag_defs)
  have v: "valid_rbuf sample_buf" by (simp add: valid_rbuf_def sample_buf_def)
  have l: "length (tlv ASN_SEQUENCE_CONSTRUCTOR (var_contents sample_var)) = 20" by code_simp
  obtain b' where b': "snmp_realloc_rbuild_var_op (\<lambda>_. False) False sample_var sample_buf = Inr b'"
    using var_reverse.rbuild_fits[OF _ v, of sample_var "\<lambda>_. False" False] rt l
    by (auto simp: var_rt_def sample_buf_def)
  then have "offset b' = 23"
    using prepended_offset[OF _ v] var_reverse.rbuild_prepended[OF _ v, of sample_var "\<lambda>_. False" False] rt l
    by (fastforce simp: var_rt_def sample_buf_def)
  then show ?thesis using var_op_roundtrip[OF rt v b'] b' by simp
qed

text \<open>
  C15. Decoding makes progress and keeps to the list: a binding that \<^verbatim>\<open>snmp_parse_var_op\<close> accepts ends
  after it starts and inside the \<^verbatim>\<open>*listlength\<close> bytes of the list, and the remaining length is exactly
  reduced by it. This is what makes the loop of \<^verbatim>\<open>snmp_pdu_parse\<close> terminate on every packet.
\<close>

theorem parse_var_op_progress:
  assumes "snmp_parse_var_op m p listlength cap = Inr (p', listlength', found)"
  shows "p < p' \<and> p' \<le> p + unat listlength \<and> unat listlength' + (p' - p) = unat listlength"
  using snmp_parse_var_op_advance[OF assms] by linarith

theorem parse_var_op_progress_witness:
  "snmp_parse_var_op [0x30, 7, 6, 3, 43, 6, 1, 5, 0, 99] 0 10 128 = Inr (9, 1, [1, 3, 6, 1], 5, 0, 7) \<and>
    ((0 :: nat) < 9 \<and> 9 \<le> 0 + unat (10 :: u32) \<and> unat (1 :: u32) + (9 - 0) = unat (10 :: u32))"
proof -
  have e: "snmp_parse_var_op [0x30, 7, 6, 3, 43, 6, 1, 5, 0, 99] 0 10 128 = Inr (9, 1, [1, 3, 6, 1], 5, 0, 7)"
    by code_simp
  show ?thesis by (rule conjI[OF e parse_var_op_progress[OF e]])
qed

section \<open>Encoders and decoders of values\<close>

text \<open>
  Every 32-bit integer survives \<^verbatim>\<open>asn_build_int\<close> and \<^verbatim>\<open>asn_parse_int\<close>: the decoder returns the type,
  the value, the end of the object and the remaining length the encoder returned.
\<close>

lemma int_roundtrip:
  assumes "asn_build_int dl type x 4 = (w, Inr dl')"
  shows "asn_parse_int (pre @ w @ post) (length pre) dl 4 = Inr (length pre + length w, dl', type, x)"
  using int_codec.roundtrip[where v = "(type, x)" and dl = dl and w = w] assms by simp

lemma int_roundtrip_witness:
  "asn_build_int 10 2 (- 129) 4 = ([2, 2, 0xFF, 0x7F], Inr 6) \<and>
   asn_parse_int ([9] @ [2, 2, 0xFF, 0x7F] @ [7]) (length [9 :: u8]) 10 4 =
     Inr (length [9 :: u8] + length [2, 2, 0xFF, 0x7F :: u8], 6, 2, - 129)"
proof -
  have "asn_build_int 10 2 (- 129) 4 = ([2, 2, 0xFF, 0x7F], Inr 6)" by code_simp
  then show ?thesis using int_roundtrip[of 10 2 "- 129" "[2, 2, 0xFF, 0x7F]" 6 "[9]" "[7]"] by blast
qed

text \<open>
  Every unsigned 32-bit value (counters, gauges, time ticks) survives \<^verbatim>\<open>asn_build_unsigned_int\<close> and
  \<^verbatim>\<open>asn_parse_unsigned_int\<close>, the values with the top bit set, which take five octets, included.
\<close>

lemma unsigned_int_roundtrip:
  assumes "asn_build_unsigned_int dl type x 4 = (w, Inr dl')"
  shows "asn_parse_unsigned_int (pre @ w @ post) (length pre) dl 4 = Inr (length pre + length w, dl', type, x)"
  using uint_codec.roundtrip[where v = "(type, x)" and dl = dl and w = w] assms by simp

lemma unsigned_int_roundtrip_witness:
  "asn_build_unsigned_int 10 0x41 0xFFFFFFFF 4 = ([0x41, 5, 0, 0xFF, 0xFF, 0xFF, 0xFF], Inr 3) \<and>
   asn_parse_unsigned_int ([] @ [0x41, 5, 0, 0xFF, 0xFF, 0xFF, 0xFF] @ []) (length ([] :: u8 list)) 10 4 =
     Inr (length ([] :: u8 list) + length [0x41, 5, 0, 0xFF, 0xFF, 0xFF, 0xFF :: u8], 3, 0x41, 0xFFFFFFFF)"
proof -
  have "asn_build_unsigned_int 10 0x41 0xFFFFFFFF 4 = ([0x41, 5, 0, 0xFF, 0xFF, 0xFF, 0xFF], Inr 3)" by code_simp
  then show ?thesis
    using unsigned_int_roundtrip[of 10 "0x41" "0xFFFFFFFF" "[0x41, 5, 0, 0xFF, 0xFF, 0xFF, 0xFF]" 3 "[]" "[]"] by blast
qed

text \<open>
  Every object identifier with a valid first pair and at most \<^verbatim>\<open>MAX_OID_LEN\<close> subidentifiers survives
  \<^verbatim>\<open>asn_build_objid\<close> and \<^verbatim>\<open>asn_parse_objid\<close> into an array of at least its length.
\<close>

lemma objid_roundtrip:
  assumes "objid_ok x" "length x \<le> unat cap" "asn_build_objid dl type x = (w, Inr dl')"
  shows "asn_parse_objid (pre @ w @ post) (length pre) dl cap = Inr (length pre + length w, dl', type, x)"
  using objid_codec.roundtrip[where v = "(type, x)" and cap = cap and dl = dl and w = w and dl' = dl' and pre = pre and post = post] assms by simp

lemma objid_roundtrip_witness:
  "asn_build_objid 20 6 [2, 999, 3, 4294967295] = ([6, 8, 0x88, 0x37, 3, 0x8F, 0xFF, 0xFF, 0xFF, 0x7F], Inr 10) \<and>
   asn_parse_objid ([] @ [6, 8, 0x88, 0x37, 3, 0x8F, 0xFF, 0xFF, 0xFF, 0x7F] @ [1]) (length ([] :: u8 list)) 20 4 =
     Inr (length ([] :: u8 list) + length [6, 8, 0x88, 0x37, 3, 0x8F, 0xFF, 0xFF, 0xFF, 0x7F :: u8], 10, 6,
       [2, 999, 3, 4294967295])"
proof -
  have b: "asn_build_objid 20 6 [2, 999, 3, 4294967295] = ([6, 8, 0x88, 0x37, 3, 0x8F, 0xFF, 0xFF, 0xFF, 0x7F], Inr 10)"
    by code_simp
  have ok: "objid_ok [2, 999, 3, 4294967295]" by (simp add: objid_ok_def MAX_OID_LEN_def)
  show ?thesis by (rule conjI[OF b objid_roundtrip[OF ok _ b, of 4 "[]" "[1]"]]) simp
qed

text \<open>
  Every 64-bit counter survives \<^verbatim>\<open>asn_build_unsigned_int64\<close> and \<^verbatim>\<open>asn_parse_unsigned_int64\<close>, both as
  a plain Counter64 and wrapped in an Opaque with the extended tags.
\<close>

lemma unsigned_int64_roundtrip:
  assumes "type \<noteq> ASN_OPAQUE" "asn_build_unsigned_int64 dl type c 8 = (w, Inr dl')"
  shows "asn_parse_unsigned_int64 (pre @ w @ post) (length pre) dl 8 = Inr (length pre + length w, dl', type, c)"
  using u64_codec.roundtrip[where v = "(type, c)" and dl = dl and w = w] assms by simp

lemma unsigned_int64_roundtrip_witness:
  "asn_build_unsigned_int64 20 ASN_OPAQUE_U64 \<lparr>high = 1, low = 0x80000000\<rparr> 8 =
     ([0x44, 8, 0x9F, 0x7B, 5, 1, 0x80, 0, 0, 0], Inr 10) \<and>
   asn_parse_unsigned_int64 ([] @ [0x44, 8, 0x9F, 0x7B, 5, 1, 0x80, 0, 0, 0] @ []) (length ([] :: u8 list)) 20 8 =
     Inr (length ([] :: u8 list) + length [0x44, 8, 0x9F, 0x7B, 5, 1, 0x80, 0, 0, 0 :: u8], 10, ASN_OPAQUE_U64,
       \<lparr>high = 1, low = 0x80000000\<rparr>)"
proof -
  have "asn_build_unsigned_int64 20 ASN_OPAQUE_U64 \<lparr>high = 1, low = 0x80000000\<rparr> 8 =
     ([0x44, 8, 0x9F, 0x7B, 5, 1, 0x80, 0, 0, 0], Inr 10)" by code_simp
  then show ?thesis
    using unsigned_int64_roundtrip[of ASN_OPAQUE_U64 20 "\<lparr>high = 1, low = 0x80000000\<rparr>"
        "[0x44, 8, 0x9F, 0x7B, 5, 1, 0x80, 0, 0, 0]" 10 "[]" "[]"]
    by (simp add: asn_tag_defs)
qed

text \<open>
  C16. Signed 64-bit integers: decoding what \<^verbatim>\<open>asn_build_signed_int64\<close> built always succeeds, and gives the
  number back exactly when it is not between \<open>- (2 ^ 31)\<close> and \<open>- 1\<close>. Those numbers are encoded in four
  octets or fewer, and the decoder extends their sign from 24 one bits in each half instead of 32.
\<close>

theorem signed_int64_roundtrip_exact:
  assumes "asn_build_signed_int64 dl type c 8 = (w, Inr dl')"
  shows "\<exists>d. asn_parse_signed_int64 (pre @ w @ post) (length pre) dl 8 =
      Inr (length pre + length w, dl', ASN_OPAQUE_I64, d) \<and>
    (d = c \<longleftrightarrow> \<not> (- (2 ^ 31) \<le> ival64 c \<and> ival64 c < 0))"
proof -
  let ?P = "opaque_wrap ASN_OPAQUE_I64 (i64_payload c)" and ?m = "pre @ w @ post" and ?p = "length pre"
  from assms have w: "w = tlv ASN_OPAQUE ?P" and l: "length w \<le> unat dl" and dl': "dl' = dl - of_nat (length w)"
    using i64_encoder.build_Inr_iff[where v = "(type, c)" and dl = dl and w = w and dl' = dl'] by auto
  have n: "length ?P \<le> 0xFFFF" using i64_payload_len(2)[of c] by simp
  have at: "bytes_at ?m ?p w" by (rule bytes_at_self)
  note b = tlv_length_bounds(1)[of ?P ASN_OPAQUE] tlv_length_bounds(2)[of ASN_OPAQUE ?P]
  let ?q = "?p + length w - length ?P"
  have "asn_parse_tl ?m ?p dl = Inr (ASN_OPAQUE, ?q, of_nat (length (i64_payload c) + 3))"
    using parse_tl_tlv[OF at[unfolded w] n, of dl] l w by simp
  moreover have "bytes_at ?m ?q ?P" using tlv_payload_at[OF at[unfolded w]] w by simp
  moreover have "?p + 2 \<le> ?q" "?q \<le> ?p + 6" "?q - ?p + (length (i64_payload c) + 3) \<le> unat dl"
    using b l w by auto
  ultimately obtain d where d: "asn_parse_signed_int64 ?m ?p dl 8 =
      Inr (?q + (length (i64_payload c) + 3), dl - (of_nat (length (i64_payload c) + 3) + of_nat (?q - ?p)),
           ASN_OPAQUE_I64, d)" "u64_of d = i64_decoded c"
    using asn_parse_signed_int64_wrapped by blast
  have e: "?q + (length (i64_payload c) + 3) = ?p + length w"
      "length (i64_payload c) + 3 + (?q - ?p) = length w" using b w by auto
  then have "(of_nat (length (i64_payload c) + 3) + of_nat (?q - ?p) :: u32) = of_nat (length w)"
    by (simp only: of_nat_add[symmetric])
  moreover have "d = c \<longleftrightarrow> \<not> (- (2 ^ 31) \<le> ival64 c \<and> ival64 c < 0)"
    using i64_decoded_iff[of c] d(2) u64_of_inject[of d c] i64_loss_iff[of c] by auto
  ultimately show ?thesis using d(1) e(1) dl' by auto
qed

theorem signed_int64_roundtrip_exact_witness:
  "\<exists>d. asn_parse_signed_int64 ([] @ [0x44, 4, 0x9F, 0x7A, 1, 0xFF] @ []) (length ([] :: u8 list)) 20 8 =
      Inr (length ([] :: u8 list) + length [0x44, 4, 0x9F, 0x7A, 1, 0xFF :: u8], 14, ASN_OPAQUE_I64, d) \<and>
    (d = \<lparr>high = - 1, low = - 1\<rparr> \<longleftrightarrow>
      \<not> (- (2 ^ 31) \<le> ival64 \<lparr>high = - 1, low = - 1\<rparr> \<and> ival64 \<lparr>high = - 1, low = - 1\<rparr> < 0))"
  by (rule signed_int64_roundtrip_exact[of _ ASN_OPAQUE_I64]) code_simp

text \<open>
  An octet string of up to 65535 bytes survives \<^verbatim>\<open>asn_build_string\<close> and \<^verbatim>\<open>asn_parse_string\<close> into a
  buffer of \<^verbatim>\<open>*strlength\<close> bytes, which is the string followed by a zero byte exactly when there is room for one.
\<close>

lemma string_roundtrip:
  assumes "length s \<le> 0xFFFF" "length s \<le> unat cap"
    and "asn_build_string dl type (Some s) (of_nat (length s)) = (w, Inr dl')"
  shows "asn_parse_string (pre @ w @ post) (length pre) dl cap =
    Inr (length pre + length w, dl', type, if length s < unat cap then s @ [0] else s, of_nat (length s))"
  using string_codec.roundtrip[where v = "(type, s)" and cap = cap and dl = dl and w = w] assms
  by (simp add: string_result_def)

lemma string_roundtrip_witness:
  "asn_build_string 9 4 (Some [104, 105]) (of_nat (length [104, 105 :: u8])) = ([4, 2, 104, 105], Inr 5) \<and>
   asn_parse_string ([] @ [4, 2, 104, 105] @ []) (length ([] :: u8 list)) 9 2 =
    Inr (length ([] :: u8 list) + length [4, 2, 104, 105 :: u8], 5, 4,
      if length [104, 105 :: u8] < unat (2 :: u32) then [104, 105] @ [0] else [104, 105], of_nat (length [104, 105 :: u8]))"
proof -
  have "asn_build_string 9 4 (Some [104, 105]) (of_nat (length [104, 105 :: u8])) = ([4, 2, 104, 105], Inr 5)"
    by code_simp
  then show ?thesis using string_roundtrip[of "[104, 105]" 2 9 4 "[4, 2, 104, 105]" 5 "[]" "[]"] by simp
qed

text \<open>
  The bits of a \<^verbatim>\<open>float\<close> and of a \<^verbatim>\<open>double\<close> survive encoding as an Opaque and decoding; the pointer the
  decoders return is the one to the value inside the object, not the end of the object their comments
  promise.
\<close>

lemma float_double_roundtrip:
  assumes "asn_build_float dl type f 4 = (w, Inr dl')" "asn_build_double dl type d 8 = (w2, Inr dl2)"
  shows "asn_parse_float (pre @ w @ post) (length pre) dl 4 =
      Inr (length pre + length w - 4, dl', ASN_OPAQUE_FLOAT, f) \<and>
    asn_parse_double (pre @ w2 @ post) (length pre) dl 8 =
      Inr (length pre + length w2 - 8, dl2, ASN_OPAQUE_DOUBLE, d)"
  using assms float_encoder.build_Inr_iff[where v = "(type, f)" and dl = dl and w = w and dl' = dl']
    double_encoder.build_Inr_iff[where v = "(type, d)" and dl = dl and w = w2 and dl' = dl2]
    asn_parse_float_contents[OF bytes_at_self, of f dl _ pre post]
    asn_parse_double_contents[OF bytes_at_self, of d dl _ pre post]
  by auto

lemma float_double_roundtrip_witness:
  "asn_parse_float ([] @ [0x44, 7, 0x9F, 0x78, 4, 0x3F, 0x80, 0, 0] @ []) (length ([] :: u8 list)) 20 4 =
      Inr (length ([] :: u8 list) + length [0x44, 7, 0x9F, 0x78, 4, 0x3F, 0x80, 0, 0 :: u8] - 4, 11, ASN_OPAQUE_FLOAT, 0x3F800000)
   \<and> asn_parse_double ([] @ [0x44, 11, 0x9F, 0x79, 8, 0x3F, 0xF0, 0, 0, 0, 0, 0, 0] @ []) (length ([] :: u8 list)) 20 8 =
      Inr (length ([] :: u8 list) + length [0x44, 11, 0x9F, 0x79, 8, 0x3F, 0xF0, 0, 0, 0, 0, 0, 0 :: u8] - 8, 7,
        ASN_OPAQUE_DOUBLE, (0, 0x3FF00000))"
proof -
  have b: "asn_build_float 20 0x78 0x3F800000 4 = ([0x44, 7, 0x9F, 0x78, 4, 0x3F, 0x80, 0, 0], Inr 11)"
    "asn_build_double 20 0x78 (0, 0x3FF00000) 8 = ([0x44, 11, 0x9F, 0x79, 8, 0x3F, 0xF0, 0, 0, 0, 0, 0, 0], Inr 7)"
    by code_simp+
  show ?thesis
    by (rule float_double_roundtrip[OF b])
qed



section \<open>Forward and reverse encoders\<close>

text \<open>
  C18. The forward and the reverse encoder of integers produce the same bytes, although one truncates from
  the front and the other emits low octets until only the sign is left.
\<close>

theorem int_encoders_agree:
  assumes "valid_rbuf b"
    and "asn_build_int dl type x 4 = (w, Inr dl')" "asn_realloc_rbuild_int alloc r type x 4 b = Inr b'"
  shows "contents b' = w @ contents b"
  using int_pair.same_bytes[where v = "(type, x)" and dl = dl and w = w and dl' = dl' and b = b] assms by simp

theorem int_encoders_agree_witness:
  "\<exists>b'. asn_realloc_rbuild_int (\<lambda>_. False) False 2 (- 129) 4 sample_buf = Inr b' \<and>
     contents b' = [2, 2, 0xFF, 0x7F] @ contents sample_buf"
proof -
  have v: "valid_rbuf sample_buf" by (simp add: valid_rbuf_def sample_buf_def)
  have b: "asn_build_int 10 2 (- 129) 4 = ([2, 2, 0xFF, 0x7F], Inr 6)" by code_simp
  have "length (tlv 2 (int_payload (- 129))) \<le> 20"
    using tlv_length_bounds(2)[of 2 "int_payload (- 129)"] int_payload_len(2)[of "- 129"] by simp
  then obtain b' where "asn_realloc_rbuild_int (\<lambda>_. False) False 2 (- 129) 4 sample_buf = Inr b'"
    using int_pair.rbuild_fits[where v = "(2, - 129)" and b = sample_buf and alloc = "\<lambda>_. False" and r = False] v
    by (auto simp: sample_buf_def)
  then show ?thesis using int_encoders_agree[OF v b] by blast
qed

text \<open>
  The forward and the reverse encoder of object identifiers produce the same bytes for every valid
  identifier of two or more subidentifiers. (For shorter ones they differ.)
\<close>

lemma objid_encoders_agree:
  assumes "objid_ok x" "valid_rbuf b"
    and "asn_build_objid dl type x = (w, Inr dl')" "asn_realloc_rbuild_objid alloc r type x b = Inr b'"
  shows "contents b' = w @ contents b"
  using objid_pair.same_bytes[where v = "(type, x)" and dl = dl and w = w and dl' = dl' and b = b] assms by simp

lemma objid_encoders_agree_witness:
  "\<exists>b'. asn_realloc_rbuild_objid (\<lambda>_. False) False 6 [1, 3, 6, 200] sample_buf = Inr b' \<and>
     contents b' = [6, 4, 43, 6, 0x81, 0x48] @ contents sample_buf"
proof -
  have v: "valid_rbuf sample_buf" "objid_ok [1, 3, 6, 200]"
    by (simp_all add: valid_rbuf_def sample_buf_def objid_ok_def MAX_OID_LEN_def)
  have b: "asn_build_objid 10 6 [1, 3, 6, 200] = ([6, 4, 43, 6, 0x81, 0x48], Inr 4)" by code_simp
  then have "tlv 6 (objid_payload [1, 3, 6, 200]) = [6, 4, 43, 6, 0x81, 0x48]"
    using objid_pair.build_Inr_iff[where v = "(6, [1, 3, 6, 200])" and dl = 10 and dl' = 4
        and w = "[6, 4, 43, 6, 0x81, 0x48]"] v(2) by simp
  then obtain b' where "asn_realloc_rbuild_objid (\<lambda>_. False) False 6 [1, 3, 6, 200] sample_buf = Inr b'"
    using objid_pair.rbuild_fits[where v = "(6, [1, 3, 6, 200])" and b = sample_buf and alloc = "\<lambda>_. False" and r = False] v
    by (auto simp: sample_buf_def)
  then show ?thesis using objid_encoders_agree[OF v(2,1) b] by blast
qed

text \<open>
  The forward and the reverse encoders of 64-bit integers, signed and unsigned, plain and wrapped,
  produce the same bytes.
\<close>

lemma int64_encoders_agree:
  assumes "valid_rbuf b" "type \<noteq> ASN_OPAQUE"
    and "asn_build_unsigned_int64 dl type c 8 = (w, Inr dl')"
    and "asn_realloc_rbuild_unsigned_int64 alloc r type c 8 b = Inr b'"
    and "asn_build_signed_int64 dl type c 8 = (w2, Inr dl2)"
    and "asn_realloc_rbuild_signed_int64 alloc r type c 8 b = Inr b2"
  shows "contents b' = w @ contents b \<and> contents b2 = w2 @ contents b"
  using u64_pair.same_bytes[where v = "(type, c)" and dl = dl and w = w and dl' = dl' and b = b]
    i64_pair.same_bytes[where v = "(type, c)" and dl = dl and w = w2 and dl' = dl2 and b = b] assms by simp

lemma int64_encoders_agree_witness:
  "\<exists>b' b2. asn_realloc_rbuild_unsigned_int64 (\<lambda>_. False) False ASN_COUNTER64 \<lparr>high = 0, low = 300\<rparr> 8 sample_buf = Inr b' \<and>
     asn_realloc_rbuild_signed_int64 (\<lambda>_. False) False ASN_COUNTER64 \<lparr>high = 0, low = 300\<rparr> 8 sample_buf = Inr b2 \<and>
     contents b' = [0x46, 2, 1, 44] @ contents sample_buf \<and>
     contents b2 = [0x44, 5, 0x9F, 0x7A, 2, 1, 44] @ contents sample_buf"
proof -
  let ?c = "\<lparr>high = 0, low = 300\<rparr>"
  have v: "valid_rbuf sample_buf" "ASN_COUNTER64 \<noteq> ASN_OPAQUE"
    by (simp_all add: valid_rbuf_def sample_buf_def var_tag_defs)
  have b: "asn_build_unsigned_int64 20 ASN_COUNTER64 ?c 8 = ([0x46, 2, 1, 44], Inr 16)"
      "asn_build_signed_int64 20 ASN_COUNTER64 ?c 8 = ([0x44, 5, 0x9F, 0x7A, 2, 1, 44], Inr 13)" by code_simp+
  then have "tlv (u64_tag ASN_COUNTER64) (u64_payload ASN_COUNTER64 ?c) = [0x46, 2, 1, 44]"
      "tlv ASN_OPAQUE (opaque_wrap ASN_OPAQUE_I64 (i64_payload ?c)) = [0x44, 5, 0x9F, 0x7A, 2, 1, 44]"
    using u64_codec.build_Inr_iff[where v = "(ASN_COUNTER64, ?c)" and dl = 20 and dl' = 16 and w = "[0x46, 2, 1, 44]"]
      i64_encoder.build_Inr_iff[where v = "(ASN_COUNTER64, ?c)" and dl = 20 and dl' = 13
        and w = "[0x44, 5, 0x9F, 0x7A, 2, 1, 44]"] v(2) by auto
  then obtain b' b2 where
    "asn_realloc_rbuild_unsigned_int64 (\<lambda>_. False) False ASN_COUNTER64 ?c 8 sample_buf = Inr b'"
    "asn_realloc_rbuild_signed_int64 (\<lambda>_. False) False ASN_COUNTER64 ?c 8 sample_buf = Inr b2"
    using u64_pair.rbuild_fits[where v = "(ASN_COUNTER64, ?c)" and b = sample_buf and alloc = "\<lambda>_. False" and r = False]
      i64_pair.rbuild_fits[where v = "(ASN_COUNTER64, ?c)" and b = sample_buf and alloc = "\<lambda>_. False" and r = False] v
    by (auto simp: sample_buf_def)
  then show ?thesis using int64_encoders_agree[OF v b(1) _ b(2)] by blast
qed

section \<open>Lengths, headers and packets\<close>

text \<open>
  Both length encoders write what \<^verbatim>\<open>asn_parse_length\<close> reads: the forward one for lengths up to 65535,
  the reverse one for every length that is not negative as a \<^verbatim>\<open>long\<close>.
\<close>

lemma length_roundtrip:
  assumes "len \<le> 0xFFFF" "asn_build_length dl len = (w, Inr dl')"
    and "unat len2 < 2 ^ 31" "valid_rbuf b" "asn_realloc_rbuild_length alloc r len2 b = Inr b'"
  shows "asn_parse_length (pre @ w @ post) (length pre) = Inr (length pre + length w, len) \<and>
    asn_parse_length (contents b') 0 = Inr (offset b' - offset b, len2)"
proof -
  have w: "w = ber_length len" using assms(1,2) by (simp add: asn_build_length_eq split: if_splits)
  have p: "prepended alloc r b (ber_length len2) (Inr b')"
    using rbuild_length_prepended[OF assms(4), of alloc r len2] assms(5) by simp
  have "unat len < 2 ^ 31" using assms(1) by (simp add: word_le_nat_alt)
  then show ?thesis
    using parse_ber_length[of "pre @ w @ post" "length pre" len] bytes_at_self[of pre w post] w
      parse_ber_length[of "contents b'" 0 len2] contents_split[OF p assms(4)] assms(3) prepended_offset[OF p assms(4)]
    by simp
qed

lemma length_roundtrip_witness:
  "\<exists>b'. asn_realloc_rbuild_length (\<lambda>_. False) False 70000 sample_buf = Inr b' \<and>
    asn_parse_length ([9] @ [0x81, 200] @ []) (length [9 :: u8]) = Inr (length [9 :: u8] + length [0x81, 200 :: u8], 200) \<and>
    asn_parse_length (contents b') 0 = Inr (offset b' - offset sample_buf, 70000)"
proof -
  have v: "valid_rbuf sample_buf" by (simp add: valid_rbuf_def sample_buf_def)
  have "offset sample_buf + length (ber_length 70000) \<le> length (pkt sample_buf)"
    using ber_length_len[of 70000] by (simp add: sample_buf_def)
  then obtain b' where b': "asn_realloc_rbuild_length (\<lambda>_. False) False 70000 sample_buf = Inr b'"
    using rbuild_length_prepended[OF v, of "\<lambda>_. False" False 70000] by (auto simp: prepended_def split: sum.splits)
  have w: "asn_build_length 10 200 = ([0x81, 200], Inr 8)" by code_simp
  have "asn_parse_length ([9] @ [0x81, 200] @ []) (length [9 :: u8]) = Inr (length [9 :: u8] + length [0x81, 200 :: u8], 200) \<and>
    asn_parse_length (contents b') 0 = Inr (offset b' - offset sample_buf, 70000)"
    by (rule length_roundtrip[OF _ w _ v b']) simp_all
  then show ?thesis using b' by blast
qed

text \<open>
  A header that \<^verbatim>\<open>asn_parse_header\<close> accepts, the special Opaque types included, describes contents
  that start after it and end inside the \<^verbatim>\<open>*datalength\<close> bytes the caller allowed.
\<close>

lemma header_in_bounds:
  assumes "asn_parse_header m p dl = Inr (q, n, type)"
  shows "p + 2 \<le> q \<and> q + unat n \<le> p + unat dl"
  using asn_parse_header_advance[OF assms] by blast

lemma header_in_bounds_witness:
  "asn_parse_header [0x44, 7, 0x9F, 0x78, 4, 0x3F, 0x80, 0, 0] 0 9 = Inr (5, 4, 0x78) \<and>
    (0 + 2 \<le> (5 :: nat) \<and> 5 + unat (4 :: u32) \<le> 0 + unat (9 :: u32))"
proof -
  have e: "asn_parse_header [0x44, 7, 0x9F, 0x78, 4, 0x3F, 0x80, 0, 0] 0 9 = Inr (5, 4, 0x78)" by code_simp
  show ?thesis by (rule conjI[OF e header_in_bounds[OF e]])
qed

lemma bytes_at_take_prefix: "bytes_at m p (take n (a @ b)) \<Longrightarrow> length a \<le> n \<Longrightarrow> bytes_at m p a"
  by (simp add: bytes_at_append)

text \<open>
  C19. Framing of a stream: of a message of which the first \<open>n\<close> bytes have arrived,
  \<^verbatim>\<open>asn_check_packet\<close> says 0 (wait for more) while the header is incomplete and from then on exactly
  the length of the whole message.
\<close>

theorem check_packet_framing:
  assumes "bytes_at m 0 (take n (tlv ASN_SEQUENCE_CONSTRUCTOR c))" "n \<le> length (tlv ASN_SEQUENCE_CONSTRUCTOR c)"
    and "length c < 2 ^ 31 - 6"
  shows "asn_check_packet u m (of_nat n) = Inr
    (if n < length (ber_header ASN_SEQUENCE_CONSTRUCTOR (of_nat (length c))) then 0
     else int (length (tlv ASN_SEQUENCE_CONSTRUCTOR c)))"
proof -
  let ?L = "of_nat (length c) :: u32"
  let ?h = "ber_header ASN_SEQUENCE_CONSTRUCTOR ?L"
  have L: "unat ?L = length c" using assms(3) by (intro u32_unat_of_nat) simp
  have h: "1 < length ?h" "length ?h \<le> 6" using ber_header_len[of ASN_SEQUENCE_CONSTRUCTOR ?L] by auto
  have t: "length (tlv ASN_SEQUENCE_CONSTRUCTOR c) = length ?h + length c" by (simp add: tlv_def)
  then have n: "n < 2 ^ 31" using assms(2,3) h by linarith
  have un: "unat (of_nat n :: u32) = n" using n by (intro u32_unat_of_nat) simp
  have sn: "sint (of_nat n :: u32) = int n" using sint_small[of "of_nat n"] un n by simp
  show ?thesis
  proof (cases "n < 2")
    case True
    then show ?thesis using h un by (simp add: asn_check_packet_def word_less_nat_alt)
  next
    case False
    obtain b1 bs where hb: "?h = ASN_SEQUENCE_CONSTRUCTOR # b1 # bs" "ber_length ?L = b1 # bs"
      using h by (cases "ber_length ?L") (auto simp: ber_header_def)
    have r: "rd m 0 = Inr ASN_SEQUENCE_CONSTRUCTOR" "rd m 1 = Inr b1"
      using assms(1) False hb by (auto simp: tlv_def rd_def take_Cons' bytes_at_append split: if_splits)
    have b: "if ?L < 0x80 then b1 = ucast ?L \<and> bs = [] else b1 = 0x80 OR of_nat (length bs)"
      using hb(2) by (auto simp: ber_length_def)
    have lb: "length bs \<le> 4" "length ?h = length bs + 2" using hb h by auto
    show ?thesis
    proof (cases "?L < 0x80")
      case True
      then have "length c < 128" using L by (simp add: word_less_nat_alt)
      then have "unat (ucast ?L :: u8) = length c"
        using L by (simp add: unsigned_ucast_eq take_bit_nat_eq_self)
      moreover have "take_bit 7 ?L = ?L" using True by (simp add: take_bit_u32_eq_self_iff)
      then have "\<not> bit (ucast ?L :: u8) 7" by (metis bit_take_bit_iff bit_ucast_iff less_irrefl)
      ultimately show ?thesis
        using True b r False un lb t by (simp add: asn_check_packet_def word_less_nat_alt)
    next
      case False': False
      have k: "length bs = 0 \<or> length bs = 1 \<or> length bs = 2 \<or> length bs = 3 \<or> length bs = 4" using lb by linarith
      have b1: "b1 = 0x80 OR of_nat (length bs)" using b False' by simp
      have x: "bit b1 7" "unat (b1 AND NOT 0x80) = length bs" using k unfolding b1 by auto
      show ?thesis
      proof (cases "n < length bs + 2")
        case True
        then show ?thesis
          using r False un sn x lb t by (simp add: asn_check_packet_def word_less_nat_alt)
      next
        case in_full: False
        have "bytes_at m 1 (ber_length ?L)"
          using bytes_at_take_prefix[of m 0 n ?h c] assms(1) in_full lb by (simp add: tlv_def ber_header_def)
        then have pl: "asn_parse_length m 1 = Inr (1 + length (ber_length ?L), ?L)"
          using parse_ber_length[of m 1 ?L] L assms(3) by simp
        have "unat (?L + 2 + ucast (b1 AND NOT 0x80)) = length c + 2 + length bs"
          using x(2) L lb(1) assms(3) by (simp add: unat_word_ariths)
        then have "sint (?L + 2 + ucast (b1 AND NOT 0x80)) = int (length c + 2 + length bs)"
          using sint_small[of "?L + 2 + ucast (b1 AND NOT 0x80)"] lb(1) assms(3) by simp
        then show ?thesis
          using r False un sn x lb t in_full pl by (simp add: asn_check_packet_def word_less_nat_alt)
      qed
    qed
  qed
qed

theorem check_packet_framing_witness:
  "asn_check_packet 7 [0x30, 3, 5, 0] (of_nat 4) = Inr
    (if (4 :: nat) < length (ber_header ASN_SEQUENCE_CONSTRUCTOR (of_nat (length [5, 0, 1 :: u8]))) then 0
     else int (length (tlv ASN_SEQUENCE_CONSTRUCTOR [5, 0, 1])))"
  by (rule check_packet_framing) (code_simp, code_simp, simp)

text \<open>
  \<^verbatim>\<open>asn_build_int\<close> uses the shortest encoding there is: whatever nonempty contents \<^verbatim>\<open>asn_parse_int\<close>
  decodes to a value, the encoder uses no more octets for that value.
\<close>

lemma int_encoding_shortest:
  assumes "asn_parse_tl m p dl = Inr (type, q, n)" "n \<noteq> 0" "asn_parse_int m p dl 4 = Inr (p', dl', type', x)"
    and "asn_build_int dl2 type x 4 = (w, Inr dl2')"
  shows "length w \<le> unat n + 2"
proof -
  have w: "w = tlv type (int_payload x)"
    using assms(4) int_codec.build_Inr_iff[where v = "(type, x)" and dl = dl2 and w = w and dl' = dl2'] by simp
  have l: "length (int_payload x) \<le> 4" using int_payload_len(2) .
  then have "(of_nat (length (int_payload x)) :: u32) < 0x80"
    by (simp add: word_less_nat_alt u32_unat_of_nat)
  then have "length w = 2 + length (int_payload x)" unfolding w tlv_def ber_header_def ber_length_def by simp
  then show ?thesis using int_payload_shortest[OF assms(1-3)] by simp
qed

lemma int_encoding_shortest_witness:
  "asn_parse_int [2, 4, 0xFF, 0xFF, 0xFF, 0x80] 0 6 4 = Inr (6, 0, 2, - 128) \<and>
   asn_build_int 6 2 (- 128) 4 = ([2, 1, 0x80], Inr 3) \<and> length [2, 1, 0x80 :: u8] \<le> unat (4 :: u32) + 2"
proof -
  have t: "asn_parse_tl [2, 4, 0xFF, 0xFF, 0xFF, 0x80] 0 6 = Inr (2, 2, 4)"
    and p: "asn_parse_int [2, 4, 0xFF, 0xFF, 0xFF, 0x80] 0 6 4 = Inr (6, 0, 2, - 128)"
    and b: "asn_build_int 6 2 (- 128) 4 = ([2, 1, 0x80], Inr 3)" by code_simp+
  show ?thesis using int_encoding_shortest[OF t _ p b] p b by simp
qed

section \<open>Object identifiers\<close>

text \<open>
  C20. \<^verbatim>\<open>snmp_oid_compare\<close> decides the lexicographic order of subidentifiers in which a prefix comes first,
  \<^verbatim>\<open>snmp_oid_ncompare\<close> the same order on the first \<open>n\<close> subidentifiers, and \<^verbatim>\<open>netsnmp_oid_equals\<close> equality.
\<close>

theorem oid_compare_lexicographic:
  "(snmp_oid_compare a b < 0 \<longleftrightarrow> a < b) \<and> (snmp_oid_compare a b = 0 \<longleftrightarrow> a = b) \<and>
   (snmp_oid_compare a b > 0 \<longleftrightarrow> b < a) \<and>
   snmp_oid_ncompare a b n = snmp_oid_compare (take n a) (take n b) \<and> (netsnmp_oid_equals a b = 0 \<longleftrightarrow> a = b)"
  unfolding snmp_oid_compare_order snmp_oid_ncompare_spec netsnmp_oid_equals_spec by (auto simp: oid_order_def)

text \<open>
  \<^verbatim>\<open>netsnmp_oid_compare_ll\<close> agrees with \<^verbatim>\<open>snmp_oid_compare\<close> and stores in \<^verbatim>\<open>*offpt\<close> one more than the
  length of the longest common prefix.
\<close>

lemma oid_compare_ll_offset:
  "netsnmp_oid_compare_ll a b = (snmp_oid_compare a b, length (longest_common_prefix a b) + 1)"
  using netsnmp_oid_compare_ll_fst[of a b] netsnmp_oid_compare_ll_snd[of a b]
  by (simp add: prod_eq_iff snmp_oid_compare_order)

text \<open>
  Subtrees are intervals: between two identifiers below a root, in the order of
  \<^verbatim>\<open>snmp_oid_compare\<close>, there are only identifiers below the root. This is what lets a walk stop at the first
  name outside its subtree.
\<close>

lemma subtree_interval:
  assumes "netsnmp_oid_is_subtree root a = 0" "netsnmp_oid_is_subtree root b = 0"
    and "snmp_oid_compare a x \<le> 0" "snmp_oid_compare x b \<le> 0"
  shows "netsnmp_oid_is_subtree root x = 0"
  using assms subtree_convex[of root a b x] unfolding netsnmp_oid_is_subtree_spec snmp_oid_compare_order
  by (auto simp: oid_order_def split: if_splits)

lemma subtree_interval_witness: "netsnmp_oid_is_subtree [1, 3, 6] [1, 3, 6, 1, 9] = 0"
  by (rule subtree_interval[of "[1, 3, 6]" "[1, 3, 6]" "[1, 3, 6, 2]"]) code_simp+

text \<open>
  \<^verbatim>\<open>netsnmp_oid_find_prefix\<close> returns the length of the common prefix when one identifier is a prefix
  of the other, and one more than it when they differ inside both; its comment promises the length.
\<close>

lemma find_prefix_value:
  assumes "a \<noteq> []" "b \<noteq> []" "a ! 0 = b ! 0"
  shows "netsnmp_oid_find_prefix (Some a) (Some b) =
    (if prefix a b \<or> prefix b a then int (length (longest_common_prefix a b))
     else int (length (longest_common_prefix a b)) + 1)"
proof -
  let ?k = "length (longest_common_prefix a b)"
  have "?k \<le> min (length a) (length b)"
    by (simp add: longest_common_prefix_prefix1 longest_common_prefix_prefix2 prefix_length_le)
  moreover have "prefix a b \<or> prefix b a \<longleftrightarrow> ?k = min (length a) (length b)"
    by (rule prefix_iff_lcp)
  ultimately show ?thesis
    using assms find_prefix_loop_spec[of 0 a b] by (auto simp: netsnmp_oid_find_prefix_def)
qed

lemma find_prefix_value_witness:
  "netsnmp_oid_find_prefix (Some [1, 3, 6]) (Some [1, 3, 7]) =
    (if prefix [1, 3, 6 :: u32] [1, 3, 7] \<or> prefix [1, 3, 7 :: u32] [1, 3, 6]
     then int (length (longest_common_prefix [1, 3, 6] [1, 3, 7 :: u32]))
     else int (length (longest_common_prefix [1, 3, 6] [1, 3, 7 :: u32])) + 1)"
  by (rule find_prefix_value) simp_all

section \<open>64-bit counters\<close>

text \<open>
  \<^verbatim>\<open>divBy10\<close> is division with remainder by ten of the whole 64-bit number, and \<^verbatim>\<open>multBy10\<close>
  multiplication by ten modulo \<open>2 ^ 64\<close>, both done on 16-bit digits of two 32-bit halves.
\<close>

lemma div_mult_by_10:
  "(case divBy10 c of (q, r) \<Rightarrow> val64 q = val64 c div 10 \<and> unat r = val64 c mod 10) \<and>
   val64 (multBy10 c) = (val64 c * 10) mod 2 ^ 64"
  using divBy10_spec[of c] multBy10_spec[of c] by (auto split: prod.splits)

text \<open>
  C21. Addition and subtraction of counters are those of 64-bit numbers modulo \<open>2 ^ 64\<close>, and
  \<^verbatim>\<open>u64UpdateCounter\<close> adds a difference to a counter.
\<close>

theorem counter64_arithmetic:
  "val64 (u64Incr a b) = (val64 a + val64 b) mod 2 ^ 64 \<and>
   val64 (u64Subtract a b) = (val64 a + 2 ^ 64 - val64 b) mod 2 ^ 64 \<and>
   u64Incr (u64Subtract a b) b = a \<and>
   u64UpdateCounter out a b = u64Incr out (u64Subtract a b)"
  by (simp add: u64Incr_spec u64Subtract_spec u64Subtract_Incr u64UpdateCounter_def)

text \<open>
  C22. \<^verbatim>\<open>printU64\<close> stays inside its 22 bytes, writes the decimal numeral without leading zeros, and
  \<^verbatim>\<open>read64\<close> reads it back.
\<close>

theorem print_read_unsigned:
  "printU64 c = Some (dec (val64 c)) \<and> length (dec (val64 c)) \<le> 20 \<and> read64 (dec (val64 c)) = (c, True)"
  using printU64_spec[of c] read64_printU64[of c] dec_length[of "val64 c" 20] val64_bound[of c] by simp

text \<open>
  \<^verbatim>\<open>printI64\<close> writes the two's complement value with its sign, also for \<open>- (2 ^ 63)\<close>, and
  \<^verbatim>\<open>read64\<close> reads it back.
\<close>

lemma print_read_signed:
  "\<exists>s. printI64 c = Some s \<and> read64 s = (c, True) \<and>
    s = (if 0 \<le> ival64 c then dec (nat (ival64 c)) else CHR ''-'' # dec (nat (- ival64 c)))"
  using printI64_spec[of c] read64_printI64[of c] by auto

text \<open>
  C23. A 32-bit counter polled into a 64-bit one: one call of \<^verbatim>\<open>netsnmp_c64_check32_and_update\<close> adds
  the increase since the last poll modulo \<open>2 ^ 32\<close>, whether the counter wrapped in between or not, reports
  success and leaves the new 32-bit reading as it was.
\<close>

theorem counter32_accumulation:
  assumes "high new = 0" "high old = 0" "need \<noteq> Some 0"
  shows "\<exists>prev'. netsnmp_c64_check32_and_update prev new old need = (0, prev', new, need) \<and>
     val64 prev' = (val64 prev + unat (low new - low old)) mod 2 ^ 64"
  by (rule counter32_accumulates[OF assms])

theorem counter32_accumulation_witness:
  "\<exists>prev'. netsnmp_c64_check32_and_update \<lparr>high = 5, low = 0xFFFFFFF0\<rparr> \<lparr>high = 0, low = 4\<rparr>
      \<lparr>high = 0, low = 0xFFFFFFF0\<rparr> (Some 1) = (0, prev', \<lparr>high = 0, low = 4\<rparr>, Some 1) \<and>
     val64 prev' = (val64 \<lparr>high = 5, low = 0xFFFFFFF0\<rparr> + unat (low \<lparr>high = 0, low = 4\<rparr> - low \<lparr>high = 0, low = 0xFFFFFFF0\<rparr>)) mod 2 ^ 64"
  by (rule counter32_accumulation) simp_all

section \<open>Safety of the decoder and the forward encoder\<close>

text \<open>
  C24. \<^verbatim>\<open>snmp_pdu_parse\<close> never reads more than sixteen bytes past the end of the packet it is given,
  whatever the packet holds: with that much readable memory behind it, no byte outside is touched.
  The decoders look at type and length octets before they compare anything with the length, so some slack is needed.
\<close>

theorem pdu_parse_memory_safe:
  assumes "p + unat dl + 16 \<le> length m"
  shows "snmp_pdu_parse alloc p0 m p dl \<noteq> Inl OutOfBounds"
  using snmp_pdu_parse_safe[of m p dl alloc p0] assms by (simp add: readable_def in_memory_def)

theorem pdu_parse_memory_safe_witness:
  "snmp_pdu_parse (\<lambda>_. True) blank_pdu (replicate 20 0xA2) 0 4 \<noteq> Inl OutOfBounds"
  by (rule pdu_parse_memory_safe) simp




text \<open>
  An Opaque of four bytes that begins like a wrapped float: the header is taken for that of a float, the decoder of floats does not
  unwrap it, and the variable is an Opaque whose value was written as a float.
\<close>

lemma opaque_float_confused:
  "map_sum id (map (\<lambda>vp. (vtype vp, val vp)) \<circ> variables \<circ> fst) (snmp_pdu_parse (\<lambda>_. True) blank_pdu
     [0xA2, 0x18, 2, 1, 77, 2, 1, 0, 2, 1, 0, 0x30, 0x0D, 0x30, 0x0B, 6, 3, 0x2B, 6, 1, 0x44, 4, 0x9F, 0x78, 1, 0] 0 26) =
   Inr [(ASN_OPAQUE, FloatVal 0x9F780100)]"
  by code_simp

text \<open>
  C26. The forward encoder agrees with the decoder: when the encoding of a well-formed PDU fits in the
  buffer and in a sixteen-bit length, \<^verbatim>\<open>snmp_pdu_build\<close> succeeds, stays in its buffer, and \<^verbatim>\<open>snmp_pdu_parse\<close> on
  what it wrote returns 0 and the PDU, whatever is around it in memory.
\<close>

theorem pdu_forward_roundtrip:
  assumes "pdu_rt pdu" "length (agent_addr pdu) = 4" "length (agent_addr p0) = 4"
    and "length (pdu_fwd pdu) \<le> 0xFFFF" "length (pdu_fwd pdu) \<le> unat dl"
  shows "\<exists>w dl'. snmp_pdu_build buf dl pdu = (w, Inr dl') \<and> unat dl' + length w = unat dl \<and>
    snmp_pdu_parse (\<lambda>_. True) p0 (pre @ w @ post) (length pre) dl = Inr (pdu_decoded p0 pdu, 0)"
proof -
  note ok = pdu_rt_ok[OF assms(1)]
  obtain w dl' where b: "snmp_pdu_build buf dl pdu = (w, Inr dl')"
    using snmp_pdu_build_fits[OF ok assms(2,5)] by (rule succeedsE)
  note w = snmp_pdu_build_Inr[OF ok assms(2) b]
  have "pdu_at (pre @ w @ post) (length pre) pdu (length pre + length (pdu_fwd pdu))"
    using assms(4) by (intro pdu_fwd_at) (simp_all add: w(1) bytes_at_self)
  then have "snmp_pdu_parse (\<lambda>_. True) p0 (pre @ w @ post) (length pre) dl = Inr (pdu_decoded p0 pdu, 0)"
    using assms by (intro snmp_pdu_parse_at) auto
  with b w(2) show ?thesis by blast
qed

lemma sample_pdu_fwd_len: "length (pdu_fwd sample_pdu) \<le> 100"
  by code_simp

theorem pdu_forward_roundtrip_witness:
  "\<exists>w dl'. snmp_pdu_build [] 200 sample_pdu = (w, Inr dl') \<and> unat dl' + length w = 200 \<and>
    snmp_pdu_parse (\<lambda>_. True) blank_pdu ([] @ w @ []) (length ([] :: u8 list)) 200 =
      Inr (pdu_decoded blank_pdu sample_pdu, 0)"
  using pdu_forward_roundtrip[OF sample_pdu_rt, of blank_pdu 200 "[]" "[]" "[]"] sample_pdu_fwd_len
  by (simp add: sample_pdu_def blank_pdu_def)

section \<open>Walks\<close>

text \<open>An agent for the examples: it serves a table and returns \<^verbatim>\<open>noSuchName\<close> at its end.\<close>

definition answer :: "u32 \<Rightarrow> variable_list list \<Rightarrow> pdu \<Rightarrow> reply" where
  "answer e vps p = STAT_SUCCESS (p\<lparr>command := SNMP_MSG_RESPONSE, errstat := e, variables := vps\<rparr>)"

definition table_agent :: "variable_list list \<Rightarrow> unit \<Rightarrow> pdu \<Rightarrow> reply \<times> unit" where
  "table_agent mib w p =
     (case variables p of
        [v] \<Rightarrow>
          if command p = SNMP_MSG_GET then
            (case filter (\<lambda>u. name u = name v) mib of
               [] \<Rightarrow> (answer SNMP_ERR_NOSUCHNAME [v] p, w)
             | u # _ \<Rightarrow> (answer SNMP_ERR_NOERROR [u] p, w))
          else
            (case successors mib (name v) of
               [] \<Rightarrow> (answer SNMP_ERR_NOSUCHNAME [v] p, w)
             | u # _ \<Rightarrow> (answer SNMP_ERR_NOERROR [u] p, w))
      | _ \<Rightarrow> (STAT_ERROR, w))"

definition counter_var :: "oid \<Rightarrow> u32 \<Rightarrow> variable_list" where
  "counter_var n x = \<lparr>name = n, vtype = ASN_COUNTER, val = IntegerVal x, val_len = 4\<rparr>"

definition sample_mib :: "variable_list list" where
  "sample_mib = [counter_var [1, 3, 6, 1, 2, 1, 1, 3, 0] 7, counter_var [1, 3, 6, 1, 2, 1, 2, 2, 1, 10, 1] 50,
     counter_var [1, 3, 6, 1, 2, 1, 2, 2, 1, 10, 2] 60, counter_var [1, 3, 6, 1, 2, 1, 4, 1, 0] 9]"

definition sample_client :: "unit client" where
  "sample_client = \<lparr>Reqid = 1, Msgid = 1, ids16 = False, world = ()\<rparr>"

definition plain_opts :: walk_opts where
  "plain_opts = \<lparr>include_requested = False, dont_get_requested = False, dont_check = False, end_name = None,
     non_reps = 0, reps = 10\<rparr>"

lemma null_var_name [simp]: "name (null_var n) = n"
  by (simp add: null_var_def)

lemma table_agent_serves:
  assumes "mib_ok mib" "cmd \<noteq> SNMP_MSG_GET"
  shows "serves (\<lambda>vps. length vps = 1) cmd mib (table_agent mib)"
  unfolding serves_def
proof (intro allI impI)
  fix w n and p :: pdu assume "command p = cmd \<and> variables p = [null_var n]"
  then show "\<exists>r. fst (table_agent mib w p) = STAT_SUCCESS r \<and>
         (errstat r = SNMP_ERR_NOERROR \<and> next_answer mib n (variables r) \<and> length (variables r) = 1 \<or>
          errstat r = SNMP_ERR_NOSUCHNAME \<and> successors mib n = [])"
    using assms(2) by (cases "successors mib n") (auto simp: table_agent_def answer_def next_answer_def intro!: exI[of _ 1])
qed

lemma table_agent_serves_any:
  "mib_ok mib \<Longrightarrow> cmd \<noteq> SNMP_MSG_GET \<Longrightarrow> serves (\<lambda>_. True) cmd mib (table_agent mib)"
  using table_agent_serves[of mib cmd] unfolding serves_def by blast

lemma table_agent_get: "mib_ok mib \<Longrightarrow> serves_get mib (table_agent mib)"
  by (auto simp: serves_get_def table_agent_def answer_def SNMP_ERR_NOSUCHNAME_def SNMP_ERR_NOERROR_def filter_eq_Cons_iff
      split: list.splits)

lemma table_agent_answers:
  assumes "mib_ok mib"
  shows "answers_something (table_agent mib)"
proof -
  have "length (name u) \<le> MAX_OID_LEN" if "filter P mib = u # us" for P u us
    using assms that by (auto simp: mib_ok_def filter_eq_Cons_iff)
  then show ?thesis
    by (auto simp: answers_something_def table_agent_def answer_def short_names_def successors_def
        SNMP_ERR_NOERROR_def SNMP_ERR_NOSUCHNAME_def split: list.splits reply.splits)
qed

lemma sample_mib_ok: "mib_ok sample_mib" "octet_names [1, 3, 6, 1, 2, 1, 2] sample_mib"
  by code_simp+

lemma walk_start_simps [simp]:
  "wname (walk_start root) = root" "running (walk_start root)" "exitval (walk_start root) = 0"
  "printed (walk_start root) = []"
  by (simp_all add: walk_start_def)

text \<open>
  C27. Every walk ends, whatever the agent does, as long as the check for increasing names is on and no answer is
  without variables: both programs return, after finitely many requests.
\<close>

theorem walks_end:
  assumes "answers_something net" "\<not> dont_check opts"
  shows "(\<exists>r. snmpwalk net opts root c = Some r) \<and> (\<exists>r. snmpbulkwalk net opts root c = Some r)"
proof -
  obtain c0 st0 where f: "walk_first net opts root c = (c0, st0)" by fastforce
  have "\<exists>r. snmpwalk net opts root c = Some r"
  proof (cases "walk_end opts root")
    case (Inr e)
    then show ?thesis
      using snmpwalk_progress.walk_ends[OF assms(1), of getnext_request e c0 st0] assms(2)
      by (fastforce simp: snmpwalk_def f)
  qed (simp add: snmpwalk_def)
  moreover have "\<exists>r. snmpbulkwalk net opts root c = Some r"
    using snmpbulkwalk_progress.walk_ends[OF assms(1), of "getbulk_request (non_reps opts) (reps opts)" root c0 st0] assms(2)
    by (fastforce simp: snmpbulkwalk_def f)
  ultimately show ?thesis ..
qed

theorem walks_end_witness:
  "(\<exists>r. snmpwalk (table_agent sample_mib) plain_opts [1, 3, 6] sample_client = Some r) \<and>
   (\<exists>r. snmpbulkwalk (table_agent sample_mib) plain_opts [1, 3, 6] sample_client = Some r)"
  by (rule walks_end[OF table_agent_answers[OF sample_mib_ok(1)]]) (simp add: plain_opts_def)

text \<open>
  C28. \<^verbatim>\<open>snmpbulkwalk\<close> prints exactly the variables of the agent that are strictly below the root, once each and in order,
  however many variables the agent puts into an answer, and returns 0. When there are none it prints at most
  the variable the root itself names. (Exceptions such as \<^verbatim>\<open>endOfMibView\<close>, which are printed too, are not counted.)
\<close>

theorem bulkwalk_prints_subtree:
  assumes "mib_ok mib" "serves (\<lambda>_. True) SNMP_MSG_GETBULK mib net" "serves_get mib net" "\<not> include_requested opts"
  shows "\<exists>c' st'. snmpbulkwalk net opts root c = Some (c', st') \<and> walk_result root mib st'"
proof -
  have f: "walk_first net opts root c = (c, walk_start root)" using assms(4) by (simp add: walk_first_def)
  obtain c1 st where l: "walk_loop net (getbulk_request (non_reps opts) (reps opts))
      (bulkwalk_vars (\<not> dont_check opts) root) c (walk_start root) = Some (c1, st)"
    and st: "exitval st = 0" "proper (printed st) = subtree_of root mib"
    using bulkwalk.walk_prints_subtree[OF assms(2), of "getbulk_request (non_reps opts) (reps opts)" root
        "walk_start root" "\<not> dont_check opts" c] assms(1)
    by (auto simp: below_successors proper_def)
  obtain c' st' where r: "(c', st') = (if printed st = [] \<and> succeeded st then snmp_get_and_print net root c1 st else (c1, st))"
    by (metis prod.collapse)
  from walk_result_get[OF st(2,1) assms(3) r] show ?thesis
    by (intro exI[of _ c'] exI[of _ st']) (simp add: snmpbulkwalk_def f l flip: r)
qed

theorem bulkwalk_prints_subtree_witness:
  "\<exists>c' st'. snmpbulkwalk (table_agent sample_mib) plain_opts [1, 3, 6, 1, 2, 1, 2] sample_client = Some (c', st') \<and>
     walk_result [1, 3, 6, 1, 2, 1, 2] sample_mib st'"
  using sample_mib_ok(1)
  by (intro bulkwalk_prints_subtree table_agent_serves_any table_agent_get) (simp_all add: plain_opts_def msg_defs)

text \<open>
  C29. The same for \<^verbatim>\<open>snmpwalk\<close>, but only when the subidentifiers compared with the end of the walk are below 256: its test
  compares memory, and the order of memory is not the order of names beyond that.
\<close>

theorem snmpwalk_prints_subtree:
  assumes "octet_names root mib" "serves (\<lambda>vps. length vps = 1) SNMP_MSG_GETNEXT mib net" "serves_get mib net"
    and "\<not> include_requested opts" "end_name opts = None"
  shows "\<exists>c' st'. snmpwalk net opts root c = Some (Inr (c', st')) \<and> walk_result root mib st'"
proof -
  let ?e = "root[length root - 1 := last root + 1]"
  have f: "walk_first net opts root c = (c, walk_start root)" using assms(4) by (simp add: walk_first_def)
  have e: "walk_end opts root = Inr ?e" using assms(1,5) by (simp add: walk_end_def octet_names_def)
  obtain c1 st where l: "walk_loop net getnext_request (walk_vars (\<not> dont_check opts) ?e) c (walk_start root) = Some (c1, st)"
    and st: "exitval st = 0" "proper (printed st) = subtree_of root mib"
    using walk.walk_prints_subtree[OF assms(2), of getnext_request root "walk_start root" "\<not> dont_check opts" c] assms(1)
    by (auto simp: below_successors proper_def)
  obtain c' st' where r: "(c', st') = (if printed st = [] \<and> succeeded st \<and> \<not> dont_get_requested opts
      then snmp_get_and_print net root c1 st else (c1, st))"
    by (metis prod.collapse)
  from walk_result_get[OF st(2,1) assms(3) r] show ?thesis
    by (intro exI[of _ c'] exI[of _ st']) (simp add: snmpwalk_def f e l[unfolded One_nat_def] flip: r)
qed

theorem snmpwalk_prints_subtree_witness:
  "\<exists>c' st'. snmpwalk (table_agent sample_mib) plain_opts [1, 3, 6, 1, 2, 1, 2] sample_client = Some (Inr (c', st')) \<and>
     walk_result [1, 3, 6, 1, 2, 1, 2] sample_mib st'"
  using sample_mib_ok
  by (intro snmpwalk_prints_subtree table_agent_serves table_agent_get) (simp_all add: plain_opts_def msg_defs)

text \<open>
  Beyond 256 the test is wrong in both directions: a walk of the subtree 2021 prints variables of 8072, and a
  walk of a root that ends in 255 prints nothing of its subtree.
\<close>

definition wide_mib :: "variable_list list" where
  "wide_mib = [counter_var [1, 3, 6, 1, 4, 1, 255, 1] 1, counter_var [1, 3, 6, 1, 4, 1, 2021, 1] 2,
     counter_var [1, 3, 6, 1, 4, 1, 8072, 1] 3]"

lemma snmpwalk_leaves_subtree:
  "map_option (map_sum id (map name \<circ> printed \<circ> snd))
     (snmpwalk (table_agent wide_mib) plain_opts [1, 3, 6, 1, 4, 1, 2021] sample_client) =
   Some (Inr [[1, 3, 6, 1, 4, 1, 2021, 1], [1, 3, 6, 1, 4, 1, 8072, 1]])"
  by code_simp

lemma snmpwalk_misses_subtree:
  "map_option (map_sum id (map name \<circ> printed \<circ> snd))
     (snmpwalk (table_agent wide_mib) plain_opts [1, 3, 6, 1, 4, 1, 255] sample_client) = Some (Inr [])"
  by code_simp

section \<open>Containers\<close>

text \<open>
  C30. \<^verbatim>\<open>array_qsort\<close> sorts: for every comparison function that is a total preorder, the table is afterwards in order and
  holds the same entries as often as before.
\<close>

theorem qsort_sorts:
  assumes "key_order cmp" "xs \<noteq> []"
  shows "mset (array_qsort cmp xs 0 (int (length xs) - 1)) = mset xs \<and>
    sorted_wrt (\<lambda>a b. cmp a b \<le> 0) (array_qsort cmp xs 0 (int (length xs) - 1))"
  using key_order.array_qsort_sorts[OF assms] by simp

theorem qsort_sorts_witness:
  "mset (array_qsort snmp_oid_compare [[2], [1, 3], [1], [1, 2]] 0 (int (length [[2], [1, 3], [1], [1, 2 :: u32]]) - 1)) =
     mset [[2], [1, 3], [1], [1, 2]] \<and>
   sorted_wrt (\<lambda>a b. snmp_oid_compare a b \<le> 0)
     (array_qsort snmp_oid_compare [[2], [1, 3], [1], [1, 2]] 0 (int (length [[2], [1, 3], [1], [1, 2 :: u32]]) - 1))"
  by (rule qsort_sorts[OF oid_cmp.key_order_axioms]) simp

text \<open>
  C31. A sorted container behaves like a set of entries with distinct keys: every sequence of insertions, removals,
  lookups and lookups of the next key gives the results, and leaves the entries, that the set gives, although the
  table is sorted only now and then.
\<close>

theorem container_refines_set:
  assumes "ba_inv c"
  shows "case run (ba_step (\<lambda>_. True)) ops c of
    (rs, c') \<Rightarrow> ba_inv c' \<and> allowed_run (compare c) ops (set (data c)) rs (set (data c'))"
proof -
  obtain rs c' where r: "run (ba_step (\<lambda>_. True)) ops c = (rs, c')" by fastforce
  show ?thesis unfolding r prod.case using ba.run_refines[OF assms r] by blast
qed

definition index_entry :: "oid \<Rightarrow> netsnmp_index" where
  "index_entry n = \<lparr>oids = n\<rparr>"

definition sample_container :: "netsnmp_index container" where
  "sample_container = netsnmp_container_get_binary_array netsnmp_compare_netsnmp_index netsnmp_ncompare_netsnmp_index"

lemma sample_container_inv: "ba_inv sample_container"
  unfolding sample_container_def by (rule new_container_inv[OF index_order.key_order_axioms])

theorem container_refines_set_witness:
  "case run (ba_step (\<lambda>_. True))
      [Insert (index_entry [2, 1]), Insert (index_entry [1]), FindNext (index_entry [1]), Remove (index_entry [2, 1])]
      sample_container of
    (rs, c') \<Rightarrow> ba_inv c' \<and> allowed_run (compare sample_container)
      [Insert (index_entry [2, 1]), Insert (index_entry [1]), FindNext (index_entry [1]), Remove (index_entry [2, 1])]
      (set (data sample_container)) rs (set (data c'))"
  by (rule container_refines_set[OF sample_container_inv])

text \<open>
  C32. \<^verbatim>\<open>CONTAINER_INSERT\<close> is all or nothing: it succeeds exactly when every container of the chain whose filter lets the entry
  pass would take it, then all of these have it; otherwise every container has the entries it had, those that had taken
  it already included.
\<close>

theorem container_insert_atomic:
  assumes "\<forall>x\<in>set xs. ba_inv x"
  shows "case CONTAINER_INSERT alloc xs k of (rc, xs') \<Rightarrow>
    list_all2 (inserted (rc = 0) k) xs xs' \<and>
    (rc = 0 \<longleftrightarrow> (\<forall>x\<in>set xs. filtered x k \<or> fst (netsnmp_binary_array_insert alloc x k) = 0))"
proof -
  obtain rc xs' where r: "CONTAINER_INSERT alloc xs k = (rc, xs')" by fastforce
  show ?thesis unfolding r prod.case by (rule insert_chain[OF assms r])
qed

theorem container_insert_atomic_witness:
  "case CONTAINER_INSERT (\<lambda>n. n < 10) [sample_container, sample_container] (index_entry [1, 3]) of (rc, xs') \<Rightarrow>
    list_all2 (inserted (rc = 0) (index_entry [1, 3])) [sample_container, sample_container] xs' \<and>
    (rc = 0 \<longleftrightarrow> (\<forall>x\<in>set [sample_container, sample_container].
      filtered x (index_entry [1, 3]) \<or> fst (netsnmp_binary_array_insert (\<lambda>n. n < 10) x (index_entry [1, 3])) = 0))"
  by (rule container_insert_atomic) (simp add: sample_container_inv)

text \<open>
  \<^verbatim>\<open>netsnmp_binary_array_get_subset\<close> of an index container returns exactly the entries whose index begins with
  the key, in order, and NULL when there are none.
\<close>

lemma subset_by_prefix:
  assumes "ba_inv c" "compare c = netsnmp_compare_netsnmp_index" "ncompare c = netsnmp_ncompare_netsnmp_index"
  shows "let S = filter (\<lambda>x. prefix (oids key) (oids x)) (data (sort_dirty c)) in
    fst (netsnmp_binary_array_get_subset (\<lambda>_. True) c (Some key)) = (if S = [] then None else Some S) \<and>
    mset (data (sort_dirty c)) = mset (data c)"
  using get_subset_matches[OF assms(1), of key] index_partial_key[of key] sort_dirty_inv(2)[OF assms(1)]
  by (simp add: assms(2,3) index_ncompare_zero same_entries_def Let_def)

lemma subset_by_prefix_witness:
  "let S = filter (\<lambda>x. prefix (oids (index_entry [1])) (oids x)) (data (sort_dirty sample_container)) in
    fst (netsnmp_binary_array_get_subset (\<lambda>_. True) sample_container (Some (index_entry [1]))) =
      (if S = [] then None else Some S) \<and>
    mset (data (sort_dirty sample_container)) = mset (data sample_container)"
  by (rule subset_by_prefix[OF sample_container_inv])
    (simp_all add: sample_container_def netsnmp_container_get_binary_array_def)

text \<open>
  An iterator does not notice that an entry was removed: \<^verbatim>\<open>sync\<close> changes only when the table is sorted or cleared. Here the
  first entry is removed while the iterator is on it, and the second one is skipped.
\<close>

definition three_entries :: "netsnmp_index container" where
  "three_entries = snd (run (ba_step (\<lambda>_. True))
     [Insert (index_entry [1]), Insert (index_entry [2]), Insert (index_entry [3])] sample_container)"

lemma iterator_misses_entry:
  "(case ba_iterator_reset three_entries \<lparr>isync = 0, pos = 0\<rparr> of (it, c) \<Rightarrow>
     case netsnmp_binary_array_remove c (index_entry [1]) of (_, _, c') \<Rightarrow>
       (ba_iterator_curr c it, fst (ba_iterator_next c' it))) =
   (Some (index_entry [1]), Some (index_entry [3]))"
  by code_simp

section \<open>Access control\<close>

text \<open>
  C33. \<^verbatim>\<open>netsnmp_view_get\<close> finds the family of the view that decides about a name: one that agrees with it in every position
  where the mask, extended with ones, has a one, and no longer or lexicographically greater family does; NULL when no family
  agrees.
\<close>

theorem view_get_longest_match:
  assumes "vacm_ok head" "length view < VACM_MAX_STRING"
  shows "case netsnmp_view_get head view n VACM_MODE_FIND of
      None \<Rightarrow> \<forall>u\<in>set head. \<not> family_covers view n u
    | Some vp \<Rightarrow> vp \<in> set head \<and> family_covers view n vp \<and>
        (\<forall>u\<in>set head. family_covers view n u \<longrightarrow> length (viewSubtree u) < length (viewSubtree vp) \<or>
          length (viewSubtree u) = length (viewSubtree vp) \<and> viewSubtree u \<le> viewSubtree vp)"
  using best_None[of "filter (candidate view n) head"]
  by (auto simp: view_get_best[OF assms] candidate_covers at_most_def filter_empty_conv split: option.splits)

definition sample_views :: "vacm_viewEntry list" where
  "sample_views = [\<lparr>viewName = [97], viewSubtree = [1, 3, 6], viewMask = [], viewType = SNMP_VIEW_INCLUDED\<rparr>,
     \<lparr>viewName = [97], viewSubtree = [1, 3, 6, 1, 4], viewMask = [0xF8], viewType = SNMP_VIEW_EXCLUDED\<rparr>,
     \<lparr>viewName = [97], viewSubtree = [1, 3, 6, 1, 2, 1], viewMask = [0xF0], viewType = SNMP_VIEW_INCLUDED\<rparr>]"

lemma sample_views_ok: "vacm_ok sample_views"
  by code_simp

theorem view_get_longest_match_witness:
  "netsnmp_view_get sample_views [97] [1, 3, 6, 1, 4, 1] VACM_MODE_FIND = Some (sample_views ! 2) \<and>
   family_covers [97] [1, 3, 6, 1, 4, 1] (sample_views ! 2)"
proof -
  have "netsnmp_view_get sample_views [97] [1, 3, 6, 1, 4, 1] VACM_MODE_FIND = Some (sample_views ! 2)" by code_simp
  then show ?thesis
    using view_get_longest_match[OF sample_views_ok, of "[97]" "[1, 3, 6, 1, 4, 1]"] by (simp add: VACM_MAX_STRING_def)
qed

text \<open>
  C34. Whatever entries were created, filled in and destroyed before, the check of a whole subtree is sound: when \<^verbatim>\<open>vacm_check_view_contents\<close> with \<^verbatim>\<open>check_subtree\<close> allows a
  subtree, it allows every name in it, and when it answers that the subtree is not in the view, it allows none of them. Only the
  answer \<^verbatim>\<open>VACM_SUBTREE_UNKNOWN\<close> leaves the names to be checked one by one.
\<close>

theorem subtree_decision_sound:
  assumes "vacm_reachable st" "prefix n x"
  shows "(vacm_check_view_contents st known sn ctx model level (Some n) True viewtype dne = VACM_SUCCESS \<longrightarrow>
      vacm_check_view_contents st known sn ctx model level (Some x) False viewtype dne = VACM_SUCCESS) \<and>
    (vacm_check_view_contents st known sn ctx model level (Some n) True viewtype dne = VACM_NOTINVIEW \<longrightarrow>
      vacm_check_view_contents st known sn ctx model level (Some x) False viewtype dne \<noteq> VACM_SUCCESS)"
proof -
  have ok: "vacm_ok (viewList st)"
    "\<forall>ap\<in>set (accessList st). length (views ap) = 8 \<and> (\<forall>v\<in>set (views ap). length v < VACM_MAX_STRING)"
    using vacm_reachable_ok[OF assms(1)] by (auto simp: tables_ok_def vacm_ok_def view_short_def short_def)
  let ?check = "\<lambda>m b. vacm_check_view_contents st known sn ctx model level (Some m) b viewtype dne"
  consider (early) "?check n True \<noteq> VACM_SUCCESS" "?check n True \<noteq> VACM_NOTINVIEW"
    | (view) ap where "ap \<in> set (accessList st)" "0 \<le> viewtype" "viewtype < VACM_MAX_VIEWS"
      "?check n True = netsnmp_view_subtree_check (viewList st) (views ap ! nat viewtype) n"
      "?check x False = VACM_SUCCESS \<longleftrightarrow> in_view (viewList st) (views ap ! nat viewtype) x"
    by (rule view_decision_cases[where st = st and known = known and sn = sn and ctx = ctx and model = model and level = level
          and n = n and viewtype = viewtype and dne = dne and x = x])
  then show ?thesis
  proof cases
    case view
    have "length (views ap ! nat viewtype) < VACM_MAX_STRING"
      using ok(2) view(1-3) by (auto simp: VACM_MAX_VIEWS_def)
    then have "in_view (viewList st) (views ap ! nat viewtype) x \<longleftrightarrow> ?check n True = VACM_SUCCESS"
      if "?check n True \<noteq> VACM_SUBTREE_UNKNOWN"
      using subtree_check_sound[OF ok(1) _ assms(2)] that by (simp add: view(4))
    then show ?thesis using view(5) by auto
  qed simp
qed

text \<open>A store with one group, one access entry and two families, made by the operations.\<close>

definition sample_store :: vacm_store where
  "sample_store =
     (let st = \<lparr>groupList = [], accessList = [], viewList = []\<rparr>;
          st = st\<lparr>groupList := snd (vacm_createGroupEntry (groupList st) 0 [112])\<rparr>;
          st = st\<lparr>groupList := (groupList st)[0 := (groupList st ! 0)\<lparr>g_groupName := [103]\<rparr>]\<rparr>;
          st = st\<lparr>accessList := snd (vacm_createAccessEntry (accessList st) [103] [] 0 1)\<rparr>;
          st = st\<lparr>accessList := (accessList st)[0 := (accessList st ! 0)\<lparr>contextMatch := CONTEXT_MATCH_EXACT,
            views := [97] # replicate 7 []\<rparr>]\<rparr>;
          st = st\<lparr>viewList := snd (netsnmp_view_create (viewList st) [97] [1, 3, 6])\<rparr>;
          st = st\<lparr>viewList := (viewList st)[0 := (viewList st ! 0)\<lparr>viewMask := [], viewType := SNMP_VIEW_INCLUDED\<rparr>]\<rparr>;
          st = st\<lparr>viewList := snd (netsnmp_view_create (viewList st) [97] [1, 3, 6, 1, 4])\<rparr>;
          st = st\<lparr>viewList := (viewList st)[1 := (viewList st ! 1)\<lparr>viewMask := [0xF8], viewType := SNMP_VIEW_EXCLUDED\<rparr>]\<rparr>
      in st)"

lemma sample_store_reachable: "vacm_reachable sample_store"
proof -
  have "short []" "short [97]" by (simp_all add: short_def VACM_MAX_STRING_def)
  then show ?thesis
    unfolding sample_store_def Let_def
    by (intro vacm_reachable.intros)
      (simp_all add: vacm_createGroupEntry_def vacm_createAccessEntry_def netsnmp_view_create_def VACM_MAX_STRING_def Let_def)
qed

lemma sample_subtree_allowed:
  "vacm_check_view_contents sample_store (\<lambda>_. True) (Some [112]) [] 2 1 (Some [1, 3, 6, 1, 2]) True 0 False = VACM_SUCCESS"
  by code_simp

theorem subtree_decision_sound_witness:
  "vacm_check_view_contents sample_store (\<lambda>_. True) (Some [112]) [] 2 1 (Some [1, 3, 6, 1, 2, 1]) False 0 False = VACM_SUCCESS"
  using subtree_decision_sound[OF sample_store_reachable, of "[1, 3, 6, 1, 2]" "[1, 3, 6, 1, 2, 1]"] sample_subtree_allowed
  by simp



text \<open>
  The description of \<^verbatim>\<open>vacmAccessTable\<close> in \<^verbatim>\<open>mibs/SNMP-VIEW-BASED-ACM-MIB.txt\<close> asks for the opposite: the longest
  prefix, and of entries that differ only in the level the one with the highest. Here a request with privacy (level 3) gets the
  entry for requests without authentication.
\<close>

definition two_levels :: "vacm_accessEntry list" where
  "two_levels =
     (let as = snd (vacm_createAccessEntry [] [103] [] 3 3);
          as = snd (vacm_createAccessEntry as [103] [] 3 1)
      in map (\<lambda>ap. ap\<lparr>contextMatch := CONTEXT_MATCH_EXACT\<rparr>) as)"

lemma access_lowest_level:
  "map_option a_securityLevel (vacm_getAccessEntry two_levels [103] [] 3 3) = Some 1"
  by code_simp

section \<open>User-based security\<close>


text \<open>A library whose digests are sums of bytes, and a message of the user \<^verbatim>\<open>u\<close> of the engine \<^verbatim>\<open>01 02 03\<close>.\<close>

definition sample_ssl :: openssl where
  "sample_ssl = \<lparr>EVP_Digest = (\<lambda>_ m. replicate 16 (sum_list m)),
     HMAC = (\<lambda>md key m. replicate (if md = EVP_md5 then 16 else 20) (sum_list (key @ m))),
     DES_ncbc_encrypt = (\<lambda>_ iv c. (c, iv)), DES_cbc_decrypt = (\<lambda>_ _ c. c),
     AES_cfb128_encrypt = (\<lambda>_ _ c. c), AES_cfb128_decrypt = (\<lambda>_ _ c. c)\<rparr>"

definition sample_message :: "u8 \<Rightarrow> u8 \<Rightarrow> u8 \<Rightarrow> u8 list" where
  "sample_message boots time mac =
     [0x30, 0x27, 2, 1, 3, 4, 0x20, 0x30, 0x1E, 4, 3, 1, 2, 3, 2, 1, boots, 2, 1, time, 4, 1, 0x75, 4, 12] @ replicate 12 mac @
     [4, 0, 0x30, 0]"

definition sample_user :: usmUser where
  "sample_user = \<lparr>user_engineID = Some [1, 2, 3], user_name = [0x75], authProtocol = usmHMACMD5AuthProtocol,
     authKey = replicate 16 7, privProtocol = usmNoPrivProtocol, privKey = [], userStatus = RS_ACTIVE\<rparr>"

definition sample_usm :: "usmUser \<Rightarrow> usm" where
  "sample_usm u = \<lparr>etimelist = empty_etimelist, userList = [u], noNameUser = u\<lparr>user_name := []\<rparr>, salt_integer = 0,
     salt_integer64_1 = 0, salt_integer64_2 = 0, statistics = (\<lambda>_. 0)\<rparr>"

definition sample_in :: "int \<Rightarrow> u32 \<Rightarrow> u8 list \<Rightarrow> usm_in" where
  "sample_in level len m = \<lparr>maxMsgSize = 1500, secParams = 5, secLevel = level, wholeMsg = m, msg_addr = 0x1000,
     wholeMsgLen = len, sess_auth = Some 0, msg_flags = 1, id_room = 64, name_room = 256, scoped_room = 1472\<rparr>"

definition sample_me :: "u32 \<Rightarrow> local_engine" where
  "sample_me now = \<lparr>myID = [9, 9], myBoots = 1, myTime = now\<rparr>"

definition authentic_in :: usm_in where
  "authentic_in = sample_in SNMP_SEC_LEVEL_AUTHNOPRIV 41 (sample_message 1 100 117)"

lemma sample_ssl_lengths: "digest_lengths sample_ssl"
  by (simp add: digest_lengths_def sample_ssl_def)






definition after_first :: usm where
  "after_first = snd (usm_process_in_msg sample_ssl (sample_me 1000) authentic_in (sample_usm sample_user))"




text \<open>
  The comment in the code remembers a time only when it is higher. The test is not strict, so the latest message of an engine
  can be sent again at any time: it is accepted, and the clock is set back to it.
\<close>

lemma latest_message_again:
  "(case usm_process_in_msg sample_ssl (sample_me 1000000) authentic_in after_first of
      (r, st) \<Rightarrow> (isl r, map_option lastReceivedEngineTime (search_enginetime_list sample_ssl (etimelist st) [1, 2, 3]))) =
   (False, Some 1000000)"
  by code_simp

text \<open>
  C38. Every refusal is counted exactly once. When \<^verbatim>\<open>usm_process_in_msg\<close> returns an error, the counter of that error goes up
  by one and no other counter changes; a message outside the time window is counted when it is for the local engine; a generic
  error is not counted, and neither is an accepted message.
\<close>

theorem usm_errors_counted:
  assumes "usm_process_in_msg ssl me i st = (r, st')"
  shows "statistics st' = (case r of
      Inr _ \<Rightarrow> statistics st
    | Inl e \<Rightarrow> (case error_counter (is_local me i) e of
        None \<Rightarrow> statistics st
      | Some k \<Rightarrow> (statistics st)(k := statistics st k + 1)))"
  using process_counted[OF assms] by (auto simp: counted_once_def split: sum.splits)

definition forged_in :: usm_in where
  "forged_in = sample_in SNMP_SEC_LEVEL_AUTHNOPRIV 41 (sample_message 1 100 0)"

theorem usm_errors_counted_witness:
  "statistics (snd (usm_process_in_msg sample_ssl (sample_me 1000) forged_in (sample_usm sample_user))) =
     (statistics (sample_usm sample_user))(STAT_USMSTATSWRONGDIGESTS := 1)"
proof -
  have "isl (fst (usm_process_in_msg sample_ssl (sample_me 1000) forged_in (sample_usm sample_user))) \<and>
      projl (fst (usm_process_in_msg sample_ssl (sample_me 1000) forged_in (sample_usm sample_user))) =
        SNMPERR_USM_AUTHENTICATIONFAILURE"
    by code_simp
  then have "fst (usm_process_in_msg sample_ssl (sample_me 1000) forged_in (sample_usm sample_user)) =
      Inl SNMPERR_USM_AUTHENTICATIONFAILURE"
    by (metis sum.collapse(1))
  then show ?thesis
    using usm_errors_counted[OF prod.collapse[symmetric], of sample_ssl "sample_me 1000" forged_in "sample_usm sample_user"]
    by (simp add: error_counter_def sample_usm_def)
qed

text \<open>
  C39. The hash table of clocks behaves like a map from engine IDs to clocks. Setting a clock succeeds, keeps the table well formed
  (each record in the list of its hash, one per engine) and changes only the entry of the engine, which is replaced unless an
  unauthenticated time meets an authenticated one; and after an authenticated setting the estimate at a later time, before the clock
  of the engine overflows, is the time that was set plus the time that went by.
\<close>

theorem engine_times_refine_map:
  assumes "etimes_ok ssl et" "engineID \<noteq> []"
  shows "\<exists>et'. set_enginetime ssl now et engineID b t a = Some et' \<and> etimes_ok ssl et' \<and>
    search_enginetime_list ssl et' = (search_enginetime_list ssl et)(engineID \<mapsto> set_times now b t a
      (case search_enginetime_list ssl et engineID of None \<Rightarrow> new_record engineID | Some e \<Rightarrow> e)) \<and>
    (a \<and> sint d \<le> sint (ENGINETIME_MAX - t) \<longrightarrow> get_enginetime_ex ssl (now + d) et' engineID True = Some (b, t + d, t))"
proof -
  obtain et' where e: "set_enginetime ssl now et engineID b t a = Some et'"
    "search_enginetime_list ssl et' = (search_enginetime_list ssl et)(engineID \<mapsto> set_times now b t a
      (case search_enginetime_list ssl et engineID of None \<Rightarrow> new_record engineID | Some e \<Rightarrow> e))"
    using set_enginetime_search[OF assms] by blast
  then have "get_enginetime_ex ssl (now + d) et' engineID True = Some (b, t + d, t)"
    if "a \<and> sint d \<le> sint (ENGINETIME_MAX - t)"
    using that assms(2) by (simp add: get_enginetime_ex_def set_times_def estimate_def)
  then show ?thesis using e set_enginetime_ok[OF assms(1) e(1)] by blast
qed

theorem engine_times_refine_map_witness:
  "\<exists>et'. set_enginetime sample_ssl 1000 empty_etimelist [1, 2, 3] 4 500 True = Some et' \<and> etimes_ok sample_ssl et' \<and>
    get_enginetime_ex sample_ssl 1010 et' [1, 2, 3] True = Some (4, 510, 500)"
proof -
  have "sint (10 :: u32) \<le> sint (ENGINETIME_MAX - 500)" by code_simp
  then show ?thesis
    using engine_times_refine_map[OF empty_etimelist_ok, of "[1, 2, 3]" sample_ssl 1000 4 500 True 10] by auto
qed

text \<open>
  C40. The list of users is a sorted table: adding a user keeps it sorted by engine ID and name without duplicates, afterwards the
  user is found under its engine ID and name instead of one that was there, and every other user is found as before.
\<close>

theorem user_table:
  assumes "sorted_wrt (<) (map user_key us)"
  shows "sorted_wrt (<) (map user_key (usm_add_user_to_list u us)) \<and>
    usm_get_user_from_list eid nm (usm_add_user_to_list u us) d u0 =
      (if user_engineID u = eid \<and> user_name u = nm then Some u else usm_get_user_from_list eid nm us d u0)"
  using add_user_sorted[OF assms] by (simp add: get_user_find find_add_user)

theorem user_table_witness:
  "usm_get_user_from_list (Some [1, 2, 3]) [0x75] (usm_add_user_to_list sample_user [sample_user\<lparr>userStatus := 2\<rparr>]) False sample_user =
     Some sample_user"
  using user_table[of "[sample_user\<lparr>userStatus := 2\<rparr>]" sample_user "Some [1, 2, 3]" "[0x75]" False sample_user]
  by (simp add: sample_user_def)

text \<open>
  C2. A PDU travels from one engine to another. From a well-formed PDU, with keys for its authenticated or encrypted level and
  with memory, \<^verbatim>\<open>snmpv3_packet_realloc_rbuild\<close> builds a message. When the receiving engine has the same keys for the user and finds
  the message timely, \<^verbatim>\<open>snmpv3_parse\<close> succeeds on the bytes, whatever follows them in memory, and its PDU has the fields, the bindings, the context, the
  message ID and the security level of the one that was sent, the engine ID and the name of the user, and the flag that asks
  for reports exactly for the types that are confirmed; the largest size of a message is taken over from the sender.
  The argument \<open>i\<close> stands for the role of the receiving session and the flags of the message.
\<close>

theorem snmpv3_roundtrip:
  assumes pdu: "pdu_rt pdu" "find_sec_mod (securityModel pdu)" "length (contextEngineID pdu) \<le> 32" "length (contextName pdu) \<le> 256"
      "0 \<le> sint (msgid pdu)" "484 \<le> sint (rcvMsgMaxSize ss)" "length (scoped_enc pdu) < 2 ^ 30"
    and b: "valid_rbuf b" "offset b = 0" "\<forall>n. alloc n"
    and r: "outgoing_user st ref (securityEngineID pdu) (securityName pdu) (sint (securityLevel pdu)) = Inr r"
      "usr_sec_level r = sint (securityLevel pdu)" "sint (securityLevel pdu) \<in> {2, 3}" "keys_ok r"
    and ssl: "digest_lengths ssl" "ciphers_ok ssl"
    and clock: "message_clock ssl me r st = (boots, time)" "boots \<le> ENGINEBOOT_MAX" "time \<le> ENGINETIME_MAX"
    and names: "length (usr_engine_id r) \<le> 64" "length (usr_name r) \<le> 32" "length (agent_addr p0) = 4"
    and i: "sess_auth i = Some (isAuthoritative ss')" "msg_flags i = v3_flags pdu"
    and user: "usm_get_user_from_list (Some (usr_engine_id r)) (usr_name r) (userList st2) (use_default_user i) (noNameUser st2) = Some u"
      "shares_keys r u"
    and timely: "find_engine ssl you i (usr_engine_id r) st2 = (None, st3)"
      "usm_check_and_update_timeliness ssl you st3 (usr_engine_id r) boots time = (None, st4)"
  shows "\<exists>b' st'. snmpv3_packet_realloc_rbuild ssl alloc me ss pdu ref None b st = (Inr b', st') \<and>
    snmpv3_parse ssl (\<lambda>_. True) you ss' p0 (contents b' @ rest) addr (of_nat (length (contents b'))) st2 =
    (Inr (pdu_decoded (with_context ((with_header p0 pdu)\<lparr>securityEngineID := usr_engine_id r, securityName := usr_name r\<rparr>) pdu) pdu),
     ss'\<lparr>sndMsgMaxSize := rcvMsgMaxSize ss\<rparr>, st4)"
proof -
  have "usr_sec_level r = SNMP_SEC_LEVEL_AUTHNOPRIV \<or> usr_sec_level r = SNMP_SEC_LEVEL_AUTHPRIV"
    using r(2,3) by (auto simp: level_defs)
  then obtain b' st' where s: "snmpv3_packet_realloc_rbuild ssl alloc me ss pdu ref None b st = (Inr b', st')"
      "length (contents b') < 2 ^ 31"
    using packet_total[OF pdu(1,2,7) b r(1) _ r(4) ssl clock names(1,2)] by blast
  show ?thesis
    using v3_accepted[OF s(1) b(1,2) pdu(1,3-7) s(2) r(1-3) ssl clock names i user timely] s(1) by blast
qed

definition priv_user :: usmUser where
  "priv_user = sample_user\<lparr>privProtocol := usmDESPrivProtocol, privKey := replicate 16 9\<rparr>"

definition sending_usm :: usm where
  "sending_usm = (sample_usm priv_user)\<lparr>etimelist := etimelist after_first\<rparr>"

definition receiver :: local_engine where
  "receiver = \<lparr>myID = [1, 2, 3], myBoots = 1, myTime = 130\<rparr>"

definition sample_reference :: usmStateReference where
  "sample_reference = \<lparr>usr_name = [0x75], usr_engine_id = [1, 2, 3], usr_auth_protocol = usmHMACMD5AuthProtocol,
     usr_auth_key = replicate 16 7, usr_priv_protocol = usmDESPrivProtocol, usr_priv_key = replicate 16 9,
     usr_sec_level = SNMP_SEC_LEVEL_AUTHPRIV\<rparr>"

lemma sample_ciphers: "ciphers_ok sample_ssl"
  by (simp add: ciphers_ok_def sample_ssl_def)

definition v3_session :: session where
  "v3_session = \<lparr>isAuthoritative = 0, sndMsgMaxSize = 1472, rcvMsgMaxSize = 1472\<rparr>"

definition v3_sample_pdu :: pdu where
  "v3_sample_pdu = sample_pdu\<lparr>version := 3, msgid := 5, securityModel := 3, securityLevel := 3,
     contextEngineID := [1, 2, 3], securityEngineID := [1, 2, 3], securityName := [0x75]\<rparr>"

lemma v3_sample_rt: "pdu_rt v3_sample_pdu"
  using sample_pdu_rt by (simp add: pdu_rt_def v3_sample_pdu_def)

lemma v3_sample_len: "length (scoped_enc v3_sample_pdu) \<le> 200"
  by code_simp

definition role_in :: usm_in where
  "role_in = (sample_in 0 0 [])\<lparr>msg_flags := v3_flags v3_sample_pdu\<rparr>"

lemma v3_sample_simps:
  "securityModel v3_sample_pdu = 3" "securityLevel v3_sample_pdu = 3" "msgid v3_sample_pdu = 5" "contextName v3_sample_pdu = []"
  "contextEngineID v3_sample_pdu = [1, 2, 3]" "securityEngineID v3_sample_pdu = [1, 2, 3]" "securityName v3_sample_pdu = [0x75]"
  "rcvMsgMaxSize v3_session = 1472" "sess_auth role_in = Some (isAuthoritative v3_session)" "msg_flags role_in = v3_flags v3_sample_pdu"
  "usr_sec_level sample_reference = 3" "usr_engine_id sample_reference = [1, 2, 3]" "usr_name sample_reference = [0x75]"
  "agent_addr blank_pdu = [0, 0, 0, 0]"
  by (simp_all add: v3_sample_pdu_def sample_pdu_def blank_pdu_def v3_session_def role_in_def sample_in_def sample_reference_def
      SNMP_SEC_LEVEL_AUTHPRIV_def)

theorem snmpv3_roundtrip_witness:
  "\<exists>b' st' out ss' st4. snmpv3_packet_realloc_rbuild sample_ssl (\<lambda>_. True) (sample_me 1010) v3_session v3_sample_pdu None None
       \<lparr>pkt = [], offset = 0\<rparr> sending_usm = (Inr b', st') \<and>
     snmpv3_parse sample_ssl (\<lambda>_. True) receiver v3_session blank_pdu (contents b') 0 (of_nat (length (contents b')))
       (sample_usm priv_user) = (Inr out, ss', st4) \<and> variables out = variables sample_pdu \<and> reqid out = 77"
proof -
  define st3 where "st3 = snd (find_engine sample_ssl receiver role_in [1, 2, 3] (sample_usm priv_user))"
  have "outgoing_user sending_usm None [1, 2, 3] [0x75] SNMP_SEC_LEVEL_AUTHPRIV = Inr sample_reference" by code_simp
  moreover have "message_clock sample_ssl (sample_me 1010) sample_reference sending_usm = (1, 110)" by code_simp
  moreover have "fst (find_engine sample_ssl receiver role_in [1, 2, 3] (sample_usm priv_user)) = None" by code_simp
  then have "find_engine sample_ssl receiver role_in [1, 2, 3] (sample_usm priv_user) = (None, st3)"
    by (simp add: st3_def prod_eq_iff)
  moreover have "usm_check_and_update_timeliness sample_ssl receiver st3 [1, 2, 3] 1 110 = (None, st3)"
    by (simp add: usm_check_and_update_timeliness_def receiver_def USM_MAX_ID_LENGTH_def ENGINEBOOT_MAX_def time_distance_def
        USM_TIME_WINDOW_def local_test)
  moreover have "usm_get_user_from_list (Some [1, 2, 3]) [0x75] (userList (sample_usm priv_user)) (use_default_user role_in)
      (noNameUser (sample_usm priv_user)) = Some priv_user" by code_simp
  moreover have "shares_keys sample_reference priv_user"
    by (simp add: shares_keys_def sample_reference_def priv_user_def sample_user_def)
  moreover have "keys_ok sample_reference" by (simp add: keys_ok_def sample_reference_def protocol_defs)
  ultimately obtain b' st' where "snmpv3_packet_realloc_rbuild sample_ssl (\<lambda>_. True) (sample_me 1010) v3_session v3_sample_pdu None None
       \<lparr>pkt = [], offset = 0\<rparr> sending_usm = (Inr b', st') \<and>
     snmpv3_parse sample_ssl (\<lambda>_. True) receiver v3_session blank_pdu (contents b' @ []) 0 (of_nat (length (contents b')))
       (sample_usm priv_user) = (Inr (pdu_decoded (with_context ((with_header blank_pdu v3_sample_pdu)
         \<lparr>securityEngineID := [1, 2, 3], securityName := [0x75]\<rparr>) v3_sample_pdu) v3_sample_pdu),
         v3_session\<lparr>sndMsgMaxSize := 1472\<rparr>, st3)"
    using snmpv3_roundtrip[of v3_sample_pdu v3_session "\<lparr>pkt = [], offset = 0\<rparr>" "\<lambda>_. True" sending_usm None sample_reference
        sample_ssl "sample_me 1010" 1 110 blank_pdu role_in v3_session "sample_usm priv_user" priv_user receiver st3 st3 "[]" 0]
      sample_ssl_lengths sample_ciphers v3_sample_rt v3_sample_len
    by (auto simp: v3_sample_simps valid_rbuf_def ENGINEBOOT_MAX_def ENGINETIME_MAX_def SNMP_SEC_LEVEL_AUTHPRIV_def find_sec_mod_def
        SNMP_SEC_MODEL_USM_def)
  then show ?thesis
    by (fastforce simp: pdu_decoded_def with_context_def with_header_def v3_sample_pdu_def sample_pdu_def msg_defs Let_def)
qed

text \<open>
  A user that is not active is refused by \<^verbatim>\<open>usm_check_secLevel\<close> with -1, but the handler compares the result with 1: the message of
  a user that is out of service is accepted.
\<close>

lemma inactive_user_accepted:
  "isl (fst (usm_process_in_msg sample_ssl (sample_me 1000) authentic_in (sample_usm (sample_user\<lparr>userStatus := 2\<rparr>)))) = False"
  by code_simp

text \<open>
  The length left for the security parameters is computed from the values of two bytes instead of their addresses. The parameters
  of a message of 20 bytes are read from the 19 bytes behind it, and the length of the scoped PDU wraps around.
\<close>

lemma parameters_past_end:
  "map_sum id scopedPdu (fst (usm_process_in_msg sample_ssl (sample_me 1000)
     (sample_in SNMP_SEC_LEVEL_NOAUTH 20 (sample_message 1 100 0)) (sample_usm sample_user))) =
   Inr (InMessage 39 4294967277)"
  by code_simp

text \<open>With AES the size left for a response is computed from a NULL pointer.\<close>

lemma aes_response_size:
  assumes "finish_message ssl i user sp st = (Inr out, st')" "secLevel i = SNMP_SEC_LEVEL_AUTHPRIV"
    and "privProtocol user = usmAESPrivProtocol"
  shows "maxSizeResponse out = maxMsgSize i + msg_addr i"
  using assms by (auto simp: finish_message_def Let_def ISTRANSFORM_iff protocol_defs split: prod.splits sum.splits)

end
